(* ===== verification/Prelude.thy ===== *)
theory Prelude
  imports Main "HOL-Library.Word"
begin

text \<open>
  Shared vocabulary of the development: machine types, error codes, byte memories with
  bounds-checked access, and the generic lemmas the component theories rest on.

  A byte memory is a list of bytes. Every access is checked: \<open>load_bytes\<close> and
  \<open>store_bytes\<close> return \<open>None\<close> when the accessed range leaves the memory, so a result
  \<open>Some _\<close> of a modelled operation says that the C code made no access outside its block.
  Multi-byte integers are stored little-endian, as on the platforms the library supports.
\<close>

unbundle bit_operations_syntax

section \<open>Machine types and error codes\<close>

type_synonym byte = "8 word"
type_synonym i32 = "32 word"
type_synonym u32 = "32 word"
type_synonym u64 = "64 word"
type_synonym i64 = "64 word"
type_synonym size_t = "64 word"

text \<open>The \<open>errno\<close> values the modelled operations return; success is \<open>Inr\<close>.\<close>

datatype errno = EAGAIN | EINVAL | ERANGE | ENOMEM | ENOENT | EEXIST | ENOSYS | EMSGSIZE

named_theorems mem_simps \<open>rewrite rules for byte memories\<close>
named_theorems ring_simps \<open>definitions of the ring buffers that proofs unfold together\<close>

section \<open>Byte memories\<close>

definition load_bytes :: "byte list \<Rightarrow> nat \<Rightarrow> nat \<Rightarrow> byte list option" where
  "load_bytes m off n = (if off + n \<le> length m then Some (take n (drop off m)) else None)"

definition store_bytes :: "byte list \<Rightarrow> nat \<Rightarrow> byte list \<Rightarrow> byte list option" where
  "store_bytes m off bs =
     (if off + length bs \<le> length m
      then Some (take off m @ bs @ drop (off + length bs) m) else None)"

definition le32 :: "32 word \<Rightarrow> byte list" where
  "le32 w = [ucast w, ucast (drop_bit 8 w), ucast (drop_bit 16 w), ucast (drop_bit 24 w)]"

fun un_le32 :: "byte list \<Rightarrow> 32 word" where
  "un_le32 [a, b, c, d] =
     ucast a OR push_bit 8 (ucast b) OR push_bit 16 (ucast c) OR push_bit 24 (ucast d)"
| "un_le32 _ = 0"

definition load32 :: "byte list \<Rightarrow> nat \<Rightarrow> 32 word option" where
  "load32 m off = map_option un_le32 (load_bytes m off 4)"

definition store32 :: "byte list \<Rightarrow> nat \<Rightarrow> 32 word \<Rightarrow> byte list option" where
  "store32 m off w = store_bytes m off (le32 w)"

lemma length_le32 [simp]: "length (le32 w) = 4"
  by (simp add: le32_def)

lemma un_le32_le32 [simp]: "un_le32 (le32 w) = w"
proof (rule bit_word_eqI)
  fix n assume "n < LENGTH(32)"
  moreover have "n - 16 < 8 \<or> 24 + (n - 24) = n" by arith
  ultimately show "bit (un_le32 (le32 w)) n \<longleftrightarrow> bit w n"
    by (auto simp: le32_def bit_simps)
qed

text \<open>Two memories agree on a range of addresses inside both.\<close>

definition agree :: "byte list \<Rightarrow> byte list \<Rightarrow> nat \<Rightarrow> nat \<Rightarrow> bool" where
  "agree m m' a b \<longleftrightarrow> b \<le> length m \<and> b \<le> length m' \<and> (\<forall>i. a \<le> i \<and> i < b \<longrightarrow> m ! i = m' ! i)"

lemma agree_sub: "agree m m' a b \<Longrightarrow> a \<le> a' \<Longrightarrow> b' \<le> b \<Longrightarrow> agree m m' a' b'"
  by (auto simp: agree_def)

lemma agree_trans: "agree m m' a b \<Longrightarrow> agree m' m'' a b \<Longrightarrow> agree m m'' a b"
  by (auto simp: agree_def)

lemma agree_load_bytes:
  assumes "agree m m' a b" and "a \<le> off" and "off + n \<le> b"
  shows "load_bytes m' off n = load_bytes m off n"
  using assms by (auto simp: load_bytes_def agree_def intro!: nth_equalityI)

lemma agree_load32:
  "agree m m' a b \<Longrightarrow> a \<le> off \<Longrightarrow> off + 4 \<le> b \<Longrightarrow> load32 m' off = load32 m off"
  by (simp add: load32_def agree_load_bytes)

lemma store_bytes_length [mem_simps]: "store_bytes m off bs = Some m' \<Longrightarrow> length m' = length m"
  by (auto simp: store_bytes_def split: if_splits)

lemma store_bytes_some:
  "off + length bs \<le> length m \<Longrightarrow> \<exists>m'. store_bytes m off bs = Some m'"
  by (simp add: store_bytes_def)

lemma store_bytes_load:
  "store_bytes m off bs = Some m' \<Longrightarrow> load_bytes m' off (length bs) = Some bs"
  by (auto simp: store_bytes_def load_bytes_def split: if_splits)

lemma store_bytes_agree:
  assumes "store_bytes m off bs = Some m'" and "b \<le> off \<or> off + length bs \<le> a" and "b \<le> length m"
  shows "agree m m' a b"
  using assms by (auto simp: store_bytes_def agree_def nth_append split: if_splits)

lemma store32_length [mem_simps]: "store32 m off w = Some m' \<Longrightarrow> length m' = length m"
  by (simp add: store32_def store_bytes_length)

lemma store32_some: "off + 4 \<le> length m \<Longrightarrow> \<exists>m'. store32 m off w = Some m'"
  by (simp add: store32_def store_bytes_some)

lemma store32_load: "store32 m off w = Some m' \<Longrightarrow> load32 m' off = Some w"
  using store_bytes_load [of m off "le32 w" m'] by (simp add: store32_def load32_def)

lemma store32_agree:
  "store32 m off w = Some m' \<Longrightarrow> b \<le> off \<or> off + 4 \<le> a \<Longrightarrow> b \<le> length m \<Longrightarrow> agree m m' a b"
  by (simp add: store32_def store_bytes_agree)


section \<open>Words\<close>

lemma unat_neg_low3:
  fixes w :: "'a::len word"
  assumes "3 \<le> LENGTH('a)"
  shows "unat (- w AND 7) = (8 - unat w mod 8) mod 8"
proof -
  have "uint (- w AND 7) = take_bit 3 (- uint w)"
  proof -
    have "- w AND 7 = take_bit 3 (- w)" by (simp add: take_bit_eq_mask mask_eq_exp_minus_1)
    then show ?thesis
      using assms by (simp add: unsigned_take_bit_eq uint_word_ariths min_def flip: take_bit_eq_mod)
  qed
  then have "int (unat (- w AND 7)) = (- int (unat w)) mod 8"
    by (simp add: take_bit_eq_mod)
  moreover have "(- int n) mod 8 = int ((8 - n mod 8) mod 8)" for n
    by (auto simp: zmod_zminus1_eq_if of_nat_diff zmod_int)
  ultimately have "int (unat (- w AND 7)) = int ((8 - unat w mod 8) mod 8)" by (simp only:)
  then show ?thesis by (simp only: of_nat_eq_iff)
qed

lemma sint_small:
  fixes w :: "'a::len word"
  assumes "unat w < 2 ^ (LENGTH('a) - 1)"
  shows "sint w = int (unat w)"
proof -
  have "int (unat w) < 2 ^ (LENGTH('a) - 1)" using assms by (simp only: of_nat_less_numeral_power_cancel_iff)
  then have "signed_take_bit (LENGTH('a) - 1) (uint w) = uint w"
    by (intro signed_take_bit_int_eq_self) (auto intro: order_trans [of _ 0])
  then show ?thesis by (simp add: sint_uint)
qed

lemma sint_small32: "unat (w :: 32 word) < 2 ^ 31 \<Longrightarrow> sint w = int (unat w)"
  by (rule sint_small) simp

lemma sint_small64: "unat (w :: 64 word) < 2 ^ 63 \<Longrightarrow> sint w = int (unat w)"
  by (rule sint_small) simp

lemma not_sless_zero32: "unat (w :: 32 word) < 2 ^ 31 \<Longrightarrow> \<not> w <s 0"
  by (simp add: word_sless_alt sint_small32)

lemma not_sless_zero64: "unat (w :: 64 word) < 2 ^ 63 \<Longrightarrow> \<not> w <s 0"
  by (simp add: word_sless_alt sint_small64)

lemma unat_scast32_64: "unat (w :: 32 word) < 2 ^ 31 \<Longrightarrow> unat (scast w :: 64 word) = unat w"
proof -
  assume w: "unat w < 2 ^ 31"
  have "(scast w :: 64 word) = word_of_int (sint w)" by simp
  also have "\<dots> = word_of_nat (unat w)" using w by (simp only: sint_small32 of_int_of_nat_eq)
  finally show ?thesis using w by (simp add: unsigned_ucast_eq take_bit_nat_eq_self)
qed

lemma unat_ucast64_32: "unat (w :: 64 word) < 2 ^ 32 \<Longrightarrow> unat (ucast w :: 32 word) = unat w"
  by (simp add: unsigned_ucast_eq take_bit_nat_eq_self)

lemma unat_add_small: "unat (a :: 64 word) + unat b < 2 ^ 64 \<Longrightarrow> unat (a + b) = unat a + unat b"
  by (simp add: unat_word_ariths)

lemma unat_diff_small: "b \<le> a \<Longrightarrow> unat (a - b :: 'a::len word) = unat a - unat b"
  by (rule unat_sub)

end
