(* ===== verification/RingCore.thy ===== *)
theory RingCore
  imports Prelude
begin

text \<open>
  The reference ring buffer that both byte rings of the library (\<open>ring.c\<close> and
  \<open>tll/cppring.h\<close>) are proved equal to within their size limits: the same layout over natural
  numbers. A message of \<open>n\<close> bytes occupies a slot of \<open>align8 (n + 4)\<close> bytes that starts with
  the 32-bit length; a negative length is a marker that sends the reader back to offset 0.
  The abstraction of a ring is the list of messages between head and tail, and the lemmas
  show that reserving, publishing, reading and shifting are the operations of a FIFO queue.
\<close>

section \<open>State and operations\<close>

record rb =
  rb_size :: nat
  rb_head :: nat
  rb_tail :: nat
  rb_data :: "byte list"

definition align8 :: "nat \<Rightarrow> nat" where
  "align8 x = (x + 7) div 8 * 8"

definition rb_wrap :: "nat \<Rightarrow> nat \<Rightarrow> nat" where
  "rb_wrap off n = (if n \<le> off then off - n else off)"

definition rb_write_begin :: "rb \<Rightarrow> nat \<Rightarrow> errno + nat" where
  "rb_write_begin r sz =
     (let a = align8 (sz + 4) in
      if rb_size r < 2 * a then Inl ERANGE
      else if rb_wrap (rb_size r + rb_head r - rb_tail r - 1) (rb_size r) + 1 \<le> a then Inl EAGAIN
      else if rb_size r < rb_tail r + a
           then (if rb_head r \<le> a then Inl EAGAIN else Inr 4)
           else Inr (rb_tail r + 4))"

definition rb_write_end :: "rb \<Rightarrow> nat \<Rightarrow> nat \<Rightarrow> rb option" where
  "rb_write_end r p sz =
     (let a = align8 (sz + 4);
          wrapped = (if p = 4 then map_option (\<lambda>d. (d, 0)) (store32 (rb_data r) (rb_tail r) (- 1))
                     else Some (rb_data r, rb_tail r))
      in case wrapped of
           None \<Rightarrow> None
         | Some (d, t) \<Rightarrow>
             map_option (\<lambda>d'. r\<lparr>rb_data := d', rb_tail := rb_wrap (t + a) (rb_size r)\<rparr>)
               (store32 d t (word_of_nat sz)))"

text \<open>The reader's loop: a negative length restarts at offset 0; \<open>None\<close> is an access outside
  the block or a loop that does not end.\<close>

partial_function (option) rb_read_at :: "rb \<Rightarrow> nat \<Rightarrow> (errno + nat \<times> nat) option" where
  "rb_read_at r off =
     (if off = rb_tail r then Some (Inl EAGAIN)
      else Option.bind (load32 (rb_data r) off) (\<lambda>s.
        if s <s 0 then rb_read_at r 0 else Some (Inr (off + 4, unat s))))"

partial_function (option) rb_shift_offset :: "rb \<Rightarrow> nat \<Rightarrow> nat option" where
  "rb_shift_offset r off =
     Option.bind (load32 (rb_data r) off) (\<lambda>s.
       if s <s 0 then rb_shift_offset r 0
       else Some (rb_wrap (off + align8 (unat s + 4)) (rb_size r)))"

definition rb_shift :: "rb \<Rightarrow> (errno + rb) option" where
  "rb_shift r =
     (if rb_head r = rb_tail r then Some (Inl EAGAIN)
      else map_option (\<lambda>off. Inr (r\<lparr>rb_head := off\<rparr>)) (rb_shift_offset r (rb_head r)))"

section \<open>Layout\<close>

lemma align8_dvd [simp]: "8 dvd align8 x"
  by (simp add: align8_def)

lemma align8_ge: "x \<le> align8 x"
  by (simp add: align8_def)

lemma align8_less: "align8 x < x + 8"
  by (simp add: align8_def)

lemma align8_mono: "x \<le> y \<Longrightarrow> align8 x \<le> align8 y"
  by (simp add: align8_def div_le_mono)

lemma align8_pos: "0 < x \<Longrightarrow> 8 \<le> align8 x"
  by (simp add: align8_def)

lemma align8_alt: "align8 x = x + (8 - x mod 8) mod 8"
proof -
  define q r where "q = x div 8" and r: "r = x mod 8"
  then have x: "x = 8 * q + r" and "r < 8" by simp_all
  then have "r = 0 \<or> r = 1 \<or> r = 2 \<or> r = 3 \<or> r = 4 \<or> r = 5 \<or> r = 6 \<or> r = 7" by arith
  then show ?thesis unfolding align8_def r [symmetric] by (elim disjE) (simp_all add: x)
qed

text \<open>Messages \<open>ms\<close> lie one after another from offset \<open>a\<close> to offset \<open>b\<close>.\<close>

fun seg :: "byte list \<Rightarrow> nat \<Rightarrow> byte list list \<Rightarrow> nat \<Rightarrow> bool" where
  "seg d a [] b \<longleftrightarrow> a = b"
| "seg d a (m # ms) b \<longleftrightarrow>
     length m < 2 ^ 31 \<and> load32 d a = Some (word_of_nat (length m)) \<and>
     load_bytes d (a + 4) (length m) = Some m \<and> seg d (a + align8 (length m + 4)) ms b"

lemma seg_le: "seg d a ms b \<Longrightarrow> a \<le> b"
  by (induction ms arbitrary: a) (auto, fastforce)

lemma seg_dvd: "seg d a ms b \<Longrightarrow> 8 dvd a \<Longrightarrow> 8 dvd b"
  by (induction ms arbitrary: a) auto

lemma seg_nonempty_less: "seg d a ms b \<Longrightarrow> ms \<noteq> [] \<Longrightarrow> a + 8 \<le> b"
proof (cases ms)
  case (Cons m ms')
  assume "seg d a ms b"
  with Cons have "a + align8 (length m + 4) \<le> b" by (auto dest: seg_le)
  then show ?thesis using align8_pos [of "length m + 4"] by simp
qed simp

lemma seg_empty_iff: "seg d a ms b \<Longrightarrow> ms = [] \<longleftrightarrow> a = b"
  using seg_nonempty_less [of d a ms b] by (cases ms) auto

lemma seg_append: "seg d a (ms @ ns) c \<longleftrightarrow> (\<exists>b. seg d a ms b \<and> seg d b ns c)"
  by (induction ms arbitrary: a) auto

lemma seg_agree: "seg d a ms b \<Longrightarrow> agree d d' a b \<Longrightarrow> seg d' a ms b"
proof (induction ms arbitrary: a)
  case (Cons m ms)
  let ?n = "a + align8 (length m + 4)"
  have le: "?n \<le> b" using Cons.prems by (auto dest: seg_le)
  have "a + 4 + length m \<le> b" using le align8_ge [of "length m + 4"] by simp
  then have "load32 d' a = load32 d a" and "load_bytes d' (a + 4) (length m) = load_bytes d (a + 4) (length m)"
    using Cons.prems(2) by (auto intro: agree_load32 agree_load_bytes)
  moreover have "seg d' ?n ms b"
    using Cons.prems le by (intro Cons.IH) (auto elim: agree_sub)
  ultimately show ?case using Cons.prems(1) by simp
qed simp

section \<open>The invariant and the abstract queue\<close>

text \<open>
  \<open>rb_ok r ms\<close>: ring \<open>r\<close> holds exactly the messages \<open>ms\<close>. Either they lie in one piece between
  head and tail, or the part up to \<open>e\<close> lies above the head and the rest starts at offset 0;
  \<open>e\<close> is the end of the block or carries the wrap marker.
\<close>

definition rb_geom :: "rb \<Rightarrow> bool" where
  "rb_geom r \<longleftrightarrow> length (rb_data r) = rb_size r \<and> rb_size r < 2 ^ 31 \<and>
     (rb_size r mod 8 = 0 \<or> 4 \<le> rb_size r mod 8) \<and>
     8 dvd rb_head r \<and> 8 dvd rb_tail r \<and> rb_head r < rb_size r \<and> rb_tail r < rb_size r"

definition rb_split :: "rb \<Rightarrow> byte list list \<Rightarrow> byte list list \<Rightarrow> nat \<Rightarrow> bool" where
  "rb_split r ms1 ms2 e \<longleftrightarrow> rb_tail r < rb_head r \<and> e \<le> rb_size r \<and>
     seg (rb_data r) (rb_head r) ms1 e \<and> seg (rb_data r) 0 ms2 (rb_tail r) \<and>
     (e = rb_size r \<or> ms2 \<noteq> [] \<and> load32 (rb_data r) e = Some (- 1))"

definition rb_ok :: "rb \<Rightarrow> byte list list \<Rightarrow> bool" where
  "rb_ok r ms \<longleftrightarrow> rb_geom r \<and>
     (rb_head r \<le> rb_tail r \<and> seg (rb_data r) (rb_head r) ms (rb_tail r) \<or>
      (\<exists>ms1 ms2 e. ms = ms1 @ ms2 \<and> rb_split r ms1 ms2 e))"

lemma slot_fits:
  fixes n e :: nat
  assumes "n mod 8 = 0 \<or> 4 \<le> n mod 8" and "8 dvd e" and "e < n"
  shows "e + 4 \<le> n"
  using assms by presburger

lemma rb_geom_slot: "rb_geom r \<Longrightarrow> 8 dvd e \<Longrightarrow> e < rb_size r \<Longrightarrow> e + 4 \<le> rb_size r"
  using slot_fits [of "rb_size r" e] by (simp add: rb_geom_def)

lemma len_word [simp]:
  "n < 2 ^ 31 \<Longrightarrow> unat (word_of_nat n :: 32 word) = n"
  "n < 2 ^ 31 \<Longrightarrow> \<not> (word_of_nat n :: 32 word) <s 0"
proof -
  assume n: "n < 2 ^ 31"
  then show u: "unat (word_of_nat n :: 32 word) = n" by (simp add: unat_of_nat)
  have "sint (word_of_nat n :: 32 word) = int n"
    using n by (simp add: signed_of_nat signed_take_bit_int_eq_self)
  then show "\<not> (word_of_nat n :: 32 word) <s 0" by (simp add: word_sless_alt)
qed

lemma len_word_ne: "n < 2 ^ 31 \<Longrightarrow> (word_of_nat n :: 32 word) \<noteq> - 1"
proof
  assume "n < 2 ^ 31" and "(word_of_nat n :: 32 word) = - 1"
  then have "\<not> (- 1 :: 32 word) <s 0" using len_word(2) [of n] by (simp only:) simp
  then show False by simp
qed

lemma rb_ok_geom: "rb_ok r ms \<Longrightarrow> rb_geom r"
  by (simp add: rb_ok_def)

lemma rb_ok_Nil: "rb_ok r [] \<Longrightarrow> rb_head r = rb_tail r"
  by (auto simp: rb_ok_def rb_split_def rb_geom_def)

text \<open>The first message, and the ring after it is consumed.\<close>

definition rb_front :: "rb \<Rightarrow> nat \<Rightarrow> byte list \<Rightarrow> bool" where
  "rb_front r off m \<longleftrightarrow>
     (off = rb_head r \<or> off = 0 \<and> load32 (rb_data r) (rb_head r) = Some (- 1)) \<and>
     rb_head r \<noteq> rb_tail r \<and> off \<noteq> rb_tail r \<and> length m < 2 ^ 31 \<and>
     off + align8 (length m + 4) \<le> rb_size r \<and>
     load32 (rb_data r) off = Some (word_of_nat (length m)) \<and>
     load_bytes (rb_data r) (off + 4) (length m) = Some m"

definition rb_drop :: "rb \<Rightarrow> nat \<Rightarrow> byte list \<Rightarrow> rb" where
  "rb_drop r off m = r\<lparr>rb_head := rb_wrap (off + align8 (length m + 4)) (rb_size r)\<rparr>"

text \<open>How far the head may move in one step.\<close>

definition rb_adv :: "rb \<Rightarrow> nat \<Rightarrow> bool" where
  "rb_adv r h \<longleftrightarrow> (if rb_head r \<le> rb_tail r then rb_head r < h \<and> h \<le> rb_tail r
                  else rb_head r < h \<or> h \<le> rb_tail r)"

lemmas front_defs = rb_front_def rb_drop_def rb_adv_def rb_ok_def rb_geom_def rb_wrap_def

lemma rb_front_contiguous:
  assumes "rb_geom r" and "rb_head r \<le> rb_tail r"
    and seg: "seg (rb_data r) (rb_head r) (m # ms) (rb_tail r)"
  shows "rb_front r (rb_head r) m \<and> rb_ok (rb_drop r (rb_head r) m) ms \<and>
    rb_adv r (rb_head (rb_drop r (rb_head r) m))"
proof -
  let ?n = "rb_head r + align8 (length m + 4)"
  have n: "?n \<le> rb_tail r" using seg by (auto dest: seg_le)
  moreover have "rb_head r < ?n" using align8_pos [of "length m + 4"] by simp
  ultimately show ?thesis
    using assms by (auto simp: front_defs)
qed

lemma rb_front_upper:
  assumes "rb_geom r" and split: "rb_split r (m # ms1) ms2 e"
  shows "rb_front r (rb_head r) m \<and> rb_ok (rb_drop r (rb_head r) m) (ms1 @ ms2) \<and>
    rb_adv r (rb_head (rb_drop r (rb_head r) m))"
proof -
  let ?n = "rb_head r + align8 (length m + 4)"
  have seg: "seg (rb_data r) ?n ms1 e" using split by (simp add: rb_split_def)
  have apos: "0 < align8 (length m + 4)" using align8_pos [of "length m + 4"] by simp
  have n: "?n \<le> e" using seg by (rule seg_le)
  have dvd: "8 dvd ?n" using assms by (simp add: rb_geom_def)
  show ?thesis
  proof (cases "?n = rb_size r")
    case True
    with n seg split have "ms1 = []" by (auto simp: rb_split_def dest: seg_empty_iff)
    with True assms apos show ?thesis
      by (auto simp: front_defs rb_split_def)
  next
    case False
    with n split have "?n < rb_size r" by (simp add: rb_split_def)
    moreover from this have "rb_split (rb_drop r (rb_head r) m) ms1 ms2 e"
      using split by (auto simp: rb_split_def rb_drop_def rb_wrap_def)
    ultimately show ?thesis
      using assms apos by (auto simp: front_defs rb_split_def)
  qed
qed

lemma rb_front_marker:
  assumes "rb_geom r" and split: "rb_split r [] (m # ms2) e"
  shows "rb_front r 0 m \<and> rb_ok (rb_drop r 0 m) ms2 \<and> rb_adv r (rb_head (rb_drop r 0 m))"
proof -
  have e: "e = rb_head r" "load32 (rb_data r) (rb_head r) = Some (- 1)"
    using assms by (auto simp: rb_split_def rb_geom_def)
  have seg: "seg (rb_data r) 0 (m # ms2) (rb_tail r)" using split by (simp add: rb_split_def)
  then have "align8 (length m + 4) \<le> rb_tail r" by (auto dest: seg_le)
  moreover have "0 < align8 (length m + 4)" using align8_pos [of "length m + 4"] by simp
  ultimately show ?thesis
    using assms e seg by (auto simp: front_defs rb_split_def)
qed

lemma rb_ok_front:
  assumes "rb_ok r (m # ms)"
  shows "\<exists>off. rb_front r off m \<and> rb_ok (rb_drop r off m) ms \<and> rb_adv r (rb_head (rb_drop r off m))"
proof -
  have geom: "rb_geom r" using assms by (rule rb_ok_geom)
  from assms consider
      "rb_head r \<le> rb_tail r" "seg (rb_data r) (rb_head r) (m # ms) (rb_tail r)"
    | ms1 ms2 e where "m # ms = ms1 @ ms2" "rb_split r ms1 ms2 e"
    by (auto simp: rb_ok_def)
  then show ?thesis
  proof cases
    case 1
    with geom show ?thesis using rb_front_contiguous by blast
  next
    case (2 ms1 ms2 e)
    show ?thesis
    proof (cases ms1)
      case Nil
      with 2 geom show ?thesis using rb_front_marker [of r m ms e] by auto
    next
      case (Cons m' ms1')
      with 2 geom show ?thesis using rb_front_upper [of r m ms1' ms2 e] by auto
    qed
  qed
qed

lemma rb_ok_empty_iff: "rb_ok r ms \<Longrightarrow> ms = [] \<longleftrightarrow> rb_head r = rb_tail r"
  using rb_ok_front by (cases ms) (auto simp: rb_front_def dest: rb_ok_Nil)

section \<open>Reading and shifting\<close>

lemma rb_front_read: "rb_front r off m \<Longrightarrow> rb_read_at r (rb_head r) = Some (Inr (off + 4, length m))"
  by (auto simp: rb_front_def rb_read_at.simps [of r "rb_head r"] rb_read_at.simps [of r 0])

lemma rb_front_shift_offset:
  "rb_front r off m \<Longrightarrow>
   rb_shift_offset r (rb_head r) = Some (rb_wrap (off + align8 (length m + 4)) (rb_size r))"
  by (auto simp: rb_front_def rb_shift_offset.simps [of r "rb_head r"] rb_shift_offset.simps [of r 0])

lemma rb_front_shift: "rb_front r off m \<Longrightarrow> rb_shift r = Some (Inr (rb_drop r off m))"
  by (simp add: rb_shift_def rb_front_shift_offset rb_drop_def) (simp add: rb_front_def)

lemma rb_shift_ok:
  assumes "rb_ok r (m # ms)"
  shows "\<exists>h. rb_shift r = Some (Inr (r\<lparr>rb_head := h\<rparr>)) \<and> rb_ok (r\<lparr>rb_head := h\<rparr>) ms \<and> rb_adv r h"
  using rb_ok_front [OF assms] rb_front_shift by (fastforce simp: rb_drop_def)

lemma rb_shift_empty: "rb_ok r [] \<Longrightarrow> rb_shift r = Some (Inl EAGAIN)"
  by (simp add: rb_shift_def rb_ok_Nil)

lemma rb_read_ok:
  assumes "rb_ok r (m # ms)"
  shows "\<exists>p. rb_read_at r (rb_head r) = Some (Inr (p, length m)) \<and> load_bytes (rb_data r) p (length m) = Some m"
proof -
  obtain off where "rb_front r off m" using rb_ok_front [OF assms] by blast
  moreover from this have "load_bytes (rb_data r) (off + 4) (length m) = Some m"
    by (simp add: rb_front_def)
  ultimately show ?thesis using rb_front_read by blast
qed

lemma rb_read_empty: "rb_ok r [] \<Longrightarrow> rb_read_at r (rb_head r) = Some (Inl EAGAIN)"
  by (simp add: rb_ok_Nil rb_read_at.simps)

section \<open>Reserving and publishing\<close>

text \<open>
  What a writer owns between \<open>write_begin\<close> and \<open>write_end\<close>: the slot at \<open>p - 4\<close>. The
  condition does not mention how the reader got to its head, so it survives the reader's
  shifts.
\<close>

definition rb_reserved :: "rb \<Rightarrow> nat \<Rightarrow> nat \<Rightarrow> bool" where
  "rb_reserved r p sz \<longleftrightarrow>
     (let a = align8 (sz + 4) in
      p = rb_tail r + 4 \<and> rb_tail r + a \<le> rb_size r \<and>
        (if rb_head r \<le> rb_tail r then rb_tail r + a = rb_size r \<longrightarrow> 0 < rb_head r
         else rb_tail r + a < rb_head r) \<or>
      p = 4 \<and> rb_head r \<le> rb_tail r \<and> a < rb_head r)"

lemma rb_write_begin_reserved:
  "rb_geom r \<Longrightarrow> rb_write_begin r sz = Inr p \<Longrightarrow> rb_reserved r p sz"
  by (auto simp: rb_write_begin_def rb_reserved_def rb_geom_def rb_wrap_def Let_def split: if_splits)

lemma rb_reserved_mono: "rb_reserved r p sz \<Longrightarrow> n \<le> sz \<Longrightarrow> rb_reserved r p n"
  using align8_mono [of "n + 4" "sz + 4"] by (auto simp: rb_reserved_def Let_def)

lemma rb_reserved_data [simp]: "rb_reserved (r\<lparr>rb_data := d\<rparr>) p sz = rb_reserved r p sz"
  by (simp add: rb_reserved_def)

lemma rb_ok_empty_write:
  assumes "rb_ok r []" and "2 * align8 (sz + 4) \<le> rb_size r"
  shows "\<exists>p. rb_write_begin r sz = Inr p"
proof -
  have "rb_head r = rb_tail r" "rb_tail r < rb_size r"
    using assms(1) by (auto dest: rb_ok_Nil rb_ok_geom simp: rb_geom_def)
  moreover have "8 \<le> align8 (sz + 4)" by (rule align8_pos) simp
  ultimately show ?thesis
    using assms(2) by (simp add: rb_write_begin_def rb_wrap_def Let_def)
qed

text \<open>Bytes outside the used part of the ring may change freely.\<close>

definition rb_used_agree :: "rb \<Rightarrow> byte list \<Rightarrow> bool" where
  "rb_used_agree r d \<longleftrightarrow> length d = rb_size r \<and>
     (if rb_head r \<le> rb_tail r then agree (rb_data r) d (rb_head r) (rb_tail r)
      else agree (rb_data r) d (rb_head r) (rb_size r) \<and> agree (rb_data r) d 0 (rb_tail r))"

lemma rb_used_agree_trans:
  "rb_used_agree r d \<Longrightarrow> rb_used_agree (r\<lparr>rb_data := d\<rparr>) d' \<Longrightarrow> rb_used_agree r d'"
  by (auto simp: rb_used_agree_def elim: agree_trans split: if_splits)

lemma rb_split_frame:
  assumes "rb_geom r" and "rb_split r ms1 ms2 e" and agr: "rb_used_agree r d"
  shows "rb_split (r\<lparr>rb_data := d\<rparr>) ms1 ms2 e"
proof -
  have lt: "\<not> rb_head r \<le> rb_tail r" using assms(2) by (simp add: rb_split_def)
  have seg1: "seg (rb_data r) (rb_head r) ms1 e" and seg2: "seg (rb_data r) 0 ms2 (rb_tail r)"
    using assms(2) by (simp_all add: rb_split_def)
  have a1: "agree (rb_data r) d (rb_head r) (rb_size r)" and a2: "agree (rb_data r) d 0 (rb_tail r)"
    using agr lt by (simp_all add: rb_used_agree_def)
  have s1: "seg d (rb_head r) ms1 e"
    using seg1 agree_sub [OF a1] assms(2) by (intro seg_agree [OF seg1]) (auto simp: rb_split_def)
  have s2: "seg d 0 ms2 (rb_tail r)" using seg2 a2 by (rule seg_agree)
  have "load32 d e = load32 (rb_data r) e" if "e < rb_size r"
  proof -
    have "8 dvd e" using seg_dvd [OF seg1] assms(1) by (simp add: rb_geom_def)
    then have "e + 4 \<le> rb_size r" using assms(1) that by (simp add: rb_geom_slot)
    then show ?thesis using a1 seg_le [OF seg1] by (intro agree_load32)
  qed
  then show ?thesis using assms(2) s1 s2 by (auto simp: rb_split_def)
qed

lemma rb_ok_frame:
  assumes "rb_ok r ms" and "rb_used_agree r d"
  shows "rb_ok (r\<lparr>rb_data := d\<rparr>) ms"
proof -
  have geom: "rb_geom (r\<lparr>rb_data := d\<rparr>)"
    using assms by (simp add: rb_ok_def rb_geom_def rb_used_agree_def)
  from assms(1) consider
      "rb_head r \<le> rb_tail r" "seg (rb_data r) (rb_head r) ms (rb_tail r)"
    | ms1 ms2 e where "ms = ms1 @ ms2" "rb_split r ms1 ms2 e"
    by (auto simp: rb_ok_def)
  then show ?thesis
  proof cases
    case 1
    then have "seg d (rb_head r) ms (rb_tail r)"
      using assms(2) by (auto simp: rb_used_agree_def elim: seg_agree)
    with 1 geom show ?thesis by (simp add: rb_ok_def)
  next
    case 2
    then show ?thesis
      using geom rb_split_frame assms rb_ok_geom unfolding rb_ok_def by blast
  qed
qed

text \<open>The reserved slot lies inside the block and outside the used part.\<close>

lemma rb_reserved_slot:
  assumes "rb_geom r" and "rb_reserved r p sz"
  shows "4 \<le> p" and "p - 4 + align8 (sz + 4) \<le> rb_size r" and "p + sz \<le> rb_size r"
    and "8 dvd p - 4" and "if rb_head r \<le> rb_tail r then rb_tail r \<le> p - 4 \<or> p - 4 + align8 (sz + 4) < rb_head r
         else rb_tail r \<le> p - 4 \<and> p - 4 + align8 (sz + 4) < rb_head r"
  using assms align8_ge [of "sz + 4"]
  by (auto simp: rb_reserved_def rb_geom_def Let_def split: if_splits)

lemma rb_used_agreeI:
  assumes "rb_geom r" and "rb_reserved r p sz" and "length d = rb_size r"
    and out: "\<And>a b. b \<le> p - 4 \<or> p - 4 + align8 (sz + 4) \<le> a \<Longrightarrow> b \<le> rb_size r \<Longrightarrow> agree (rb_data r) d a b"
  shows "rb_used_agree r d"
  using rb_reserved_slot [OF assms(1,2)] assms(1,3) out
  by (auto simp: rb_used_agree_def rb_geom_def split: if_splits)

lemma rb_fill_ok:
  assumes ok: "rb_ok r ms" and res: "rb_reserved r p sz" and len: "length m \<le> sz"
  shows "\<exists>d. store_bytes (rb_data r) p m = Some d \<and> rb_ok (r\<lparr>rb_data := d\<rparr>) ms \<and>
             load_bytes d p (length m) = Some m \<and> rb_used_agree r d"
proof -
  have geom: "rb_geom r" using ok by (rule rb_ok_geom)
  note slot = rb_reserved_slot [OF geom res]
  have "p + length m \<le> length (rb_data r)" using slot(3) len geom by (simp add: rb_geom_def)
  then obtain d where d: "store_bytes (rb_data r) p m = Some d" using store_bytes_some by blast
  have agr: "rb_used_agree r d"
  proof (rule rb_used_agreeI [OF geom res])
    show "length d = rb_size r" using d geom by (simp add: store_bytes_length rb_geom_def)
    show "agree (rb_data r) d a b"
      if "b \<le> p - 4 \<or> p - 4 + align8 (sz + 4) \<le> a" and "b \<le> rb_size r" for a b
      using that slot(1) len align8_ge [of "sz + 4"] geom
      by (intro store_bytes_agree [OF d]) (auto simp: rb_geom_def)
  qed
  then have "rb_ok (r\<lparr>rb_data := d\<rparr>) ms" using ok by (intro rb_ok_frame)
  with d agr show ?thesis by (auto dest: store_bytes_load)
qed

text \<open>Publishing a slot that starts at the tail.\<close>

lemma rb_append_ok:
  assumes ok: "rb_ok r ms" and d: "rb_used_agree r d"
    and slot: "seg d (rb_tail r) [m] (rb_tail r + a)" and a: "rb_tail r + a \<le> rb_size r"
    and room: "if rb_head r \<le> rb_tail r then rb_tail r + a = rb_size r \<longrightarrow> 0 < rb_head r
               else rb_tail r + a < rb_head r"
  shows "rb_ok (r\<lparr>rb_data := d, rb_tail := rb_wrap (rb_tail r + a) (rb_size r)\<rparr>) (ms @ [m])"
    (is "rb_ok ?r' _")
proof -
  have okd: "rb_ok (r\<lparr>rb_data := d\<rparr>) ms" using ok d by (rule rb_ok_frame)
  have "8 dvd rb_tail r + a" using seg_dvd [OF slot] ok by (simp add: rb_ok_def rb_geom_def)
  then have geom: "rb_geom ?r'"
    using a rb_ok_geom [OF okd] by (auto simp: rb_geom_def rb_wrap_def)
  from okd consider
      "rb_head r \<le> rb_tail r" "seg d (rb_head r) ms (rb_tail r)"
    | ms1 ms2 e where "ms = ms1 @ ms2" "rb_split (r\<lparr>rb_data := d\<rparr>) ms1 ms2 e"
    by (auto simp: rb_ok_def)
  then show ?thesis
  proof cases
    case 1
    then have sg: "seg d (rb_head r) (ms @ [m]) (rb_tail r + a)"
      using slot unfolding seg_append by blast
    show ?thesis
    proof (cases "rb_tail r + a = rb_size r")
      case True
      then have "rb_split ?r' (ms @ [m]) [] (rb_size r)"
        using 1 room sg by (auto simp: rb_split_def rb_wrap_def)
      with geom show ?thesis unfolding rb_ok_def by fastforce
    next
      case False
      with 1 a sg geom show ?thesis by (auto simp: rb_ok_def rb_wrap_def)
    qed
  next
    case (2 ms1 ms2 e)
    then have nle: "\<not> rb_head r \<le> rb_tail r" by (simp add: rb_split_def)
    have "seg d 0 (ms2 @ [m]) (rb_tail r + a)"
      using 2 slot unfolding seg_append by (auto simp: rb_split_def)
    moreover have "rb_tail r + a < rb_size r"
      using nle room geom by (simp add: rb_geom_def)
    ultimately have "rb_split ?r' ms1 (ms2 @ [m]) e"
      using 2 nle room by (auto simp: rb_split_def rb_wrap_def)
    with geom 2 show ?thesis unfolding rb_ok_def by (metis append.assoc)
  qed
qed

text \<open>Publishing at offset 0 behind a wrap marker.\<close>

lemma rb_wrap_ok:
  assumes ok: "rb_ok r ms" and d: "rb_used_agree r d" and le: "rb_head r \<le> rb_tail r"
    and slot: "seg d 0 [m] a" and a: "a < rb_head r" and marker: "load32 d (rb_tail r) = Some (- 1)"
  shows "rb_ok (r\<lparr>rb_data := d, rb_tail := a\<rparr>) (ms @ [m])"
proof -
  have okd: "rb_ok (r\<lparr>rb_data := d\<rparr>) ms" using ok d by (rule rb_ok_frame)
  then have "seg d (rb_head r) ms (rb_tail r)" using le by (auto simp: rb_ok_def rb_split_def)
  then have "rb_split (r\<lparr>rb_data := d, rb_tail := a\<rparr>) ms [m] (rb_tail r)"
    using a slot marker rb_ok_geom [OF okd] by (auto simp: rb_split_def rb_geom_def)
  moreover have "rb_geom (r\<lparr>rb_data := d, rb_tail := a\<rparr>)"
    using rb_ok_geom [OF okd] a seg_dvd [OF slot] by (auto simp: rb_geom_def)
  ultimately show ?thesis unfolding rb_ok_def by blast
qed

lemma rb_slot_seg:
  assumes "store32 d0 t (word_of_nat (length m)) = Some d" and "agree d1 d0 (t + 4) (length d1)"
    and "load_bytes d1 (t + 4) (length m) = Some m" and "length m < 2 ^ 31" and "length d0 = length d1"
  shows "seg d t [m] (t + align8 (length m + 4))"
proof -
  have in1: "t + 4 + length m \<le> length d1"
    using assms(3) by (simp add: load_bytes_def split: if_splits)
  have "agree d0 d (t + 4) (length d1)"
    using assms(1,5) by (intro store32_agree) auto
  with assms(2) have "agree d1 d (t + 4) (length d1)" by (rule agree_trans)
  then have "load_bytes d (t + 4) (length m) = Some m"
    using assms(3) in1 agree_load_bytes by fastforce
  with assms(1,4) show ?thesis by (simp add: store32_load)
qed

text \<open>The stores of \<open>write_end\<close> for a slot at the tail, with or without the redundant marker
  that is written when the tail is 0.\<close>

lemma rb_write_end_tail:
  assumes geom: "rb_geom r" and p: "p = rb_tail r + 4"
  shows "\<exists>d0 d. store32 d0 (rb_tail r) (word_of_nat n) = Some d \<and> length d0 = rb_size r \<and>
           (\<forall>a b. b \<le> rb_tail r \<or> rb_tail r + 4 \<le> a \<longrightarrow> b \<le> rb_size r \<longrightarrow> agree (rb_data r) d0 a b) \<and>
           rb_write_end r p n =
             Some (r\<lparr>rb_data := d, rb_tail := rb_wrap (rb_tail r + align8 (n + 4)) (rb_size r)\<rparr>)"
proof -
  have fits: "rb_tail r + 4 \<le> length (rb_data r)" and len: "length (rb_data r) = rb_size r"
    using geom rb_geom_slot [OF geom, of "rb_tail r"] by (auto simp: rb_geom_def)
  show ?thesis
  proof (cases "p = 4")
    case True
    then have t: "rb_tail r = 0" using p by simp
    obtain d0 where d0: "store32 (rb_data r) 0 (- 1) = Some d0" using fits t store32_some by fastforce
    then have ld0: "length d0 = rb_size r" using len by (simp add: store32_length)
    then obtain d where d: "store32 d0 0 (word_of_nat n) = Some d" using fits t len store32_some by fastforce
    have "agree (rb_data r) d0 a b" if "b \<le> rb_tail r \<or> rb_tail r + 4 \<le> a" "b \<le> rb_size r" for a b
      using that t len by (intro store32_agree [OF d0]) auto
    with d0 d ld0 t True show ?thesis by (auto simp: rb_write_end_def)
  next
    case False
    obtain d where d: "store32 (rb_data r) (rb_tail r) (word_of_nat n) = Some d"
      using fits store32_some by blast
    have "agree (rb_data r) (rb_data r) a b" if "b \<le> rb_size r" for a b
      using that len by (simp add: agree_def)
    with d len False show ?thesis
      by (intro exI [of _ "rb_data r"] exI [of _ d]) (auto simp: rb_write_end_def)
  qed
qed

lemma rb_write_end_tail_ok:
  assumes ok: "rb_ok r ms" and resm: "rb_reserved r p (length m)"
    and filled: "load_bytes (rb_data r) p (length m) = Some m" and p: "p = rb_tail r + 4"
    and room: "rb_tail r + align8 (length m + 4) \<le> rb_size r"
      "if rb_head r \<le> rb_tail r then rb_tail r + align8 (length m + 4) = rb_size r \<longrightarrow> 0 < rb_head r
       else rb_tail r + align8 (length m + 4) < rb_head r"
    and m31: "length m < 2 ^ 31"
  shows "\<exists>r'. rb_write_end r p (length m) = Some r' \<and> rb_ok r' (ms @ [m]) \<and>
             rb_used_agree r (rb_data r') \<and> rb_head r' = rb_head r"
proof -
  let ?a = "align8 (length m + 4)"
  have geom: "rb_geom r" using ok by (rule rb_ok_geom)
  obtain d0 d where d: "store32 d0 (rb_tail r) (word_of_nat (length m)) = Some d"
    and d0: "length d0 = rb_size r"
    and out: "\<And>a b. b \<le> rb_tail r \<or> rb_tail r + 4 \<le> a \<Longrightarrow> b \<le> rb_size r \<Longrightarrow> agree (rb_data r) d0 a b"
    and w: "rb_write_end r p (length m) =
            Some (r\<lparr>rb_data := d, rb_tail := rb_wrap (rb_tail r + ?a) (rb_size r)\<rparr>)"
    using rb_write_end_tail [OF geom p, of "length m"] by blast
  have "seg d (rb_tail r) [m] (rb_tail r + ?a)"
    using d out [of "rb_size r" "rb_tail r + 4"] filled p m31 d0 geom
    by (intro rb_slot_seg [where ?d0.0 = d0 and ?d1.0 = "rb_data r"]) (auto simp: rb_geom_def)
  moreover have "rb_used_agree r d"
  proof (rule rb_used_agreeI [OF geom resm])
    show "length d = rb_size r" using d d0 by (simp add: store32_length)
    show "agree (rb_data r) d a b"
      if "b \<le> p - 4 \<or> p - 4 + align8 (length m + 4) \<le> a" and "b \<le> rb_size r" for a b
    proof (rule agree_trans [OF out])
      show "agree d0 d a b"
        using that p align8_ge [of "length m + 4"] d0 by (intro store32_agree [OF d]) auto
    qed (use that p align8_ge [of "length m + 4"] in auto)
  qed
  ultimately show ?thesis using w room by (auto intro: rb_append_ok [OF ok])
qed

lemma rb_write_end_wrap_ok:
  assumes ok: "rb_ok r ms" and filled: "load_bytes (rb_data r) 4 (length m) = Some m"
    and le: "rb_head r \<le> rb_tail r" and room: "align8 (length m + 4) < rb_head r"
    and m31: "length m < 2 ^ 31"
  shows "\<exists>r'. rb_write_end r 4 (length m) = Some r' \<and> rb_ok r' (ms @ [m]) \<and>
             rb_used_agree r (rb_data r') \<and> rb_head r' = rb_head r"
proof -
  let ?a = "align8 (length m + 4)"
  have geom: "rb_geom r" using ok by (rule rb_ok_geom)
  have ldata: "length (rb_data r) = rb_size r" and lt: "rb_tail r < rb_size r"
    using geom by (auto simp: rb_geom_def)
  have apos: "8 \<le> ?a" and tpos: "8 < rb_tail r" using le room align8_pos [of "length m + 4"] by auto
  have fits: "rb_tail r + 4 \<le> rb_size r" using geom rb_geom_slot [OF geom] by (simp add: rb_geom_def)
  then obtain d0 where d0: "store32 (rb_data r) (rb_tail r) (- 1) = Some d0"
    using ldata store32_some by fastforce
  then have ld0: "length d0 = rb_size r" using ldata by (simp add: store32_length)
  then obtain d where d: "store32 d0 0 (word_of_nat (length m)) = Some d"
    using fits tpos store32_some [of 0 d0] by auto
  have w: "rb_write_end r 4 (length m) = Some (r\<lparr>rb_data := d, rb_tail := ?a\<rparr>)"
    using d0 d le room geom by (auto simp: rb_write_end_def rb_wrap_def rb_geom_def Let_def)
  have fb: "4 + length m \<le> rb_tail r" using le room align8_ge [of "length m + 4"] by simp
  have "load_bytes d0 4 (length m) = Some m"
    using filled fb lt ldata
      agree_load_bytes [OF store32_agree [OF d0, of "rb_tail r" 0], of 4 "length m"] by simp
  then have sg: "seg d 0 [m] ?a"
    using rb_slot_seg [OF d, of d0] m31 by (simp add: agree_def)
  have "agree (rb_data r) d (rb_head r) (rb_tail r)"
    using room apos lt ldata ld0
    by (intro agree_trans [OF store32_agree [OF d0] store32_agree [OF d]]) auto
  then have "rb_used_agree r d" using le d ld0 by (simp add: rb_used_agree_def store32_length)
  moreover have "load32 d (rb_tail r) = Some (- 1)"
    using agree_load32 [OF store32_agree [OF d, of "rb_size r" 4], of "rb_tail r"]
      store32_load [OF d0] fits tpos ld0 by simp
  ultimately show ?thesis using w sg le room by (auto intro: rb_wrap_ok [OF ok])
qed

lemma rb_write_end_ok:
  assumes ok: "rb_ok r ms" and res: "rb_reserved r p sz" and len: "length m \<le> sz"
    and filled: "load_bytes (rb_data r) p (length m) = Some m"
  shows "\<exists>r'. rb_write_end r p (length m) = Some r' \<and> rb_ok r' (ms @ [m]) \<and>
             rb_used_agree r (rb_data r') \<and> rb_head r' = rb_head r"
proof -
  have geom: "rb_geom r" using ok by (rule rb_ok_geom)
  have resm: "rb_reserved r p (length m)" using res len by (rule rb_reserved_mono)
  have m31: "length m < 2 ^ 31"
    using rb_reserved_slot(3) [OF geom resm] geom by (simp add: rb_geom_def)
  show ?thesis
  proof (cases "p = 4 \<and> rb_head r \<le> rb_tail r \<and> align8 (length m + 4) < rb_head r")
    case True
    then show ?thesis using rb_write_end_wrap_ok [OF ok] filled m31 by blast
  next
    case False
    then show ?thesis
      using rb_write_end_tail_ok [OF ok resm filled] resm m31 by (auto simp: rb_reserved_def Let_def)
  qed
qed

text \<open>The position of the first message is decided by the word at the head, which neither filling
  nor publishing a slot touches.\<close>

lemma rb_front_off:
  "rb_front r off m \<Longrightarrow> off = (if load32 (rb_data r) (rb_head r) = Some (- 1) then 0 else rb_head r)"
  using len_word_ne [of "length m"] by (auto simp: rb_front_def)

lemma rb_used_agree_head:
  assumes "rb_ok r ms" and "ms \<noteq> []" and "rb_used_agree r d"
  shows "load32 d (rb_head r) = load32 (rb_data r) (rb_head r)"
proof (cases "rb_head r \<le> rb_tail r")
  case True
  then have "seg (rb_data r) (rb_head r) ms (rb_tail r)"
    using assms(1) by (auto simp: rb_ok_def rb_split_def)
  then have "rb_head r + 4 \<le> rb_tail r" using assms(2) by (auto dest: seg_nonempty_less)
  then show ?thesis using True assms(3) by (auto simp: rb_used_agree_def elim: agree_load32)
next
  case False
  have "rb_head r + 4 \<le> rb_size r"
    using rb_ok_geom [OF assms(1)] by (intro rb_geom_slot) (auto simp: rb_geom_def)
  then show ?thesis using False assms(3) by (auto simp: rb_used_agree_def elim: agree_load32)
qed

lemma rb_front_stable:
  assumes "rb_ok r (m # ms)" and "rb_ok r' (m' # ms')" and "rb_head r' = rb_head r"
    and "rb_used_agree r (rb_data r')" and "rb_front r off m" and "rb_front r' off' m'"
  shows "off' = off"
  using rb_front_off [OF assms(5)] rb_front_off [OF assms(6)] rb_used_agree_head [OF assms(1) _ assms(4)]
    assms(3) by simp

text \<open>A reader's shift keeps the writer's reservation.\<close>

lemma rb_reserved_adv:
  assumes "rb_geom r" and "rb_reserved r p sz" and "rb_adv r h"
  shows "rb_reserved (r\<lparr>rb_head := h\<rparr>) p sz"
  using assms by (auto simp: rb_reserved_def rb_adv_def rb_geom_def Let_def split: if_splits)

section \<open>Cursors ahead of the head\<close>

text \<open>A cursor that has walked over \<open>k\<close> messages from an offset, and the cyclic order of
  head, cursor and tail.\<close>

fun rb_walk :: "rb \<Rightarrow> nat \<Rightarrow> nat option" where
  "rb_walk r 0 = Some (rb_head r)"
| "rb_walk r (Suc k) =
     Option.bind (rb_shift_offset r (rb_head r)) (\<lambda>h. rb_walk (r\<lparr>rb_head := h\<rparr>) k)"

definition rb_between :: "rb \<Rightarrow> nat \<Rightarrow> bool" where
  "rb_between r off \<longleftrightarrow> (if rb_head r \<le> rb_tail r then rb_head r \<le> off \<and> off \<le> rb_tail r
                         else rb_head r \<le> off \<or> off \<le> rb_tail r)"

lemma rb_between_used:
  "rb_used_agree r d \<Longrightarrow> rb_between r off \<Longrightarrow> rb_used_agree (r\<lparr>rb_head := off\<rparr>) d"
  by (auto simp: rb_used_agree_def rb_between_def elim: agree_sub split: if_splits)

lemma rb_between_adv: "rb_adv r h \<Longrightarrow> rb_between (r\<lparr>rb_head := h\<rparr>) off \<Longrightarrow> rb_between r off"
  by (auto simp: rb_between_def rb_adv_def split: if_splits)

lemma rb_front_step:
  assumes "rb_ok r (m # ms)"
  shows "\<exists>h. rb_shift_offset r (rb_head r) = Some h \<and> rb_ok (r\<lparr>rb_head := h\<rparr>) ms \<and> rb_adv r h"
  using rb_ok_front [OF assms] rb_front_shift_offset by (fastforce simp: rb_drop_def)

lemma rb_walk_ok:
  "rb_ok r ms \<Longrightarrow> k \<le> length ms \<Longrightarrow>
   \<exists>off. rb_walk r k = Some off \<and> rb_ok (r\<lparr>rb_head := off\<rparr>) (drop k ms) \<and> rb_between r off"
proof (induction k arbitrary: r ms)
  case 0
  then show ?case by (auto simp: rb_between_def rb_ok_def rb_split_def)
next
  case (Suc k)
  then obtain m ms' where ms: "ms = m # ms'" by (cases ms) auto
  obtain h where h: "rb_shift_offset r (rb_head r) = Some h" "rb_ok (r\<lparr>rb_head := h\<rparr>) ms'" "rb_adv r h"
    using rb_front_step Suc.prems(1) ms by blast
  show ?case using Suc.IH [OF h(2)] Suc.prems(2) ms h rb_between_adv [OF h(3)] by fastforce
qed

lemma rb_walk_last:
  "rb_walk r (Suc k) = Option.bind (rb_walk r k) (\<lambda>off. rb_shift_offset (r\<lparr>rb_head := off\<rparr>) off)"
proof (induction k arbitrary: r)
  case 0
  then show ?case by (cases "rb_shift_offset r (rb_head r)") auto
next
  case (Suc k)
  show ?case
  proof (cases "rb_shift_offset r (rb_head r)")
    case (Some h)
    then show ?thesis using Suc.IH [of "r\<lparr>rb_head := h\<rparr>"] by (simp del: rb_walk.simps(2) add: rb_walk.simps(2) [of r])
  qed simp
qed

lemma rb_walk_stable:
  assumes "rb_ok r ms" and "rb_ok r' (ms @ ms')" and "rb_head r' = rb_head r"
    and "rb_used_agree r (rb_data r')" and "k \<le> length ms"
  shows "rb_walk r' k = rb_walk r k"
  using assms
proof (induction k arbitrary: r r' ms)
  case 0
  then show ?case by simp
next
  case (Suc k)
  then obtain m ms1 where ms: "ms = m # ms1" by (cases ms) auto
  have ok: "rb_ok r (m # ms1)" and ok': "rb_ok r' (m # ms1 @ ms')" using Suc.prems ms by simp_all
  obtain off off' where f: "rb_front r off m" and f': "rb_front r' off' m"
    using rb_ok_front [OF ok] rb_ok_front [OF ok'] by blast
  have "off' = off" using rb_front_stable [OF ok ok' Suc.prems(3,4) f f'] .
  moreover have "rb_size r' = rb_size r"
    using rb_ok_geom [OF ok'] Suc.prems(4) by (simp add: rb_geom_def rb_used_agree_def)
  ultimately have same: "rb_shift_offset r' (rb_head r') = rb_shift_offset r (rb_head r)"
    using rb_front_shift_offset [OF f] rb_front_shift_offset [OF f'] by simp
  obtain h where h: "rb_shift_offset r (rb_head r) = Some h" "rb_ok (r\<lparr>rb_head := h\<rparr>) ms1" "rb_adv r h"
    using rb_front_step [OF ok] by blast
  moreover have "rb_ok (r'\<lparr>rb_head := h\<rparr>) (ms1 @ ms')"
    using rb_front_step [OF ok'] same h(1) by auto
  moreover have "rb_used_agree (r\<lparr>rb_head := h\<rparr>) (rb_data r')"
    using Suc.prems(4) h(3) by (intro rb_between_used) (auto simp: rb_adv_def rb_between_def split: if_splits)
  ultimately show ?case
    using Suc.IH [of "r\<lparr>rb_head := h\<rparr>" ms1 "r'\<lparr>rb_head := h\<rparr>"] Suc.prems(5) ms same by simp
qed

end
