(* ===== verification/Queues.thy ===== *)
theory Queues
  imports Prelude
begin

text \<open>
  The contract the channels rely on when they move messages through a buffer: a bounded FIFO
  queue that may refuse a message but never loses, duplicates or reorders one. The contract is
  the locale \<open>fifo_queue\<close>; each buffer of the library is an interpretation of it, in the theory
  that models the buffer. Operations return an \<open>option\<close>: \<open>None\<close> is a memory fault (or a loop
  that does not end), \<open>Some (Inl e)\<close> a refusal with an error code.
\<close>

datatype 'a qop = Push 'a | Pop

text \<open>A run of operations: the final state, the messages that were accepted and the messages
  that were delivered, both in order. A refused operation leaves the queue as it is.\<close>

fun queue_run ::
  "('q \<Rightarrow> 'a \<Rightarrow> (errno + 'q) option) \<Rightarrow> ('q \<Rightarrow> (errno + 'a) option) \<Rightarrow> ('q \<Rightarrow> (errno + 'q) option) \<Rightarrow>
   'q \<Rightarrow> 'a qop list \<Rightarrow> ('q \<times> 'a list \<times> 'a list) option" where
  "queue_run push peek pop q [] = Some (q, [], [])"
| "queue_run push peek pop q (Push x # ops) =
     (case push q x of
        None \<Rightarrow> None
      | Some (Inl e) \<Rightarrow> queue_run push peek pop q ops
      | Some (Inr q') \<Rightarrow> map_option (\<lambda>(r, acc, del). (r, x # acc, del)) (queue_run push peek pop q' ops))"
| "queue_run push peek pop q (Pop # ops) =
     (case peek q of
        None \<Rightarrow> None
      | Some (Inl e) \<Rightarrow> queue_run push peek pop q ops
      | Some (Inr x) \<Rightarrow>
          (case pop q of
             None \<Rightarrow> None
           | Some (Inl e) \<Rightarrow> queue_run push peek pop q ops
           | Some (Inr q') \<Rightarrow> map_option (\<lambda>(r, acc, del). (r, acc, x # del)) (queue_run push peek pop q' ops)))"

fun pushed :: "'a qop list \<Rightarrow> 'a list" where
  "pushed [] = []"
| "pushed (Push x # ops) = x # pushed ops"
| "pushed (Pop # ops) = pushed ops"

locale fifo_queue =
  fixes push :: "'q \<Rightarrow> 'a \<Rightarrow> (errno + 'q) option"
    and peek :: "'q \<Rightarrow> (errno + 'a) option"
    and pop :: "'q \<Rightarrow> (errno + 'q) option"
    and content :: "'q \<Rightarrow> 'a list \<Rightarrow> bool"
    and valid :: "'a \<Rightarrow> bool"
  assumes push_law: "content q xs \<Longrightarrow> valid x \<Longrightarrow>
        (\<exists>e. push q x = Some (Inl e)) \<or> (\<exists>q'. push q x = Some (Inr q') \<and> content q' (xs @ [x]))"
    and peek_empty: "content q [] \<Longrightarrow> \<exists>e. peek q = Some (Inl e)"
    and peek_law: "content q (x # xs) \<Longrightarrow> peek q = Some (Inr x)"
    and pop_law: "content q (x # xs) \<Longrightarrow> \<exists>q'. pop q = Some (Inr q') \<and> content q' xs"
begin

lemma content_unique_head: "content q (x # xs) \<Longrightarrow> content q (y # ys) \<Longrightarrow> x = y"
  using peek_law [of q x xs] peek_law [of q y ys] by simp

text \<open>No fault, and what went in is what came out followed by what is still inside.\<close>

lemma run_fifo:
  assumes "content q xs" and "list_all valid (pushed ops)"
  shows "\<exists>q' acc del ys. queue_run push peek pop q ops = Some (q', acc, del) \<and> content q' ys \<and>
           xs @ acc = del @ ys"
  using assms
proof (induction ops arbitrary: q xs)
  case Nil
  then show ?case by auto
next
  case (Cons op ops)
  show ?case
  proof (cases op)
    case (Push x)
    then have v: "valid x" "list_all valid (pushed ops)" using Cons.prems(2) by simp_all
    from push_law [OF Cons.prems(1) v(1)] show ?thesis
    proof (elim disjE exE conjE)
      fix e assume "push q x = Some (Inl e)"
      then show ?thesis using Cons.IH [OF Cons.prems(1) v(2)] Push by auto
    next
      fix q' assume "push q x = Some (Inr q')" and "content q' (xs @ [x])"
      then show ?thesis using Cons.IH [OF _ v(2), of q' "xs @ [x]"] Push by fastforce
    qed
  next
    case Pop
    then have v: "list_all valid (pushed ops)" using Cons.prems(2) by simp
    show ?thesis
    proof (cases xs)
      case Nil
      then obtain e where "peek q = Some (Inl e)" using Cons.prems(1) peek_empty by blast
      then show ?thesis using Cons.IH [OF Cons.prems(1) v] Pop by auto
    next
      case (Cons x xs')
      then have c: "content q (x # xs')" using Cons.prems(1) by simp
      then obtain q' where "pop q = Some (Inr q')" "content q' xs'" using pop_law by blast
      then show ?thesis
        using Cons.IH [of q' xs'] v peek_law [OF c] Pop Cons by fastforce
    qed
  qed
qed

lemma run_prefix:
  assumes "content q []" and "list_all valid (pushed ops)"
    and "queue_run push peek pop q ops = Some (q', acc, del)"
  shows "\<exists>ys. acc = del @ ys \<and> content q' ys"
  using run_fifo [OF assms(1,2)] assms(3) by auto

end

end
