(* ===== verification/Ring.thy ===== *)
theory Ring
  imports RingCore Queues
begin

text \<open>
  The single-producer single-consumer byte ring of \<open>src/ring.c\<close> and \<open>src/tll/ring.h\<close>, at the
  widths of the C code: \<open>size_t\<close> is a 64-bit word, \<open>ring_size_t\<close> a 32-bit word read as two's
  complement. A pointer into \<open>header->data\<close> is its offset. Operations that touch \<open>data\<close>
  return an \<open>option\<close>: \<open>None\<close> is an access outside the block.
\<close>

section \<open>Data\<close>

record ring_header_t =
  rh_magic :: i32
  rh_version :: i32
  rh_size :: size_t
  rh_head :: size_t
  rh_generation_pre :: u64
  rh_generation_post :: u64
  rh_tail :: size_t
  rh_data :: "byte list"

record ringiter_t =
  ri_generation :: u64
  ri_offset :: size_t

definition ring_magic :: i32 where
  "ring_magic = push_bit 24 0x72 OR push_bit 16 0x69 OR push_bit 8 0x6e OR 0x67"

definition ring_align :: i32 where
  "ring_align = 8"

text \<open>\<open>sizeof(ring_size_t)\<close>, which is also the distance \<open>_size_at(h, off) + 1\<close> adds.\<close>

definition sizeof_ring_size_t :: size_t where
  "sizeof_ring_size_t = 4"

section \<open>Operations\<close>

definition size_aligned :: "i32 \<Rightarrow> i32" where
  "size_aligned x = x + (- x AND (ring_align - 1))"

definition wrap_size :: "size_t \<Rightarrow> size_t \<Rightarrow> size_t" where
  "wrap_size off n = (if n \<le> off then off - n else off)"

text \<open>\<open>alloc\<close> is what \<open>malloc\<close> returns: \<open>None\<close> for \<open>NULL\<close>, otherwise the indeterminate
  version field and data bytes of the new block. With a memory argument the ring is attached
  to the header found there.\<close>

definition ring_init ::
  "(size_t \<Rightarrow> (i32 \<times> byte list) option) \<Rightarrow> size_t \<Rightarrow> ring_header_t option \<Rightarrow> errno + ring_header_t" where
  "ring_init alloc n memory =
     (case memory of
        None \<Rightarrow>
          (case alloc n of
             None \<Rightarrow> Inl ENOMEM
           | Some (ver, bytes) \<Rightarrow>
               Inr \<lparr>rh_magic = ring_magic, rh_version = ver, rh_size = n, rh_head = 0,
                    rh_generation_pre = 0, rh_generation_post = 0, rh_tail = 0, rh_data = bytes\<rparr>)
      | Some h \<Rightarrow> Inr h)"

definition ring_clear :: "ring_header_t \<Rightarrow> ring_header_t" where
  "ring_clear h = h\<lparr>rh_head := 0, rh_tail := 0\<rparr>"

definition ring_write_begin :: "ring_header_t \<Rightarrow> size_t \<Rightarrow> errno + size_t" where
  "ring_write_begin h sz =
     (let a = scast (size_aligned (ucast (sz + sizeof_ring_size_t))) :: size_t in
      if rh_size h < 2 * a then Inl ERANGE
      else
        (let free = wrap_size (rh_size h + rh_head h - rh_tail h - 1) (rh_size h) + 1 in
         if free \<le> a then Inl EAGAIN
         else if rh_size h < rh_tail h + a
              then (if rh_head h \<le> a then Inl EAGAIN else Inr (0 + sizeof_ring_size_t))
              else Inr (rh_tail h + sizeof_ring_size_t)))"

definition ring_write_end :: "ring_header_t \<Rightarrow> size_t \<Rightarrow> size_t \<Rightarrow> ring_header_t option" where
  "ring_write_end h ptr sz =
     (let a = scast (size_aligned (ucast (sz + sizeof_ring_size_t))) :: size_t;
          wrapped = (if ptr = 0 + sizeof_ring_size_t
                     then map_option (\<lambda>d. (d, 0)) (store32 (rh_data h) (unat (rh_tail h)) (- 1))
                     else Some (rh_data h, rh_tail h))
      in case wrapped of
           None \<Rightarrow> None
         | Some (d, tail) \<Rightarrow>
             map_option (\<lambda>d'. h\<lparr>rh_data := d', rh_tail := wrap_size (tail + a) (rh_size h)\<rparr>)
               (store32 d (unat tail) (ucast sz)))"

text \<open>\<open>memmove\<close> of the payload between the two calls.\<close>

definition ring_fill :: "ring_header_t \<Rightarrow> size_t \<Rightarrow> byte list \<Rightarrow> ring_header_t option" where
  "ring_fill h ptr bs = map_option (\<lambda>d. h\<lparr>rh_data := d\<rparr>) (store_bytes (rh_data h) (unat ptr) bs)"

definition ring_write :: "ring_header_t \<Rightarrow> byte list \<Rightarrow> (errno + ring_header_t) option" where
  "ring_write h bs =
     (case ring_write_begin h (word_of_nat (length bs)) of
        Inl e \<Rightarrow> Some (Inl e)
      | Inr ptr \<Rightarrow>
          Option.bind (ring_fill h ptr bs) (\<lambda>h'.
            map_option Inr (ring_write_end h' ptr (word_of_nat (length bs)))))"

partial_function (option) ring_read_at :: "ring_header_t \<Rightarrow> size_t \<Rightarrow> (errno + size_t \<times> size_t) option" where
  "ring_read_at h offset =
     (if offset = rh_tail h then Some (Inl EAGAIN)
      else Option.bind (load32 (rh_data h) (unat offset)) (\<lambda>sz.
        if sz <s 0 then ring_read_at h 0
        else Some (Inr (offset + sizeof_ring_size_t, scast sz))))"

declare ring_read_at.simps [code]

definition ring_read :: "ring_header_t \<Rightarrow> (errno + size_t \<times> size_t) option" where
  "ring_read h = ring_read_at h (rh_head h)"

definition ring_next :: "ring_header_t \<Rightarrow> size_t option option" where
  "ring_next h = map_option (\<lambda>r. case r of Inl _ \<Rightarrow> None | Inr (p, _) \<Rightarrow> Some p) (ring_read h)"

definition ring_next_size :: "ring_header_t \<Rightarrow> i32 option" where
  "ring_next_size h = map_option (\<lambda>r. case r of Inl _ \<Rightarrow> - 1 | Inr (_, n) \<Rightarrow> ucast n) (ring_read h)"

partial_function (option) ring_shift_offset :: "ring_header_t \<Rightarrow> size_t \<Rightarrow> size_t option" where
  "ring_shift_offset h offset =
     Option.bind (load32 (rh_data h) (unat offset)) (\<lambda>sz.
       if sz <s 0 then ring_shift_offset h 0
       else (let n = size_aligned (ucast ((scast sz :: size_t) + sizeof_ring_size_t))
             in Some (wrap_size (offset + scast n) (rh_size h))))"

declare ring_shift_offset.simps [code]

definition ring_shift :: "ring_header_t \<Rightarrow> (errno + ring_header_t) option" where
  "ring_shift h =
     (if rh_head h = rh_tail h then Some (Inl EAGAIN)
      else map_option (\<lambda>off.
        if off <s 0 then Inl EAGAIN
        else (let gen = rh_generation_pre h + 1
              in Inr (h\<lparr>rh_generation_pre := gen, rh_head := off, rh_generation_post := gen\<rparr>)))
        (ring_shift_offset h (rh_head h)))"

text \<open>\<open>int avail\<close> truncates; the comparison of \<open>head\<close> (signed) with \<open>size - tail\<close> (unsigned) is
  unsigned.\<close>

definition ring_available :: "ring_header_t \<Rightarrow> size_t" where
  "ring_available h =
     (let head = rh_head h; tail = rh_tail h;
          avail = (if tail <s head then ucast (head - tail)
                   else ucast (if rh_size h - tail < head then head else rh_size h - tail)) :: i32;
          rest = avail - 2 * ring_align
      in if rest <s 0 then 0 else scast rest)"

definition ring_iter_init :: "ring_header_t \<Rightarrow> errno + ringiter_t" where
  "ring_iter_init h =
     (let it = \<lparr>ri_generation = rh_generation_post h, ri_offset = rh_head h\<rparr>
      in if rh_generation_pre h \<noteq> ri_generation it then Inl EAGAIN else Inr it)"

definition ring_iter_invalid :: "ring_header_t \<Rightarrow> ringiter_t \<Rightarrow> errno option" where
  "ring_iter_invalid h it = (if ri_generation it < rh_generation_pre h then Some EINVAL else None)"

text \<open>The iterator belongs to another thread than the ring's reader: it validates its
  generation, reads, and validates again. \<open>h\<close> is the header at the first check and the read,
  \<open>h'\<close> the header at the second check.\<close>

definition ring_iter_shift :: "ring_header_t \<Rightarrow> ring_header_t \<Rightarrow> ringiter_t \<Rightarrow> (errno + ringiter_t) option" where
  "ring_iter_shift h h' it =
     (if ring_iter_invalid h it \<noteq> None then Some (Inl EINVAL)
      else if ri_offset it = rh_tail h then Some (Inl EAGAIN)
      else if rh_head h = rh_tail h then Some (Inl EAGAIN)
      else map_option (\<lambda>off.
             if ring_iter_invalid h' it \<noteq> None then Inl EINVAL
             else if off <s 0 then Inl EAGAIN
             else Inr \<lparr>ri_generation = ri_generation it + 1, ri_offset = off\<rparr>)
           (ring_shift_offset h (ri_offset it)))"

definition ring_iter_read ::
  "ring_header_t \<Rightarrow> ring_header_t \<Rightarrow> ringiter_t \<Rightarrow> (errno + size_t \<times> size_t) option" where
  "ring_iter_read h h' it =
     (if ring_iter_invalid h it \<noteq> None then Some (Inl EINVAL)
      else map_option (\<lambda>r. case r of
             Inl e \<Rightarrow> Inl e
           | Inr x \<Rightarrow> if ring_iter_invalid h' it \<noteq> None then Inl EINVAL else Inr x)
           (ring_read_at h (ri_offset it)))"

section \<open>Equality with the reference ring\<close>

definition core_of :: "ring_header_t \<Rightarrow> rb" where
  "core_of h = \<lparr>rb_size = unat (rh_size h), rb_head = unat (rh_head h),
                rb_tail = unat (rh_tail h), rb_data = rh_data h\<rparr>"

lemma core_of_simps [simp]:
  "rb_size (core_of h) = unat (rh_size h)" "rb_head (core_of h) = unat (rh_head h)"
  "rb_tail (core_of h) = unat (rh_tail h)" "rb_data (core_of h) = rh_data h"
  by (simp_all add: core_of_def)

lemma unat_size_aligned: "unat x \<le> 2 ^ 31 \<Longrightarrow> unat (size_aligned x) = align8 (unat x)"
proof -
  assume "unat x \<le> 2 ^ 31"
  moreover have "(8 - unat x mod 8) mod 8 < 8" by simp
  ultimately have "unat x + (8 - unat x mod 8) mod 8 < 2 ^ LENGTH(32)" by simp
  then show ?thesis
    by (simp add: size_aligned_def ring_align_def unat_neg_low3 align8_alt unat_word_ariths)
qed

lemma unat_slot_size:
  assumes "align8 (unat sz + 4) < 2 ^ 31"
  shows "unat (scast (size_aligned (ucast (sz + sizeof_ring_size_t))) :: size_t) = align8 (unat sz + 4)"
proof -
  have lt: "unat sz + 4 < 2 ^ 31" using assms align8_ge [of "unat sz + 4"] by linarith
  then have 1: "unat (sz + sizeof_ring_size_t) = unat sz + 4"
    by (simp add: sizeof_ring_size_t_def unat_word_ariths)
  with lt have 2: "unat (ucast (sz + sizeof_ring_size_t) :: i32) = unat sz + 4"
    by (simp add: unat_ucast64_32)
  with lt have "unat (size_aligned (ucast (sz + sizeof_ring_size_t))) = align8 (unat sz + 4)"
    by (subst unat_size_aligned) simp_all
  with assms show ?thesis by (subst unat_scast32_64) simp_all
qed

lemma unat_wrap_size: "unat (wrap_size off n) = rb_wrap (unat off) (unat n)"
  by (simp add: wrap_size_def rb_wrap_def word_le_nat_alt unat_sub)

lemma unat_free_space:
  assumes g: "rb_geom (core_of h)"
  shows "unat (rh_size h + rh_head h - rh_tail h - 1) = unat (rh_size h) + unat (rh_head h) - unat (rh_tail h) - 1"
proof -
  have b: "unat (rh_size h) < 2 ^ 31" "unat (rh_head h) < unat (rh_size h)" "unat (rh_tail h) < unat (rh_size h)"
    using g by (simp_all add: rb_geom_def)
  then have "unat (rh_size h + rh_head h) = unat (rh_size h) + unat (rh_head h)"
    by (intro unat_add_small) simp
  then show ?thesis using b by (simp add: unat_sub word_le_nat_alt)
qed

lemma ring_free_bound:
  assumes "rb_geom (core_of h)"
  shows "unat (wrap_size (rh_size h + rh_head h - rh_tail h - 1) (rh_size h)) < 2 ^ 33"
  using assms by (auto simp: unat_wrap_size unat_free_space rb_wrap_def rb_geom_def)

lemma ring_write_begin_core:
  assumes g: "rb_geom (core_of h)" and sz: "align8 (unat sz + 4) < 2 ^ 31"
  shows "rb_write_begin (core_of h) (unat sz) = map_sum id unat (ring_write_begin h sz)"
proof -
  define a where "a = (scast (size_aligned (ucast (sz + sizeof_ring_size_t))) :: size_t)"
  have a: "unat a = align8 (unat sz + 4)" "unat a < 2 ^ 31"
    using unat_slot_size [OF sz] sz by (simp_all add: a_def)
  have b: "unat (rh_size h) < 2 ^ 31" "unat (rh_head h) < unat (rh_size h)" "unat (rh_tail h) < unat (rh_size h)"
    using g by (simp_all add: rb_geom_def)
  have 1: "unat (2 * a) = 2 * unat a" using a(2) by (simp add: unat_word_ariths)
  note 2 = unat_free_space [OF g]
  have 3: "unat (wrap_size (rh_size h + rh_head h - rh_tail h - 1) (rh_size h) + 1)
    = rb_wrap (unat (rh_size h) + unat (rh_head h) - unat (rh_tail h) - 1) (unat (rh_size h)) + 1"
    using b by (subst unat_add_small) (auto simp: unat_wrap_size 2 rb_wrap_def)
  have 4: "unat (rh_tail h + a) = unat (rh_tail h) + unat a" using a b by (simp add: unat_word_ariths)
  have 5: "unat (rh_tail h + sizeof_ring_size_t) = unat (rh_tail h) + 4"
    using b by (simp add: unat_word_ariths sizeof_ring_size_t_def)
  show ?thesis
    unfolding rb_write_begin_def ring_write_begin_def Let_def a_def [symmetric]
    by (simp add: word_le_nat_alt word_less_nat_alt 1 3 4 5 a(1) [symmetric])
       (simp add: sizeof_ring_size_t_def)
qed

lemma core_of_update [simp]:
  "core_of (h\<lparr>rh_data := d\<rparr>) = (core_of h)\<lparr>rb_data := d\<rparr>"
  "core_of (h\<lparr>rh_head := x\<rparr>) = (core_of h)\<lparr>rb_head := unat x\<rparr>"
  "core_of (h\<lparr>rh_tail := x\<rparr>) = (core_of h)\<lparr>rb_tail := unat x\<rparr>"
  "core_of (h\<lparr>rh_generation_pre := g\<rparr>) = core_of h"
  "core_of (h\<lparr>rh_generation_post := g\<rparr>) = core_of h"
  by (simp_all add: core_of_def)

lemma ring_write_end_core:
  assumes g: "rb_geom (core_of h)" and sz: "align8 (unat sz + 4) < 2 ^ 31"
  shows "rb_write_end (core_of h) (unat ptr) (unat sz) = map_option core_of (ring_write_end h ptr sz)"
proof -
  define a where "a = (scast (size_aligned (ucast (sz + sizeof_ring_size_t))) :: size_t)"
  have a: "unat a = align8 (unat sz + 4)" "unat a < 2 ^ 31"
    using unat_slot_size [OF sz] sz by (simp_all add: a_def)
  have b: "unat (rh_size h) < 2 ^ 31" "unat (rh_tail h) < unat (rh_size h)"
    using g by (simp_all add: rb_geom_def)
  have 1: "unat (rh_tail h + a) = unat (rh_tail h) + align8 (unat sz + 4)"
    using a b by (subst unat_add_small) simp_all
  have 2: "(ptr = 0 + sizeof_ring_size_t) = (unat ptr = 4)"
    by (simp add: sizeof_ring_size_t_def word_unat_eq_iff)
  have 3: "(ucast sz :: i32) = word_of_nat (unat sz)" by simp
  show ?thesis
    unfolding rb_write_end_def ring_write_end_def Let_def a_def [symmetric] 2 3
    by (auto simp: option.map_comp o_def unat_wrap_size 1 a(1) split: option.splits)
qed

lemma ring_read_at_slot:
  assumes "load32 (rh_data h) (unat off) = Some (word_of_nat n)" and "n < 2 ^ 31" and "off \<noteq> rh_tail h"
  shows "ring_read_at h off = Some (Inr (off + 4, word_of_nat n))"
proof -
  have "(scast (word_of_nat n :: i32) :: size_t) = word_of_nat n"
    using assms(2) by (simp add: word_unat_eq_iff unat_scast32_64 unat_of_nat)
  then show ?thesis
    using assms by (simp add: ring_read_at.simps [of h off] sizeof_ring_size_t_def)
qed

lemma ring_shift_offset_slot:
  assumes "load32 (rh_data h) (unat off) = Some (word_of_nat n)" and "align8 (n + 4) < 2 ^ 31"
    and "unat off + align8 (n + 4) < 2 ^ 64"
  shows "\<exists>o'. ring_shift_offset h off = Some o' \<and> unat o' = rb_wrap (unat off + align8 (n + 4)) (unat (rh_size h))"
proof -
  have n: "n < 2 ^ 31" using assms(2) align8_ge [of "n + 4"] by simp
  then have "unat (scast (word_of_nat n :: i32) :: size_t) = n"
    by (simp add: unat_scast32_64)
  then have "unat (scast (size_aligned (ucast ((scast (word_of_nat n :: i32) :: size_t) + sizeof_ring_size_t))) :: size_t)
    = align8 (n + 4)"
    using unat_slot_size [of "scast (word_of_nat n :: i32)"] assms(2) by simp
  then show ?thesis
    using assms n by (simp add: ring_shift_offset.simps [of h off] Let_def unat_wrap_size unat_add_small)
qed

section \<open>The ring as a queue of messages\<close>

definition ring_ok :: "ring_header_t \<Rightarrow> byte list list \<Rightarrow> bool" where
  "ring_ok h ms \<longleftrightarrow> rb_ok (core_of h) ms \<and> rh_generation_pre h = rh_generation_post h"

lemma ring_ok_core: "ring_ok h ms \<Longrightarrow> rb_ok (core_of h) ms"
  by (simp add: ring_ok_def)

lemma ring_ok_geom: "ring_ok h ms \<Longrightarrow> rb_geom (core_of h)"
  by (simp add: ring_ok_def rb_ok_def)

text \<open>Reading and stepping over the message at an offset \<open>c\<close>, the head or an iterator's.\<close>

lemma ring_front_at:
  assumes "rb_front ((core_of h)\<lparr>rb_head := unat c\<rparr>) off m" and "rb_geom ((core_of h)\<lparr>rb_head := unat c\<rparr>)"
  shows "ring_read_at h (c) = Some (Inr (word_of_nat (off + 4), word_of_nat (length m)))"
    and "\<exists>o'. ring_shift_offset h (c) = Some o' \<and>
              unat o' = rb_wrap (off + align8 (length m + 4)) (unat (rh_size h))"
    and "off + 4 + length m \<le> length (rh_data h)"
proof -
  have m: "length m < 2 ^ 31" "load32 (rh_data h) off = Some (word_of_nat (length m))"
    "off + align8 (length m + 4) \<le> unat (rh_size h)" "off \<noteq> unat (rh_tail h)"
    and size: "unat (rh_size h) < 2 ^ 31"
    using assms by (simp_all add: rb_front_def rb_geom_def)
  define w :: size_t where "w = word_of_nat off"
  have w: "unat w = off" using m(3) size by (simp add: w_def unat_of_nat)
  have wt: "w \<noteq> rh_tail h" using m(4) w by auto
  have a: "align8 (length m + 4) < 2 ^ 31" "unat w + align8 (length m + 4) < 2 ^ 64"
    using m(3) size w by simp_all
  have rd: "ring_read_at h w = Some (Inr (word_of_nat (off + 4), word_of_nat (length m)))"
    using ring_read_at_slot [of h w "length m"] m w wt by (simp add: w_def)
  have sh: "\<exists>o'. ring_shift_offset h w = Some o' \<and>
              unat o' = rb_wrap (off + align8 (length m + 4)) (unat (rh_size h))"
    using ring_shift_offset_slot [of h w "length m"] m a w by simp
  have c: "c = w \<or> w = 0 \<and> load32 (rh_data h) (unat (c)) = Some (- 1)"
    and ht: "c \<noteq> rh_tail h"
    using assms(1) w by (auto simp: rb_front_def word_unat_eq_iff)
  show "ring_read_at h (c) = Some (Inr (word_of_nat (off + 4), word_of_nat (length m)))"
    using c
  proof
    assume "w = 0 \<and> load32 (rh_data h) (unat c) = Some (- 1)"
    then show ?thesis using rd ht by (simp add: ring_read_at.simps [of h c])
  qed (use rd in simp)
  show "\<exists>o'. ring_shift_offset h (c) = Some o' \<and>
              unat o' = rb_wrap (off + align8 (length m + 4)) (unat (rh_size h))"
    using c
  proof
    assume "w = 0 \<and> load32 (rh_data h) (unat c) = Some (- 1)"
    then show ?thesis using sh by (simp add: ring_shift_offset.simps [of h c])
  qed (use sh in simp)
  show "off + 4 + length m \<le> length (rh_data h)"
    using assms(1) by (simp add: rb_front_def load_bytes_def split: if_splits)
qed

lemma ring_front_cases:
  assumes "rb_front (core_of h) off m" and "rb_geom (core_of h)"
  shows "ring_read_at h (rh_head h) = Some (Inr (word_of_nat (off + 4), word_of_nat (length m)))"
    and "\<exists>o'. ring_shift_offset h (rh_head h) = Some o' \<and>
              unat o' = rb_wrap (off + align8 (length m + 4)) (unat (rh_size h))"
    and "off + 4 + length m \<le> length (rh_data h)"
  using ring_front_at [where h = h and c = "rh_head h" and off = off and m = m] assms
  by (simp_all flip: core_of_simps)

lemma ring_read_ok:
  assumes "ring_ok h (m # ms)"
  shows "\<exists>p n. ring_read h = Some (Inr (p, n)) \<and> unat n = length m \<and>
               load_bytes (rh_data h) (unat p) (length m) = Some m"
proof -
  obtain off where f: "rb_front (core_of h) off m"
    using rb_ok_front [OF ring_ok_core [OF assms]] by blast
  note fc = ring_front_cases [OF f ring_ok_geom [OF assms]]
  have size: "length (rh_data h) < 2 ^ 31" using ring_ok_geom [OF assms] by (simp add: rb_geom_def)
  have "unat (word_of_nat (off + 4) :: size_t) = off + 4" "unat (word_of_nat (length m) :: size_t) = length m"
    using fc(3) size by (simp_all add: unat_of_nat del: of_nat_add)
  then show ?thesis using fc(1) f by (simp add: ring_read_def rb_front_def del: of_nat_add)
qed

lemma ring_read_empty: "ring_ok h [] \<Longrightarrow> ring_read h = Some (Inl EAGAIN)"
  using rb_ok_Nil [OF ring_ok_core [of h "[]"]]
  by (simp add: ring_read_def ring_read_at.simps word_unat_eq_iff)

lemma ring_shift_ok:
  assumes "ring_ok h (m # ms)"
  shows "\<exists>off. ring_shift h = Some (Inr (h\<lparr>rh_generation_pre := rh_generation_pre h + 1, rh_head := off,
                 rh_generation_post := rh_generation_pre h + 1\<rparr>)) \<and>
               rb_ok ((core_of h)\<lparr>rb_head := unat off\<rparr>) ms \<and> rb_adv (core_of h) (unat off) \<and>
               rb_shift_offset (core_of h) (unat (rh_head h)) = Some (unat off)"
proof -
  obtain o1 where f: "rb_front (core_of h) o1 m" and d: "rb_ok (rb_drop (core_of h) o1 m) ms"
    and adv: "rb_adv (core_of h) (rb_head (rb_drop (core_of h) o1 m))"
    using rb_ok_front [OF ring_ok_core [OF assms]] by blast
  obtain off where o: "ring_shift_offset h (rh_head h) = Some off"
    and uo: "unat off = rb_head (rb_drop (core_of h) o1 m)"
    using ring_front_cases(2) [OF f ring_ok_geom [OF assms]] by (auto simp: rb_drop_def)
  have "unat off < 2 ^ 31"
    using rb_ok_geom [OF d] uo by (simp add: rb_geom_def rb_drop_def)
  then have "\<not> off <s 0" by (intro not_sless_zero64) simp
  moreover have "rh_head h \<noteq> rh_tail h" using f by (auto simp: rb_front_def)
  ultimately show ?thesis
    using o d adv uo rb_front_shift_offset [OF f]
    by (intro exI [of _ off]) (simp add: ring_shift_def Let_def rb_drop_def)
qed

lemma ring_shift_empty: "ring_ok h [] \<Longrightarrow> ring_shift h = Some (Inl EAGAIN)"
  using rb_ok_Nil [OF ring_ok_core [of h "[]"]] by (simp add: ring_shift_def word_unat_eq_iff)

text \<open>Messages up to this length are safe from the 32-bit truncation in \<open>size_aligned\<close>.\<close>

definition ring_max :: nat where
  "ring_max = 2 ^ 31 - 12"

lemma align8_ring_max: "n \<le> ring_max \<Longrightarrow> align8 (n + 4) < 2 ^ 31"
  using align8_mono [of "n + 4" "2 ^ 31 - 8"] by (simp add: ring_max_def align8_def)

lemma ring_reserve_ok:
  assumes "rb_geom (core_of h)" and "ring_write_begin h sz = Inr p" and "unat sz \<le> ring_max"
  shows "rb_reserved (core_of h) (unat p) (unat sz)"
  using rb_write_begin_reserved [OF assms(1), of "unat sz" "unat p"]
    ring_write_begin_core [OF assms(1) align8_ring_max [OF assms(3)]] assms(2) by simp

lemma ring_fill_ok:
  assumes "ring_ok h ms" and "rb_reserved (core_of h) (unat p) n" and "length m \<le> n"
  shows "\<exists>d. ring_fill h p m = Some (h\<lparr>rh_data := d\<rparr>) \<and> ring_ok (h\<lparr>rh_data := d\<rparr>) ms \<and>
             load_bytes d (unat p) (length m) = Some m \<and> rb_used_agree (core_of h) d"
  using rb_fill_ok [OF ring_ok_core [OF assms(1)] assms(2,3)] assms(1)
  by (auto simp: ring_fill_def ring_ok_def)

lemma ring_write_end_gen:
  "ring_write_end h p sz = Some h' \<Longrightarrow>
   rh_generation_pre h' = rh_generation_pre h \<and> rh_generation_post h' = rh_generation_post h \<and>
   rh_head h' = rh_head h \<and> rh_size h' = rh_size h"
  by (auto simp: ring_write_end_def Let_def split: if_splits option.splits)

lemma ring_publish_ok:
  assumes ok: "ring_ok h ms" and res: "rb_reserved (core_of h) (unat p) n" and len: "length m \<le> n"
    and filled: "load_bytes (rh_data h) (unat p) (length m) = Some m" and max: "length m \<le> ring_max"
  shows "\<exists>h'. ring_write_end h p (word_of_nat (length m)) = Some h' \<and> ring_ok h' (ms @ [m]) \<and>
              rb_used_agree (core_of h) (rh_data h') \<and> rh_head h' = rh_head h"
proof -
  have l: "unat (word_of_nat (length m) :: size_t) = length m"
    using max by (simp add: unat_of_nat ring_max_def)
  obtain r' where r': "rb_write_end (core_of h) (unat p) (length m) = Some r'" "rb_ok r' (ms @ [m])"
    "rb_used_agree (core_of h) (rb_data r')"
    using rb_write_end_ok [OF ring_ok_core [OF ok] res len] filled by auto
  then obtain h' where "ring_write_end h p (word_of_nat (length m)) = Some h'" "core_of h' = r'"
    using ring_write_end_core [OF ring_ok_geom [OF ok], of "word_of_nat (length m)" p] l
      align8_ring_max [OF max] by (cases "ring_write_end h p (word_of_nat (length m))") auto
  then show ?thesis
    using r' ok ring_write_end_gen by (fastforce simp: ring_ok_def)
qed

lemma ring_write_frame:
  assumes ok: "ring_ok h ms" and max: "length m \<le> ring_max"
  shows "(\<exists>e. ring_write h m = Some (Inl e)) \<or>
         (\<exists>h'. ring_write h m = Some (Inr h') \<and> ring_ok h' (ms @ [m]) \<and> rh_head h' = rh_head h \<and>
               rh_generation_pre h' = rh_generation_pre h \<and> rb_used_agree (core_of h) (rh_data h'))"
proof (cases "ring_write_begin h (word_of_nat (length m))")
  case (Inl e)
  then show ?thesis by (simp add: ring_write_def)
next
  case (Inr p)
  have l: "unat (word_of_nat (length m) :: size_t) = length m"
    using max by (simp add: unat_of_nat ring_max_def)
  have res: "rb_reserved (core_of h) (unat p) (length m)"
    using ring_reserve_ok [OF ring_ok_geom [OF ok] Inr] l max by simp
  obtain d where d: "ring_fill h p m = Some (h\<lparr>rh_data := d\<rparr>)" "ring_ok (h\<lparr>rh_data := d\<rparr>) ms"
    "load_bytes d (unat p) (length m) = Some m" "rb_used_agree (core_of h) d"
    using ring_fill_ok [OF ok res] by blast
  then obtain h' where h': "ring_write_end (h\<lparr>rh_data := d\<rparr>) p (word_of_nat (length m)) = Some h'"
    "ring_ok h' (ms @ [m])" "rb_used_agree ((core_of h)\<lparr>rb_data := d\<rparr>) (rh_data h')"
    using ring_publish_ok [OF d(2), of p "length m" m] res max by auto
  have "rb_used_agree (core_of h) (rh_data h')" by (rule rb_used_agree_trans [OF d(4) h'(3)])
  then show ?thesis using Inr d h' ring_write_end_gen [OF h'(1)] by (simp add: ring_write_def)
qed

lemma ring_write_ok:
  assumes "ring_ok h ms" and "length m \<le> ring_max"
  shows "(\<exists>e. ring_write h m = Some (Inl e)) \<or> (\<exists>h'. ring_write h m = Some (Inr h') \<and> ring_ok h' (ms @ [m]))"
  using ring_write_frame [OF assms] by blast

text \<open>What the consumer sees at the pointer \<open>ring_read\<close> returns.\<close>

definition ring_peek :: "ring_header_t \<Rightarrow> (errno + byte list) option" where
  "ring_peek h = Option.bind (ring_read h) (\<lambda>r. case r of
      Inl e \<Rightarrow> Some (Inl e)
    | Inr (p, n) \<Rightarrow> map_option Inr (load_bytes (rh_data h) (unat p) (unat n)))"

interpretation ring_queue: fifo_queue ring_write ring_peek ring_shift ring_ok "\<lambda>m. length m \<le> ring_max"
proof unfold_locales
  fix h :: ring_header_t and ms m
  show "ring_ok h ms \<Longrightarrow> length m \<le> ring_max \<Longrightarrow> (\<exists>e. ring_write h m = Some (Inl e)) \<or>
      (\<exists>h'. ring_write h m = Some (Inr h') \<and> ring_ok h' (ms @ [m]))"
    by (rule ring_write_ok)
  show "ring_ok h [] \<Longrightarrow> \<exists>e. ring_peek h = Some (Inl e)"
    by (simp add: ring_peek_def ring_read_empty)
  show "ring_ok h (m # ms) \<Longrightarrow> ring_peek h = Some (Inr m)"
    by (auto simp: ring_peek_def dest: ring_read_ok)
  show "ring_ok h (m # ms) \<Longrightarrow> \<exists>h'. ring_shift h = Some (Inr h') \<and> ring_ok h' ms"
    by (drule ring_shift_ok) (auto simp: ring_ok_def)
qed

lemma ring_init_ok:
  assumes "length d = unat n" and "unat n < 2 ^ 31" and "0 < n" and "unat n mod 8 = 0 \<or> 4 \<le> unat n mod 8"
  shows "\<exists>h. ring_init (\<lambda>_. Some (v, d)) n None = Inr h \<and> ring_ok h [] \<and> rh_size h = n \<and> rh_data h = d"
  using assms by (simp add: ring_init_def ring_ok_def rb_ok_def rb_geom_def word_gt_0 unat_gt_0 core_of_def)

section \<open>Producer and consumer interleaved\<close>

text \<open>
  The producer reserves, copies and publishes in separate steps; the consumer obtains a pointer
  and releases it in separate steps, and copies the payload as late as possible, just before
  \<open>ring_shift\<close>. Steps of the two sides interleave in any order. The atomic loads and stores of
  \<open>head\<close> and \<open>tail\<close> are sequentially consistent here, which the acquire/release pairs of the code
  provide for one producer and one consumer. \<open>rs_sent\<close> and \<open>rs_recv\<close> record the messages
  published and consumed.
\<close>

datatype writer_phase = WIdle | WReserved size_t size_t | WFilled size_t size_t "byte list"
datatype reader_phase = RIdle | RHold size_t size_t

record ring_sys =
  rs_ring :: ring_header_t
  rs_writer :: writer_phase
  rs_reader :: reader_phase
  rs_sent :: "byte list list"
  rs_recv :: "byte list list"

inductive ring_sys_step :: "ring_sys \<Rightarrow> ring_sys \<Rightarrow> bool" where
  w_begin: "rs_writer s = WIdle \<Longrightarrow> unat sz \<le> ring_max \<Longrightarrow> ring_write_begin (rs_ring s) sz = Inr p \<Longrightarrow>
     ring_sys_step s (s\<lparr>rs_writer := WReserved p sz\<rparr>)"
| w_fill: "rs_writer s = WReserved p sz \<Longrightarrow> length m \<le> unat sz \<Longrightarrow> ring_fill (rs_ring s) p m = Some h \<Longrightarrow>
     ring_sys_step s (s\<lparr>rs_ring := h, rs_writer := WFilled p sz m\<rparr>)"
| w_end: "rs_writer s = WFilled p sz m \<Longrightarrow>
     ring_write_end (rs_ring s) p (word_of_nat (length m)) = Some h \<Longrightarrow>
     ring_sys_step s (s\<lparr>rs_ring := h, rs_writer := WIdle, rs_sent := rs_sent s @ [m]\<rparr>)"
| r_read: "rs_reader s = RIdle \<Longrightarrow> ring_read (rs_ring s) = Some (Inr (p, n)) \<Longrightarrow>
     ring_sys_step s (s\<lparr>rs_reader := RHold p n\<rparr>)"
| r_done: "rs_reader s = RHold p n \<Longrightarrow> load_bytes (rh_data (rs_ring s)) (unat p) (unat n) = Some m \<Longrightarrow>
     ring_shift (rs_ring s) = Some (Inr h) \<Longrightarrow>
     ring_sys_step s (s\<lparr>rs_ring := h, rs_reader := RIdle, rs_recv := rs_recv s @ [m]\<rparr>)"

definition ring_sys_init :: "ring_header_t \<Rightarrow> ring_sys" where
  "ring_sys_init h = \<lparr>rs_ring = h, rs_writer = WIdle, rs_reader = RIdle, rs_sent = [], rs_recv = []\<rparr>"

inductive ring_sys_reach :: "ring_header_t \<Rightarrow> ring_sys \<Rightarrow> bool" for h0 where
  start: "ring_sys_reach h0 (ring_sys_init h0)"
| step: "ring_sys_reach h0 s \<Longrightarrow> ring_sys_step s t \<Longrightarrow> ring_sys_reach h0 t"

fun writer_inv :: "ring_header_t \<Rightarrow> writer_phase \<Rightarrow> bool" where
  "writer_inv h WIdle \<longleftrightarrow> True"
| "writer_inv h (WReserved p sz) \<longleftrightarrow> unat sz \<le> ring_max \<and> rb_reserved (core_of h) (unat p) (unat sz)"
| "writer_inv h (WFilled p sz m) \<longleftrightarrow> unat sz \<le> ring_max \<and> rb_reserved (core_of h) (unat p) (unat sz) \<and>
     length m \<le> unat sz \<and> load_bytes (rh_data h) (unat p) (length m) = Some m"

fun reader_inv :: "ring_header_t \<Rightarrow> byte list list \<Rightarrow> reader_phase \<Rightarrow> bool" where
  "reader_inv h ms RIdle \<longleftrightarrow> True"
| "reader_inv h ms (RHold p n) \<longleftrightarrow> ms \<noteq> [] \<and> ring_read h = Some (Inr (p, n))"

definition ring_sys_inv :: "ring_sys \<Rightarrow> bool" where
  "ring_sys_inv s \<longleftrightarrow> (\<exists>ms. rs_sent s = rs_recv s @ ms \<and> ring_ok (rs_ring s) ms \<and>
     writer_inv (rs_ring s) (rs_writer s) \<and> reader_inv (rs_ring s) ms (rs_reader s))"

lemma ring_ok_hold:
  assumes "ring_ok h (m # ms)" and "ring_read h = Some (Inr (p, n))"
  shows "unat n = length m" and "load_bytes (rh_data h) (unat p) (unat n) = Some m"
  using ring_read_ok [OF assms(1)] assms(2) by auto

lemma ring_read_stable:
  assumes ok: "ring_ok h (m # ms)" and ok': "ring_ok h' (m # ms')" and hd: "rh_head h' = rh_head h"
    and agr: "rb_used_agree (core_of h) (rh_data h')"
  shows "ring_read h' = ring_read h"
proof -
  obtain off where f: "rb_front (core_of h) off m"
    using rb_ok_front [OF ring_ok_core [OF ok]] by blast
  obtain off' where f': "rb_front (core_of h') off' m"
    using rb_ok_front [OF ring_ok_core [OF ok']] by blast
  have "off' = off"
    using rb_front_stable [OF ring_ok_core [OF ok] ring_ok_core [OF ok'] _ _ f f'] hd agr by simp
  then show ?thesis
    using ring_front_cases(1) [OF f ring_ok_geom [OF ok]] ring_front_cases(1) [OF f' ring_ok_geom [OF ok']]
    by (simp add: ring_read_def)
qed

lemma reader_inv_stable:
  assumes "ring_ok h ms" and "ring_ok h' (ms @ ms')" and "rh_head h' = rh_head h"
    and "rb_used_agree (core_of h) (rh_data h')" and "reader_inv h ms ph"
  shows "reader_inv h' (ms @ ms') ph"
  using assms ring_read_stable by (cases ph; cases ms) auto

lemma ring_sys_inv_fill:
  assumes inv: "ring_sys_inv s" and w: "rs_writer s = WReserved p sz" and len: "length m \<le> unat sz"
  shows "\<exists>h. ring_fill (rs_ring s) p m = Some h \<and>
             ring_sys_inv (s\<lparr>rs_ring := h, rs_writer := WFilled p sz m\<rparr>)"
proof -
  obtain ms where ms: "rs_sent s = rs_recv s @ ms" "ring_ok (rs_ring s) ms"
    and res: "unat sz \<le> ring_max" "rb_reserved (core_of (rs_ring s)) (unat p) (unat sz)"
    and rd: "reader_inv (rs_ring s) ms (rs_reader s)"
    using inv w by (auto simp: ring_sys_inv_def)
  obtain d where d: "ring_fill (rs_ring s) p m = Some ((rs_ring s)\<lparr>rh_data := d\<rparr>)"
    "ring_ok ((rs_ring s)\<lparr>rh_data := d\<rparr>) ms" "load_bytes d (unat p) (length m) = Some m"
    "rb_used_agree (core_of (rs_ring s)) d"
    using ring_fill_ok [OF ms(2) res(2) len] by blast
  have "reader_inv ((rs_ring s)\<lparr>rh_data := d\<rparr>) ms (rs_reader s)"
    using reader_inv_stable [OF ms(2), of _ "[]"] d rd by simp
  then have "ring_sys_inv (s\<lparr>rs_ring := (rs_ring s)\<lparr>rh_data := d\<rparr>, rs_writer := WFilled p sz m\<rparr>)"
    using ms res d len unfolding ring_sys_inv_def by (intro exI [of _ ms]) simp
  with d show ?thesis by blast
qed

lemma ring_sys_inv_end:
  assumes inv: "ring_sys_inv s" and w: "rs_writer s = WFilled p sz m"
  shows "\<exists>h. ring_write_end (rs_ring s) p (word_of_nat (length m)) = Some h \<and>
             ring_sys_inv (s\<lparr>rs_ring := h, rs_writer := WIdle, rs_sent := rs_sent s @ [m]\<rparr>)"
proof -
  obtain ms where ms: "rs_sent s = rs_recv s @ ms" "ring_ok (rs_ring s) ms"
    and res: "unat sz \<le> ring_max" "rb_reserved (core_of (rs_ring s)) (unat p) (unat sz)"
      "length m \<le> unat sz" "load_bytes (rh_data (rs_ring s)) (unat p) (length m) = Some m"
    and rd: "reader_inv (rs_ring s) ms (rs_reader s)"
    using inv w by (auto simp: ring_sys_inv_def)
  obtain h where h: "ring_write_end (rs_ring s) p (word_of_nat (length m)) = Some h"
    "ring_ok h (ms @ [m])" "rb_used_agree (core_of (rs_ring s)) (rh_data h)" "rh_head h = rh_head (rs_ring s)"
    using ring_publish_ok [OF ms(2) res(2,3,4)] res(1,3) by auto
  have "reader_inv h (ms @ [m]) (rs_reader s)"
    using reader_inv_stable [OF ms(2) h(2) h(4) h(3) rd] .
  then show ?thesis using h ms unfolding ring_sys_inv_def by fastforce
qed

lemma writer_inv_shift:
  assumes "rb_geom (core_of h)" and "writer_inv h ph" and "rb_adv (core_of h) (unat off)"
  shows "writer_inv (h\<lparr>rh_generation_pre := g, rh_head := off, rh_generation_post := g\<rparr>) ph"
  using assms rb_reserved_adv by (cases ph) auto

lemma ring_sys_inv_done:
  assumes inv: "ring_sys_inv s" and r: "rs_reader s = RHold p n"
  shows "\<exists>h m. load_bytes (rh_data (rs_ring s)) (unat p) (unat n) = Some m \<and>
             ring_shift (rs_ring s) = Some (Inr h) \<and>
             ring_sys_inv (s\<lparr>rs_ring := h, rs_reader := RIdle, rs_recv := rs_recv s @ [m]\<rparr>)"
proof -
  obtain m ms where ms: "rs_sent s = rs_recv s @ m # ms" "ring_ok (rs_ring s) (m # ms)"
    and wr: "writer_inv (rs_ring s) (rs_writer s)" and rd: "ring_read (rs_ring s) = Some (Inr (p, n))"
    using inv r by (auto simp: ring_sys_inv_def neq_Nil_conv)
  define h where "h off = (rs_ring s)\<lparr>rh_generation_pre := rh_generation_pre (rs_ring s) + 1, rh_head := off,
    rh_generation_post := rh_generation_pre (rs_ring s) + 1\<rparr>" for off
  obtain off where sh: "ring_shift (rs_ring s) = Some (Inr (h off))"
    and ok: "rb_ok ((core_of (rs_ring s))\<lparr>rb_head := unat off\<rparr>) ms"
    and adv: "rb_adv (core_of (rs_ring s)) (unat off)"
    using ring_shift_ok [OF ms(2)] by (auto simp: h_def)
  have "ring_ok (h off) ms" using ok by (simp add: ring_ok_def h_def)
  moreover have "writer_inv (h off) (rs_writer s)"
    unfolding h_def by (rule writer_inv_shift [OF ring_ok_geom [OF ms(2)] wr adv])
  ultimately have "ring_sys_inv (s\<lparr>rs_ring := h off, rs_reader := RIdle, rs_recv := rs_recv s @ [m]\<rparr>)"
    using ms(1) by (simp add: ring_sys_inv_def)
  then show ?thesis using sh ring_ok_hold(2) [OF ms(2) rd] by blast
qed

lemma ring_sys_step_inv: "ring_sys_step s t \<Longrightarrow> ring_sys_inv s \<Longrightarrow> ring_sys_inv t"
proof (induction rule: ring_sys_step.induct)
  case (w_begin s sz p)
  then show ?case using ring_reserve_ok ring_ok_geom by (fastforce simp: ring_sys_inv_def)
next
  case (w_fill s p sz m h)
  then show ?case using ring_sys_inv_fill [of s p sz m] by auto
next
  case (w_end s p sz m h)
  then show ?case using ring_sys_inv_end [of s p sz m] by auto
next
  case (r_read s p n)
  then obtain ms where "rs_sent s = rs_recv s @ ms" "ring_ok (rs_ring s) ms" "writer_inv (rs_ring s) (rs_writer s)"
    by (auto simp: ring_sys_inv_def)
  moreover from this have "ms \<noteq> []" using ring_read_empty r_read by fastforce
  ultimately show ?case using r_read by (auto simp: ring_sys_inv_def)
next
  case (r_done s p n m h)
  then show ?case using ring_sys_inv_done [of s p n] by auto
qed

lemma ring_sys_reach_inv: "ring_sys_reach h0 s \<Longrightarrow> ring_ok h0 [] \<Longrightarrow> ring_sys_inv s"
proof (induction rule: ring_sys_reach.induct)
  case start
  then show ?case by (simp add: ring_sys_inv_def ring_sys_init_def)
next
  case (step s t)
  then show ?case by (blast intro: ring_sys_step_inv)
qed

section \<open>Subscribers\<close>

text \<open>
  A publisher writes messages and drops old ones; a subscriber walks behind with an iterator.
  Message number \<open>i\<close> is the \<open>i\<close>-th of \<open>ps_all\<close>, and the generation counter of the head is the
  number of messages dropped so far. The 64-bit counter does not wrap.
\<close>

record pub_sys =
  ps_ring :: ring_header_t
  ps_all :: "byte list list"
  ps_iter :: ringiter_t

inductive publisher_step :: "pub_sys \<Rightarrow> pub_sys \<Rightarrow> bool" where
  publish: "length m \<le> ring_max \<Longrightarrow> Suc (length (ps_all s)) < 2 ^ 64 \<Longrightarrow>
     ring_write (ps_ring s) m = Some (Inr h) \<Longrightarrow>
     publisher_step s (s\<lparr>ps_ring := h, ps_all := ps_all s @ [m]\<rparr>)"
| release: "ring_shift (ps_ring s) = Some (Inr h) \<Longrightarrow> publisher_step s (s\<lparr>ps_ring := h\<rparr>)"

inductive subscriber_step :: "pub_sys \<Rightarrow> pub_sys \<Rightarrow> bool" where
  iter_start: "ring_iter_init (ps_ring s) = Inr it \<Longrightarrow> subscriber_step s (s\<lparr>ps_iter := it\<rparr>)"
| iter_next: "ring_iter_shift (ps_ring s) (ps_ring s) (ps_iter s) = Some (Inr it) \<Longrightarrow>
     subscriber_step s (s\<lparr>ps_iter := it\<rparr>)"

definition pub_sys_init :: "ring_header_t \<Rightarrow> pub_sys" where
  "pub_sys_init h = \<lparr>ps_ring = h, ps_all = [],
                     ps_iter = \<lparr>ri_generation = rh_generation_post h, ri_offset = rh_head h\<rparr>\<rparr>"

inductive pub_reach :: "ring_header_t \<Rightarrow> pub_sys \<Rightarrow> bool" for h0 where
  pub_start: "pub_reach h0 (pub_sys_init h0)"
| pub_publisher: "pub_reach h0 s \<Longrightarrow> publisher_step s t \<Longrightarrow> pub_reach h0 t"
| pub_subscriber: "pub_reach h0 s \<Longrightarrow> subscriber_step s t \<Longrightarrow> pub_reach h0 t"

abbreviation dropped :: "pub_sys \<Rightarrow> nat" where
  "dropped s \<equiv> unat (rh_generation_pre (ps_ring s))"

definition iter_at :: "ring_header_t \<Rightarrow> nat \<Rightarrow> ringiter_t \<Rightarrow> bool" where
  "iter_at h n it \<longleftrightarrow> unat (rh_generation_pre h) \<le> unat (ri_generation it) \<longrightarrow>
     unat (ri_generation it) \<le> n \<and>
     rb_walk (core_of h) (unat (ri_generation it) - unat (rh_generation_pre h)) = Some (unat (ri_offset it))"

definition pub_inv :: "pub_sys \<Rightarrow> bool" where
  "pub_inv s \<longleftrightarrow> length (ps_all s) < 2 ^ 64 \<and> dropped s \<le> length (ps_all s) \<and>
     ring_ok (ps_ring s) (drop (dropped s) (ps_all s)) \<and>
     iter_at (ps_ring s) (length (ps_all s)) (ps_iter s)"

lemma iter_at_ok:
  assumes "ring_ok h (drop (unat (rh_generation_pre h)) ms)" and "unat (rh_generation_pre h) \<le> unat (ri_generation it)"
    and "iter_at h (length ms) it"
  shows "rb_ok ((core_of h)\<lparr>rb_head := unat (ri_offset it)\<rparr>) (drop (unat (ri_generation it)) ms)"
  using rb_walk_ok [OF ring_ok_core [OF assms(1)], of "unat (ri_generation it) - unat (rh_generation_pre h)"]
    assms(2,3) by (auto simp: iter_at_def)

lemma pub_write_frame:
  assumes "pub_inv s" and "length m \<le> ring_max" and "ring_write (ps_ring s) m = Some (Inr h)"
  shows "ring_ok h (drop (dropped s) (ps_all s) @ [m])" and "rh_head h = rh_head (ps_ring s)"
    and "rh_generation_pre h = rh_generation_pre (ps_ring s)"
    and "rb_used_agree (core_of (ps_ring s)) (rh_data h)"
  using ring_write_frame [of "ps_ring s" "drop (dropped s) (ps_all s)" m] assms by (auto simp: pub_inv_def)

lemma pub_inv_publish:
  assumes inv: "pub_inv s" and m: "length m \<le> ring_max" "Suc (length (ps_all s)) < 2 ^ 64"
    and w: "ring_write (ps_ring s) m = Some (Inr h)"
  shows "pub_inv (s\<lparr>ps_ring := h, ps_all := ps_all s @ [m]\<rparr>)"
proof -
  let ?ms = "drop (dropped s) (ps_all s)"
  have ok: "ring_ok (ps_ring s) ?ms" and le: "dropped s \<le> length (ps_all s)"
    and it: "iter_at (ps_ring s) (length (ps_all s)) (ps_iter s)"
    using inv by (simp_all add: pub_inv_def)
  note h = pub_write_frame [OF inv m(1) w]
  have "rb_walk (core_of h) k = rb_walk (core_of (ps_ring s)) k" if "k \<le> length ?ms" for k
    using rb_walk_stable [OF ring_ok_core [OF ok] ring_ok_core [OF h(1)]] h that by simp
  then have "iter_at h (Suc (length (ps_all s))) (ps_iter s)"
    using it h(3) by (auto simp: iter_at_def)
  then show ?thesis using h m le by (simp add: pub_inv_def)
qed

lemma release_dropped:
  assumes inv: "pub_inv s" and sh: "ring_shift (ps_ring s) = Some (Inr h)"
  shows "dropped s < length (ps_all s)" and "unat (rh_generation_pre h) = Suc (dropped s)"
proof -
  have "drop (dropped s) (ps_all s) \<noteq> []"
    using inv sh ring_shift_empty [of "ps_ring s"] by (auto simp: pub_inv_def)
  then show lt: "dropped s < length (ps_all s)" by simp
  have "rh_generation_pre h = rh_generation_pre (ps_ring s) + 1"
    using sh by (auto simp: ring_shift_def Let_def split: if_splits)
  then show "unat (rh_generation_pre h) = Suc (dropped s)"
    using lt inv by (simp add: pub_inv_def unat_word_ariths)
qed

lemma pub_inv_release:
  assumes inv: "pub_inv s" and sh: "ring_shift (ps_ring s) = Some (Inr h)"
  shows "pub_inv (s\<lparr>ps_ring := h\<rparr>)"
proof -
  note lt = release_dropped(1) [OF inv sh] and g = release_dropped(2) [OF inv sh]
  have ok: "ring_ok (ps_ring s) (drop (dropped s) (ps_all s))" and n: "length (ps_all s) < 2 ^ 64"
    and it: "iter_at (ps_ring s) (length (ps_all s)) (ps_iter s)"
    using inv by (simp_all add: pub_inv_def)
  obtain m where d: "drop (dropped s) (ps_all s) = m # drop (Suc (dropped s)) (ps_all s)"
    using lt by (metis Cons_nth_drop_Suc)
  obtain off where off: "h = (ps_ring s)\<lparr>rh_generation_pre := rh_generation_pre (ps_ring s) + 1, rh_head := off,
                 rh_generation_post := rh_generation_pre (ps_ring s) + 1\<rparr>"
    "rb_ok ((core_of (ps_ring s))\<lparr>rb_head := unat off\<rparr>) (drop (Suc (dropped s)) (ps_all s))"
    "rb_shift_offset (core_of (ps_ring s)) (unat (rh_head (ps_ring s))) = Some (unat off)"
    using ring_shift_ok [OF ok [unfolded d]] sh by auto
  have c: "core_of h = (core_of (ps_ring s))\<lparr>rb_head := unat off\<rparr>" using off(1) by simp
  have walk: "rb_walk (core_of (ps_ring s)) (Suc k) = rb_walk (core_of h) k" for k
    using off(3) c by simp
  have "iter_at h (length (ps_all s)) (ps_iter s)"
    unfolding iter_at_def
  proof
    assume le: "unat (rh_generation_pre h) \<le> unat (ri_generation (ps_iter s))"
    then have "unat (ri_generation (ps_iter s)) - dropped s =
               Suc (unat (ri_generation (ps_iter s)) - unat (rh_generation_pre h))"
      using g by simp
    then show "unat (ri_generation (ps_iter s)) \<le> length (ps_all s) \<and>
       rb_walk (core_of h) (unat (ri_generation (ps_iter s)) - unat (rh_generation_pre h)) =
       Some (unat (ri_offset (ps_iter s)))"
      using it le g walk by (simp add: iter_at_def del: rb_walk.simps)
  qed
  then show ?thesis using lt n g off by (simp add: pub_inv_def ring_ok_def)
qed

lemma iter_slot:
  assumes "pub_inv s" and "dropped s \<le> unat (ri_generation (ps_iter s))"
    and "ri_offset (ps_iter s) \<noteq> rh_tail (ps_ring s)"
  shows "unat (ri_generation (ps_iter s)) < length (ps_all s)"
    and "\<exists>off. rb_front ((core_of (ps_ring s))\<lparr>rb_head := unat (ri_offset (ps_iter s))\<rparr>) off
                 (ps_all s ! unat (ri_generation (ps_iter s)))"
    and "rb_geom ((core_of (ps_ring s))\<lparr>rb_head := unat (ri_offset (ps_iter s))\<rparr>)"
proof -
  let ?r = "(core_of (ps_ring s))\<lparr>rb_head := unat (ri_offset (ps_iter s))\<rparr>"
  let ?g = "unat (ri_generation (ps_iter s))"
  have ok: "rb_ok ?r (drop ?g (ps_all s))"
    using iter_at_ok assms(1,2) by (simp add: pub_inv_def)
  then show "rb_geom ?r" by (rule rb_ok_geom)
  have "drop ?g (ps_all s) \<noteq> []"
    using rb_ok_empty_iff [OF ok] assms(3) by (simp add: word_unat_eq_iff)
  then show lt: "?g < length (ps_all s)" by simp
  then show "\<exists>off. rb_front ?r off (ps_all s ! ?g)"
    using rb_ok_front ok by (metis Cons_nth_drop_Suc)
qed

lemma iter_end:
  assumes "pub_inv s" and "dropped s \<le> unat (ri_generation (ps_iter s))"
  shows "ri_offset (ps_iter s) = rh_tail (ps_ring s) \<longleftrightarrow> unat (ri_generation (ps_iter s)) = length (ps_all s)"
proof -
  have "rb_ok ((core_of (ps_ring s))\<lparr>rb_head := unat (ri_offset (ps_iter s))\<rparr>)
          (drop (unat (ri_generation (ps_iter s))) (ps_all s))"
    using iter_at_ok assms by (simp add: pub_inv_def)
  from rb_ok_empty_iff [OF this] show ?thesis
    using assms by (auto simp: pub_inv_def iter_at_def word_unat_eq_iff)
qed

lemma iter_read_ok:
  assumes inv: "pub_inv s"
  shows "if unat (ri_generation (ps_iter s)) < dropped s
         then ring_iter_read (ps_ring s) (ps_ring s) (ps_iter s) = Some (Inl EINVAL)
         else if unat (ri_generation (ps_iter s)) = length (ps_all s)
         then ring_iter_read (ps_ring s) (ps_ring s) (ps_iter s) = Some (Inl EAGAIN)
         else (\<exists>p n. ring_iter_read (ps_ring s) (ps_ring s) (ps_iter s) = Some (Inr (p, n)) \<and>
                load_bytes (rh_data (ps_ring s)) (unat p) (unat n) =
                  Some (ps_all s ! unat (ri_generation (ps_iter s))))"
proof (cases "unat (ri_generation (ps_iter s)) < dropped s")
  case True
  then show ?thesis by (simp add: ring_iter_read_def ring_iter_invalid_def word_less_nat_alt)
next
  case False
  then have ge: "dropped s \<le> unat (ri_generation (ps_iter s))" by simp
  have valid: "ring_iter_invalid (ps_ring s) (ps_iter s) = None"
    using False by (simp add: ring_iter_invalid_def word_less_nat_alt)
  show ?thesis
  proof (cases "ri_offset (ps_iter s) = rh_tail (ps_ring s)")
    case True
    then show ?thesis
      using False valid iter_end [OF inv ge] by (simp add: ring_iter_read_def ring_read_at.simps)
  next
    case ne: False
    let ?m = "ps_all s ! unat (ri_generation (ps_iter s))"
    note slot = iter_slot [OF inv ge ne]
    obtain off where f: "rb_front ((core_of (ps_ring s))\<lparr>rb_head := unat (ri_offset (ps_iter s))\<rparr>) off ?m"
      using slot(2) by blast
    note at = ring_front_at [OF f slot(3)]
    have "length (rh_data (ps_ring s)) < 2 ^ 31" using slot(3) by (simp add: rb_geom_def)
    then have u: "unat (word_of_nat (off + 4) :: size_t) = off + 4" "unat (word_of_nat (length ?m) :: size_t) = length ?m"
      using at(3) by (simp_all add: unat_of_nat del: of_nat_add)
    have "load_bytes (rh_data (ps_ring s)) (off + 4) (length ?m) = Some ?m"
      using f by (simp add: rb_front_def)
    then show ?thesis
      using False ne valid at(1) u iter_end [OF inv ge]
      by (simp add: ring_iter_read_def del: of_nat_add)
  qed
qed

lemma pub_inv_next:
  assumes inv: "pub_inv s" and sh: "ring_iter_shift (ps_ring s) (ps_ring s) (ps_iter s) = Some (Inr it)"
  shows "pub_inv (s\<lparr>ps_iter := it\<rparr>)"
proof -
  let ?g = "unat (ri_generation (ps_iter s))" and ?c = "ri_offset (ps_iter s)"
  let ?r = "(core_of (ps_ring s))\<lparr>rb_head := unat ?c\<rparr>"
  have ge: "dropped s \<le> ?g" and ne: "?c \<noteq> rh_tail (ps_ring s)"
    and it: "ri_generation it = ri_generation (ps_iter s) + 1"
    and o: "ring_shift_offset (ps_ring s) ?c = Some (ri_offset it)"
    using sh by (auto simp: ring_iter_shift_def ring_iter_invalid_def word_less_nat_alt split: if_splits)
  note slot = iter_slot [OF inv ge ne]
  obtain off where f: "rb_front ?r off (ps_all s ! ?g)" using slot(2) by blast
  have "unat (ri_offset it) = rb_wrap (off + align8 (length (ps_all s ! ?g) + 4)) (unat (rh_size (ps_ring s)))"
    using ring_front_at(2) [OF f slot(3)] o by simp
  then have "rb_shift_offset ?r (unat ?c) = Some (unat (ri_offset it))"
    using rb_front_shift_offset [OF f] by simp
  moreover have "rb_walk (core_of (ps_ring s)) (?g - dropped s) = Some (unat ?c)"
    using inv ge by (simp add: pub_inv_def iter_at_def)
  ultimately have "rb_walk (core_of (ps_ring s)) (Suc (?g - dropped s)) = Some (unat (ri_offset it))"
    by (simp add: rb_walk_last del: rb_walk.simps)
  moreover have "unat (ri_generation it) = Suc ?g"
    using it slot(1) inv by (simp add: unat_word_ariths pub_inv_def)
  ultimately show ?thesis
    using inv ge slot(1) by (simp add: pub_inv_def iter_at_def Suc_diff_le del: rb_walk.simps)
qed

lemma pub_inv_start:
  assumes "pub_inv s" and "ring_iter_init (ps_ring s) = Inr it"
  shows "pub_inv (s\<lparr>ps_iter := it\<rparr>)"
  using assms by (auto simp: ring_iter_init_def Let_def pub_inv_def iter_at_def split: if_splits)

lemma pub_reach_inv: "pub_reach h0 s \<Longrightarrow> ring_ok h0 [] \<Longrightarrow> rh_generation_pre h0 = 0 \<Longrightarrow> pub_inv s"
proof (induction rule: pub_reach.induct)
  case pub_start
  then show ?case by (simp add: pub_inv_def pub_sys_init_def iter_at_def ring_ok_def)
next
  case (pub_publisher s t)
  from pub_publisher.hyps(2) pub_publisher.IH [OF pub_publisher.prems] show ?case
    by (cases rule: publisher_step.cases) (auto intro: pub_inv_publish pub_inv_release)
next
  case (pub_subscriber s t)
  from pub_subscriber.hyps(2) pub_subscriber.IH [OF pub_subscriber.prems] show ?case
    by (cases rule: subscriber_step.cases) (auto intro: pub_inv_next pub_inv_start)
qed

text \<open>A message a subscriber is looking at stays in place while the publisher works, as long as its
  generation is not dropped.\<close>

abbreviation at_iter :: "pub_sys \<Rightarrow> rb" where
  "at_iter s \<equiv> (core_of (ps_ring s))\<lparr>rb_head := unat (ri_offset (ps_iter s))\<rparr>"

lemma iter_at_between:
  assumes "pub_inv s" and "dropped s \<le> unat (ri_generation (ps_iter s))"
  shows "rb_ok (at_iter s) (drop (unat (ri_generation (ps_iter s))) (ps_all s))"
    and "rb_between (core_of (ps_ring s)) (unat (ri_offset (ps_iter s)))"
proof -
  have ok: "rb_ok (core_of (ps_ring s)) (drop (dropped s) (ps_all s))"
    and w: "rb_walk (core_of (ps_ring s)) (unat (ri_generation (ps_iter s)) - dropped s) = Some (unat (ri_offset (ps_iter s)))"
    and le: "unat (ri_generation (ps_iter s)) \<le> length (ps_all s)"
    using assms by (auto simp: pub_inv_def iter_at_def ring_ok_def)
  then show "rb_ok (at_iter s) (drop (unat (ri_generation (ps_iter s))) (ps_all s))"
    and "rb_between (core_of (ps_ring s)) (unat (ri_offset (ps_iter s)))"
    using rb_walk_ok [OF ok, of "unat (ri_generation (ps_iter s)) - dropped s"] assms(2) by auto
qed

lemma publisher_step_front:
  assumes st: "publisher_step s t" and inv: "pub_inv s" and inv': "pub_inv t"
    and valid: "dropped t \<le> unat (ri_generation (ps_iter s))" and ge: "dropped s \<le> unat (ri_generation (ps_iter s))"
    and lt: "unat (ri_generation (ps_iter s)) < length (ps_all s)"
    and f: "rb_front (at_iter s) off (ps_all s ! unat (ri_generation (ps_iter s)))"
  shows "rb_front (at_iter t) off (ps_all s ! unat (ri_generation (ps_iter s)))"
  using st
proof cases
  case (publish m h)
  let ?g = "unat (ri_generation (ps_iter s))"
  have agr: "rb_used_agree (core_of (ps_ring s)) (rh_data h)"
    using pub_write_frame(4) [OF inv publish(2,4)] .
  have s: "rb_ok (at_iter s) (drop ?g (ps_all s))" "rb_between (core_of (ps_ring s)) (unat (ri_offset (ps_iter s)))"
    using iter_at_between [OF inv ge] by simp_all
  have t: "rb_ok (at_iter t) (drop ?g (ps_all s @ [m]))"
    using iter_at_between(1) [OF inv'] valid publish(1) by simp
  have d: "drop ?g (ps_all s) = ps_all s ! ?g # drop (Suc ?g) (ps_all s)"
    "drop ?g (ps_all s @ [m]) = ps_all s ! ?g # drop (Suc ?g) (ps_all s) @ [m]"
    using lt by (simp_all add: Cons_nth_drop_Suc)
  obtain off' where f': "rb_front (at_iter t) off' (ps_all s ! ?g)"
    using rb_ok_front [OF t [unfolded d]] by blast
  have "off' = off"
    using rb_front_stable [OF s(1) [unfolded d] t [unfolded d] _ _ f f'] rb_between_used [OF agr s(2)] publish(1)
    by simp
  with f' show ?thesis by simp
next
  case (release h)
  have "core_of h = (core_of (ps_ring s))\<lparr>rb_head := unat (rh_head h)\<rparr>"
    using release(2) by (auto simp: ring_shift_def Let_def split: if_splits)
  then have "at_iter t = at_iter s" using release(1) by simp
  with f show ?thesis by simp
qed

lemma publisher_step_inv:
  assumes "publisher_step s t" and "pub_inv s"
  shows "pub_inv t \<and> dropped s \<le> dropped t \<and> ps_iter t = ps_iter s \<and> (\<exists>xs. ps_all t = ps_all s @ xs)"
  using assms(1)
proof cases
  case (publish m h)
  then show ?thesis
    using pub_write_frame(3) [OF assms(2) publish(2,4)] pub_inv_publish [OF assms(2) publish(2,3,4)] by simp
next
  case (release h)
  then show ?thesis using pub_inv_release [OF assms(2)] release_dropped [OF assms(2)] by simp
qed

lemma publisher_steps_inv:
  assumes "publisher_step\<^sup>*\<^sup>* s t" and "pub_inv s"
  shows "pub_inv t \<and> dropped s \<le> dropped t \<and> ps_iter t = ps_iter s \<and> (\<exists>xs. ps_all t = ps_all s @ xs)"
  using assms
proof (induction rule: rtranclp_induct)
  case (step t u)
  then show ?case using publisher_step_inv [OF step.hyps(2)] by fastforce
qed simp

lemma publisher_steps_front:
  assumes "publisher_step\<^sup>*\<^sup>* s t" and "pub_inv s" and "dropped t \<le> unat (ri_generation (ps_iter s))"
    and "unat (ri_generation (ps_iter s)) < length (ps_all s)"
    and "rb_front (at_iter s) off (ps_all s ! unat (ri_generation (ps_iter s)))"
  shows "rb_front (at_iter t) off (ps_all s ! unat (ri_generation (ps_iter s)))"
  using assms
proof (induction rule: rtranclp_induct)
  case (step t u)
  obtain xs where t: "pub_inv t" "ps_iter t = ps_iter s" "ps_all t = ps_all s @ xs"
    using publisher_steps_inv [OF step.hyps(1) step.prems(1)] by blast
  have u: "pub_inv u" "dropped t \<le> dropped u" using publisher_step_inv [OF step.hyps(2) t(1)] by simp_all
  then have "rb_front (at_iter t) off (ps_all t ! unat (ri_generation (ps_iter t)))"
    using step.IH step.prems t by (simp add: nth_append)
  then have "rb_front (at_iter u) off (ps_all t ! unat (ri_generation (ps_iter t)))"
    using publisher_step_front [OF step.hyps(2) t(1) u(1)] step.prems t u(2) by simp
  then show ?case using step.prems(3) t by (simp add: nth_append)
qed simp

section \<open>Free space\<close>

lemma unat_sub16:
  fixes x :: "32 word"
  assumes "unat x < 2 ^ 31"
  shows "unat (if x - 16 <s 0 then 0 else scast (x - 16) :: size_t) = unat x - 16"
proof (cases "unat x < 16")
  case True
  then have "sint (x - 16) < 0"
  proof -
    have "x - 16 = word_of_int (int (unat x) - 16)" by (simp add: word_of_int_minus)
    then have "sint (x - 16) = signed_take_bit 31 (int (unat x) - 16)"
      by (simp add: signed_of_int del: of_int_diff)
    also have "\<dots> = int (unat x) - 16"
    proof (rule signed_take_bit_int_eq_self)
      have "int (unat x) < 16" using True by linarith
      then show "int (unat x) - 16 < 2 ^ 31" by simp
    qed simp
    finally show ?thesis using True by linarith
  qed
  with True show ?thesis by (simp add: word_sless_alt)
next
  case False
  then have u: "unat (x - 16) = unat x - 16" by (subst unat_sub) (simp_all add: word_le_nat_alt)
  then have "\<not> x - 16 <s 0" using assms by (intro not_sless_zero32) simp
  then show ?thesis using u assms by (simp add: unat_scast32_64)
qed

definition rb_available :: "rb \<Rightarrow> nat" where
  "rb_available r = (if rb_tail r < rb_head r then rb_head r - rb_tail r
                     else max (rb_head r) (rb_size r - rb_tail r)) - 16"

lemma ring_available_core:
  assumes "rb_geom (core_of h)"
  shows "unat (ring_available h) = rb_available (core_of h)"
proof -
  have b: "unat (rh_size h) < 2 ^ 31" "unat (rh_head h) < unat (rh_size h)" "unat (rh_tail h) < unat (rh_size h)"
    using assms by (simp_all add: rb_geom_def)
  have lt: "rh_tail h <s rh_head h \<longleftrightarrow> unat (rh_tail h) < unat (rh_head h)"
  proof -
    have "sint (rh_tail h) = int (unat (rh_tail h))" using b by (intro sint_small64) simp
    moreover have "sint (rh_head h) = int (unat (rh_head h))" using b by (intro sint_small64) simp
    ultimately show ?thesis by (simp only: word_sless_alt of_nat_less_iff)
  qed
  define av :: size_t where
    "av = (if rh_tail h <s rh_head h then rh_head h - rh_tail h
           else if rh_size h - rh_tail h < rh_head h then rh_head h else rh_size h - rh_tail h)"
  have av: "unat av = (if unat (rh_tail h) < unat (rh_head h) then unat (rh_head h) - unat (rh_tail h)
              else max (unat (rh_head h)) (unat (rh_size h) - unat (rh_tail h)))"
    using b by (auto simp: av_def lt unat_sub word_le_nat_alt word_less_nat_alt)
  have av31: "unat av < 2 ^ 31" using av b by auto
  then have "unat (ucast av :: i32) = unat av" by (intro unat_ucast64_32) simp
  then have "unat (if (ucast av :: i32) - 16 <s 0 then 0 else scast ((ucast av :: i32) - 16) :: size_t) = unat av - 16"
    using unat_sub16 [of "ucast av"] av31 by simp
  moreover have "ring_available h = (if (ucast av :: i32) - 16 <s 0 then 0 else scast ((ucast av :: i32) - 16))"
    unfolding ring_available_def Let_def av_def ring_align_def by (cases "rh_tail h <s rh_head h") simp_all
  ultimately show ?thesis using av by (simp only: rb_available_def core_of_simps)
qed

lemma rb_available_write:
  assumes "rb_geom r" and "0 < rb_available r" and "n \<le> rb_available r" and "2 * align8 (n + 4) \<le> rb_size r"
  shows "\<exists>p. rb_write_begin r n = Inr p"
  using assms align8_less [of "n + 4"]
  by (auto simp: rb_write_begin_def rb_available_def rb_geom_def rb_wrap_def Let_def max_def split: if_splits)

lemma ring_write_begin_empty:
  assumes "ring_ok h []" and "unat sz \<le> ring_max" and "2 * align8 (unat sz + 4) \<le> unat (rh_size h)"
  shows "\<exists>p. ring_write_begin h sz = Inr p"
proof -
  obtain q where "rb_write_begin (core_of h) (unat sz) = Inr q"
    using rb_ok_empty_write [OF ring_ok_core [OF assms(1)], of "unat sz"] assms(3) by auto
  then show ?thesis
    using ring_write_begin_core [OF ring_ok_geom [OF assms(1)] align8_ring_max [OF assms(2)]]
    by (cases "ring_write_begin h sz") auto
qed

lemma ring_write_begin_erange:
  assumes "ring_ok h ms" and "unat sz \<le> ring_max" and "unat (rh_size h) < 2 * align8 (unat sz + 4)"
  shows "ring_write_begin h sz = Inl ERANGE"
  using ring_write_begin_core [OF ring_ok_geom [OF assms(1)] align8_ring_max [OF assms(2)]] assms(3)
  by (cases "ring_write_begin h sz") (auto simp: rb_write_begin_def Let_def)

section \<open>Properties\<close>

text \<open>A concrete ring of 32 bytes for the witnesses.\<close>

definition ring_ex :: ring_header_t where
  "ring_ex = \<lparr>rh_magic = ring_magic, rh_version = 0, rh_size = 32, rh_head = 0, rh_generation_pre = 0,
     rh_generation_post = 0, rh_tail = 0, rh_data = replicate 32 0\<rparr>"

definition ring_ex1 :: ring_header_t where
  "ring_ex1 = ring_ex\<lparr>rh_tail := 8, rh_data := [3, 0, 0, 0, 1, 2, 3] @ replicate 25 0\<rparr>"

definition ring_ex0 :: ring_header_t where
  "ring_ex0 = ring_ex\<lparr>rh_data := [0, 0, 0, 0, 1, 2, 3] @ replicate 25 0\<rparr>"

lemma ring_ex_ok: "ring_ok ring_ex []"
  by (simp add: ring_ok_def rb_ok_def rb_geom_def core_of_def ring_ex_def)

lemma ring_ex_write: "ring_write ring_ex [1, 2, 3] = Some (Inr ring_ex1)"
  by code_simp

lemma ring_ex1_ok: "ring_ok ring_ex1 [[1, 2, 3]]"
  using ring_write_ok [OF ring_ex_ok, of "[1, 2, 3]"] by (simp add: ring_ex_write ring_max_def)

lemma ring_ex_reserve: "ring_write_begin ring_ex 3 = Inr 4"
  by code_simp

lemma ring_ex_fill: "ring_fill ring_ex 4 [1, 2, 3] = Some ring_ex0"
  by code_simp

lemma ring_ex_end:
  "ring_write_end ring_ex0 4 3 = Some ring_ex1"
  by code_simp

lemma ring_ex1_read: "ring_read ring_ex1 = Some (Inr (4, 3))"
  by code_simp

lemma ring_ex_run:
  "ring_sys_reach ring_ex (\<lparr>rs_ring = ring_ex1, rs_writer = WIdle, rs_reader = RHold 4 3,
     rs_sent = [[1, 2, 3]], rs_recv = []\<rparr>)"
proof -
  let ?s0 = "ring_sys_init ring_ex"
  let ?s1 = "?s0\<lparr>rs_writer := WReserved 4 3\<rparr>"
  let ?s2 = "?s1\<lparr>rs_ring := ring_ex0,
                 rs_writer := WFilled 4 3 [1, 2, 3]\<rparr>"
  let ?s3 = "?s2\<lparr>rs_ring := ring_ex1, rs_writer := WIdle, rs_sent := rs_sent ?s2 @ [[1, 2, 3]]\<rparr>"
  have 1: "ring_sys_step ?s0 ?s1"
    by (rule w_begin) (simp_all add: ring_sys_init_def ring_ex_reserve ring_max_def)
  have 2: "ring_sys_step ?s1 ?s2"
    by (rule w_fill) (simp_all add: ring_sys_init_def ring_ex_fill)
  have 3: "ring_sys_step ?s2 ?s3"
    by (rule w_end [where p = 4 and sz = 3 and m = "[1, 2, 3]"]) (simp_all add: ring_ex_end)
  have 4: "ring_sys_step ?s3 (?s3\<lparr>rs_reader := RHold 4 3\<rparr>)"
    by (rule r_read) (simp_all add: ring_sys_init_def ring_ex1_read)
  have "ring_sys_reach ring_ex (?s3\<lparr>rs_reader := RHold 4 3\<rparr>)"
    by (rule ring_sys_reach.step [OF ring_sys_reach.step [OF ring_sys_reach.step [OF
          ring_sys_reach.step [OF ring_sys_reach.start 1] 2] 3] 4])
  then show ?thesis by (simp add: ring_sys_init_def)
qed

text \<open>C2. One producer and one consumer, interleaved step by step in any order: at every moment
  the messages consumed are a prefix of the messages published, in order and byte for byte, and
  the rest is exactly what the ring still holds.\<close>

theorem ring_stream_order:
  assumes "ring_ok h0 []" and "ring_sys_reach h0 s"
  shows "\<exists>rest. rs_sent s = rs_recv s @ rest \<and> ring_ok (rs_ring s) rest"
  using ring_sys_reach_inv [OF assms(2,1)] by (auto simp: ring_sys_inv_def)

theorem ring_stream_order_witness:
  "ring_ok ring_ex [] \<and> (\<exists>rest. [[1, 2, 3]] = [] @ rest \<and> ring_ok ring_ex1 rest)"
  using ring_stream_order [OF ring_ex_ok ring_ex_run] ring_ex_ok by simp

text \<open>C3. In every reachable state of that system no operation accesses memory outside the ring's
  block and none loops: copying into the reserved slot, publishing it, reading and shifting all
  return, and a consumer that holds a message can always load its payload.\<close>

theorem ring_no_fault:
  assumes "ring_ok h0 []" and "ring_sys_reach h0 s"
  shows "(\<forall>p sz m. rs_writer s = WReserved p sz \<and> length m \<le> unat sz \<longrightarrow> ring_fill (rs_ring s) p m \<noteq> None) \<and>
         (\<forall>p sz m. rs_writer s = WFilled p sz m \<longrightarrow>
            ring_write_end (rs_ring s) p (word_of_nat (length m)) \<noteq> None) \<and>
         ring_read (rs_ring s) \<noteq> None \<and> ring_shift (rs_ring s) \<noteq> None \<and>
         (\<forall>p n. rs_reader s = RHold p n \<longrightarrow> load_bytes (rh_data (rs_ring s)) (unat p) (unat n) \<noteq> None)"
proof -
  have inv: "ring_sys_inv s" using ring_sys_reach_inv [OF assms(2,1)] .
  then obtain ms where ok: "ring_ok (rs_ring s) ms" by (auto simp: ring_sys_inv_def)
  have "ring_read (rs_ring s) \<noteq> None \<and> ring_shift (rs_ring s) \<noteq> None"
    using ok ring_read_ok ring_shift_ok ring_read_empty ring_shift_empty by (cases ms) fastforce+
  then show ?thesis
    using ring_sys_inv_fill [OF inv] ring_sys_inv_end [OF inv] ring_sys_inv_done [OF inv] by fastforce
qed

theorem ring_no_fault_witness:
  "ring_read ring_ex1 \<noteq> None \<and> ring_shift ring_ex1 \<noteq> None \<and>
   load_bytes (rh_data ring_ex1) (unat (4 :: size_t)) (unat (3 :: size_t)) \<noteq> None"
  using ring_no_fault [OF ring_ex_ok ring_ex_run] by simp


text \<open>Any sequence of writes and reads on a ring runs without a fault, and what was written
  (after what the ring held before) is what was read followed by what the ring holds at the end.\<close>

theorem ring_fifo:
  assumes "ring_ok h ms" and "list_all (\<lambda>m. length m \<le> ring_max) (pushed ops)"
  shows "\<exists>h' acc del rest. queue_run ring_write ring_peek ring_shift h ops = Some (h', acc, del) \<and>
           ring_ok h' rest \<and> ms @ acc = del @ rest"
  using ring_queue.run_fifo [OF assms] .

theorem ring_fifo_witness:
  "\<exists>h' acc del rest. queue_run ring_write ring_peek ring_shift ring_ex [Push [7], Push [8, 9], Pop] = Some (h', acc, del) \<and>
     ring_ok h' rest \<and> [] @ acc = del @ rest"
  using ring_fifo [OF ring_ex_ok, of "[Push [7], Push [8, 9], Pop]"] by (simp add: ring_max_def)

text \<open>A message can be reserved in an empty ring exactly when its slot is at most half of the
  ring, wherever head and tail stand: a ring that drains never blocks its writer forever.\<close>

theorem ring_empty_accepts:
  assumes "ring_ok h []" and "unat sz \<le> ring_max"
  shows "(\<exists>p. ring_write_begin h sz = Inr p) \<longleftrightarrow> 2 * align8 (unat sz + 4) \<le> unat (rh_size h)"
  using ring_write_begin_empty [OF assms] ring_write_begin_erange [OF assms]
  by (cases "2 * align8 (unat sz + 4) \<le> unat (rh_size h)") auto

theorem ring_empty_accepts_witness:
  "(\<exists>p. ring_write_begin ring_ex 12 = Inr p) \<longleftrightarrow> 2 * align8 (unat (12 :: size_t) + 4) \<le> unat (rh_size ring_ex)"
  using ring_empty_accepts [OF ring_ex_ok, of 12] by (simp add: ring_max_def)

text \<open>\<open>ring_available\<close> is a safe estimate: when it is positive, a message of at most that many
  bytes whose slot is no more than half of the ring is accepted.\<close>

theorem ring_available_sound:
  assumes "ring_ok h ms" and "0 < ring_available h" and "sz \<le> ring_available h"
    and "2 * align8 (unat sz + 4) \<le> unat (rh_size h)"
  shows "\<exists>p. ring_write_begin h sz = Inr p"
proof -
  have g: "rb_geom (core_of h)" using assms(1) by (rule ring_ok_geom)
  have a: "align8 (unat sz + 4) < 2 ^ 31" using assms(4) g by (simp add: rb_geom_def)
  obtain q where "rb_write_begin (core_of h) (unat sz) = Inr q"
    using rb_available_write [OF g] assms(2,3,4) ring_available_core [OF g]
    by (auto simp: word_le_nat_alt word_less_nat_alt)
  then show ?thesis using ring_write_begin_core [OF g a] by (cases "ring_write_begin h sz") auto
qed

theorem ring_available_sound_witness:
  "0 < ring_available ring_ex1 \<and> (\<exists>p. ring_write_begin ring_ex1 5 = Inr p)"
proof -
  have "ring_available ring_ex1 = 8" by code_simp
  then show ?thesis
    using ring_available_sound [OF ring_ex1_ok, of 5] by (simp add: ring_ex1_def ring_ex_def align8_def)
qed

text \<open>C4. A subscriber's iterator, in every reachable state of a publisher and a subscriber: once the
  publisher has dropped the iterator's message the read reports \<open>EINVAL\<close>, at the end of the stream
  it reports \<open>EAGAIN\<close>, and otherwise it returns the message whose number is the iterator's
  generation, unchanged.\<close>

theorem ring_subscriber_read:
  assumes "ring_ok h0 []" and "rh_generation_pre h0 = 0" and "pub_reach h0 s"
  shows "if unat (ri_generation (ps_iter s)) < dropped s
         then ring_iter_read (ps_ring s) (ps_ring s) (ps_iter s) = Some (Inl EINVAL)
         else if unat (ri_generation (ps_iter s)) = length (ps_all s)
         then ring_iter_read (ps_ring s) (ps_ring s) (ps_iter s) = Some (Inl EAGAIN)
         else (\<exists>p n. ring_iter_read (ps_ring s) (ps_ring s) (ps_iter s) = Some (Inr (p, n)) \<and>
                load_bytes (rh_data (ps_ring s)) (unat p) (unat n) =
                  Some (ps_all s ! unat (ri_generation (ps_iter s))))"
proof -
  have inv: "pub_inv s" using pub_reach_inv [OF assms(3,1,2)] .
  show ?thesis using iter_read_ok [OF inv] by simp
qed


lemma ring_ex_pub_reach: "pub_reach ring_ex ((pub_sys_init ring_ex)\<lparr>ps_ring := ring_ex1, ps_all := [[1, 2, 3]]\<rparr>)"
proof -
  have "publisher_step (pub_sys_init ring_ex) ((pub_sys_init ring_ex)\<lparr>ps_ring := ring_ex1,
          ps_all := ps_all (pub_sys_init ring_ex) @ [[1, 2, 3]]\<rparr>)"
    by (rule publish) (simp_all add: pub_sys_init_def ring_max_def ring_ex_write)
  then show ?thesis
    using pub_publisher [OF pub_start [of ring_ex]] by (simp add: pub_sys_init_def)
qed

theorem ring_subscriber_read_witness:
  "\<exists>p n. ring_iter_read ring_ex1 ring_ex1 \<lparr>ri_generation = 0, ri_offset = 0\<rparr> = Some (Inr (p, n)) \<and>
     load_bytes (rh_data ring_ex1) (unat p) (unat n) = Some [1, 2, 3]"
  using ring_subscriber_read [OF ring_ex_ok _ ring_ex_pub_reach]
  by (simp add: pub_sys_init_def ring_ex_def ring_ex1_def)

text \<open>C5. The second generation check of an iterator's read makes the result safe to use although the
  publisher runs concurrently: if the check passes in a later state, the bytes at the returned
  pointer are still the message, however much was published and dropped in between.\<close>

theorem ring_subscriber_recheck:
  assumes "ring_ok h0 []" and "rh_generation_pre h0 = 0" and "pub_reach h0 s" and "publisher_step\<^sup>*\<^sup>* s t"
    and "ring_iter_read (ps_ring s) (ps_ring t) (ps_iter s) = Some (Inr (p, n))"
  shows "load_bytes (rh_data (ps_ring t)) (unat p) (unat n) = Some (ps_all s ! unat (ri_generation (ps_iter s)))"
proof -
  let ?m = "ps_all s ! unat (ri_generation (ps_iter s))"
  have inv: "pub_inv s" using pub_reach_inv [OF assms(3,1,2)] .
  have ge: "dropped s \<le> unat (ri_generation (ps_iter s))" and v: "dropped t \<le> unat (ri_generation (ps_iter s))"
    and rd: "ring_read_at (ps_ring s) (ri_offset (ps_iter s)) = Some (Inr (p, n))"
    using assms(5) by (auto simp: ring_iter_read_def ring_iter_invalid_def word_less_nat_alt split: if_splits sum.splits)
  have ne: "ri_offset (ps_iter s) \<noteq> rh_tail (ps_ring s)" using rd by (auto simp: ring_read_at.simps)
  note slot = iter_slot [OF inv ge ne]
  obtain off where f: "rb_front (at_iter s) off ?m" using slot(2) by blast
  note at = ring_front_at [OF f slot(3)]
  have "length (rh_data (ps_ring s)) < 2 ^ 31" using slot(3) by (simp add: rb_geom_def)
  then have "unat (word_of_nat (off + 4) :: size_t) = off + 4" "unat (word_of_nat (length ?m) :: size_t) = length ?m"
    using at(3) by (simp_all add: unat_of_nat del: of_nat_add)
  then have "unat p = off + 4" "unat n = length ?m" using rd at(1) by (simp_all del: of_nat_add)
  then show ?thesis
    using publisher_steps_front [OF assms(4) inv v slot(1) f] by (simp add: rb_front_def)
qed


lemma ring_ex1_write:
  "ring_write ring_ex1 [9] = Some (Inr (ring_ex1\<lparr>rh_tail := 16,
     rh_data := [3, 0, 0, 0, 1, 2, 3, 0, 1, 0, 0, 0, 9] @ replicate 19 0\<rparr>))"
  by code_simp

lemma ring_ex1_iter_read: "ring_read_at ring_ex1 0 = Some (Inr (4, 3))"
  by code_simp

theorem ring_subscriber_recheck_witness:
  "load_bytes ([3, 0, 0, 0, 1, 2, 3, 0, 1, 0, 0, 0, 9] @ replicate 19 0) (unat (4 :: size_t)) (unat (3 :: size_t)) =
     Some [1, 2, 3]"
proof -
  define h where "h = ring_ex1\<lparr>rh_tail := 16, rh_data := [3, 0, 0, 0, 1, 2, 3, 0, 1, 0, 0, 0, 9] @ replicate 19 0\<rparr>"
  let ?s = "(pub_sys_init ring_ex)\<lparr>ps_ring := ring_ex1, ps_all := [[1, 2, 3]]\<rparr>"
  let ?t = "?s\<lparr>ps_ring := h, ps_all := ps_all ?s @ [[9]]\<rparr>"
  have "publisher_step ?s ?t"
    by (rule publish) (simp_all add: ring_max_def ring_ex1_write h_def)
  then have st: "publisher_step\<^sup>*\<^sup>* ?s ?t" by (rule r_into_rtranclp)
  have "ring_iter_read (ps_ring ?s) (ps_ring ?t) (ps_iter ?s) = Some (Inr (4, 3))"
    by (simp add: ring_iter_read_def ring_iter_invalid_def pub_sys_init_def h_def ring_ex1_iter_read ring_ex_def)
       (simp add: ring_ex1_def ring_ex_def)
  from ring_subscriber_recheck [OF ring_ex_ok _ ring_ex_pub_reach st this] show ?thesis
    by (simp add: pub_sys_init_def ring_ex_def h_def ring_ex1_def)
qed

text \<open>\<open>size_aligned\<close> works in 32 bits: the size 4294967292 plus the 4 bytes of the length prefix
  wraps to 0, so every ring accepts that message although it is larger than the ring, and hands
  out the slot at its tail.\<close>

theorem ring_size_truncation:
  assumes "ring_ok h ms"
  shows "ring_write_begin h 0xFFFFFFFC = Inr (rh_tail h + 4) \<and> unat (rh_size h) < unat (0xFFFFFFFC :: size_t)"
proof -
  have g: "rb_geom (core_of h)" using assms by (rule ring_ok_geom)
  have b: "unat (rh_size h) < 2 ^ 31" "unat (rh_tail h) < unat (rh_size h)"
    using g by (simp_all add: rb_geom_def)
  have a: "(scast (size_aligned (ucast ((0xFFFFFFFC :: size_t) + sizeof_ring_size_t))) :: size_t) = 0"
    by (simp add: size_aligned_def sizeof_ring_size_t_def ring_align_def)
  have "unat (wrap_size (rh_size h + rh_head h - rh_tail h - 1) (rh_size h)) < 2 ^ 33"
    using ring_free_bound [OF g] .
  then have "unat (wrap_size (rh_size h + rh_head h - rh_tail h - 1) (rh_size h) + 1) \<noteq> 0"
    by (simp add: unat_add_small)
  then have "\<not> wrap_size (rh_size h + rh_head h - rh_tail h - 1) (rh_size h) + 1 \<le> 0" by auto
  then have "ring_write_begin h 0xFFFFFFFC = Inr (rh_tail h + sizeof_ring_size_t)"
    unfolding ring_write_begin_def Let_def a using b by (simp add: word_less_nat_alt)
  then show ?thesis using b by (simp add: sizeof_ring_size_t_def)
qed

theorem ring_size_truncation_witness:
  "ring_write_begin ring_ex 0xFFFFFFFC = Inr (0 + 4) \<and> unat (32 :: size_t) < unat (0xFFFFFFFC :: size_t)"
  using ring_size_truncation [OF ring_ex_ok] by (simp add: ring_ex_def)

text \<open>\<open>ring_init\<close> accepts any size. With a size of 26 bytes, which is not a multiple of 4, three
  short writes, two reads and a fourth write place the 4-byte wrap marker at offset 24, across
  the end of the block: the run faults.\<close>

definition ring_26 :: ring_header_t where
  "ring_26 = ring_ex\<lparr>rh_size := 26, rh_data := replicate 26 0\<rparr>"

theorem ring_unaligned_size_fault:
  "ring_init (\<lambda>_. Some (0, replicate 26 0)) 26 None = Inr ring_26 \<and>
   queue_run ring_write ring_peek ring_shift ring_26
     [Push [1], Push [2], Push [3], Pop, Pop, Push [4]] = None"
  by code_simp

end
