(* ===== verification/CppRing.thy ===== *)
theory CppRing
  imports Ring
begin

text \<open>
  The ring of \<open>src/tll/cppring.h\<close>, \<open>RingT<HeadGen, TailGen>\<close>: the C++ successor of \<open>ring.c\<close> that
  the logger thread (\<open>Ring\<close>) and the shared-memory publisher (\<open>PubRing\<close>) use. The template
  parameters are arguments \<open>hg\<close> and \<open>tg\<close> of the operations that depend on them. The theory
  proves that \<open>RingT\<close> agrees with \<open>ring.c\<close> operation by operation, so that its contract follows
  from the one of \<open>Ring\<close>, and treats what is new: generations on both pointers, iterators from
  the end of the ring and the lock-free snapshot of a pointer.
\<close>

section \<open>Data\<close>

record rptr =
  rp_ptr :: size_t
  rp_pre :: u64
  rp_post :: u64
  rp_enabled :: bool

record ringt =
  rt_magic :: i32
  rt_version :: i32
  rt_size :: size_t
  rt_head :: rptr
  rt_tail :: rptr
  rt_data :: "byte list"

record rt_iter =
  it_offset :: size_t
  it_generation :: u64

definition rt_Magic :: i32 where
  "rt_Magic = 0x72696e67"

definition sizeof_Size :: size_t where
  "sizeof_Size = 4"

section \<open>Operations\<close>

definition pointer_store :: "bool \<Rightarrow> rptr \<Rightarrow> size_t \<Rightarrow> rptr" where
  "pointer_store gen p v =
     (if gen
      then (let g = rp_pre p + 1 in p\<lparr>rp_pre := g, rp_ptr := v, rp_post := g\<rparr>)
      else p\<lparr>rp_ptr := v\<rparr>)"

definition pointer_reset :: "bool \<Rightarrow> rptr \<Rightarrow> rptr" where
  "pointer_reset gen p =
     (let p = p\<lparr>rp_enabled := gen, rp_ptr := 0\<rparr>
      in if gen then p\<lparr>rp_pre := 0, rp_post := 0\<rparr> else p\<lparr>rp_pre := - 1, rp_post := - 1\<rparr>)"

definition rt_init :: "bool \<Rightarrow> bool \<Rightarrow> ringt \<Rightarrow> size_t \<Rightarrow> ringt" where
  "rt_init hg tg r n =
     r\<lparr>rt_magic := rt_Magic, rt_version := 0, rt_size := n,
       rt_head := pointer_reset hg (rt_head r), rt_tail := pointer_reset tg (rt_tail r)\<rparr>"

text \<open>\<open>raw\<close> is the content of the memory \<open>new char[sizeof(RingT) + size]\<close> returns.\<close>

definition rt_allocate :: "bool \<Rightarrow> bool \<Rightarrow> (size_t \<Rightarrow> ringt) \<Rightarrow> size_t \<Rightarrow> ringt" where
  "rt_allocate hg tg raw n = rt_init hg tg (raw n) n"

definition rt_validate :: "bool \<Rightarrow> bool \<Rightarrow> ringt \<Rightarrow> bool" where
  "rt_validate hg tg r =
     (if rt_magic r \<noteq> rt_Magic then False
      else if hg \<and> \<not> rp_enabled (rt_head r) then False
      else if tg \<and> \<not> rp_enabled (rt_tail r) then False
      else True)"

definition rt_bind :: "bool \<Rightarrow> bool \<Rightarrow> ringt \<Rightarrow> ringt option" where
  "rt_bind hg tg r = (if \<not> rt_validate hg tg r then None else Some r)"

definition rt_aligned :: "size_t \<Rightarrow> size_t" where
  "rt_aligned x = x + (- x AND (8 - 1))"

definition rt_wrap_size :: "size_t \<Rightarrow> size_t \<Rightarrow> size_t" where
  "rt_wrap_size off n = (if n \<le> off then off - n else off)"

definition rt_write_begin :: "ringt \<Rightarrow> size_t \<Rightarrow> errno + size_t" where
  "rt_write_begin r sz =
     (let a = rt_aligned (sz + sizeof_Size) in
      if rt_size r < 2 * a then Inl ERANGE
      else
        (let t = rp_ptr (rt_tail r); h = rp_ptr (rt_head r);
             free = rt_wrap_size (rt_size r + h - t - 1) (rt_size r) + 1 in
         if free \<le> a then Inl EAGAIN
         else if rt_size r < t + a
              then (if h \<le> a then Inl EAGAIN else Inr (0 + sizeof_Size))
              else Inr (t + sizeof_Size)))"

definition rt_write_end :: "bool \<Rightarrow> ringt \<Rightarrow> size_t \<Rightarrow> size_t \<Rightarrow> ringt option" where
  "rt_write_end tg r ptr sz =
     (let a = rt_aligned (sz + sizeof_Size);
          t = rp_ptr (rt_tail r);
          wrapped = (if ptr = 0 + sizeof_Size
                     then map_option (\<lambda>d. (d, 0)) (store32 (rt_data r) (unat t) (- 1))
                     else Some (rt_data r, t))
      in case wrapped of
           None \<Rightarrow> None
         | Some (d, t) \<Rightarrow>
             map_option (\<lambda>d'. r\<lparr>rt_data := d',
                                rt_tail := pointer_store tg (rt_tail r) (rt_wrap_size (t + a) (rt_size r))\<rparr>)
               (store32 d (unat t) (ucast sz)))"

definition rt_empty :: "ringt \<Rightarrow> bool" where
  "rt_empty r \<longleftrightarrow> rp_ptr (rt_head r) = rp_ptr (rt_tail r)"

partial_function (option) rt_read_at :: "ringt \<Rightarrow> size_t \<Rightarrow> (errno + size_t \<times> size_t) option" where
  "rt_read_at r offset =
     (if offset = rp_ptr (rt_tail r) then Some (Inl EAGAIN)
      else Option.bind (load32 (rt_data r) (unat offset)) (\<lambda>sz.
        if sz <s 0 then rt_read_at r 0
        else Some (Inr (offset + sizeof_Size, scast sz))))"

declare rt_read_at.simps [code]

definition rt_read :: "ringt \<Rightarrow> (errno + size_t \<times> size_t) option" where
  "rt_read r = rt_read_at r (rp_ptr (rt_head r))"

partial_function (option) rt_shift_offset :: "ringt \<Rightarrow> size_t \<Rightarrow> size_t option" where
  "rt_shift_offset r offset =
     Option.bind (load32 (rt_data r) (unat offset)) (\<lambda>sz.
       if sz <s 0 then rt_shift_offset r 0
       else (let n = ucast (rt_aligned ((scast sz :: size_t) + sizeof_Size)) :: i32
             in Some (rt_wrap_size (offset + scast n) (rt_size r))))"

declare rt_shift_offset.simps [code]

definition rt_shift :: "bool \<Rightarrow> ringt \<Rightarrow> (errno + ringt) option" where
  "rt_shift hg r =
     (let t = rp_ptr (rt_tail r); h = rp_ptr (rt_head r) in
      if h = t then Some (Inl EAGAIN)
      else map_option (\<lambda>off.
             if off <s 0 then Inl EAGAIN
             else Inr (r\<lparr>rt_head := pointer_store hg (rt_head r) off\<rparr>))
           (rt_shift_offset r h))"

text \<open>\<open>memcpy\<close> into the reserved slot, and a whole write as the callers of the ring do it.\<close>

definition rt_fill :: "ringt \<Rightarrow> size_t \<Rightarrow> byte list \<Rightarrow> ringt option" where
  "rt_fill r ptr bs = map_option (\<lambda>d. r\<lparr>rt_data := d\<rparr>) (store_bytes (rt_data r) (unat ptr) bs)"

definition rt_write :: "bool \<Rightarrow> ringt \<Rightarrow> byte list \<Rightarrow> (errno + ringt) option" where
  "rt_write tg r bs =
     (case rt_write_begin r (word_of_nat (length bs)) of
        Inl e \<Rightarrow> Some (Inl e)
      | Inr ptr \<Rightarrow>
          Option.bind (rt_fill r ptr bs) (\<lambda>r'.
            map_option Inr (rt_write_end tg r' ptr (word_of_nat (length bs)))))"

definition rt_peek :: "ringt \<Rightarrow> (errno + byte list) option" where
  "rt_peek r = Option.bind (rt_read r) (\<lambda>x. case x of
      Inl e \<Rightarrow> Some (Inl e)
    | Inr (p, n) \<Rightarrow> map_option Inr (load_bytes (rt_data r) (unat p) (unat n)))"

text \<open>Iterators read the ring of another thread: the last argument but one is the ring at the second
  validity check.\<close>

definition it_valid :: "ringt \<Rightarrow> rt_iter \<Rightarrow> bool" where
  "it_valid r it \<longleftrightarrow> rp_pre (rt_head r) \<le> it_generation it"

definition it_read :: "ringt \<Rightarrow> ringt \<Rightarrow> rt_iter \<Rightarrow> (errno + size_t \<times> size_t) option" where
  "it_read r r' it =
     (if \<not> it_valid r it then Some (Inl EINVAL)
      else map_option (\<lambda>x. case x of
             Inl e \<Rightarrow> Inl e
           | Inr y \<Rightarrow> if \<not> it_valid r' it then Inl EINVAL else Inr y)
           (rt_read_at r (it_offset it)))"

definition it_shift :: "ringt \<Rightarrow> ringt \<Rightarrow> rt_iter \<Rightarrow> (errno + rt_iter) option" where
  "it_shift r r' it =
     (if \<not> it_valid r it then Some (Inl EINVAL)
      else let t = rp_ptr (rt_tail r) in
           if rp_ptr (rt_head r) = t then Some (Inl EAGAIN)
           else if it_offset it = t then Some (Inl EAGAIN)
           else map_option (\<lambda>off.
                  if off <s 0 then Inl EAGAIN
                  else if \<not> it_valid r' it then Inl EINVAL
                  else Inr \<lparr>it_offset = off, it_generation = it_generation it + 1\<rparr>)
                (rt_shift_offset r (it_offset it)))"

text \<open>\<open>p1\<close>, \<open>p2\<close> and \<open>p3\<close> are the pointer at the three loads. \<open>Iterator { this }\<close> zero-initialises
  the two other members.\<close>

definition rt_iterator :: "rptr \<Rightarrow> rptr \<Rightarrow> rptr \<Rightarrow> rt_iter" where
  "rt_iterator p1 p2 p3 =
     (let none = \<lparr>it_offset = 0, it_generation = 0\<rparr> in
      if \<not> rp_enabled p1 then none
      else (let it = \<lparr>it_offset = rp_ptr p2, it_generation = rp_post p1\<rparr>
            in if rp_pre p3 \<noteq> it_generation it then none else it))"

definition rt_begin :: "ringt \<Rightarrow> rt_iter" where
  "rt_begin r = rt_iterator (rt_head r) (rt_head r) (rt_head r)"

definition rt_end :: "ringt \<Rightarrow> rt_iter" where
  "rt_end r = rt_iterator (rt_tail r) (rt_tail r) (rt_tail r)"

section \<open>Agreement with ring.c\<close>

definition as_ring :: "ringt \<Rightarrow> ring_header_t" where
  "as_ring r = \<lparr>rh_magic = rt_magic r, rh_version = rt_version r, rh_size = rt_size r,
     rh_head = rp_ptr (rt_head r), rh_generation_pre = rp_pre (rt_head r),
     rh_generation_post = rp_post (rt_head r), rh_tail = rp_ptr (rt_tail r), rh_data = rt_data r\<rparr>"

definition as_iter :: "rt_iter \<Rightarrow> ringiter_t" where
  "as_iter it = \<lparr>ri_generation = it_generation it, ri_offset = it_offset it\<rparr>"

lemma as_ring_simps [simp]:
  "rh_size (as_ring r) = rt_size r" "rh_head (as_ring r) = rp_ptr (rt_head r)"
  "rh_tail (as_ring r) = rp_ptr (rt_tail r)" "rh_data (as_ring r) = rt_data r"
  "rh_generation_pre (as_ring r) = rp_pre (rt_head r)" "rh_generation_post (as_ring r) = rp_post (rt_head r)"
  by (simp_all add: as_ring_def)

lemma as_iter_simps [simp]:
  "ri_generation (as_iter it) = it_generation it" "ri_offset (as_iter it) = it_offset it"
  by (simp_all add: as_iter_def)

lemma rt_wrap_size_eq: "rt_wrap_size = wrap_size"
  by (simp add: fun_eq_iff rt_wrap_size_def wrap_size_def)

lemma sizeof_Size_eq: "sizeof_Size = sizeof_ring_size_t"
  by (simp add: sizeof_Size_def sizeof_ring_size_t_def)

lemma take_bit32_take_bit64 [simp]: "take_bit 32 (take_bit 64 (k :: int)) = take_bit 32 k"
  by simp

lemma ucast_add_down: "(ucast (a + b :: size_t) :: i32) = ucast a + ucast b"
proof (transfer)
  fix a b :: int
  have "take_bit 32 (take_bit 64 a + take_bit 64 b) = take_bit 32 (take_bit 32 (take_bit 64 a) + take_bit 32 (take_bit 64 b))"
    by (simp only: take_bit_add)
  also have "\<dots> = take_bit 32 (a + b)" by (simp add: take_bit_add)
  finally show "take_bit LENGTH(32) (take_bit LENGTH(64) (a + b)) =
      take_bit LENGTH(32) (take_bit LENGTH(64) a + take_bit LENGTH(64) b)" by simp
qed

lemma ucast_uminus_down: "(ucast (- a :: size_t) :: i32) = - ucast a"
  using ucast_add_down [of a "- a"] by (simp add: minus_unique)

lemma ucast_aligned: "(ucast (rt_aligned x) :: i32) = size_aligned (ucast x)"
proof -
  have "(ucast (- x AND 7) :: i32) = ucast (- x) AND 7"
    by (rule bit_word_eqI) (auto simp: bit_simps)
  then show ?thesis
    by (simp add: rt_aligned_def size_aligned_def ring_align_def ucast_add_down ucast_uminus_down)
qed

lemma some_eqI: "(\<And>y. f = Some y \<Longrightarrow> g = Some y) \<Longrightarrow> (\<And>y. g = Some y \<Longrightarrow> f = Some y) \<Longrightarrow> f = g"
  by (cases f; cases g) auto

lemma rt_read_at_eq: "rt_read_at r off = ring_read_at (as_ring r) off"
proof (rule some_eqI)
  fix y
  show "rt_read_at r off = Some y \<Longrightarrow> ring_read_at (as_ring r) off = Some y"
    by (erule rt_read_at.raw_induct [rotated], subst ring_read_at.simps)
       (auto simp: sizeof_Size_eq bind_eq_Some_conv split: if_splits)
  assume "ring_read_at (as_ring r) off = Some y"
  then have "\<forall>s. as_ring s = as_ring r \<longrightarrow> rt_read_at s off = Some y"
    by (rule ring_read_at.raw_induct [where P = "\<lambda>h off y. \<forall>s. as_ring s = h \<longrightarrow> rt_read_at s off = Some y", rotated],
        intro allI impI, subst rt_read_at.simps)
       (auto simp: sizeof_Size_eq bind_eq_Some_conv split: if_splits)
  then show "rt_read_at r off = Some y" by simp
qed
lemma rt_shift_offset_eq: "rt_shift_offset r off = ring_shift_offset (as_ring r) off"
proof (rule some_eqI)
  fix y
  show "rt_shift_offset r off = Some y \<Longrightarrow> ring_shift_offset (as_ring r) off = Some y"
    by (erule rt_shift_offset.raw_induct [rotated], subst ring_shift_offset.simps)
       (auto simp: sizeof_Size_eq ucast_aligned rt_wrap_size_eq bind_eq_Some_conv Let_def split: if_splits)
  assume "ring_shift_offset (as_ring r) off = Some y"
  then have "\<forall>s. as_ring s = as_ring r \<longrightarrow> rt_shift_offset s off = Some y"
    by (rule ring_shift_offset.raw_induct [where P = "\<lambda>h off y. \<forall>s. as_ring s = h \<longrightarrow> rt_shift_offset s off = Some y", rotated],
        intro allI impI, subst rt_shift_offset.simps)
       (auto simp: sizeof_Size_eq ucast_aligned rt_wrap_size_eq bind_eq_Some_conv Let_def split: if_splits)
  then show "rt_shift_offset r off = Some y" by simp
qed

lemma rt_read_eq: "rt_read r = ring_read (as_ring r)"
  by (simp add: rt_read_def ring_read_def rt_read_at_eq)

lemma rt_peek_eq: "rt_peek r = ring_peek (as_ring r)"
  unfolding rt_peek_def ring_peek_def rt_read_eq as_ring_simps ..

lemma it_valid_eq: "it_valid r it \<longleftrightarrow> ring_iter_invalid (as_ring r) (as_iter it) = None"
  by (auto simp: it_valid_def ring_iter_invalid_def not_less)

lemma it_read_eq: "it_read r r' it = ring_iter_read (as_ring r) (as_ring r') (as_iter it)"
  unfolding it_read_def ring_iter_read_def it_valid_eq rt_read_at_eq as_iter_simps ..

lemma it_shift_eq:
  "it_shift r r' it = Some (Inr it') \<longleftrightarrow>
   ring_iter_shift (as_ring r) (as_ring r') (as_iter it) = Some (Inr (as_iter it'))"
  unfolding it_shift_def ring_iter_shift_def it_valid_eq rt_shift_offset_eq as_iter_simps as_ring_simps
  by (cases it'; cases "ring_shift_offset (as_ring r) (it_offset it)") (auto simp: Let_def as_iter_def)

text \<open>The slot size of a message that \<open>write_begin\<close> does not refuse.\<close>

lemma rt_aligned_small:
  assumes "align8 (unat sz + 4) < 2 ^ 31"
  shows "rt_aligned (sz + sizeof_Size) = scast (size_aligned (ucast (sz + sizeof_ring_size_t)))"
proof -
  have lt: "unat sz + 4 < 2 ^ 31" using assms align8_ge [of "unat sz + 4"] by linarith
  then have x: "unat (sz + sizeof_Size) = unat sz + 4"
    by (simp add: sizeof_Size_def unat_word_ariths)
  have "unat (- (sz + sizeof_Size) AND 7) = (8 - (unat sz + 4) mod 8) mod 8"
    using unat_neg_low3 [of "sz + sizeof_Size"] x by simp
  then have "unat (rt_aligned (sz + sizeof_Size)) = align8 (unat sz + 4)"
    using x lt assms by (simp add: rt_aligned_def unat_add_small align8_alt)
  then show ?thesis using unat_slot_size [OF assms] by (simp add: word_unat_eq_iff)
qed

lemma rt_write_begin_eq:
  assumes "align8 (unat sz + 4) < 2 ^ 31"
  shows "rt_write_begin r sz = ring_write_begin (as_ring r) sz"
  unfolding rt_write_begin_def ring_write_begin_def rt_aligned_small [OF assms]
  by (simp add: Let_def rt_wrap_size_eq sizeof_Size_eq)

lemma pointer_store_simps [simp]:
  "rp_ptr (pointer_store gen p v) = v" "rp_enabled (pointer_store gen p v) = rp_enabled p"
  "rp_pre (pointer_store gen p v) = (if gen then rp_pre p + 1 else rp_pre p)"
  "rp_post (pointer_store gen p v) = (if gen then rp_pre p + 1 else rp_post p)"
  by (simp_all add: pointer_store_def Let_def)

lemma rt_write_end_eq:
  assumes "align8 (unat sz + 4) < 2 ^ 31"
  shows "map_option as_ring (rt_write_end tg r ptr sz) = ring_write_end (as_ring r) ptr sz"
  unfolding rt_write_end_def ring_write_end_def rt_aligned_small [OF assms]
  by (auto simp: Let_def rt_wrap_size_eq sizeof_Size_eq as_ring_def option.map_comp o_def split: option.splits)

lemma rt_fill_eq: "map_option as_ring (rt_fill r ptr bs) = ring_fill (as_ring r) ptr bs"
  by (simp add: rt_fill_def ring_fill_def option.map_comp o_def as_ring_def)

lemma rt_write_eq:
  assumes "length bs \<le> ring_max"
  shows "map_option (map_sum id as_ring) (rt_write tg r bs) = ring_write (as_ring r) bs"
proof -
  have "unat (word_of_nat (length bs) :: size_t) = length bs"
    using assms by (simp add: unat_of_nat ring_max_def)
  then have a: "align8 (unat (word_of_nat (length bs) :: size_t) + 4) < 2 ^ 31"
    using align8_ring_max [OF assms] by simp
  show ?thesis
  proof (cases "ring_write_begin (as_ring r) (word_of_nat (length bs))")
    case (Inl e)
    then show ?thesis by (simp add: rt_write_def ring_write_def rt_write_begin_eq [OF a])
  next
    case (Inr p)
    then show ?thesis
      by (cases "rt_fill r p bs")
         (simp_all add: rt_write_def ring_write_def rt_write_begin_eq [OF a] option.map_comp o_def
           flip: rt_fill_eq rt_write_end_eq [OF a, of tg])
  qed
qed
lemma rt_shift_eq:
  "rt_shift hg r = map_option (map_sum id (\<lambda>h. r\<lparr>rt_head := pointer_store hg (rt_head r) (rh_head h)\<rparr>))
     (ring_shift (as_ring r))"
  by (auto simp: rt_shift_def ring_shift_def rt_shift_offset_eq option.map_comp o_def Let_def intro!: option.map_cong)

lemma rt_shift_as_ring: "map_option (map_sum id as_ring) (rt_shift True r) = ring_shift (as_ring r)"
  by (auto simp: rt_shift_def ring_shift_def rt_shift_offset_eq option.map_comp o_def Let_def as_ring_def intro!: option.map_cong)

section \<open>The queue of messages\<close>

definition rt_ok :: "ringt \<Rightarrow> byte list list \<Rightarrow> bool" where
  "rt_ok r ms \<longleftrightarrow> ring_ok (as_ring r) ms"

lemma rt_write_ok:
  assumes "rt_ok r ms" and "length m \<le> ring_max"
  shows "(\<exists>e. rt_write tg r m = Some (Inl e)) \<or> (\<exists>r'. rt_write tg r m = Some (Inr r') \<and> rt_ok r' (ms @ [m]))"
  using ring_write_ok [of "as_ring r" ms m] assms rt_write_eq [OF assms(2), of tg r]
  by (cases "rt_write tg r m"; cases "the (rt_write tg r m)") (auto simp: rt_ok_def)

lemma rt_shift_ok:
  assumes "rt_ok r (m # ms)"
  shows "\<exists>r'. rt_shift hg r = Some (Inr r') \<and> rt_ok r' ms"
proof -
  obtain off where off: "ring_shift (as_ring r) = Some (Inr ((as_ring r)\<lparr>rh_generation_pre := rp_pre (rt_head r) + 1,
      rh_head := off, rh_generation_post := rp_pre (rt_head r) + 1\<rparr>))"
    "rb_ok ((core_of (as_ring r))\<lparr>rb_head := unat off\<rparr>) ms"
    using ring_shift_ok [of "as_ring r" m ms] assms by (auto simp: rt_ok_def)
  let ?r = "r\<lparr>rt_head := pointer_store hg (rt_head r) off\<rparr>"
  have c: "core_of (as_ring ?r) = (core_of (as_ring r))\<lparr>rb_head := unat off\<rparr>" by (simp add: core_of_def)
  have "rt_ok ?r ms" using off(2) assms unfolding rt_ok_def ring_ok_def c by simp
  then show ?thesis using off(1) by (simp add: rt_shift_eq)
qed

interpretation rt_queue: fifo_queue "rt_write tg" rt_peek "rt_shift hg" rt_ok "\<lambda>m. length m \<le> ring_max" for tg hg
proof unfold_locales
  fix r :: ringt and ms m
  show "rt_ok r ms \<Longrightarrow> length m \<le> ring_max \<Longrightarrow> (\<exists>e. rt_write tg r m = Some (Inl e)) \<or>
      (\<exists>r'. rt_write tg r m = Some (Inr r') \<and> rt_ok r' (ms @ [m]))"
    by (rule rt_write_ok)
  show "rt_ok r [] \<Longrightarrow> \<exists>e. rt_peek r = Some (Inl e)"
    unfolding rt_peek_eq rt_ok_def by (rule ring_queue.peek_empty)
  show "rt_ok r (m # ms) \<Longrightarrow> rt_peek r = Some (Inr m)"
    unfolding rt_peek_eq rt_ok_def by (rule ring_queue.peek_law)
  show "rt_ok r (m # ms) \<Longrightarrow> \<exists>r'. rt_shift hg r = Some (Inr r') \<and> rt_ok r' ms"
    by (rule rt_shift_ok)
qed

lemma rt_empty_iff: "rt_ok r ms \<Longrightarrow> rt_empty r \<longleftrightarrow> ms = []"
  using rb_ok_empty_iff [of "core_of (as_ring r)" ms]
  by (auto simp: rt_ok_def rt_empty_def ring_ok_def word_unat_eq_iff)

lemma rt_init_ok:
  assumes "length (rt_data r) = unat n" and "unat n < 2 ^ 31" and "0 < n" and "unat n mod 8 = 0 \<or> 4 \<le> unat n mod 8"
  shows "rt_ok (rt_init hg tg r n) []" and "rt_validate hg' tg' (rt_init hg tg r n) \<longleftrightarrow> (hg' \<longrightarrow> hg) \<and> (tg' \<longrightarrow> tg)"
  using assms
  by (auto simp: rt_ok_def ring_ok_def rb_ok_def rb_geom_def rt_init_def pointer_reset_def Let_def core_of_def as_ring_def
      rt_validate_def word_gt_0 unat_gt_0)

section \<open>Subscribers of a PubRing\<close>

record rt_pub =
  rp_ring :: ringt
  rp_all :: "byte list list"
  rp_iter :: rt_iter

inductive rt_pub_step :: "rt_pub \<Rightarrow> rt_pub \<Rightarrow> bool" where
  rt_publish: "length m \<le> ring_max \<Longrightarrow> Suc (length (rp_all s)) < 2 ^ 64 \<Longrightarrow>
     rt_write True (rp_ring s) m = Some (Inr r) \<Longrightarrow> rt_pub_step s (s\<lparr>rp_ring := r, rp_all := rp_all s @ [m]\<rparr>)"
| rt_release: "rt_shift True (rp_ring s) = Some (Inr r) \<Longrightarrow> rt_pub_step s (s\<lparr>rp_ring := r\<rparr>)"

inductive rt_sub_step :: "rt_pub \<Rightarrow> rt_pub \<Rightarrow> bool" where
  rt_sub_begin: "rt_sub_step s (s\<lparr>rp_iter := rt_begin (rp_ring s)\<rparr>)"
| rt_sub_end: "rt_sub_step s (s\<lparr>rp_iter := rt_end (rp_ring s)\<rparr>)"
| rt_sub_next: "it_shift (rp_ring s) (rp_ring s) (rp_iter s) = Some (Inr it) \<Longrightarrow> rt_sub_step s (s\<lparr>rp_iter := it\<rparr>)"

definition rt_pub_init :: "ringt \<Rightarrow> rt_pub" where
  "rt_pub_init r = \<lparr>rp_ring = r, rp_all = [], rp_iter = rt_end r\<rparr>"

inductive rt_pub_reach :: "ringt \<Rightarrow> rt_pub \<Rightarrow> bool" for r0 where
  rt_pub_start: "rt_pub_reach r0 (rt_pub_init r0)"
| rt_pub_publisher: "rt_pub_reach r0 s \<Longrightarrow> rt_pub_step s t \<Longrightarrow> rt_pub_reach r0 t"
| rt_pub_subscriber: "rt_pub_reach r0 s \<Longrightarrow> rt_sub_step s t \<Longrightarrow> rt_pub_reach r0 t"

definition as_pub :: "rt_pub \<Rightarrow> pub_sys" where
  "as_pub s = \<lparr>ps_ring = as_ring (rp_ring s), ps_all = rp_all s, ps_iter = as_iter (rp_iter s)\<rparr>"

lemma as_pub_simps [simp]:
  "ps_ring (as_pub s) = as_ring (rp_ring s)" "ps_all (as_pub s) = rp_all s" "ps_iter (as_pub s) = as_iter (rp_iter s)"
  by (simp_all add: as_pub_def)

text \<open>Both pointers count: the tail's generation is the number of messages published.\<close>

definition rt_pub_inv :: "rt_pub \<Rightarrow> bool" where
  "rt_pub_inv s \<longleftrightarrow> pub_inv (as_pub s) \<and> rp_enabled (rt_head (rp_ring s)) \<and> rp_enabled (rt_tail (rp_ring s)) \<and>
     rp_post (rt_tail (rp_ring s)) = word_of_nat (length (rp_all s)) \<and>
     rp_pre (rt_tail (rp_ring s)) = word_of_nat (length (rp_all s))"

lemma rt_write_frame:
  assumes "rt_write True r m = Some (Inr r')"
  shows "rt_head r' = rt_head r" and "rp_enabled (rt_tail r') = rp_enabled (rt_tail r)"
    and "rp_pre (rt_tail r') = rp_pre (rt_tail r) + 1" and "rp_post (rt_tail r') = rp_pre (rt_tail r) + 1"
  using assms
  by (auto simp: rt_write_def rt_fill_def rt_write_end_def Let_def bind_eq_Some_conv split: sum.splits option.splits if_splits)

lemma rt_pub_step_sim:
  assumes "rt_pub_step s t"
  shows "publisher_step (as_pub s) (as_pub t)"
  using assms
proof cases
  case (rt_publish m r)
  have "ring_write (ps_ring (as_pub s)) m = Some (Inr (as_ring r))"
    using rt_publish(4) rt_write_eq [OF rt_publish(2), of True "rp_ring s"] by simp
  from publish [of m "as_pub s", OF rt_publish(2) _ this] rt_publish(1,3) show ?thesis by (simp add: as_pub_def)
next
  case (rt_release r)
  have "ring_shift (ps_ring (as_pub s)) = Some (Inr (as_ring r))"
    using rt_release(2) rt_shift_as_ring [of "rp_ring s"] by simp
  from release [OF this] rt_release(1) show ?thesis by (simp add: as_pub_def)
qed

lemma rt_pub_step_inv:
  assumes "rt_pub_step s t" and "rt_pub_inv s"
  shows "rt_pub_inv t"
proof -
  have p: "pub_inv (as_pub t)"
    using publisher_step_inv [OF rt_pub_step_sim [OF assms(1)]] assms(2) by (simp add: rt_pub_inv_def)
  from assms(1) show ?thesis
  proof cases
    case (rt_publish m r)
    then show ?thesis using p assms(2) rt_write_frame [OF rt_publish(4)] by (simp add: rt_pub_inv_def)
  next
    case (rt_release r)
    then have "rt_tail r = rt_tail (rp_ring s)" "rp_enabled (rt_head r) = rp_enabled (rt_head (rp_ring s))"
      by (auto simp: rt_shift_def Let_def split: if_splits)
    then show ?thesis using p assms(2) rt_release by (simp add: rt_pub_inv_def)
  qed
qed

lemma rt_end_at:
  assumes "rt_pub_inv s"
  shows "iter_at (as_ring (rp_ring s)) (length (rp_all s)) (as_iter (rt_end (rp_ring s)))"
proof -
  let ?c = "core_of (as_ring (rp_ring s))" and ?d = "dropped (as_pub s)"
  have e: "rt_end (rp_ring s) = \<lparr>it_offset = rp_ptr (rt_tail (rp_ring s)), it_generation = word_of_nat (length (rp_all s))\<rparr>"
    using assms by (auto simp: rt_pub_inv_def rt_end_def rt_iterator_def Let_def)
  have n: "length (rp_all s) < 2 ^ 64" "?d \<le> length (rp_all s)" and ok: "rb_ok ?c (drop ?d (rp_all s))"
    using assms by (auto simp: rt_pub_inv_def pub_inv_def ring_ok_def)
  obtain off where "rb_walk ?c (length (rp_all s) - ?d) = Some off" "rb_ok (?c\<lparr>rb_head := off\<rparr>) []"
    using rb_walk_ok [OF ok, of "length (rp_all s) - ?d"] by auto
  then have "rb_walk ?c (length (rp_all s) - ?d) = Some (unat (rp_ptr (rt_tail (rp_ring s))))"
    using rb_ok_Nil [of "?c\<lparr>rb_head := off\<rparr>"] by simp
  then show ?thesis using n e by (simp add: iter_at_def unat_of_nat)
qed

lemma rt_sub_step_inv:
  assumes "rt_sub_step s t" and "rt_pub_inv s"
  shows "rt_pub_inv t"
  using assms(1)
proof cases
  case rt_sub_begin
  then show ?thesis
    using assms(2) by (auto simp: rt_pub_inv_def pub_inv_def iter_at_def rt_begin_def rt_iterator_def Let_def ring_ok_def)
next
  case rt_sub_end
  then show ?thesis using assms(2) rt_end_at [OF assms(2)] by (simp add: rt_pub_inv_def pub_inv_def)
next
  case (rt_sub_next it)
  have "pub_inv ((as_pub s)\<lparr>ps_iter := as_iter it\<rparr>)"
    using pub_inv_next [of "as_pub s"] rt_sub_next(2) assms(2) by (simp add: it_shift_eq rt_pub_inv_def)
  then show ?thesis using rt_sub_next(1) assms(2) by (simp add: rt_pub_inv_def as_pub_def)
qed

lemma rt_pub_reach_inv:
  assumes "rt_pub_reach r0 s" and "rt_ok r0 []" and "r0 = rt_init True True r n"
  shows "rt_pub_inv s"
  using assms(1)
proof (induction rule: rt_pub_reach.induct)
  case rt_pub_start
  have "rt_pub_inv (rt_pub_init r0)"
    using assms(2,3)
    by (simp add: rt_pub_inv_def pub_inv_def rt_pub_init_def rt_end_def rt_iterator_def iter_at_def rt_ok_def)
       (simp add: rt_init_def pointer_reset_def Let_def)
  then show ?case .
qed (auto intro: rt_pub_step_inv rt_sub_step_inv)

section \<open>The snapshot of a pointer\<close>

text \<open>
  \<open>Pointer<true>::store\<close> writes three words and \<open>_iterator\<close> reads them in the opposite order, from
  another thread and without a lock. The steps below are the single loads and stores, in any
  interleaving of one writer and one reader. \<open>sn_hist\<close> is ghost state: the values the pointer
  has had, by generation; the 64-bit generation does not wrap.
\<close>

definition store_pre :: "rptr \<Rightarrow> rptr" where
  "store_pre p = p\<lparr>rp_pre := rp_pre p + 1\<rparr>"

definition store_ptr :: "size_t \<Rightarrow> rptr \<Rightarrow> rptr" where
  "store_ptr v p = p\<lparr>rp_ptr := v\<rparr>"

definition store_post :: "rptr \<Rightarrow> rptr" where
  "store_post p = p\<lparr>rp_post := rp_pre p\<rparr>"

lemma pointer_store_steps: "pointer_store True p v = store_post (store_ptr v (store_pre p))"
  by (simp add: pointer_store_def store_pre_def store_ptr_def store_post_def Let_def)

datatype snap_writer = SwIdle | SwPre size_t | SwPtr size_t
datatype snap_reader = SrIdle | SrPost rptr | SrPtr rptr rptr | SrDone rt_iter

record snap =
  sn_ptr :: rptr
  sn_writer :: snap_writer
  sn_reader :: snap_reader
  sn_hist :: "size_t list"

inductive snap_step :: "snap \<Rightarrow> snap \<Rightarrow> bool" where
  sw_pre: "sn_writer s = SwIdle \<Longrightarrow> length (sn_hist s) + 1 < 2 ^ 64 \<Longrightarrow>
     snap_step s (s\<lparr>sn_ptr := store_pre (sn_ptr s), sn_writer := SwPre v\<rparr>)"
| sw_ptr: "sn_writer s = SwPre v \<Longrightarrow> snap_step s (s\<lparr>sn_ptr := store_ptr v (sn_ptr s), sn_writer := SwPtr v\<rparr>)"
| sw_post: "sn_writer s = SwPtr v \<Longrightarrow>
     snap_step s (s\<lparr>sn_ptr := store_post (sn_ptr s), sn_writer := SwIdle, sn_hist := sn_hist s @ [v]\<rparr>)"
| sr_post: "snap_step s (s\<lparr>sn_reader := SrPost (sn_ptr s)\<rparr>)"
| sr_ptr: "sn_reader s = SrPost p1 \<Longrightarrow> snap_step s (s\<lparr>sn_reader := SrPtr p1 (sn_ptr s)\<rparr>)"
| sr_pre: "sn_reader s = SrPtr p1 p2 \<Longrightarrow> snap_step s (s\<lparr>sn_reader := SrDone (rt_iterator p1 p2 (sn_ptr s))\<rparr>)"

inductive snap_reach :: "rptr \<Rightarrow> snap \<Rightarrow> bool" for p0 where
  snap_start: "snap_reach p0 \<lparr>sn_ptr = p0, sn_writer = SwIdle, sn_reader = SrIdle, sn_hist = [rp_ptr p0]\<rparr>"
| snap_next: "snap_reach p0 s \<Longrightarrow> snap_step s t \<Longrightarrow> snap_reach p0 t"

fun snap_writer_inv :: "rptr \<Rightarrow> size_t list \<Rightarrow> snap_writer \<Rightarrow> bool" where
  "snap_writer_inv p h SwIdle \<longleftrightarrow> unat (rp_pre p) + 1 = length h \<and> rp_ptr p = last h"
| "snap_writer_inv p h (SwPre v) \<longleftrightarrow> unat (rp_pre p) = length h \<and> rp_ptr p = last h"
| "snap_writer_inv p h (SwPtr v) \<longleftrightarrow> unat (rp_pre p) = length h \<and> rp_ptr p = v"

definition at_generation :: "size_t list \<Rightarrow> u64 \<Rightarrow> size_t \<Rightarrow> bool" where
  "at_generation h g off \<longleftrightarrow> unat g < length h \<and> h ! unat g = off"

fun snap_reader_inv :: "rptr \<Rightarrow> size_t list \<Rightarrow> snap_reader \<Rightarrow> bool" where
  "snap_reader_inv p h SrIdle \<longleftrightarrow> True"
| "snap_reader_inv p h (SrPost p1) \<longleftrightarrow> unat (rp_post p1) < length h"
| "snap_reader_inv p h (SrPtr p1 p2) \<longleftrightarrow> unat (rp_post p1) < length h \<and>
     (rp_pre p = rp_post p1 \<longrightarrow> h ! unat (rp_post p1) = rp_ptr p2)"
| "snap_reader_inv p h (SrDone it) \<longleftrightarrow> at_generation h (it_generation it) (it_offset it)"

definition snap_inv :: "snap \<Rightarrow> bool" where
  "snap_inv s \<longleftrightarrow> sn_hist s \<noteq> [] \<and> hd (sn_hist s) = 0 \<and> length (sn_hist s) < 2 ^ 64 \<and>
     unat (rp_post (sn_ptr s)) + 1 = length (sn_hist s) \<and>
     (sn_writer s \<noteq> SwIdle \<longrightarrow> length (sn_hist s) + 1 < 2 ^ 64) \<and>
     snap_writer_inv (sn_ptr s) (sn_hist s) (sn_writer s) \<and> snap_reader_inv (sn_ptr s) (sn_hist s) (sn_reader s)"

lemma at_generation_append: "at_generation h g off \<Longrightarrow> at_generation (h @ xs) g off"
  by (auto simp: at_generation_def nth_append)

lemma snap_writer_reader:
  assumes "snap_reader_inv p h ph" and "unat (rp_pre p) \<le> unat (rp_pre p')" and "unat (rp_pre p) \<noteq> unat (rp_pre p') \<longrightarrow> length h \<le> unat (rp_pre p')"
  shows "snap_reader_inv p' (h @ xs) ph"
  using assms by (cases ph) (auto simp: nth_append at_generation_append word_unat_eq_iff)

lemma snap_idle_last: "unat g + 1 = length h \<Longrightarrow> h ! unat g = last h"
  by (cases h rule: rev_cases) auto

lemma snap_step_inv:
  assumes "snap_step s t" and inv: "snap_inv s"
  shows "snap_inv t"
  using assms(1)
proof cases
  case (sw_pre v)
  then have "unat (rp_pre (store_pre (sn_ptr s))) = length (sn_hist s)"
    using inv by (simp add: snap_inv_def store_pre_def unat_word_ariths)
  then show ?thesis
    using sw_pre inv snap_writer_reader [of "sn_ptr s" "sn_hist s" "sn_reader s" "store_pre (sn_ptr s)" "[]"]
    by (simp add: snap_inv_def) (simp add: store_pre_def)
next
  case (sw_ptr v)
  then show ?thesis
    using inv snap_writer_reader [of "sn_ptr s" "sn_hist s" "sn_reader s" "store_ptr v (sn_ptr s)" "[]"]
    by (simp add: snap_inv_def store_ptr_def)
next
  case (sw_post v)
  then show ?thesis
    using inv snap_writer_reader [of "sn_ptr s" "sn_hist s" "sn_reader s" "store_post (sn_ptr s)" "[v]"]
    by (simp add: snap_inv_def store_post_def)
next
  case sr_post
  then show ?thesis using inv by (simp add: snap_inv_def)
next
  case (sr_ptr p1)
  then show ?thesis
    using inv snap_idle_last [of "rp_pre (sn_ptr s)" "sn_hist s"] by (cases "sn_writer s") (auto simp: snap_inv_def)
next
  case (sr_pre p1 p2)
  have "at_generation (sn_hist s) 0 0"
    using inv by (auto simp: snap_inv_def at_generation_def simp flip: hd_conv_nth)
  then show ?thesis
    using sr_pre inv by (auto simp: snap_inv_def rt_iterator_def Let_def at_generation_def)
qed

lemma snap_reach_inv: "snap_reach (pointer_reset True p) s \<Longrightarrow> snap_inv s"
proof (induction rule: snap_reach.induct)
  case snap_start
  then show ?case by (simp add: snap_inv_def pointer_reset_def Let_def)
qed (rule snap_step_inv)

section \<open>Properties\<close>

definition rt_raw :: "size_t \<Rightarrow> ringt" where
  "rt_raw n = (let p = \<lparr>rp_ptr = 7, rp_pre = 7, rp_post = 7, rp_enabled = False\<rparr>
     in \<lparr>rt_magic = 0, rt_version = 0, rt_size = 0, rt_head = p, rt_tail = p, rt_data = replicate (unat n) 0\<rparr>)"

definition rt_ex :: ringt where
  "rt_ex = rt_allocate True True rt_raw 32"

lemma rt_ex_ok: "rt_ok rt_ex []"
  unfolding rt_ex_def rt_allocate_def by (rule rt_init_ok) (simp_all add: rt_raw_def Let_def)



text \<open>\<open>RingT\<close>, with or without generations, is a queue: any sequence of writes and reads after
  \<open>allocate\<close> runs without a fault and delivers the accepted messages in order.\<close>

theorem rt_fifo:
  assumes "length (rt_data (raw n)) = unat n" and "unat n < 2 ^ 31" and "0 < n" and "unat n mod 8 = 0 \<or> 4 \<le> unat n mod 8"
    and "list_all (\<lambda>m. length m \<le> ring_max) (pushed ops)"
  shows "\<exists>r' acc del rest. queue_run (rt_write tg) rt_peek (rt_shift hg) (rt_allocate hg tg raw n) ops = Some (r', acc, del) \<and>
           acc = del @ rest \<and> rt_ok r' rest \<and> (rt_empty r' \<longleftrightarrow> rest = [])"
proof -
  have "rt_ok (rt_allocate hg tg raw n) []"
    unfolding rt_allocate_def by (rule rt_init_ok [OF assms(1-4)])
  from rt_queue.run_fifo [OF this assms(5), of tg hg] show ?thesis using rt_empty_iff by fastforce
qed

theorem rt_fifo_witness:
  "\<exists>r' acc del rest. queue_run (rt_write False) rt_peek (rt_shift False) (rt_allocate False False rt_raw 32)
     [Push [1], Push [2, 3], Pop] = Some (r', acc, del) \<and> acc = del @ rest \<and> rt_ok r' rest \<and> (rt_empty r' \<longleftrightarrow> rest = [])"
  by (rule rt_fifo) (simp_all add: rt_raw_def Let_def ring_max_def)

text \<open>A subscriber of a \<open>PubRing\<close>, wherever it started (\<open>begin\<close> or \<open>end\<close>) and whatever the
  publisher does: its iterator reads the message whose number is its generation, \<open>EAGAIN\<close> after
  the last message and \<open>EINVAL\<close> once its message was dropped.\<close>

theorem rt_subscriber_read:
  assumes "rt_ok (rt_init True True r n) []" and "rt_pub_reach (rt_init True True r n) s"
  shows "if it_generation (rp_iter s) < rp_pre (rt_head (rp_ring s))
         then it_read (rp_ring s) (rp_ring s) (rp_iter s) = Some (Inl EINVAL)
         else if unat (it_generation (rp_iter s)) = length (rp_all s)
         then it_read (rp_ring s) (rp_ring s) (rp_iter s) = Some (Inl EAGAIN)
         else (\<exists>p k. it_read (rp_ring s) (rp_ring s) (rp_iter s) = Some (Inr (p, k)) \<and>
                load_bytes (rt_data (rp_ring s)) (unat p) (unat k) = Some (rp_all s ! unat (it_generation (rp_iter s))))"
proof -
  have "pub_inv (as_pub s)" using rt_pub_reach_inv [OF assms(2,1)] by (simp add: rt_pub_inv_def)
  from iter_read_ok [OF this] show ?thesis
    unfolding it_read_eq as_pub_simps as_iter_simps as_ring_simps word_less_nat_alt .
qed

lemma rt_ex_init: "rt_ex = rt_init True True (rt_raw 32) 32"
  by (simp add: rt_ex_def rt_allocate_def)

theorem rt_subscriber_read_witness:
  "rt_pub_reach rt_ex (rt_pub_init rt_ex) \<and> it_read rt_ex rt_ex (rt_end rt_ex) = Some (Inl EAGAIN)"
proof -
  have "rp_pre (rt_head rt_ex) = 0" "it_generation (rt_end rt_ex) = 0" by code_simp+
  then show ?thesis
    using rt_subscriber_read [of "rt_raw 32" 32 "rt_pub_init rt_ex"] rt_ex_ok rt_pub_start [of rt_ex]
    by (simp add: rt_ex_init [symmetric] rt_pub_init_def)
qed

text \<open>C11. The snapshot \<open>begin\<close> and \<open>end\<close> take of a pointer while it is being stored is never torn:
  the offset and the generation of the iterator belonged together at some moment.\<close>

theorem rt_iterator_snapshot:
  assumes "snap_reach (pointer_reset True p) s" and "sn_reader s = SrDone it"
  shows "unat (it_generation it) < length (sn_hist s) \<and> sn_hist s ! unat (it_generation it) = it_offset it"
  using snap_reach_inv [OF assms(1)] assms(2) by (simp add: snap_inv_def at_generation_def)

lemma snap_ex:
  fixes p defines "p0 \<equiv> pointer_reset True p"
  shows "\<exists>s. snap_reach p0 s \<and> sn_reader s = SrDone \<lparr>it_offset = 0, it_generation = 0\<rparr> \<and> sn_hist s = [0]"
proof -
  let ?s0 = "\<lparr>sn_ptr = p0, sn_writer = SwIdle, sn_reader = SrIdle, sn_hist = [rp_ptr p0]\<rparr>"
  let ?s1 = "?s0\<lparr>sn_reader := SrPost (sn_ptr ?s0)\<rparr>"
  let ?s2 = "?s1\<lparr>sn_ptr := store_pre (sn_ptr ?s1), sn_writer := SwPre 8\<rparr>"
  let ?s3 = "?s2\<lparr>sn_reader := SrPtr p0 (sn_ptr ?s2)\<rparr>"
  let ?s4 = "?s3\<lparr>sn_reader := SrDone (rt_iterator p0 (sn_ptr ?s2) (sn_ptr ?s3))\<rparr>"
  have "snap_step ?s0 ?s1" by (rule sr_post)
  moreover have "snap_step ?s1 ?s2" by (rule sw_pre) simp_all
  moreover have "snap_step ?s2 ?s3" by (rule sr_ptr) simp
  moreover have "snap_step ?s3 ?s4" by (rule sr_pre) simp
  ultimately have "snap_reach p0 ?s4"
    using snap_start [of p0] by (blast intro: snap_next)
  then show ?thesis
    by (intro exI [of _ ?s4]) (simp add: rt_iterator_def p0_def pointer_reset_def store_pre_def Let_def)
qed

theorem rt_iterator_snapshot_witness:
  "\<exists>s. snap_reach (pointer_reset True (rt_head (rt_raw 8))) s \<and> sn_hist s ! unat (0 :: u64) = 0"
  using snap_ex [of "rt_head (rt_raw 8)"] rt_iterator_snapshot by fastforce

end
