(* ===== verification/ObjRing.thy ===== *)
theory ObjRing
  imports Queues
begin

text \<open>
  The object rings of \<open>src/tll/util/cppring.h\<close>: \<open>Ring<T>\<close>, a circular buffer of values with its
  iterators, and \<open>DataRing<T>\<close>, which adds a byte buffer in which each element owns a framed,
  contiguous chunk. The \<open>unsigned\<close> indices are naturals with the wrap-around of 32 bits written
  out, \<open>size_t\<close> results are taken modulo \<open>2 ^ 64\<close>, and pointers into the byte buffer are offsets.
\<close>

section \<open>Ring of objects\<close>

record 'a objring =
  or_data :: "'a list"
  or_head :: nat
  or_tail :: nat

definition or_shift :: "'a objring \<Rightarrow> nat \<Rightarrow> nat" where
  "or_shift r v = (let v = (v + 1) mod 2 ^ 32 in if v = length (or_data r) then 0 else v)"

definition or_prev :: "'a objring \<Rightarrow> nat \<Rightarrow> nat" where
  "or_prev r v = (if v = 0 then (length (or_data r) + (2 ^ 64 - 1)) mod 2 ^ 64 mod 2 ^ 32 else v - 1)"

text \<open>\<open>std::vector::resize\<close> keeps a prefix and value-initialises the rest.\<close>

definition vector_resize :: "'a \<Rightarrow> 'a list \<Rightarrow> nat \<Rightarrow> 'a list" where
  "vector_resize z xs n = take n xs @ replicate (n - length xs) z"

definition or_new :: "'a \<Rightarrow> nat \<Rightarrow> 'a objring" where
  "or_new z n = \<lparr>or_data = replicate n z, or_head = 0, or_tail = 0\<rparr>"

definition or_resize :: "'a \<Rightarrow> 'a objring \<Rightarrow> nat \<Rightarrow> 'a objring" where
  "or_resize z r n = r\<lparr>or_head := 0, or_tail := 0, or_data := vector_resize z (or_data r) n\<rparr>"

definition or_clear :: "'a objring \<Rightarrow> 'a objring" where
  "or_clear r = r\<lparr>or_head := 0, or_tail := 0\<rparr>"

text \<open>\<open>operator []\<close> of the vector; \<open>None\<close> is an access outside it.\<close>

definition vec_at :: "'a list \<Rightarrow> nat \<Rightarrow> 'a option" where
  "vec_at xs i = (if i < length xs then Some (xs ! i) else None)"

definition or_front :: "'a objring \<Rightarrow> 'a option" where
  "or_front r = vec_at (or_data r) (or_head r)"

definition or_back :: "'a objring \<Rightarrow> 'a option" where
  "or_back r = vec_at (or_data r) (or_prev r (or_tail r))"

definition or_size :: "'a objring \<Rightarrow> nat" where
  "or_size r = (if or_head r \<le> or_tail r then or_tail r - or_head r
                else (or_tail r + length (or_data r)) mod 2 ^ 64 - or_head r)"

definition or_capacity :: "'a objring \<Rightarrow> nat" where
  "or_capacity r = (length (or_data r) + (2 ^ 64 - 1)) mod 2 ^ 64"

definition or_empty :: "'a objring \<Rightarrow> bool" where
  "or_empty r \<longleftrightarrow> or_head r = or_tail r"

text \<open>\<open>Some (r, None)\<close> is the null pointer; on success the index of the stored value is returned.\<close>

definition or_push_back :: "'a objring \<Rightarrow> 'a \<Rightarrow> ('a objring \<times> nat option) option" where
  "or_push_back r v =
     (let t = or_shift r (or_tail r) in
      if t = or_head r then Some (r, None)
      else if or_tail r < length (or_data r)
           then Some (r\<lparr>or_data := (or_data r)[or_tail r := v], or_tail := t\<rparr>, Some (or_tail r))
           else None)"

definition or_pop_front :: "'a objring \<Rightarrow> 'a objring" where
  "or_pop_front r = (if or_head r = or_tail r then r else r\<lparr>or_head := or_shift r (or_head r)\<rparr>)"

text \<open>\<open>circular_iterator\<close>: \<open>++\<close>, and the loop \<open>for (auto & i : ring)\<close> from \<open>begin\<close> to \<open>end\<close>. The fuel is
  the size of the vector.\<close>

definition ci_shift :: "'a list \<Rightarrow> nat \<Rightarrow> nat" where
  "ci_shift xs i = (let i = (i + 1) mod 2 ^ 32 in if i = length xs then 0 else i)"

fun ci_walk :: "nat \<Rightarrow> 'a list \<Rightarrow> nat \<Rightarrow> nat \<Rightarrow> 'a list option" where
  "ci_walk n xs i e =
     (if i = e then Some []
      else case n of
             0 \<Rightarrow> None
           | Suc n \<Rightarrow> Option.bind (vec_at xs i) (\<lambda>x. map_option (Cons x) (ci_walk n xs (ci_shift xs i) e)))"

declare ci_walk.simps [simp del]

definition or_walk :: "'a objring \<Rightarrow> 'a list option" where
  "or_walk r = ci_walk (length (or_data r)) (or_data r) (or_head r) (or_tail r)"

section \<open>The content of a ring\<close>

definition or_wf :: "'a objring \<Rightarrow> bool" where
  "or_wf r \<longleftrightarrow> length (or_data r) < 2 ^ 32 \<and> or_head r < length (or_data r) \<and> or_tail r < length (or_data r)"

text \<open>The \<open>i\<close>-th element from the head.\<close>

definition or_index :: "'a objring \<Rightarrow> nat \<Rightarrow> nat" where
  "or_index r i = (if or_head r + i < length (or_data r) then or_head r + i else or_head r + i - length (or_data r))"

definition or_content :: "'a objring \<Rightarrow> 'a list" where
  "or_content r = map (\<lambda>i. or_data r ! or_index r i) [0..<or_size r]"

lemma size_t_minus_1: "0 < n \<Longrightarrow> n < 2 ^ 32 \<Longrightarrow> (n + (2 ^ 64 - 1)) mod 2 ^ 64 = (n - 1 :: nat)"
  by (subst mod_if) simp

lemma or_size_eq: "or_wf r \<Longrightarrow> or_size r = (if or_head r \<le> or_tail r then or_tail r - or_head r
    else or_tail r + length (or_data r) - or_head r)"
  by (simp add: or_size_def or_wf_def)

lemma or_size_less: "or_wf r \<Longrightarrow> or_size r < length (or_data r)"
  by (auto simp: or_size_eq or_wf_def)

lemma or_index_less: "or_wf r \<Longrightarrow> i < length (or_data r) \<Longrightarrow> or_index r i < length (or_data r)"
  by (auto simp: or_index_def or_wf_def)

lemma or_index_size: "or_wf r \<Longrightarrow> or_index r (or_size r) = or_tail r"
  by (auto simp: or_index_def or_wf_def or_size_def)

lemma or_index_before: "or_wf r \<Longrightarrow> i < or_size r \<Longrightarrow> or_index r i \<noteq> or_tail r"
  by (auto simp: or_index_def or_size_eq or_wf_def split: if_splits)

lemma or_shift_lt: "or_wf r \<Longrightarrow> v < length (or_data r) \<Longrightarrow>
    or_shift r v = (if Suc v = length (or_data r) then 0 else Suc v)"
  by (simp add: or_shift_def or_wf_def)

lemma or_shift_less: "or_wf r \<Longrightarrow> v < length (or_data r) \<Longrightarrow> or_shift r v < length (or_data r)"
  by (auto simp: or_shift_lt)

lemma or_shift_index: "or_wf r \<Longrightarrow> i < length (or_data r) \<Longrightarrow> Suc i < length (or_data r) \<Longrightarrow>
    or_shift r (or_index r i) = or_index r (Suc i)"
  by (subst or_shift_lt) (auto simp: or_index_less, auto simp: or_index_def or_wf_def split: if_splits)

lemma or_size_content [simp]: "length (or_content r) = or_size r"
  by (simp add: or_content_def)

lemma or_empty_content: "or_wf r \<Longrightarrow> or_empty r \<longleftrightarrow> or_content r = []"
  by (auto simp: or_wf_def or_content_def or_empty_def or_size_def split: if_splits)

lemma or_front_content: "or_wf r \<Longrightarrow> or_content r \<noteq> [] \<Longrightarrow> or_front r = Some (hd (or_content r))"
  by (simp add: or_content_def hd_map or_front_def vec_at_def or_index_def or_wf_def)

lemma or_prev_lt: "or_wf r \<Longrightarrow> v < length (or_data r) \<Longrightarrow> or_prev r v = (if v = 0 then length (or_data r) - 1 else v - 1)"
proof -
  assume wf: "or_wf r"
  have "(length (or_data r) + (2 ^ 64 - 1)) mod 2 ^ 64 = length (or_data r) - 1"
    by (rule size_t_minus_1) (use wf in \<open>auto simp: or_wf_def\<close>)
  moreover have "(length (or_data r) - 1) mod 2 ^ 32 = length (or_data r) - 1"
    using wf by (intro mod_less) (auto simp: or_wf_def)
  ultimately show ?thesis by (simp only: or_prev_def)
qed

lemma or_capacity_eq: "or_wf r \<Longrightarrow> or_capacity r = length (or_data r) - 1"
  unfolding or_capacity_def by (rule size_t_minus_1) (auto simp: or_wf_def)

lemma or_prev_index:
  assumes "or_wf r" and "0 < or_size r"
  shows "or_prev r (or_tail r) = or_index r (or_size r - 1)"
  using assms by (subst or_prev_lt) (auto simp: or_size_eq or_index_def or_wf_def split: if_splits)

lemma or_back_content: "or_wf r \<Longrightarrow> or_content r \<noteq> [] \<Longrightarrow> or_back r = Some (last (or_content r))"
  using or_index_less [of r "or_size r - 1"] or_size_less [of r]
  by (simp add: or_back_def or_prev_index vec_at_def or_content_def last_map)

lemma or_index_inj:
  "or_wf r \<Longrightarrow> i < length (or_data r) \<Longrightarrow> j < length (or_data r) \<Longrightarrow> or_index r i = or_index r j \<longleftrightarrow> i = j"
  by (auto simp: or_index_def or_wf_def split: if_splits)

text \<open>Overwriting a cell, inside or outside the content.\<close>

lemma or_content_update:
  assumes "or_wf r" and "j < length (or_data r)"
  shows "or_content (r\<lparr>or_data := (or_data r)[or_index r j := v]\<rparr>) = (or_content r)[j := v]"
proof -
  let ?r = "r\<lparr>or_data := (or_data r)[or_index r j := v]\<rparr>"
  have sz: "or_size ?r = or_size r" 
    and ix: "or_index (r\<lparr>or_data := (or_data r)[k := v]\<rparr>) i = or_index r i" for k i
    by (simp_all add: or_size_def or_index_def)
  show ?thesis
  proof (rule nth_equalityI)
    fix i assume "i < length (or_content ?r)"
    then have i: "i < or_size r" "i < length (or_data r)" using sz or_size_less [OF assms(1)] by simp_all
    then have "or_index r j = or_index r i \<longleftrightarrow> j = i" using or_index_inj [OF assms(1,2)] by simp
    then show "or_content ?r ! i = (or_content r)[j := v] ! i"
      using i sz or_index_less [OF assms] by (cases "j = i") (simp_all add: or_content_def ix)
  qed (simp add: sz)
qed

lemma or_push_full: "or_wf r \<Longrightarrow> or_size r = or_capacity r \<longleftrightarrow> or_push_back r v = Some (r, None)"
  by (auto simp: or_push_back_def Let_def or_shift_lt or_size_eq or_capacity_eq or_wf_def)

lemma or_push_content:
  assumes "or_wf r" and "or_size r \<noteq> or_capacity r"
  shows "\<exists>r'. or_push_back r v = Some (r', Some (or_tail r)) \<and> or_wf r' \<and> or_content r' = or_content r @ [v] \<and>
           vec_at (or_data r') (or_tail r) = Some v"
proof -
  let ?r = "r\<lparr>or_data := (or_data r)[or_tail r := v], or_tail := or_shift r (or_tail r)\<rparr>"
  have b: "or_head r < length (or_data r)" "or_tail r < length (or_data r)" using assms(1) by (simp_all add: or_wf_def)
  have p: "or_push_back r v = Some (?r, Some (or_tail r))" and ne: "or_shift r (or_tail r) \<noteq> or_head r"
    using b or_push_full [OF assms(1), of v] assms(2) by (auto simp: or_push_back_def Let_def)
  have wf: "or_wf ?r" using assms(1) or_shift_less [OF assms(1) b(2)] by (simp add: or_wf_def)
  have sz: "or_size ?r = Suc (or_size r)"
    using ne b unfolding or_size_eq [OF wf] or_size_eq [OF assms(1)] by (auto simp: or_shift_lt [OF assms(1)])
  have ix: "or_index ?r i = or_index r i" for i by (simp add: or_index_def)
  have "or_content ?r = or_content r @ [v]"
    using or_index_size [OF assms(1)] b
    unfolding or_content_def sz ix by (simp add: or_index_before [OF assms(1)] or_index_before [OF assms(1), symmetric])
  then show ?thesis using p wf b by (simp add: vec_at_def)
qed

lemma or_pop_content:
  assumes "or_wf r"
  shows "or_wf (or_pop_front r)" and "or_content (or_pop_front r) = tl (or_content r)"
proof -
  have b: "or_head r < length (or_data r)" "or_tail r < length (or_data r)" using assms by (simp_all add: or_wf_def)
  show wf: "or_wf (or_pop_front r)"
    using assms or_shift_less [OF assms b(1)] by (simp add: or_pop_front_def or_wf_def)
  show "or_content (or_pop_front r) = tl (or_content r)"
  proof (cases "or_head r = or_tail r")
    case True
    then show ?thesis using or_empty_content [OF assms] by (simp add: or_pop_front_def or_empty_def)
  next
    case False
    have sz: "or_size r = Suc (or_size (or_pop_front r))"
      using False b or_size_eq [OF wf] or_size_eq [OF assms] by (auto simp: or_pop_front_def or_shift_lt [OF assms])
    have ix: "or_index r (Suc i) = or_index (or_pop_front r) i" if "Suc i < or_size r" for i
      using False that or_size_less [OF assms] b
      by (auto simp: or_pop_front_def or_shift_lt [OF assms] or_index_def)
    have "tl (or_content r) = map (\<lambda>i. or_data r ! or_index r (Suc i)) [0..<or_size (or_pop_front r)]"
      by (simp add: or_content_def sz upt_conv_Cons map_Suc_upt [symmetric] o_def del: upt_Suc)
    also have "\<dots> = or_content (or_pop_front r)"
      using ix sz by (auto simp: or_content_def) (simp add: or_pop_front_def)
    finally show ?thesis by simp
  qed
qed

text \<open>Iterating from \<open>begin\<close> to \<open>end\<close> visits the content in order and stops.\<close>

lemma ci_walk_from:
  assumes "or_wf r" and "or_size r - i \<le> n" and "i \<le> or_size r"
  shows "ci_walk n (or_data r) (or_index r i) (or_tail r) = Some (drop i (or_content r))"
  using assms
proof (induction n arbitrary: i)
  case 0
  then show ?case using or_index_size [of r] by (simp add: ci_walk.simps)
next
  case (Suc n)
  show ?case
  proof (cases "i = or_size r")
    case True
    then show ?thesis using Suc.prems or_index_size [of r] by (simp add: ci_walk.simps)
  next
    case False
    then have lt: "i < or_size r" "i < length (or_data r)" "Suc i < length (or_data r)"
      using Suc.prems or_size_less [of r] by simp_all
    have "ci_shift (or_data r) (or_index r i) = or_index r (Suc i)"
      using or_shift_index [OF Suc.prems(1) lt(2,3)] by (simp add: ci_shift_def or_shift_def)
    moreover have "drop i (or_content r) = or_data r ! or_index r i # drop (Suc i) (or_content r)"
      using lt by (simp add: Cons_nth_drop_Suc [symmetric] or_content_def)
    ultimately show ?thesis
      using Suc lt or_index_before [OF Suc.prems(1) lt(1)] or_index_less [OF Suc.prems(1) lt(2)]
      by (subst ci_walk.simps) (simp add: vec_at_def)
  qed
qed

lemma or_walk_content: "or_wf r \<Longrightarrow> or_walk r = Some (or_content r)"
  using ci_walk_from [of r 0 "length (or_data r)"] or_size_less [of r]
  by (simp add: or_walk_def or_index_def or_wf_def)

lemma or_new_wf: "0 < n \<Longrightarrow> n < 2 ^ 32 \<Longrightarrow> or_wf (or_new z n) \<and> or_content (or_new z n) = []"
  by (simp add: or_wf_def or_new_def or_content_def or_size_def)

section \<open>Ring with a data buffer\<close>

text \<open>\<open>framed_data_t<T>\<close>: the offset of the frame and the size of the data behind it. \<open>fs\<close> is
  \<open>frame_size\<close>: \<open>sizeof(T)\<close>, or 0 for \<open>void\<close>.\<close>

record framed_data =
  fd_frame :: nat
  fd_size :: nat

definition fd_data :: "nat \<Rightarrow> framed_data \<Rightarrow> nat" where
  "fd_data fs e = fd_frame e + fs"

definition fd_end :: "nat \<Rightarrow> framed_data \<Rightarrow> nat" where
  "fd_end fs e = fd_data fs e + fd_size e"

record dataring =
  dr_ring :: "framed_data objring"
  dr_data :: "byte list"

definition dr_new :: "nat \<Rightarrow> nat \<Rightarrow> dataring" where
  "dr_new n data_size = \<lparr>dr_ring = or_new \<lparr>fd_frame = 0, fd_size = 0\<rparr> n, dr_data = replicate data_size 0\<rparr>"

definition dr_data_head :: "dataring \<Rightarrow> nat option" where
  "dr_data_head r = (if or_empty (dr_ring r) then Some (length (dr_data r))
                     else map_option fd_frame (or_front (dr_ring r)))"

definition dr_data_tail :: "nat \<Rightarrow> dataring \<Rightarrow> nat option" where
  "dr_data_tail fs r = (if or_empty (dr_ring r) then Some 0 else map_option (fd_end fs) (or_back (dr_ring r)))"

definition dr_data_resize :: "dataring \<Rightarrow> nat \<Rightarrow> dataring" where
  "dr_data_resize r n = \<lparr>dr_ring = or_clear (dr_ring r), dr_data = vector_resize 0 (dr_data r) n\<rparr>"

definition dr_data_capacity :: "dataring \<Rightarrow> nat" where
  "dr_data_capacity r = length (dr_data r)"

definition dr_data_size :: "nat \<Rightarrow> dataring \<Rightarrow> nat option" where
  "dr_data_size fs r =
     (if or_empty (dr_ring r) then Some 0
      else Option.bind (or_front (dr_ring r)) (\<lambda>f. Option.bind (or_back (dr_ring r)) (\<lambda>b.
        if fd_frame f < fd_end fs b then Some (fd_end fs b - fd_frame f)
        else Some (fd_end fs b + length (dr_data r) - fd_frame f))))"

definition dr_data_free :: "nat \<Rightarrow> dataring \<Rightarrow> nat option" where
  "dr_data_free fs r =
     (if or_empty (dr_ring r) then Some (length (dr_data r))
      else Option.bind (or_front (dr_ring r)) (\<lambda>f. Option.bind (or_back (dr_ring r)) (\<lambda>b.
        if fd_frame f < fd_end fs b then Some (max (length (dr_data r) - fd_end fs b) (fd_frame f))
        else Some (fd_frame f - fd_end fs b))))"

text \<open>Where \<open>push_back\<close> places a chunk of \<open>full\<close> bytes; \<open>None\<close> is no space.\<close>

definition dr_place :: "nat \<Rightarrow> nat \<Rightarrow> nat \<Rightarrow> nat \<Rightarrow> nat option" where
  "dr_place len head tail full =
     (if head < tail
      then (if len - tail < full
            then (if head < full then None else Some 0)
            else Some tail)
      else (if head - tail < full then None else Some tail))"

definition dr_push_back :: "nat \<Rightarrow> dataring \<Rightarrow> byte list \<Rightarrow> (dataring \<times> nat option) option" where
  "dr_push_back fs r bs =
     (if or_size (dr_ring r) = or_capacity (dr_ring r) then Some (r, None)
      else let full = (fs + length bs) mod 2 ^ 64 in
        if length (dr_data r) < full then Some (r, None)
        else Option.bind (dr_data_tail fs r) (\<lambda>tail. Option.bind (dr_data_head r) (\<lambda>head.
          case dr_place (length (dr_data r)) head tail full of
            None \<Rightarrow> Some (r, None)
          | Some tail \<Rightarrow>
              let v = \<lparr>fd_frame = tail, fd_size = length bs\<rparr> in
              Option.bind (store_bytes (dr_data r) (fd_data fs v) bs) (\<lambda>d.
              Option.bind (or_push_back (dr_ring r) v) (\<lambda>(q, p).
                Some (\<lparr>dr_ring = q, dr_data = d\<rparr>, p))))))"

text \<open>The overload that also assigns the frame; \<open>value\<close> is its byte image.\<close>

definition dr_push_back_framed ::
  "nat \<Rightarrow> dataring \<Rightarrow> byte list \<Rightarrow> byte list \<Rightarrow> (dataring \<times> nat option) option" where
  "dr_push_back_framed fs r val bs =
     Option.bind (dr_push_back fs r bs) (\<lambda>(r, p).
       case p of
         None \<Rightarrow> Some (r, None)
       | Some i \<Rightarrow>
           Option.bind (vec_at (or_data (dr_ring r)) i) (\<lambda>v.
           Option.bind (store_bytes (dr_data r) (fd_frame v) val) (\<lambda>d.
             Some (r\<lparr>dr_data := d\<rparr>, Some i))))"

definition dr_pop_front :: "dataring \<Rightarrow> dataring" where
  "dr_pop_front r = r\<lparr>dr_ring := or_pop_front (dr_ring r)\<rparr>"

section \<open>The data ring as a queue\<close>

definition dr_write :: "nat \<Rightarrow> dataring \<Rightarrow> byte list \<times> byte list \<Rightarrow> (errno + dataring) option" where
  "dr_write fs r m = map_option (\<lambda>(r', p). if p = None then Inl EAGAIN else Inr r') (dr_push_back_framed fs r (fst m) (snd m))"

definition dr_peek :: "nat \<Rightarrow> dataring \<Rightarrow> (errno + byte list \<times> byte list) option" where
  "dr_peek fs r =
     (if or_empty (dr_ring r) then Some (Inl EAGAIN)
      else Option.bind (or_front (dr_ring r)) (\<lambda>e.
           Option.bind (load_bytes (dr_data r) (fd_frame e) fs) (\<lambda>f.
           Option.bind (load_bytes (dr_data r) (fd_data fs e) (fd_size e)) (\<lambda>bs. Some (Inr (f, bs))))))"

definition dr_shift :: "dataring \<Rightarrow> (errno + dataring) option" where
  "dr_shift r = Some (if or_empty (dr_ring r) then Inl EAGAIN else Inr (dr_pop_front r))"

text \<open>Chunks \<open>es\<close> with contents \<open>ms\<close> lie one after another from \<open>a\<close> to \<open>b\<close>.\<close>

fun dr_seg :: "nat \<Rightarrow> byte list \<Rightarrow> nat \<Rightarrow> framed_data list \<Rightarrow> (byte list \<times> byte list) list \<Rightarrow> nat \<Rightarrow> bool" where
  "dr_seg fs d a [] [] b \<longleftrightarrow> a = b"
| "dr_seg fs d a (e # es) (m # ms) b \<longleftrightarrow>
     fd_frame e = a \<and> fd_size e = length (snd m) \<and> load_bytes d a fs = Some (fst m) \<and>
     load_bytes d (a + fs) (length (snd m)) = Some (snd m) \<and> dr_seg fs d (a + fs + length (snd m)) es ms b"
| "dr_seg fs d a _ _ b \<longleftrightarrow> False"

definition dr_ok :: "nat \<Rightarrow> dataring \<Rightarrow> (byte list \<times> byte list) list \<Rightarrow> bool" where
  "dr_ok fs r ms \<longleftrightarrow> or_wf (dr_ring r) \<and> length (dr_data r) < 2 ^ 64 \<and>
     (\<exists>es1 ms1 a e es2 ms2 b. or_content (dr_ring r) = es1 @ es2 \<and> ms = ms1 @ ms2 \<and>
        dr_seg fs (dr_data r) a es1 ms1 e \<and> e \<le> length (dr_data r) \<and>
        dr_seg fs (dr_data r) 0 es2 ms2 b \<and> (es2 \<noteq> [] \<longrightarrow> es1 \<noteq> [] \<and> b \<le> a))"

lemma dr_seg_le: "dr_seg fs d a es ms b \<Longrightarrow> a \<le> b"
  by (induction fs d a es ms b rule: dr_seg.induct) auto

lemma dr_seg_length: "dr_seg fs d a es ms b \<Longrightarrow> length es = length ms"
  by (induction fs d a es ms b rule: dr_seg.induct) auto

lemma dr_seg_snoc:
  "dr_seg fs d a es ms b \<Longrightarrow> dr_seg fs d a (es @ [e]) (ms @ [m]) c \<longleftrightarrow> dr_seg fs d b [e] [m] c"
  by (induction fs d a es ms b rule: dr_seg.induct) auto

lemma dr_seg_agree: "dr_seg fs d a es ms b \<Longrightarrow> agree d d' a b \<Longrightarrow> dr_seg fs d' a es ms b"
proof (induction fs d a es ms b rule: dr_seg.induct)
  case (2 fs d a e es m ms b)
  then have "a + fs + length (snd m) \<le> b" by (auto dest: dr_seg_le)
  with 2 show ?case
    using agree_load_bytes [OF 2(3)] agree_sub [OF 2(3)] by auto
qed auto

lemma dr_seg_ends:
  "dr_seg fs d a es ms b \<Longrightarrow> es \<noteq> [] \<Longrightarrow> fd_frame (hd es) = a \<and> fd_end fs (last es) = b"
proof (induction fs d a es ms b rule: dr_seg.induct)
  case (2 fs d a e es m ms b)
  then show ?case by (cases es; cases ms) (auto simp: fd_end_def fd_data_def)
qed auto

text \<open>The invariant with its parts named.\<close>

definition dr_parts ::
  "nat \<Rightarrow> byte list \<Rightarrow> framed_data list \<Rightarrow> (byte list \<times> byte list) list \<Rightarrow> nat \<Rightarrow> nat \<Rightarrow>
   framed_data list \<Rightarrow> (byte list \<times> byte list) list \<Rightarrow> nat \<Rightarrow> bool" where
  "dr_parts fs d es1 ms1 a e es2 ms2 b \<longleftrightarrow>
     dr_seg fs d a es1 ms1 e \<and> e \<le> length d \<and> dr_seg fs d 0 es2 ms2 b \<and> (es2 \<noteq> [] \<longrightarrow> es1 \<noteq> [] \<and> b \<le> a)"

lemma dr_ok_parts:
  "dr_ok fs r ms \<longleftrightarrow> or_wf (dr_ring r) \<and> length (dr_data r) < 2 ^ 64 \<and>
     (\<exists>es1 ms1 a e es2 ms2 b. or_content (dr_ring r) = es1 @ es2 \<and> ms = ms1 @ ms2 \<and>
        dr_parts fs (dr_data r) es1 ms1 a e es2 ms2 b)"
  by (auto simp: dr_ok_def dr_parts_def)

lemma dr_bounds:
  assumes "or_wf (dr_ring r)" and "or_content (dr_ring r) = es1 @ es2" and "dr_parts fs (dr_data r) es1 ms1 a e es2 ms2 b"
  shows "dr_data_head r = Some (if es1 = [] then length (dr_data r) else a)"
    and "dr_data_tail fs r = Some (if es1 = [] then 0 else if es2 = [] then e else b)"
proof -
  have ends: "es1 \<noteq> [] \<Longrightarrow> fd_frame (hd es1) = a \<and> fd_end fs (last es1) = e"
    "es2 \<noteq> [] \<Longrightarrow> fd_end fs (last es2) = b" "es1 = [] \<Longrightarrow> es2 = []"
    using assms(3) dr_seg_ends by (auto simp: dr_parts_def)
  show "dr_data_head r = Some (if es1 = [] then length (dr_data r) else a)"
    using or_front_content [OF assms(1)] or_empty_content [OF assms(1)] assms(2) ends
    by (cases "es1 = []") (simp_all add: dr_data_head_def)
  show "dr_data_tail fs r = Some (if es1 = [] then 0 else if es2 = [] then e else b)"
    using or_back_content [OF assms(1)] or_empty_content [OF assms(1)] assms(2) ends
    by (cases "es1 = []"; cases "es2 = []") (simp_all add: dr_data_tail_def)
qed

text \<open>Storing a message at \<open>p\<close>.\<close>

lemma dr_stores:
  assumes "p + fs + length bs \<le> length d" and "length f = fs"
  obtains d1 d2 where "store_bytes d (p + fs) bs = Some d1" and "store_bytes d1 p f = Some d2" and "length d2 = length d"
    and "dr_seg fs d2 p [\<lparr>fd_frame = p, fd_size = length bs\<rparr>] [(f, bs)] (p + fs + length bs)"
    and "\<And>x y. y \<le> length d \<Longrightarrow> y \<le> p \<or> p + fs + length bs \<le> x \<Longrightarrow> agree d d2 x y"
proof -
  obtain d1 where d1: "store_bytes d (p + fs) bs = Some d1" using store_bytes_some assms(1) by blast
  have l1: "length d1 = length d" using d1 by (rule store_bytes_length)
  obtain d2 where d2: "store_bytes d1 p f = Some d2" using store_bytes_some assms l1 by fastforce
  have l2: "length d2 = length d" using store_bytes_length [OF d2] l1 by simp
  have "agree d1 d2 (p + fs) (p + fs + length bs)"
    using assms l1 by (intro store_bytes_agree [OF d2]) auto
  then have "load_bytes d2 (p + fs) (length bs) = Some bs"
    using store_bytes_load [OF d1] agree_load_bytes by fastforce
  then have "dr_seg fs d2 p [\<lparr>fd_frame = p, fd_size = length bs\<rparr>] [(f, bs)] (p + fs + length bs)"
    using store_bytes_load [OF d2] assms(2) by simp
  moreover have "agree d d2 x y" if "y \<le> length d" "y \<le> p \<or> p + fs + length bs \<le> x" for x y
    using that assms l1
    by (intro agree_trans [OF store_bytes_agree [OF d1] store_bytes_agree [OF d2]]) auto
  ultimately show ?thesis using that d1 d2 l2 by blast
qed

lemma dr_place_parts:
  assumes parts: "dr_parts fs d es1 ms1 a e es2 ms2 b" and full: "full \<le> length d"
    and p: "dr_place (length d) (if es1 = [] then length d else a) (if es1 = [] then 0 else if es2 = [] then e else b) full = Some p"
  shows "es1 = [] \<and> p = 0 \<or> es1 \<noteq> [] \<and> es2 = [] \<and> p = e \<and> e + full \<le> length d \<or>
         es1 \<noteq> [] \<and> es2 = [] \<and> p = 0 \<and> full \<le> a \<or> es1 \<noteq> [] \<and> es2 \<noteq> [] \<and> p = b \<and> b + full \<le> a"
proof -
  have "es1 \<noteq> [] \<Longrightarrow> a \<le> e" "e \<le> length d" "es2 \<noteq> [] \<Longrightarrow> b \<le> a"
    using parts dr_seg_le by (auto simp: dr_parts_def)
  then show ?thesis using full p by (auto simp: dr_place_def split: if_splits)
qed

lemma dr_parts_push:
  assumes parts: "dr_parts fs d es1 ms1 a e es2 ms2 b" and len: "length d2 = length d"
    and full: "full \<le> length d"
    and seg: "dr_seg fs d2 p [v] [m] (p + full)"
    and agr: "\<And>x y. y \<le> length d \<Longrightarrow> y \<le> p \<or> p + full \<le> x \<Longrightarrow> agree d d2 x y"
    and pl: "es1 = [] \<and> p = 0 \<or> es1 \<noteq> [] \<and> es2 = [] \<and> p = e \<and> e + full \<le> length d \<or>
         es1 \<noteq> [] \<and> es2 = [] \<and> p = 0 \<and> full \<le> a \<or> es1 \<noteq> [] \<and> es2 \<noteq> [] \<and> p = b \<and> b + full \<le> a"
  shows "\<exists>es1' ms1' a' e' es2' ms2' b'. (es1 @ es2) @ [v] = es1' @ es2' \<and> (ms1 @ ms2) @ [m] = ms1' @ ms2' \<and>
           dr_parts fs d2 es1' ms1' a' e' es2' ms2' b'"
  using pl
proof (elim disjE conjE)
  have s: "dr_seg fs d a es1 ms1 e" "e \<le> length d" "dr_seg fs d 0 es2 ms2 b" "es2 \<noteq> [] \<Longrightarrow> es1 \<noteq> [] \<and> b \<le> a"
    and empty: "es1 = [] \<Longrightarrow> es2 = []"
    using parts by (auto simp: dr_parts_def)
  have l: "length es1 = length ms1" "length es2 = length ms2" using s dr_seg_length by blast+
  {
    assume "es1 = []" and p: "p = 0"
    with s l seg full len empty have "dr_parts fs d2 [v] [m] 0 full [] [] 0" by (auto simp: dr_parts_def)
    then show ?thesis using \<open>es1 = []\<close> empty l by (intro exI [of _ "[v]"] exI [of _ "[m]"]) force
  next
    assume ne: "es1 \<noteq> []" and e2: "es2 = []" and p: "p = e" and fits: "e + full \<le> length d"
    have "dr_seg fs d2 a es1 ms1 e" using s agr p by (intro dr_seg_agree [OF s(1)]) auto
    then have "dr_parts fs d2 (es1 @ [v]) (ms1 @ [m]) a (e + full) [] [] 0"
      using seg p fits len by (simp add: dr_parts_def dr_seg_snoc)
    then show ?thesis using e2 l by (intro exI [of _ "es1 @ [v]"] exI [of _ "ms1 @ [m]"]) force
  next
    assume ne: "es1 \<noteq> []" and e2: "es2 = []" and p: "p = 0" and fits: "full \<le> a"
    have "dr_seg fs d2 a es1 ms1 e" using s agr p fits by (intro dr_seg_agree [OF s(1)]) auto
    then have "dr_parts fs d2 es1 ms1 a e [v] [m] full" using seg p fits ne s len by (simp add: dr_parts_def)
    then show ?thesis using e2 l by (intro exI [of _ "es1"] exI [of _ "ms1"]) force
  next
    assume ne: "es1 \<noteq> []" "es2 \<noteq> []" and p: "p = b" and fits: "b + full \<le> a"
    have "a \<le> length d" using s dr_seg_le by fastforce
    have "dr_seg fs d2 a es1 ms1 e" using s agr p fits by (intro dr_seg_agree [OF s(1)]) auto
    moreover have "dr_seg fs d2 0 es2 ms2 b"
      using agr p fits \<open>a \<le> length d\<close> by (intro dr_seg_agree [OF s(3)]) auto
    ultimately have "dr_parts fs d2 es1 ms1 a e (es2 @ [v]) (ms2 @ [m]) (b + full)"
      using seg p fits ne s len by (simp add: dr_parts_def dr_seg_snoc)
    then show ?thesis by (intro exI [of _ "es1"] exI [of _ "ms1"]) force
  }
qed

lemma dr_seg_Nil [simp]:
  "dr_seg fs d a [] ms b \<longleftrightarrow> ms = [] \<and> a = b" "dr_seg fs d a es [] b \<longleftrightarrow> es = [] \<and> a = b"
  by (cases ms; simp) (cases es; simp)

abbreviation dr_slot :: "dataring \<Rightarrow> framed_data list \<Rightarrow> nat \<Rightarrow> nat \<Rightarrow> framed_data list \<Rightarrow> nat \<Rightarrow> nat \<Rightarrow> nat option" where
  "dr_slot r es1 a e es2 b full \<equiv> dr_place (length (dr_data r)) (if es1 = [] then length (dr_data r) else a)
      (if es1 = [] then 0 else if es2 = [] then e else b) full"

lemma dr_write_refuse:
  assumes "or_wf (dr_ring r)" and "or_content (dr_ring r) = es1 @ es2" and "dr_parts fs (dr_data r) es1 ms1 a e es2 ms2 b"
    and "fs + length (snd m) < 2 ^ 64"
    and "or_size (dr_ring r) = or_capacity (dr_ring r) \<or> length (dr_data r) < fs + length (snd m) \<or>
         dr_slot r es1 a e es2 b (fs + length (snd m)) = None"
  shows "dr_write fs r m = Some (Inl EAGAIN)"
  using assms(4,5) dr_bounds [OF assms(1-3)]
  by (auto simp: dr_write_def dr_push_back_framed_def dr_push_back_def Let_def)

lemma dr_write_accept:
  assumes wf: "or_wf (dr_ring r)" and c: "or_content (dr_ring r) = es1 @ es2"
    and parts: "dr_parts fs (dr_data r) es1 ms1 a e es2 ms2 b" and len: "length (dr_data r) < 2 ^ 64"
    and v: "length (fst m) = fs" "fs + length (snd m) < 2 ^ 64"
    and sz: "or_size (dr_ring r) \<noteq> or_capacity (dr_ring r)" and full: "fs + length (snd m) \<le> length (dr_data r)"
    and p: "dr_slot r es1 a e es2 b (fs + length (snd m)) = Some p"
  shows "\<exists>r'. dr_write fs r m = Some (Inr r') \<and> dr_ok fs r' ((ms1 @ ms2) @ [m])"
proof -
  let ?full = "fs + length (snd m)"
  note b = dr_bounds [OF wf c parts] and pl = dr_place_parts [OF parts full p]
  have "a \<le> e \<or> es1 = []" "e \<le> length (dr_data r)" using parts dr_seg_le by (auto simp: dr_parts_def)
  then have fits: "p + fs + length (snd m) \<le> length (dr_data r)" using pl full by auto
  define w where "w = \<lparr>fd_frame = p, fd_size = length (snd m)\<rparr>"
  obtain d1 d2 where d: "store_bytes (dr_data r) (p + fs) (snd m) = Some d1" "store_bytes d1 p (fst m) = Some d2"
    "length d2 = length (dr_data r)" and sg: "dr_seg fs d2 p [w] [m] (p + ?full)"
    and agr: "\<And>x y. y \<le> length (dr_data r) \<Longrightarrow> y \<le> p \<or> p + ?full \<le> x \<Longrightarrow> agree (dr_data r) d2 x y"
    using dr_stores [OF fits v(1)] by (auto simp: w_def add.assoc)
  obtain q where q: "or_push_back (dr_ring r) w = Some (q, Some (or_tail (dr_ring r)))" "or_wf q"
    "or_content q = or_content (dr_ring r) @ [w]" "vec_at (or_data q) (or_tail (dr_ring r)) = Some w"
    using or_push_content [OF wf sz] by blast
  have "dr_write fs r m = Some (Inr \<lparr>dr_ring = q, dr_data = d2\<rparr>)"
    using v b p sz full d q unfolding dr_write_def dr_push_back_framed_def dr_push_back_def
    by (simp add: Let_def fd_data_def not_less w_def)
  moreover have "dr_ok fs \<lparr>dr_ring = q, dr_data = d2\<rparr> ((ms1 @ ms2) @ [m])"
    using dr_parts_push [OF parts d(3) full sg agr pl] q len d(3) unfolding dr_ok_parts by (simp add: c)
  ultimately show ?thesis by blast
qed

lemma dr_write_ok:
  assumes ok: "dr_ok fs r ms" and v: "length (fst m) = fs" "fs + length (snd m) < 2 ^ 64"
  shows "dr_write fs r m = Some (Inl EAGAIN) \<or> (\<exists>r'. dr_write fs r m = Some (Inr r') \<and> dr_ok fs r' (ms @ [m]))"
proof -
  obtain es1 ms1 a e es2 ms2 b where wf: "or_wf (dr_ring r)" and len: "length (dr_data r) < 2 ^ 64"
    and c: "or_content (dr_ring r) = es1 @ es2" and ms: "ms = ms1 @ ms2"
    and parts: "dr_parts fs (dr_data r) es1 ms1 a e es2 ms2 b"
    using ok by (auto simp: dr_ok_parts)
  show ?thesis
    using dr_write_refuse [OF wf c parts v(2)] dr_write_accept [OF wf c parts len v] ms
    by (cases "dr_slot r es1 a e es2 b (fs + length (snd m))") (auto simp: not_less [symmetric])
qed

lemma dr_ok_Cons:
  assumes "dr_ok fs r (m # ms)"
  obtains e es where "or_content (dr_ring r) = e # es" and "fd_size e = length (snd m)"
    and "load_bytes (dr_data r) (fd_frame e) fs = Some (fst m)"
    and "load_bytes (dr_data r) (fd_data fs e) (fd_size e) = Some (snd m)" and "dr_ok fs (dr_pop_front r) ms"
proof -
  obtain es1 ms1 a e es2 ms2 b where wf: "or_wf (dr_ring r)" and len: "length (dr_data r) < 2 ^ 64"
    and c: "or_content (dr_ring r) = es1 @ es2" and ms: "m # ms = ms1 @ ms2"
    and parts: "dr_parts fs (dr_data r) es1 ms1 a e es2 ms2 b"
    using assms by (auto simp: dr_ok_parts)
  have l: "length es1 = length ms1" "length es2 = length ms2" using parts dr_seg_length by (auto simp: dr_parts_def)
  have "es1 \<noteq> []" using parts l ms by (cases "es2 = []") (auto simp: dr_parts_def)
  then obtain x xs where es1: "es1 = x # xs" by (cases es1) auto
  then obtain y ys where ms1: "ms1 = y # ys" using l by (cases ms1) auto
  have y: "y = m" "ms = ys @ ms2" using ms ms1 by auto
  have x: "fd_frame x = a" "fd_size x = length (snd m)" "load_bytes (dr_data r) a fs = Some (fst m)"
    "load_bytes (dr_data r) (a + fs) (length (snd m)) = Some (snd m)"
    "dr_seg fs (dr_data r) (a + fs + length (snd m)) xs ys e"
    using parts es1 ms1 y by (auto simp: dr_parts_def)
  note pc = or_pop_content [OF wf]
  have "dr_ok fs (dr_pop_front r) ms"
  proof (cases "xs = []")
    case True
    then have "ys = []" using l es1 ms1 by simp
    have "a \<le> e" "e \<le> length (dr_data r)" "es2 \<noteq> [] \<Longrightarrow> b \<le> a" using parts dr_seg_le by (auto simp: dr_parts_def)
    then have "dr_parts fs (dr_data r) es2 ms2 0 b [] [] 0"
      using parts by (cases "es2 = []") (auto simp: dr_parts_def)
    then show ?thesis
      using pc c es1 True y \<open>ys = []\<close> len unfolding dr_ok_parts
      by (simp add: dr_pop_front_def) (intro exI [of _ es2] exI [of _ ms2], force)
  next
    case False
    then have "dr_parts fs (dr_data r) xs ys (a + fs + length (snd m)) e es2 ms2 b"
      using parts x by (auto simp: dr_parts_def)
    then show ?thesis
      using pc c es1 y len unfolding dr_ok_parts
      by (simp add: dr_pop_front_def) (intro exI [of _ xs] exI [of _ ys], force)
  qed
  then show ?thesis using that [of x "xs @ es2"] c es1 x by (simp add: fd_data_def)
qed

lemma dr_ok_empty: "dr_ok fs r ms \<Longrightarrow> or_empty (dr_ring r) \<longleftrightarrow> ms = []"
  by (auto simp: dr_ok_def or_empty_content)

interpretation dr_queue: fifo_queue "dr_write fs" "dr_peek fs" dr_shift "dr_ok fs"
  "\<lambda>m. length (fst m) = fs \<and> fs + length (snd m) < 2 ^ 64" for fs
proof unfold_locales
  fix r :: dataring and ms m
  show "dr_ok fs r ms \<Longrightarrow> length (fst m) = fs \<and> fs + length (snd m) < 2 ^ 64 \<Longrightarrow>
    (\<exists>e. dr_write fs r m = Some (Inl e)) \<or> (\<exists>q'. dr_write fs r m = Some (Inr q') \<and> dr_ok fs q' (ms @ [m]))"
    using dr_write_ok by blast
  show "dr_ok fs r [] \<Longrightarrow> \<exists>e. dr_peek fs r = Some (Inl e)"
    using dr_ok_empty [of fs r "[]"] by (simp add: dr_peek_def)
  assume ok: "dr_ok fs r (m # ms)"
  then have ne: "\<not> or_empty (dr_ring r)" using dr_ok_empty by blast
  obtain e es where e: "or_content (dr_ring r) = e # es" "load_bytes (dr_data r) (fd_frame e) fs = Some (fst m)"
    "load_bytes (dr_data r) (fd_data fs e) (fd_size e) = Some (snd m)" "dr_ok fs (dr_pop_front r) ms"
    using dr_ok_Cons [OF ok] by metis
  have "or_front (dr_ring r) = Some e"
    using or_front_content [of "dr_ring r"] ok e(1) by (simp add: dr_ok_def)
  then show "dr_peek fs r = Some (Inr m)" using e ne by (simp add: dr_peek_def)
  show "\<exists>q'. dr_shift r = Some (Inr q') \<and> dr_ok fs q' ms" using e ne by (simp add: dr_shift_def)
qed

text \<open>\<open>data_free\<close> is exact: with a free element, a chunk fits if and only if it is no larger. Elements
  of no bytes at all (an empty message in a \<open>DataRing<void>\<close>) are excluded, see below.\<close>

lemma dr_free_exact:
  assumes ok: "dr_ok fs r ms" and v: "length (fst m) = fs" "fs + length (snd m) < 2 ^ 64"
    and pos: "0 < fs + length (snd m)" "\<forall>x\<in>set ms. 0 < fs + length (snd x)"
    and room: "or_size (dr_ring r) \<noteq> or_capacity (dr_ring r)"
  shows "\<exists>n. dr_data_free fs r = Some n \<and> (dr_write fs r m = Some (Inl EAGAIN) \<longleftrightarrow> n < fs + length (snd m))"
proof -
  obtain es1 ms1 a e es2 ms2 b where wf: "or_wf (dr_ring r)" and len: "length (dr_data r) < 2 ^ 64"
    and c: "or_content (dr_ring r) = es1 @ es2" and ms: "ms = ms1 @ ms2"
    and parts: "dr_parts fs (dr_data r) es1 ms1 a e es2 ms2 b"
    using ok by (auto simp: dr_ok_parts)
  let ?n = "fs + length (snd m)"
  have ae: "a < e" if ne: "es1 \<noteq> []"
  proof -
    obtain x xs y ys where "es1 = x # xs" "ms1 = y # ys"
      using ne parts by (cases es1; cases ms1) (auto simp: dr_parts_def)
    then have "dr_seg fs (dr_data r) (a + fs + length (snd y)) xs ys e" and "0 < fs + length (snd y)"
      using parts pos(2) ms by (auto simp: dr_parts_def)
    then show ?thesis using dr_seg_le [of fs "dr_data r" "a + fs + length (snd y)" xs ys e] by linarith
  qed
  have e: "e \<le> length (dr_data r)" "es2 \<noteq> [] \<Longrightarrow> es1 \<noteq> [] \<and> b \<le> a" using parts by (auto simp: dr_parts_def)
  have "dr_write fs r m = Some (Inl EAGAIN) \<longleftrightarrow> length (dr_data r) < ?n \<or> dr_slot r es1 a e es2 b ?n = None"
    using dr_write_refuse [OF wf c parts v(2)] dr_write_accept [OF wf c parts len v room]
    by (cases "dr_slot r es1 a e es2 b ?n"; cases "?n \<le> length (dr_data r)") fastforce+
  moreover have "dr_data_free fs r = Some (if es1 = [] then length (dr_data r) else if es2 = [] then max (length (dr_data r) - e) a else a - b)"
    using or_front_content [OF wf] or_back_content [OF wf] or_empty_content [OF wf] c ae e
      dr_seg_ends [of fs "dr_data r" a es1 ms1 e] dr_seg_ends [of fs "dr_data r" 0 es2 ms2 b] parts
    by (cases "es1 = []"; cases "es2 = []") (auto simp: dr_data_free_def dr_parts_def)
  ultimately show ?thesis
    using ae e pos(1) by (cases "es1 = []"; cases "es2 = []") (auto simp: dr_place_def)
qed

lemma dr_new_ok: "0 < n \<Longrightarrow> n < 2 ^ 32 \<Longrightarrow> k < 2 ^ 64 \<Longrightarrow> dr_ok fs (dr_new n k) []"
  using or_new_wf [of n "\<lparr>fd_frame = 0, fd_size = 0\<rparr>"] by (simp add: dr_ok_def dr_new_def) force

lemma replicate_2: "replicate 2 x = [x, x]" and replicate_3: "replicate 3 x = [x, x, x]"
  by (simp_all add: numeral_2_eq_2 numeral_3_eq_3)

section \<open>Properties\<close>

text \<open>\<open>Ring<T>\<close> holds at most \<open>capacity()\<close> elements, in order: \<open>push_back\<close> returns null exactly when the
  ring is full and otherwise appends; \<open>pop_front\<close> removes the first element; \<open>front\<close>, \<open>back\<close>, \<open>size\<close> and
  the iteration from \<open>begin\<close> to \<open>end\<close> agree with that sequence; no access leaves the vector.\<close>

theorem or_ring_sequence:
  assumes "or_wf r"
  shows "or_size r = length (or_content r) \<and> or_size r \<le> or_capacity r \<and> or_walk r = Some (or_content r) \<and>
         (or_push_back r v = Some (r, None) \<longleftrightarrow> or_size r = or_capacity r) \<and>
         (or_size r \<noteq> or_capacity r \<longrightarrow>
            (\<exists>r' i. or_push_back r v = Some (r', Some i) \<and> or_wf r' \<and> or_content r' = or_content r @ [v] \<and>
               or_back r' = Some v)) \<and>
         or_wf (or_pop_front r) \<and> or_content (or_pop_front r) = tl (or_content r) \<and>
         (or_content r \<noteq> [] \<longrightarrow> or_front r = Some (hd (or_content r)))"
proof -
  have "\<exists>r' i. or_push_back r v = Some (r', Some i) \<and> or_wf r' \<and> or_content r' = or_content r @ [v] \<and> or_back r' = Some v"
    if "or_size r \<noteq> or_capacity r"
    using or_push_content [OF assms that, of v] or_back_content by fastforce
  then show ?thesis
    using or_size_less [OF assms] or_walk_content [OF assms] or_push_full [OF assms, of v] or_pop_content [OF assms]
      or_front_content [OF assms] or_capacity_eq [OF assms] by auto
qed

theorem or_ring_sequence_witness:
  "or_walk (or_new (0 :: nat) 4) = Some [] \<and> (\<exists>r' i. or_push_back (or_new 0 4) 5 = Some (r', Some i) \<and> or_content r' = [5 :: nat])"
proof -
  have wf: "or_wf (or_new (0 :: nat) 4)" "or_content (or_new (0 :: nat) 4) = []" using or_new_wf [of 4 "0 :: nat"] by simp_all
  have "or_size (or_new (0 :: nat) 4) \<noteq> or_capacity (or_new (0 :: nat) 4)"
    by (simp add: or_size_def or_capacity_def or_new_def)
  then show ?thesis using or_ring_sequence [OF wf(1), of 5] wf(2) by auto
qed

text \<open>C36. \<open>DataRing<T>\<close> is a queue of framed messages: any sequence of pushes and pops runs without an
  access outside the byte buffer, and the accepted frames and payloads come out unchanged and in order.\<close>

theorem dr_fifo:
  assumes "0 < n" and "n < 2 ^ 32" and "k < 2 ^ 64"
    and "list_all (\<lambda>m. length (fst m) = fs \<and> fs + length (snd m) < 2 ^ 64) (pushed ops)"
  shows "\<exists>r acc del rest. queue_run (dr_write fs) (dr_peek fs) dr_shift (dr_new n k) ops = Some (r, acc, del) \<and>
           acc = del @ rest \<and> dr_ok fs r rest"
  using dr_queue.run_fifo [OF dr_new_ok [OF assms(1-3)] assms(4)] by fastforce

theorem dr_fifo_witness:
  "\<exists>r acc del rest. queue_run (dr_write 1) (dr_peek 1) dr_shift (dr_new 4 16) [Push ([1], [2, 3]), Pop] = Some (r, acc, del) \<and>
     acc = del @ rest \<and> dr_ok 1 r rest"
  by (rule dr_fifo) simp_all

text \<open>\<open>data_free\<close> is exact: while an element slot is free, a message is accepted if and only if its
  frame and payload take at most \<open>data_free()\<close> bytes.\<close>

theorem dr_data_free_exact:
  assumes "dr_ok fs r ms" and "length (fst m) = fs" and "fs + length (snd m) < 2 ^ 64" and "0 < fs"
    and "or_size (dr_ring r) \<noteq> or_capacity (dr_ring r)"
  shows "\<exists>n. dr_data_free fs r = Some n \<and> (dr_write fs r m = Some (Inl EAGAIN) \<longleftrightarrow> n < fs + length (snd m))"
  using dr_free_exact [OF assms(1-3) _ _ assms(5)] assms(4) by simp

theorem dr_data_free_exact_witness:
  "\<exists>n. dr_data_free 1 (dr_new 4 16) = Some n \<and> (dr_write 1 (dr_new 4 16) ([1], [2]) = Some (Inl EAGAIN) \<longleftrightarrow> n < Suc 1)"
proof -
  have "or_size (dr_ring (dr_new 4 16)) \<noteq> or_capacity (dr_ring (dr_new 4 16))"
    by (simp add: or_size_def or_capacity_def or_new_def dr_new_def)
  then show ?thesis
    using dr_data_free_exact [OF dr_new_ok [of 4 16 1], of "([1], [2])"] by simp
qed

text \<open>An empty message in a \<open>DataRing<void>\<close> blocks it: it occupies no byte, yet begin and end of the
  data coincide, which the ring takes for a full buffer: \<open>data_size\<close> reports the whole capacity and
  every message of at least one byte is refused until the empty one is popped.\<close>

theorem dr_empty_message_blocks:
  "\<exists>r. dr_write 0 (dr_new 3 2) ([], []) = Some (Inr r) \<and> dr_data_size 0 r = Some 2 \<and> dr_data_free 0 r = Some 0 \<and>
       dr_write 0 r ([], [7]) = Some (Inl EAGAIN)"
proof -
  define z where "z = \<lparr>fd_frame = 0, fd_size = 0\<rparr>"
  define r where "r = \<lparr>dr_ring = \<lparr>or_data = [z, z, z], or_head = 0, or_tail = 1\<rparr>, dr_data = [0, 0]\<rparr>"
  have new: "dr_new 3 2 = \<lparr>dr_ring = \<lparr>or_data = [z, z, z], or_head = 0, or_tail = 0\<rparr>, dr_data = [0, 0]\<rparr>"
    by (simp add: dr_new_def or_new_def z_def replicate_3 replicate_2)
  note or_simps = or_size_def or_capacity_def or_empty_def or_front_def or_back_def or_prev_def vec_at_def
    or_push_back_def or_shift_def fd_data_def fd_end_def z_def
  have 1: "dr_write 0 (dr_new 3 2) ([], []) = Some (Inr r)"
    by (simp add: new r_def dr_write_def dr_push_back_framed_def dr_push_back_def dr_data_tail_def dr_data_head_def
        dr_place_def store_bytes_def Let_def or_simps)
  have 2: "dr_data_size 0 r = Some 2" "dr_data_free 0 r = Some 0"
    by (simp_all add: r_def dr_data_size_def dr_data_free_def or_simps)
  have 3: "dr_write 0 r ([], [7]) = Some (Inl EAGAIN)"
    by (simp add: r_def dr_write_def dr_push_back_framed_def dr_push_back_def dr_data_tail_def dr_data_head_def
        dr_place_def Let_def or_simps)
  show ?thesis using 1 2 3 by blast
qed

end
