(* ===== verification/MarkerQueue.thy ===== *)
theory MarkerQueue
  imports ObjRing
begin

text \<open>
  \<open>MarkerQueue<T, Zero>\<close> of \<open>src/tll/util/markerqueue.h\<close>: a bounded queue for several producers and
  one consumer, in which a cell that holds \<open>Zero\<close> is free. Pointers into the vector are indices.
  Besides the operations as they run undisturbed, the theory models the single loads, stores and
  compare-and-swaps of \<open>push\<close> and \<open>pop\<close> as steps of threads that interleave freely.
\<close>

section \<open>Operations\<close>

record 'a mq =
  mq_ring :: "'a list"
  mq_head :: nat
  mq_tail :: nat

definition mq_next :: "'a mq \<Rightarrow> nat \<Rightarrow> nat" where
  "mq_next q i = (if i = length (mq_ring q) - 1 then 0 else i + 1)"

definition mq_new :: "'a \<Rightarrow> nat \<Rightarrow> 'a mq" where
  "mq_new z n = \<lparr>mq_ring = replicate n z, mq_head = 0, mq_tail = 0\<rparr>"

text \<open>\<open>push\<close> when no other thread interferes: the loop then either returns in its first round or,
  when the cell at the tail is not free, never.\<close>

definition mq_push :: "'a \<Rightarrow> 'a mq \<Rightarrow> 'a \<Rightarrow> (errno + 'a mq) option" where
  "mq_push z q v =
     (let t = mq_tail q; next = mq_next q t in
      if next = mq_head q then Some (Inl EAGAIN)
      else if mq_ring q ! t = z then Some (Inr (q\<lparr>mq_ring := (mq_ring q)[t := v], mq_tail := next\<rparr>))
      else None)"

definition mq_empty :: "'a mq \<Rightarrow> bool" where
  "mq_empty q \<longleftrightarrow> mq_tail q = mq_head q"

definition mq_pop :: "'a \<Rightarrow> 'a mq \<Rightarrow> 'a mq \<times> 'a" where
  "mq_pop z q =
     (if mq_tail q = mq_head q then (q, z)
      else (q\<lparr>mq_ring := (mq_ring q)[mq_head q := z], mq_head := mq_next q (mq_head q)\<rparr>, mq_ring q ! mq_head q))"

definition mq_peek :: "'a \<Rightarrow> 'a mq \<Rightarrow> 'a" where
  "mq_peek z q = (if mq_tail q = mq_head q then z else mq_ring q ! mq_head q)"

text \<open>The loop of \<open>clear\<close>: the cells handed to the deleter and the queue; the fuel is the number of cells.\<close>

fun mq_clear_loop :: "nat \<Rightarrow> 'a \<Rightarrow> 'a mq \<Rightarrow> 'a list \<Rightarrow> ('a mq \<times> 'a list) option" where
  "mq_clear_loop n z q acc =
     (if mq_head q = mq_tail q then Some (q, acc)
      else case n of
             0 \<Rightarrow> None
           | Suc n \<Rightarrow> mq_clear_loop n z (q\<lparr>mq_ring := (mq_ring q)[mq_head q := z], mq_head := mq_next q (mq_head q)\<rparr>)
                        (acc @ [mq_ring q ! mq_head q]))"

declare mq_clear_loop.simps [simp del]

definition mq_clear :: "'a \<Rightarrow> 'a mq \<Rightarrow> ('a mq \<times> 'a list) option" where
  "mq_clear z q = map_option (\<lambda>(q, acc). (q\<lparr>mq_head := 0, mq_tail := 0\<rparr>, acc)) (mq_clear_loop (length (mq_ring q)) z q [])"

definition mq_resize :: "'a \<Rightarrow> 'a mq \<Rightarrow> nat \<Rightarrow> ('a mq \<times> 'a list) option" where
  "mq_resize z q n = map_option (\<lambda>(q, acc). (\<lparr>mq_ring = replicate n z, mq_head = 0, mq_tail = 0\<rparr>, acc)) (mq_clear z q)"

section \<open>The content\<close>

text \<open>The geometry is that of an object ring.\<close>

definition mq_or :: "'a mq \<Rightarrow> 'a objring" where
  "mq_or q = \<lparr>or_data = mq_ring q, or_head = mq_head q, or_tail = mq_tail q\<rparr>"

lemma mq_or_simps [simp]:
  "or_data (mq_or q) = mq_ring q" "or_head (mq_or q) = mq_head q" "or_tail (mq_or q) = mq_tail q"
  by (simp_all add: mq_or_def)

lemma mq_or_update:
  "mq_or (q\<lparr>mq_ring := xs\<rparr>) = (mq_or q)\<lparr>or_data := xs\<rparr>" "mq_or (q\<lparr>mq_head := i\<rparr>) = (mq_or q)\<lparr>or_head := i\<rparr>"
  "mq_or (q\<lparr>mq_tail := i\<rparr>) = (mq_or q)\<lparr>or_tail := i\<rparr>"
  by (simp_all add: mq_or_def)

lemma mq_next_shift: "or_wf (mq_or q) \<Longrightarrow> i < length (mq_ring q) \<Longrightarrow> mq_next q i = or_shift (mq_or q) i"
  by (auto simp: mq_next_def or_shift_lt)

text \<open>Exactly the cells of the content are not free.\<close>

definition mq_free_outside :: "'a \<Rightarrow> 'a mq \<Rightarrow> bool" where
  "mq_free_outside z q \<longleftrightarrow>
     (\<forall>i. or_size (mq_or q) \<le> i \<and> i < length (mq_ring q) \<longrightarrow> mq_ring q ! or_index (mq_or q) i = z)"

definition mq_ok :: "'a \<Rightarrow> 'a mq \<Rightarrow> 'a list \<Rightarrow> bool" where
  "mq_ok z q xs \<longleftrightarrow> or_wf (mq_or q) \<and> or_content (mq_or q) = xs \<and> z \<notin> set xs \<and> mq_free_outside z q"

lemma mq_tail_free: "mq_ok z q xs \<Longrightarrow> mq_ring q ! mq_tail q = z"
  using or_index_size [of "mq_or q"] or_size_less [of "mq_or q"]
  by (auto simp: mq_ok_def mq_free_outside_def)

lemma mq_push_ok:
  assumes "mq_ok z q xs" and "v \<noteq> z"
  shows "if length xs = length (mq_ring q) - 1 then mq_push z q v = Some (Inl EAGAIN)
         else \<exists>q'. mq_push z q v = Some (Inr q') \<and> mq_ok z q' (xs @ [v])"
proof -
  have wf: "or_wf (mq_or q)" and xs: "or_content (mq_or q) = xs" and free: "mq_free_outside z q" and nz: "z \<notin> set xs"
    using assms(1) by (simp_all add: mq_ok_def)
  have t: "mq_tail q < length (mq_ring q)" using wf by (simp add: or_wf_def)
  have n: "mq_next q (mq_tail q) = or_shift (mq_or q) (mq_tail q)" using mq_next_shift [OF wf t] .
  have sz: "or_size (mq_or q) = length xs" using xs by (metis or_size_content)
  show ?thesis
  proof (cases "length xs = length (mq_ring q) - 1")
    case True
    then have "or_push_back (mq_or q) v = Some (mq_or q, None)"
      using or_push_full [OF wf] or_capacity_eq [OF wf] sz by simp
    then show ?thesis using True n by (auto simp: mq_push_def Let_def or_push_back_def split: if_splits)
  next
    case False
    let ?q = "q\<lparr>mq_ring := (mq_ring q)[mq_tail q := v], mq_tail := mq_next q (mq_tail q)\<rparr>"
    have room: "or_size (mq_or q) \<noteq> or_capacity (mq_or q)" using or_capacity_eq [OF wf] sz False by simp
    obtain r' where r': "or_push_back (mq_or q) v = Some (r', Some (mq_tail q))" "or_wf r'" "or_content r' = xs @ [v]"
      using or_push_content [OF wf room, of v] xs by auto
    then have ne: "mq_next q (mq_tail q) \<noteq> mq_head q" and eq: "r' = mq_or ?q"
      using n by (auto simp: or_push_back_def Let_def mq_or_def split: if_splits)
    have szq: "or_size (mq_or ?q) = Suc (length xs)" using r'(3) eq by (metis length_append_singleton or_size_content)
    have ix: "or_index (mq_or ?q) i = or_index (mq_or q) i" for i by (simp add: or_index_def)
    have "mq_free_outside z ?q"
      unfolding mq_free_outside_def
    proof (intro allI impI)
      fix i assume i: "or_size (mq_or ?q) \<le> i \<and> i < length (mq_ring ?q)"
      then have "or_index (mq_or q) i \<noteq> or_index (mq_or q) (length xs)"
        using szq or_index_inj [OF wf, of i "length xs"] by simp
      then have "or_index (mq_or q) i \<noteq> mq_tail q" using or_index_size [OF wf] sz by simp
      then show "mq_ring ?q ! or_index (mq_or ?q) i = z"
        using free i szq sz by (simp add: ix mq_free_outside_def)
    qed
    then have "mq_ok z ?q (xs @ [v])" using r' eq nz assms(2) by (simp add: mq_ok_def)
    moreover have "mq_push z q v = Some (Inr ?q)"
      using ne mq_tail_free [OF assms(1)] by (simp add: mq_push_def Let_def)
    ultimately show ?thesis using False by auto
  qed
qed

lemma mq_pop_ok:
  assumes "mq_ok z q (x # xs)"
  shows "snd (mq_pop z q) = x" and "mq_ok z (fst (mq_pop z q)) xs" and "mq_peek z q = x"
    and "\<not> mq_empty q"
proof -
  have wf: "or_wf (mq_or q)" and xs: "or_content (mq_or q) = x # xs" and free: "mq_free_outside z q" and nz: "z \<notin> set (x # xs)"
    using assms by (simp_all add: mq_ok_def)
  have ne: "mq_tail q \<noteq> mq_head q" using or_empty_content [OF wf] xs by (auto simp: or_empty_def)
  have b: "mq_head q < length (mq_ring q)" using wf by (simp add: or_wf_def)
  have x: "mq_ring q ! mq_head q = x"
    using or_front_content [OF wf] xs b by (simp add: or_front_def vec_at_def)
  then show "snd (mq_pop z q) = x" and "mq_peek z q = x" and "\<not> mq_empty q"
    using ne by (simp_all add: mq_pop_def mq_peek_def mq_empty_def)
  let ?q = "q\<lparr>mq_ring := (mq_ring q)[mq_head q := z], mq_head := mq_next q (mq_head q)\<rparr>"
  let ?p = "or_pop_front (mq_or q)"
  have p: "or_head ?p = mq_next q (mq_head q)" "or_tail ?p = mq_tail q" "or_data ?p = mq_ring q"
    using ne mq_next_shift [OF wf b] by (auto simp: or_pop_front_def)
  have wf': "or_wf (mq_or ?q)" using or_pop_content(1) [OF wf] p by (simp add: or_wf_def)
  have szp: "or_size (mq_or ?q) = or_size ?p" using p by (simp add: or_size_def)
  have ixp: "or_index (mq_or ?q) i = or_index ?p i" for i using p by (simp add: or_index_def)
  have cp: "or_content ?p = xs" using or_pop_content(2) [OF wf] xs by simp
  have szs: "or_size (mq_or q) = Suc (or_size ?p)" using xs cp by (metis length_Cons or_size_content)
  have ixs: "or_index ?p i = or_index (mq_or q) (Suc i)" if "Suc i < length (mq_ring q)" for i
    using that p wf by (auto simp: or_index_def mq_next_def or_wf_def)
  have last: "or_index ?p (length (mq_ring q) - 1) = mq_head q"
    using p wf by (auto simp: or_index_def mq_next_def or_wf_def)
  have nh: "or_index (mq_or q) (Suc i) \<noteq> mq_head q" if "Suc i < length (mq_ring q)" for i
    using that b by (auto simp: or_index_def)
  have "mq_or ?q = ?p\<lparr>or_data := (or_data ?p)[or_index ?p (length (mq_ring q) - 1) := z]\<rparr>"
    using p last by (cases ?p) (simp add: mq_or_def)
  then have "or_content (mq_or ?q) = (or_content ?p)[length (mq_ring q) - 1 := z]"
    using or_content_update [OF or_pop_content(1) [OF wf], of "length (mq_ring q) - 1" z] p b by simp
  moreover have "length (or_content ?p) \<le> length (mq_ring q) - 1"
    using szs or_size_less [OF wf] by simp
  ultimately have "or_content (mq_or ?q) = or_content ?p" by (simp only: list_update_beyond)
  moreover have "mq_free_outside z ?q"
    unfolding mq_free_outside_def
  proof (intro allI impI)
    fix i assume i: "or_size (mq_or ?q) \<le> i \<and> i < length (mq_ring ?q)"
    show "mq_ring ?q ! or_index (mq_or ?q) i = z"
    proof (cases "Suc i < length (mq_ring q)")
      case True
      then show ?thesis using i free szs szp nh [THEN not_sym] by (simp add: ixp ixs mq_free_outside_def)
    next
      case False
      then have "i = length (mq_ring q) - 1" using i b by (cases "length (mq_ring q)") simp_all
      then show ?thesis using last b by (simp add: ixp)
    qed
  qed
  ultimately show "mq_ok z (fst (mq_pop z q)) xs"
    using ne wf' cp nz by (simp add: mq_ok_def mq_pop_def)
qed

lemma mq_ok_empty: "mq_ok z q xs \<Longrightarrow> mq_empty q \<longleftrightarrow> xs = []"
  using or_empty_content [of "mq_or q"] by (auto simp: mq_ok_def mq_empty_def or_empty_def)

text \<open>Interface of the queue contract: \<open>pop\<close> and \<open>peek\<close> signal an empty queue by \<open>Zero\<close>.\<close>

definition mq_peek_res :: "'a \<Rightarrow> 'a mq \<Rightarrow> (errno + 'a) option" where
  "mq_peek_res z q = Some (if mq_peek z q = z then Inl EAGAIN else Inr (mq_peek z q))"

definition mq_pop_res :: "'a \<Rightarrow> 'a mq \<Rightarrow> (errno + 'a mq) option" where
  "mq_pop_res z q = Some (if snd (mq_pop z q) = z then Inl EAGAIN else Inr (fst (mq_pop z q)))"

interpretation mq_queue: fifo_queue "mq_push z" "mq_peek_res z" "mq_pop_res z" "mq_ok z" "\<lambda>v. v \<noteq> z" for z
proof unfold_locales
  fix q :: "'a mq" and xs x
  show "mq_ok z q xs \<Longrightarrow> x \<noteq> z \<Longrightarrow>
     (\<exists>e. mq_push z q x = Some (Inl e)) \<or> (\<exists>q'. mq_push z q x = Some (Inr q') \<and> mq_ok z q' (xs @ [x]))"
    using mq_push_ok [of z q xs x] by (auto split: if_splits)
  show "mq_ok z q [] \<Longrightarrow> \<exists>e. mq_peek_res z q = Some (Inl e)"
    using mq_ok_empty [of z q "[]"] by (simp add: mq_peek_res_def mq_peek_def mq_empty_def)
  assume ok: "mq_ok z q (x # xs)"
  then have "x \<noteq> z" by (auto simp: mq_ok_def)
  then show "mq_peek_res z q = Some (Inr x)" and "\<exists>q'. mq_pop_res z q = Some (Inr q') \<and> mq_ok z q' xs"
    using mq_pop_ok [OF ok] by (auto simp: mq_peek_res_def mq_pop_res_def)
qed

lemma mq_new_ok: "0 < n \<Longrightarrow> n < 2 ^ 32 \<Longrightarrow> mq_ok z (mq_new z n) []"
  by (auto simp: mq_ok_def mq_new_def mq_or_def or_wf_def or_content_def or_size_def mq_free_outside_def or_index_def)

text \<open>\<open>clear\<close> passes every stored value to the deleter, in order, and leaves an empty queue.\<close>

lemma mq_clear_loop_ok:
  "mq_ok z q xs \<Longrightarrow> length xs \<le> n \<Longrightarrow>
   \<exists>q'. mq_clear_loop n z q acc = Some (q', acc @ xs) \<and> mq_ok z q' [] \<and> length (mq_ring q') = length (mq_ring q)"
proof (induction n arbitrary: q xs acc)
  case 0
  then show ?case using mq_ok_empty [of z q xs] by (auto simp: mq_clear_loop.simps mq_empty_def)
next
  case (Suc n)
  show ?case
  proof (cases xs)
    case Nil
    then show ?thesis using Suc.prems mq_ok_empty [of z q xs] by (auto simp: mq_clear_loop.simps mq_empty_def)
  next
    case (Cons x ys)
    have ok: "mq_ok z q (x # ys)" using Suc.prems Cons by simp
    note pop = mq_pop_ok [OF ok]
    have "mq_head q \<noteq> mq_tail q" using pop(4) by (auto simp: mq_empty_def)
    then show ?thesis
      using Suc.IH [OF pop(2), of "acc @ [x]"] Suc.prems Cons pop(1)
      by (subst mq_clear_loop.simps) (auto simp: mq_pop_def)
  qed
qed

section \<open>Threads\<close>

text \<open>
  One step is one access to shared memory. \<open>pc\<close> is the point a producer has reached in \<open>push\<close>, with
  its local variables: the value, and \<open>t\<close> (from which \<open>next\<close> follows). \<open>compare_exchange_weak\<close> may fail
  without reason. The consumer holds a value between its two stores. \<open>ms_sent\<close> and \<open>ms_recv\<close> record
  the values whose \<open>push\<close> returned 0 and the values \<open>pop\<close> returned.
\<close>

datatype 'a mq_pc =
    MIdle
  | MTry 'a
  | MLoaded 'a nat
  | MFull 'a nat
  | MCas 'a nat
  | MSwapped 'a nat
  | MUndo 'a nat
  | MCommit 'a nat

datatype 'a mq_cons = CIdle | CTake | CShift 'a

record 'a mq_sys =
  ms_q :: "'a mq"
  ms_pc :: "'a mq_pc list"
  ms_cons :: "'a mq_cons"
  ms_sent :: "'a list"
  ms_recv :: "'a list"

abbreviation set_pc :: "'a mq_sys \<Rightarrow> nat \<Rightarrow> 'a mq_pc \<Rightarrow> 'a mq_sys" where
  "set_pc s p c \<equiv> s\<lparr>ms_pc := (ms_pc s)[p := c]\<rparr>"

definition mq_producer :: "'a \<Rightarrow> 'a mq_sys \<Rightarrow> nat \<Rightarrow> bool \<Rightarrow> 'a mq_sys" where
  "mq_producer z s p spurious =
     (let q = ms_q s in
      case ms_pc s ! p of
        MIdle \<Rightarrow> s
      | MTry v \<Rightarrow> set_pc s p (MLoaded v (mq_tail q))
      | MLoaded v t \<Rightarrow> set_pc s p (if mq_next q t = mq_head q then MFull v t else MCas v t)
      | MFull v t \<Rightarrow> set_pc s p (if mq_tail q \<noteq> t then MTry v else MIdle)
      | MCas v t \<Rightarrow>
          if mq_ring q ! t = z \<and> \<not> spurious
          then set_pc (s\<lparr>ms_q := q\<lparr>mq_ring := (mq_ring q)[t := v]\<rparr>\<rparr>) p (MSwapped v t)
          else set_pc s p (MTry v)
      | MSwapped v t \<Rightarrow> set_pc s p (if mq_tail q \<noteq> t then MUndo v t else MCommit v t)
      | MUndo v t \<Rightarrow> set_pc (s\<lparr>ms_q := q\<lparr>mq_ring := (mq_ring q)[t := z]\<rparr>\<rparr>) p (MTry v)
      | MCommit v t \<Rightarrow>
          set_pc (s\<lparr>ms_q := q\<lparr>mq_tail := mq_next q t\<rparr>, ms_sent := ms_sent s @ [v]\<rparr>) p MIdle)"

definition mq_consumer :: "'a \<Rightarrow> 'a mq_sys \<Rightarrow> 'a mq_sys" where
  "mq_consumer z s =
     (let q = ms_q s in
      case ms_cons s of
        CIdle \<Rightarrow> if mq_tail q = mq_head q then s else s\<lparr>ms_cons := CTake\<rparr>
      | CTake \<Rightarrow> s\<lparr>ms_q := q\<lparr>mq_ring := (mq_ring q)[mq_head q := z]\<rparr>, ms_cons := CShift (mq_ring q ! mq_head q)\<rparr>
      | CShift r \<Rightarrow> s\<lparr>ms_q := q\<lparr>mq_head := mq_next q (mq_head q)\<rparr>, ms_cons := CIdle, ms_recv := ms_recv s @ [r]\<rparr>)"

inductive mq_step :: "'a \<Rightarrow> 'a mq_sys \<Rightarrow> 'a mq_sys \<Rightarrow> bool" for z where
  ms_begin: "p < length (ms_pc s) \<Longrightarrow> ms_pc s ! p = MIdle \<Longrightarrow> v \<noteq> z \<Longrightarrow> mq_step z s (set_pc s p (MTry v))"
| ms_produce: "p < length (ms_pc s) \<Longrightarrow> mq_step z s (mq_producer z s p spurious)"
| ms_consume: "mq_step z s (mq_consumer z s)"

definition mq_sys_init :: "'a \<Rightarrow> nat \<Rightarrow> nat \<Rightarrow> 'a mq_sys" where
  "mq_sys_init z n k = \<lparr>ms_q = mq_new z n, ms_pc = replicate k MIdle, ms_cons = CIdle, ms_sent = [], ms_recv = []\<rparr>"

inductive mq_reach :: "'a \<Rightarrow> nat \<Rightarrow> nat \<Rightarrow> 'a mq_sys \<Rightarrow> bool" for z n k where
  mq_start: "mq_reach z n k (mq_sys_init z n k)"
| mq_more: "mq_reach z n k s \<Longrightarrow> mq_step z s t \<Longrightarrow> mq_reach z n k t"

section \<open>One producer\<close>

text \<open>With one producer the tail it loaded stays the tail until it moves it.\<close>

fun mq_pc_inv :: "'a mq \<Rightarrow> 'a mq_pc \<Rightarrow> bool" where
  "mq_pc_inv q MIdle \<longleftrightarrow> True"
| "mq_pc_inv q (MTry v) \<longleftrightarrow> True"
| "mq_pc_inv q (MLoaded v t) \<longleftrightarrow> t = mq_tail q"
| "mq_pc_inv q (MFull v t) \<longleftrightarrow> t = mq_tail q"
| "mq_pc_inv q (MCas v t) \<longleftrightarrow> t = mq_tail q \<and> or_size (mq_or q) \<noteq> or_capacity (mq_or q)"
| "mq_pc_inv q (MSwapped v t) \<longleftrightarrow> t = mq_tail q \<and> or_size (mq_or q) \<noteq> or_capacity (mq_or q) \<and> mq_ring q ! t = v"
| "mq_pc_inv q (MUndo v t) \<longleftrightarrow> False"
| "mq_pc_inv q (MCommit v t) \<longleftrightarrow> t = mq_tail q \<and> or_size (mq_or q) \<noteq> or_capacity (mq_or q) \<and> mq_ring q ! t = v"

fun mq_cons_inv :: "'a mq_sys \<Rightarrow> 'a mq_cons \<Rightarrow> bool" where
  "mq_cons_inv s CIdle \<longleftrightarrow> ms_sent s = ms_recv s @ or_content (mq_or (ms_q s))"
| "mq_cons_inv s CTake \<longleftrightarrow> ms_sent s = ms_recv s @ or_content (mq_or (ms_q s)) \<and> or_content (mq_or (ms_q s)) \<noteq> []"
| "mq_cons_inv s (CShift r) \<longleftrightarrow> ms_sent s = ms_recv s @ r # tl (or_content (mq_or (ms_q s))) \<and> or_content (mq_or (ms_q s)) \<noteq> []"

definition mq_inv :: "'a mq_sys \<Rightarrow> bool" where
  "mq_inv s \<longleftrightarrow> or_wf (mq_or (ms_q s)) \<and> length (ms_pc s) = 1 \<and> mq_pc_inv (ms_q s) (hd (ms_pc s)) \<and>
     mq_cons_inv s (ms_cons s)"

lemma mq_store_tail:
  assumes "or_wf (mq_or q)"
  shows "or_content (mq_or (q\<lparr>mq_ring := (mq_ring q)[mq_tail q := v]\<rparr>)) = or_content (mq_or q)"
    and "or_wf (mq_or (q\<lparr>mq_ring := (mq_ring q)[mq_tail q := v]\<rparr>))"
    and "or_size (mq_or (q\<lparr>mq_ring := (mq_ring q)[mq_tail q := v]\<rparr>)) = or_size (mq_or q)"
    and "or_capacity (mq_or (q\<lparr>mq_ring := (mq_ring q)[mq_tail q := v]\<rparr>)) = or_capacity (mq_or q)"
proof -
  have "or_content ((mq_or q)\<lparr>or_data := (mq_ring q)[mq_tail q := v]\<rparr>) = (or_content (mq_or q))[or_size (mq_or q) := v]"
    using or_content_update [OF assms, of "or_size (mq_or q)" v] or_index_size [OF assms] or_size_less [OF assms] by simp
  then show "or_content (mq_or (q\<lparr>mq_ring := (mq_ring q)[mq_tail q := v]\<rparr>)) = or_content (mq_or q)"
    by (simp add: list_update_beyond mq_or_update)
qed (use assms in \<open>simp_all add: or_wf_def or_size_def or_capacity_def\<close>)

lemma mq_store_head:
  assumes "or_wf (mq_or q)" and "or_content (mq_or q) \<noteq> []"
  shows "or_content (mq_or (q\<lparr>mq_ring := (mq_ring q)[mq_head q := v]\<rparr>)) = v # tl (or_content (mq_or q))"
    and "or_wf (mq_or (q\<lparr>mq_ring := (mq_ring q)[mq_head q := v]\<rparr>))"
    and "or_size (mq_or (q\<lparr>mq_ring := (mq_ring q)[mq_head q := v]\<rparr>)) = or_size (mq_or q)"
    and "or_capacity (mq_or (q\<lparr>mq_ring := (mq_ring q)[mq_head q := v]\<rparr>)) = or_capacity (mq_or q)"
    and "mq_ring q ! mq_head q = hd (or_content (mq_or q))" and "mq_head q \<noteq> mq_tail q"
proof -
  let ?q = "q\<lparr>mq_ring := (mq_ring q)[mq_head q := v]\<rparr>"
  have ix: "or_index (mq_or q) 0 = mq_head q" "0 < length (mq_ring q)" using assms(1) by (auto simp: or_index_def or_wf_def)
  then have "or_content (mq_or ?q) = (or_content (mq_or q))[0 := v]"
    using or_content_update [OF assms(1), of 0 v] ix by (simp add: mq_or_update)
  then show "or_content (mq_or ?q) = v # tl (or_content (mq_or q))"
    using assms(2) by (cases "or_content (mq_or q)") simp_all
  show "or_wf (mq_or ?q)" "or_size (mq_or ?q) = or_size (mq_or q)" "or_capacity (mq_or ?q) = or_capacity (mq_or q)"
    using assms(1) by (simp_all add: or_wf_def or_size_def or_capacity_def)
  show "mq_ring q ! mq_head q = hd (or_content (mq_or q))"
    using or_front_content [OF assms] ix assms(1) by (simp add: or_front_def vec_at_def or_wf_def)
  show "mq_head q \<noteq> mq_tail q" using or_empty_content [OF assms(1)] assms(2) by (auto simp: or_empty_def)
qed

lemma mq_room: "or_wf (mq_or q) \<Longrightarrow> mq_next q (mq_tail q) = mq_head q \<longleftrightarrow> or_size (mq_or q) = or_capacity (mq_or q)"
  using or_push_full [of "mq_or q" undefined] mq_next_shift [of q "mq_tail q"]
  by (auto simp: or_push_back_def Let_def or_wf_def split: if_splits)

lemma mq_move_tail:
  assumes "or_wf (mq_or q)" and "or_size (mq_or q) \<noteq> or_capacity (mq_or q)"
  shows "or_wf (mq_or (q\<lparr>mq_tail := mq_next q (mq_tail q)\<rparr>))"
    and "or_content (mq_or (q\<lparr>mq_tail := mq_next q (mq_tail q)\<rparr>)) = or_content (mq_or q) @ [mq_ring q ! mq_tail q]"
proof -
  obtain r' where r': "or_push_back (mq_or q) (mq_ring q ! mq_tail q) = Some (r', Some (mq_tail q))" "or_wf r'"
    "or_content r' = or_content (mq_or q) @ [mq_ring q ! mq_tail q]"
    using or_push_content [OF assms, of "mq_ring q ! mq_tail q"] by auto
  have "r' = mq_or (q\<lparr>mq_tail := mq_next q (mq_tail q)\<rparr>)"
    using r'(1) mq_next_shift [OF assms(1), of "mq_tail q"]
    by (auto simp: or_push_back_def Let_def mq_or_def split: if_splits)
  with r' show "or_wf (mq_or (q\<lparr>mq_tail := mq_next q (mq_tail q)\<rparr>))"
    and "or_content (mq_or (q\<lparr>mq_tail := mq_next q (mq_tail q)\<rparr>)) = or_content (mq_or q) @ [mq_ring q ! mq_tail q]"
    by simp_all
qed

lemma mq_move_head:
  assumes "or_wf (mq_or q)" and "or_content (mq_or q) \<noteq> []"
  shows "or_wf (mq_or (q\<lparr>mq_head := mq_next q (mq_head q)\<rparr>))"
    and "or_content (mq_or (q\<lparr>mq_head := mq_next q (mq_head q)\<rparr>)) = tl (or_content (mq_or q))"
    and "or_size (mq_or (q\<lparr>mq_head := mq_next q (mq_head q)\<rparr>)) \<noteq> or_capacity (mq_or (q\<lparr>mq_head := mq_next q (mq_head q)\<rparr>))"
proof -
  have "mq_head q \<noteq> mq_tail q" using or_empty_content [OF assms(1)] assms(2) by (auto simp: or_empty_def)
  then have eq: "mq_or (q\<lparr>mq_head := mq_next q (mq_head q)\<rparr>) = or_pop_front (mq_or q)"
    using mq_next_shift [OF assms(1), of "mq_head q"] assms(1) by (simp add: or_pop_front_def mq_or_def or_wf_def)
  show 1: "or_wf (mq_or (q\<lparr>mq_head := mq_next q (mq_head q)\<rparr>))"
    and 2: "or_content (mq_or (q\<lparr>mq_head := mq_next q (mq_head q)\<rparr>)) = tl (or_content (mq_or q))"
    using or_pop_content [OF assms(1)] eq by simp_all
  have "or_size (or_pop_front (mq_or q)) < or_size (mq_or q)"
    using or_pop_content(2) [OF assms(1)] assms(2) or_size_content
    by (metis One_nat_def Suc_pred diff_Suc_less length_greater_0_conv length_tl)
  moreover have "length (or_data (or_pop_front (mq_or q))) = length (mq_ring q)" by (simp add: or_pop_front_def)
  ultimately show "or_size (mq_or (q\<lparr>mq_head := mq_next q (mq_head q)\<rparr>)) \<noteq> or_capacity (mq_or (q\<lparr>mq_head := mq_next q (mq_head q)\<rparr>))"
    using or_size_less [OF assms(1)] or_capacity_eq [OF 1] by (simp add: eq)
qed

lemma mq_cons_inv_frame:
  "or_content (mq_or (ms_q t)) = or_content (mq_or (ms_q s)) \<Longrightarrow> ms_sent t = ms_sent s \<Longrightarrow> ms_recv t = ms_recv s \<Longrightarrow>
   mq_cons_inv s c \<Longrightarrow> mq_cons_inv t c"
  by (cases c) simp_all

lemma mq_cons_inv_append:
  "or_content (mq_or (ms_q t)) = or_content (mq_or (ms_q s)) @ [v] \<Longrightarrow> ms_sent t = ms_sent s @ [v] \<Longrightarrow> ms_recv t = ms_recv s \<Longrightarrow>
   mq_cons_inv s c \<Longrightarrow> mq_cons_inv t c"
  by (cases c) (auto simp: neq_Nil_conv)

lemma mq_producer_inv:
  assumes "mq_inv s"
  shows "mq_inv (mq_producer z s 0 spurious)"
proof -
  have wf: "or_wf (mq_or (ms_q s))" and c: "mq_cons_inv s (ms_cons s)" using assms by (simp_all add: mq_inv_def)
  obtain pc where pc: "ms_pc s = [pc]" using assms by (cases "ms_pc s") (auto simp: mq_inv_def)
  have i: "mq_pc_inv (ms_q s) pc" using assms pc by (simp add: mq_inv_def)
  show ?thesis
  proof (cases pc)
    case (MCas v t)
    let ?q = "(ms_q s)\<lparr>mq_ring := (mq_ring (ms_q s))[t := v]\<rparr>"
    have t: "t = mq_tail (ms_q s)" "t < length (mq_ring (ms_q s))" using i MCas wf by (auto simp: or_wf_def)
    have "mq_cons_inv (set_pc (s\<lparr>ms_q := ?q\<rparr>) 0 (MSwapped v t)) (ms_cons s)"
      using mq_store_tail(1) [OF wf] t by (intro mq_cons_inv_frame [OF _ _ _ c]) simp_all
    moreover have "mq_cons_inv (set_pc s 0 (MTry v)) (ms_cons s)" by (intro mq_cons_inv_frame [OF _ _ _ c]) simp_all
    ultimately show ?thesis
      using mq_store_tail [OF wf, of v] i t MCas pc wf by (auto simp: mq_producer_def mq_inv_def Let_def)
  next
    case (MCommit v t)
    let ?q = "(ms_q s)\<lparr>mq_tail := mq_next (ms_q s) t\<rparr>"
    have t: "t = mq_tail (ms_q s)" "mq_ring (ms_q s) ! t = v" "or_size (mq_or (ms_q s)) \<noteq> or_capacity (mq_or (ms_q s))"
      using i MCommit by auto
    have "mq_cons_inv (set_pc (s\<lparr>ms_q := ?q, ms_sent := ms_sent s @ [v]\<rparr>) 0 MIdle) (ms_cons s)"
      using mq_move_tail(2) [OF wf t(3)] t by (intro mq_cons_inv_append [OF _ _ _ c]) simp_all
    then show ?thesis
      using mq_move_tail(1) [OF wf t(3)] t MCommit pc by (simp add: mq_producer_def mq_inv_def Let_def)
  qed (use i c wf pc mq_room [OF wf] in \<open>cases "ms_cons s"; auto simp: mq_producer_def mq_inv_def Let_def\<close>)+
qed

lemma mq_consumer_inv:
  assumes "mq_inv s"
  shows "mq_inv (mq_consumer z s)"
proof -
  let ?q = "ms_q s"
  have wf: "or_wf (mq_or ?q)" and c: "mq_cons_inv s (ms_cons s)" using assms by (simp_all add: mq_inv_def)
  obtain pc where pc: "ms_pc s = [pc]" using assms by (cases "ms_pc s") (auto simp: mq_inv_def)
  have i: "mq_pc_inv ?q pc" using assms pc by (simp add: mq_inv_def)
  show ?thesis
  proof (cases "ms_cons s")
    case CIdle
    then show ?thesis
      using c i pc wf or_empty_content [OF wf] by (auto simp: mq_consumer_def mq_inv_def Let_def or_empty_def)
  next
    case CTake
    then have ne: "or_content (mq_or ?q) \<noteq> []" using c by simp
    note st = mq_store_head [OF wf ne]
    have "mq_pc_inv (?q\<lparr>mq_ring := (mq_ring ?q)[mq_head ?q := z]\<rparr>) pc" using i st by (cases pc) auto
    then show ?thesis using CTake c pc st ne by (simp add: mq_consumer_def mq_inv_def Let_def)
  next
    case (CShift r)
    then have ne: "or_content (mq_or ?q) \<noteq> []" using c by simp
    note mv = mq_move_head [OF wf ne]
    have "mq_pc_inv (?q\<lparr>mq_head := mq_next ?q (mq_head ?q)\<rparr>) pc" using i mv by (cases pc) auto
    then show ?thesis using CShift c pc mv by (simp add: mq_consumer_def mq_inv_def Let_def)
  qed
qed

lemma mq_step_inv:
  assumes "mq_step z s t" and "mq_inv s"
  shows "mq_inv t"
  using assms(1)
proof cases
  case (ms_begin p v)
  have "mq_cons_inv t (ms_cons s)"
    using assms(2) ms_begin(1) by (intro mq_cons_inv_frame [of t s]) (simp_all add: mq_inv_def)
  then show ?thesis using ms_begin assms(2) by (cases "ms_pc s") (auto simp: mq_inv_def)
next
  case (ms_produce p spurious)
  then have "p = 0" using assms(2) by (simp add: mq_inv_def)
  then show ?thesis using ms_produce mq_producer_inv [OF assms(2)] by simp
next
  case ms_consume
  then show ?thesis using mq_consumer_inv [OF assms(2)] by simp
qed

lemma mq_reach_inv:
  assumes "mq_reach z n 1 s" and "0 < n" and "n < 2 ^ 32"
  shows "mq_inv s"
  using assms(1)
proof (induction rule: mq_reach.induct)
  case mq_start
  have "mq_ok z (mq_new z n) []" by (rule mq_new_ok [OF assms(2,3)])
  then show ?case by (simp add: mq_inv_def mq_sys_init_def mq_ok_def)
qed (rule mq_step_inv)

section \<open>Schedules\<close>

text \<open>A schedule names the thread that runs next; running one stays in the reachable states.\<close>

datatype 'a mq_act = ABegin nat 'a | AProduce nat | AConsume

fun mq_exec :: "'a \<Rightarrow> 'a mq_sys \<Rightarrow> 'a mq_act list \<Rightarrow> 'a mq_sys option" where
  "mq_exec z s [] = Some s"
| "mq_exec z s (ABegin p v # as) =
     (if p < length (ms_pc s) \<and> ms_pc s ! p = MIdle \<and> v \<noteq> z then mq_exec z (set_pc s p (MTry v)) as else None)"
| "mq_exec z s (AProduce p # as) = (if p < length (ms_pc s) then mq_exec z (mq_producer z s p False) as else None)"
| "mq_exec z s (AConsume # as) = mq_exec z (mq_consumer z s) as"

lemma mq_exec_reach: "mq_reach z n k s \<Longrightarrow> mq_exec z s as = Some t \<Longrightarrow> mq_reach z n k t"
  by (induction z s as rule: mq_exec.induct)
     (auto split: if_splits intro: mq_more [OF _ ms_begin] mq_more [OF _ ms_produce] mq_more [OF _ ms_consume])

definition mq_whole :: "nat \<Rightarrow> 'a \<Rightarrow> 'a mq_act list" where
  "mq_whole p v = ABegin p v # replicate 5 (AProduce p)"

section \<open>Properties\<close>

text \<open>C13. One producer and the consumer, each interrupted at any access to shared memory: the values \<open>pop\<close>
  returned are a prefix of the values \<open>push\<close> accepted, in order, and the rest is in the queue or in the
  consumer's hand.\<close>

theorem mq_spsc_order:
  assumes "mq_reach z n 1 s" and "0 < n" and "n < 2 ^ 32"
  shows "\<exists>rest. ms_sent s = ms_recv s @ rest \<and>
           (case ms_cons s of CShift r \<Rightarrow> rest = r # tl (or_content (mq_or (ms_q s))) | _ \<Rightarrow> rest = or_content (mq_or (ms_q s)))"
  using mq_reach_inv [OF assms] by (cases "ms_cons s") (auto simp: mq_inv_def)

theorem mq_spsc_order_witness:
  "\<exists>s. mq_reach (0 :: nat) 2 1 s \<and> ms_sent s = [7] \<and> ms_recv s @ or_content (mq_or (ms_q s)) = [7]"
proof -
  define s where "s = the (mq_exec 0 (mq_sys_init (0 :: nat) 2 1) (mq_whole 0 7))"
  have e: "mq_exec 0 (mq_sys_init (0 :: nat) 2 1) (mq_whole 0 7) = Some s" and c: "ms_cons s = CIdle" "ms_sent s = [7]"
    unfolding s_def by code_simp+
  have "mq_reach 0 2 1 s" using mq_exec_reach [OF mq_start e] .
  with mq_spsc_order [OF this] c show ?thesis by fastforce
qed

text \<open>Used by one thread at a time, the queue is a FIFO: any sequence of pushes and pops returns, and
  the accepted values come out in order.\<close>

theorem mq_fifo:
  assumes "0 < n" and "n < 2 ^ 32" and "list_all (\<lambda>v. v \<noteq> z) (pushed ops)"
  shows "\<exists>q acc del rest. queue_run (mq_push z) (mq_peek_res z) (mq_pop_res z) (mq_new z n) ops = Some (q, acc, del) \<and>
           acc = del @ rest \<and> mq_ok z q rest \<and> mq_clear z q \<noteq> None"
proof -
  obtain q acc del rest where q: "queue_run (mq_push z) (mq_peek_res z) (mq_pop_res z) (mq_new z n) ops = Some (q, acc, del)"
    "mq_ok z q rest" "acc = del @ rest"
    using mq_queue.run_fifo [OF mq_new_ok [OF assms(1,2)] assms(3)] by auto
  have "or_size (mq_or q) = length rest" using q(2) by (auto simp: mq_ok_def simp flip: or_size_content)
  then have "length rest \<le> length (mq_ring q)" using or_size_less [of "mq_or q"] q(2) by (simp add: mq_ok_def)
  then show ?thesis using mq_clear_loop_ok [OF q(2)] q by (fastforce simp: mq_clear_def)
qed

theorem mq_fifo_witness:
  "\<exists>q acc del rest. queue_run (mq_push (0 :: nat)) (mq_peek_res 0) (mq_pop_res 0) (mq_new 0 4) [Push 5, Push 6, Pop] = Some (q, acc, del) \<and>
     acc = del @ rest \<and> mq_ok 0 q rest \<and> mq_clear 0 q \<noteq> None"
  by (rule mq_fifo) simp_all

text \<open>The queue is not safe for two producers. A producer that checked for space and was then delayed
  while the others went once around the ring stores its value into the only free cell and moves the
  tail onto the head: two accepted values are lost to the consumer, which sees an empty queue, and
  the next push never returns.\<close>

definition mq_lap :: "nat mq_act list" where
  "mq_lap = [ABegin 0 7, AProduce 0, AProduce 0] @ mq_whole 1 8 @ [AConsume, AConsume, AConsume] @ mq_whole 1 9 @
            [AProduce 0, AProduce 0, AProduce 0]"

theorem mq_lap_loses_values:
  "\<exists>s. mq_reach (0 :: nat) 2 2 s \<and> ms_sent s = [8, 9, 7] \<and> ms_recv s = [8] \<and> ms_cons s = CIdle \<and>
       mq_empty (ms_q s) \<and> mq_push 0 (ms_q s) 5 = None"
proof -
  define s where "s = the (mq_exec 0 (mq_sys_init (0 :: nat) 2 2) mq_lap)"
  have e: "mq_exec 0 (mq_sys_init (0 :: nat) 2 2) mq_lap = Some s" and 1: "ms_sent s = [8, 9, 7]" "ms_recv s = [8]"
    and 2: "ms_cons s = CIdle" "mq_empty (ms_q s)" "mq_push 0 (ms_q s) 5 = None"
    unfolding s_def by code_simp+
  show ?thesis using mq_exec_reach [OF mq_start e] 1 2 by blast
qed

end
