(* ===== verification/Varint.thy ===== *)
theory Varint
  imports Prelude
begin

text \<open>
  Variable-length integers, \<open>src/tll/util/varint.h\<close>. \<open>w\<close> is \<open>sizeof(T)\<close> and values are naturals below
  \<open>2 ^ (8 * w)\<close>. A store outside the resized buffer and a shift by 32 or more of an \<open>int\<close>, both undefined
  behaviour, are \<open>None\<close>.
\<close>

definition varint_limit :: "nat \<Rightarrow> nat" where
  "varint_limit w = w * 8 div 7"

fun encode_loop :: "nat \<Rightarrow> byte list \<Rightarrow> nat \<Rightarrow> (byte list \<times> nat) option" where
  "encode_loop val buf i =
     (if i < length buf
      then (let b = word_of_nat (val mod 128) :: byte;
                buf = buf[i := 0x80 OR b]
            in if val div 128 \<noteq> 0 then encode_loop (val div 128) buf (i + 1) else Some (buf, i + 1))
      else None)"

declare encode_loop.simps [simp del]

text \<open>\<open>buf.resize\<close> gives a buffer of which only the size matters: every byte that is kept is written.\<close>

definition encode_uint :: "nat \<Rightarrow> nat \<Rightarrow> byte list option" where
  "encode_uint w val =
     map_option (\<lambda>(buf, n). take n (buf[n - 1 := buf ! (n - 1) XOR 0x80]))
       (encode_loop val (replicate (varint_limit w) 0) 0)"

text \<open>\<open>(b & 0x7f) << (7 * i)\<close> in 32-bit \<open>int\<close>, converted to \<open>T\<close>: defined when the count is below 32 and
  the result fits 32 bits.\<close>

definition int_shift :: "nat \<Rightarrow> byte \<Rightarrow> nat \<Rightarrow> nat option" where
  "int_shift w b k =
     (if k < 32 \<and> unat (b AND 0x7f) * 2 ^ k < 2 ^ 32
      then (let v = push_bit k (ucast (b AND 0x7f)) :: i32
            in Some (nat (sint v mod 2 ^ (8 * w))))
      else None)"

fun decode_loop :: "nat \<Rightarrow> byte list \<Rightarrow> nat \<Rightarrow> nat \<Rightarrow> nat \<Rightarrow> (nat \<times> int) option" where
  "decode_loop w [] limit i val = Some (val, - 1)"
| "decode_loop w (b # bs) limit i val =
     (if i < limit
      then Option.bind (int_shift w b (7 * i)) (\<lambda>x.
        let val = val OR x
        in if b AND 0x80 = 0 then Some (val, int i + 1) else decode_loop w bs limit (i + 1) val)
      else Some (val, - 1))"

definition decode_uint :: "nat \<Rightarrow> byte list \<Rightarrow> (nat \<times> int) option" where
  "decode_uint w bs = (let limit = min (length bs) (min 9 (varint_limit w)) in decode_loop w bs limit 0 0)"

section \<open>Encoding\<close>

text \<open>The bytes of a val, the reference for the encoder.\<close>

fun varint_bytes :: "nat \<Rightarrow> byte list" where
  "varint_bytes v = (if v < 128 then [word_of_nat v] else (0x80 OR word_of_nat (v mod 128)) # varint_bytes (v div 128))"

declare varint_bytes.simps [simp del]

lemma varint_bytes_length: "v < 128 ^ n \<Longrightarrow> 0 < n \<Longrightarrow> 0 < length (varint_bytes v) \<and> length (varint_bytes v) \<le> n"
proof (induction v arbitrary: n rule: varint_bytes.induct)
  case (1 v)
  show ?case
  proof (cases "v < 128")
    case True
    then show ?thesis using 1 by (simp add: varint_bytes.simps)
  next
    case False
    then obtain m where n: "n = Suc m" "0 < m" using 1(2,3) by (cases n; cases "n - 1") auto
    then have "v div 128 < 128 ^ m" using 1(2) by (simp add: less_mult_imp_div_less mult.commute)
    then show ?thesis using 1(1) [OF False _ n(2)] False n by (simp add: varint_bytes.simps [of v])
  qed
qed

lemma byte_no_bit7: "v < 128 \<Longrightarrow> \<not> bit (word_of_nat v :: byte) 7"
proof -
  assume "v < 128"
  then have "\<not> bit v 7" by (simp add: bit_iff_odd)
  then show ?thesis by (simp add: bit_simps)
qed

lemma bit_0x80: "bit (0x80 :: byte) n \<longleftrightarrow> n = 7"
proof -
  have "(0x80 :: byte) = push_bit 7 1" by simp
  then show ?thesis by (simp only: bit_simps) auto
qed

lemma bit_0x7f: "bit (0x7f :: byte) n \<longleftrightarrow> n < 7"
proof -
  have "(0x7f :: byte) = mask 7" by (simp add: mask_eq_exp_minus_1)
  then show ?thesis by (simp only: bit_simps) auto
qed

lemma byte_or80_xor80: "\<not> bit x 7 \<Longrightarrow> (0x80 OR x :: byte) XOR 0x80 = x"
  by (rule bit_word_eqI) (simp only: bit_or_iff bit_xor_iff bit_0x80, auto)

lemma byte_and80: "\<not> bit x 7 \<Longrightarrow> (x :: byte) AND 0x80 = 0"
  by (rule bit_word_eqI) (simp only: bit_and_iff bit_0x80, auto)

lemma byte_or80_and80: "(0x80 OR x :: byte) AND 0x80 \<noteq> 0"
proof
  assume "(0x80 OR x :: byte) AND 0x80 = 0"
  then have "bit ((0x80 OR x :: byte) AND 0x80) 7 = bit (0 :: byte) 7" by (simp only:)
  then show False by (simp only: bit_and_iff bit_or_iff bit_0x80) simp
qed

lemma byte_and7f:
  assumes "\<not> bit x 7"
  shows "(x :: byte) AND 0x7f = x" and "(0x80 OR x :: byte) AND 0x7f = x"
proof -
  have n: "n < 8 \<Longrightarrow> bit x n \<Longrightarrow> n < 7" for n using assms by (cases "n = 7") auto
  show "x AND 0x7f = x" by (rule bit_word_eqI) (simp only: bit_and_iff bit_0x7f, use n in auto)
  show "(0x80 OR x) AND 0x7f = x"
    by (rule bit_word_eqI) (simp only: bit_and_iff bit_or_iff bit_0x80 bit_0x7f, use n in auto)
qed

text \<open>What the loop writes: the bytes of the val, the last one still with its high bit set.\<close>

lemma encode_loop_bytes:
  "length pre = i \<Longrightarrow> length (varint_bytes val) \<le> length post \<Longrightarrow>
   encode_loop val (pre @ post) i =
     Some (pre @ butlast (varint_bytes val) @ [0x80 OR last (varint_bytes val)] @ drop (length (varint_bytes val)) post,
           i + length (varint_bytes val))"
proof (induction val "pre @ post" i arbitrary: pre post rule: encode_loop.induct)
  case (1 val i)
  obtain x post' where p: "post = x # post'"
    using 1(3) varint_bytes_length [of val "Suc val"] by (cases post) (auto simp: varint_bytes.simps [of val] split: if_splits)
  show ?case
  proof (cases "val < 128")
    case True
    then show ?thesis using p 1(2) by (subst encode_loop.simps) (auto simp: varint_bytes.simps Let_def)
  next
    case False
    let ?b = "0x80 OR word_of_nat (val mod 128) :: byte"
    have ne: "varint_bytes (val div 128) \<noteq> []" by (subst varint_bytes.simps) simp
    have nz: "val div 128 \<noteq> 0" using False by (simp add: div_eq_0_iff)
    have upd: "(pre @ post)[i := ?b] = (pre @ [?b]) @ post'" using p 1(2) by (auto simp: list_update_append)
    have "encode_loop (val div 128) ((pre @ [?b]) @ post') (i + 1) =
      Some ((pre @ [?b]) @ butlast (varint_bytes (val div 128)) @ [0x80 OR last (varint_bytes (val div 128))] @
            drop (length (varint_bytes (val div 128))) post', i + 1 + length (varint_bytes (val div 128)))"
      by (rule 1(1)) (use False p 1(2,3) in \<open>auto simp: varint_bytes.simps [of val]\<close>)
    then show ?thesis
      using False p 1(2) upd ne nz by (subst encode_loop.simps) (simp add: varint_bytes.simps [of val] Let_def)
  qed
qed

lemma varint_bytes_last: "\<exists>v < 128. last (varint_bytes val) = word_of_nat v"
proof (induction val rule: varint_bytes.induct)
  case (1 v)
  have "varint_bytes (v div 128) \<noteq> []" by (subst varint_bytes.simps) simp
  then show ?case using 1 by (subst varint_bytes.simps) auto
qed

lemma encode_uint_bytes:
  assumes "val < 128 ^ varint_limit w" and "0 < varint_limit w"
  shows "encode_uint w val = Some (varint_bytes val)"
proof -
  let ?bs = "varint_bytes val"
  have l: "0 < length ?bs" "length ?bs \<le> varint_limit w" using varint_bytes_length [OF assms] by simp_all
  have e: "encode_loop val (replicate (varint_limit w) 0) 0 =
      Some (butlast ?bs @ [0x80 OR last ?bs] @ drop (length ?bs) (replicate (varint_limit w) 0), length ?bs)"
    using encode_loop_bytes [of "[]" 0 val "replicate (varint_limit w) 0"] l by simp
  obtain v where "v < 128" "last ?bs = word_of_nat v" using varint_bytes_last by blast
  then have x: "(0x80 OR last ?bs) XOR 0x80 = last ?bs" by (simp add: byte_or80_xor80 byte_no_bit7)
  have upd: "(xs @ y # ys)[length xs := z] = xs @ z # ys" "(xs @ y # ys) ! length xs = y" for xs ys and y z :: byte
    by (simp_all add: list_update_append)
  have n: "length ?bs - 1 = length (butlast ?bs)" by simp
  have t: "take (length ?bs) (butlast ?bs @ last ?bs # ys) = ?bs" for ys
    using l by (cases ?bs rule: rev_cases) simp_all
  show ?thesis
    unfolding encode_uint_def e option.map prod.case append_Cons append_Nil n upd x t ..
qed

section \<open>Decoding\<close>

lemma or_shifted: "a < 2 ^ k \<Longrightarrow> (a :: nat) OR m * 2 ^ k = a + m * 2 ^ k"
proof -
  assume a: "a < 2 ^ k"
  have "\<not> bit a n \<or> \<not> bit (push_bit k m) n" for n
  proof (cases "k \<le> n")
    case True
    then have "(2 :: nat) ^ k \<le> 2 ^ n" by (rule power_increasing) simp
    then have "a < 2 ^ n" using a by linarith
    then have "a div 2 ^ n = 0" by (rule div_less)
    then show ?thesis by (simp add: bit_iff_odd)
  qed (simp add: bit_simps)
  then have "a + push_bit k m = a OR push_bit k m" by (intro disjunctive_add) auto
  then show ?thesis by (simp add: push_bit_eq_mult)
qed

lemma int_shift_small:
  assumes "(x :: byte) AND 0x7f = word_of_nat m" and "m < 128" and "m * 2 ^ k < 2 ^ 31" and "k < 32" and "m * 2 ^ k < 2 ^ (8 * w)"
  shows "int_shift w x k = Some (m * 2 ^ k)"
proof -
  have u: "unat (x AND 0x7f) = m" using assms(1,2) by (simp add: unat_of_nat)
  let ?v = "push_bit k (ucast (x AND 0x7f)) :: i32"
  have c: "(ucast (x AND 0x7f) :: i32) = word_of_nat m" using assms(1,2) by (simp add: word_unat_eq_iff unat_of_nat unsigned_ucast_eq take_bit_nat_eq_self)
  have "?v = word_of_nat (m * 2 ^ k)" unfolding c by (simp add: push_bit_eq_mult)
  then have "unat ?v = m * 2 ^ k" using assms(3) by (simp only: unat_of_nat) simp
  then have s: "sint ?v = int (m * 2 ^ k)" using sint_small32 [of ?v] assms(3) by (simp only:)
  have "int (m * 2 ^ k) < 2 ^ (8 * w)" using assms(5) by (metis of_nat_less_iff of_nat_numeral of_nat_power)
  then have "nat (sint ?v mod 2 ^ (8 * w)) = m * 2 ^ k" unfolding s
    by (metis mod_pos_pos_trivial nat_int of_nat_0_le_iff)
  then show ?thesis using u assms(3,4) by (simp add: int_shift_def Let_def)
qed

lemma decode_loop_bytes:
  "a < 2 ^ (7 * i) \<Longrightarrow> v * 2 ^ (7 * i) < 2 ^ 28 \<Longrightarrow> v * 2 ^ (7 * i) < 2 ^ (8 * w) \<Longrightarrow> i < 4 \<Longrightarrow>
   i + length (varint_bytes v) \<le> limit \<Longrightarrow>
   decode_loop w (varint_bytes v @ rest) limit i a = Some (a + v * 2 ^ (7 * i), int (i + length (varint_bytes v)))"
proof (induction v arbitrary: i a rule: varint_bytes.induct)
  case (1 v)
  show ?case
  proof (cases "v < 128")
    case True
    have "int_shift w (word_of_nat v) (7 * i) = Some (v * 2 ^ (7 * i))"
      by (rule int_shift_small) (use True 1 byte_no_bit7 [OF True] in \<open>auto simp: byte_and7f\<close>)
    then show ?thesis
      using True 1 byte_no_bit7 [OF True] by (simp add: varint_bytes.simps or_shifted byte_and80)
  next
    case False
    let ?m = "v mod 128" and ?q = "v div 128"
    have m: "?m < 128" by simp
    have v: "v * 2 ^ (7 * i) = ?m * 2 ^ (7 * i) + ?q * 2 ^ (7 * Suc i)"
    proof -
      have "v = ?m + ?q * 128" by simp
      then have "v * 2 ^ (7 * i) = (?m + ?q * 128) * 2 ^ (7 * i)" by (rule arg_cong)
      also have "\<dots> = ?m * 2 ^ (7 * i) + ?q * 2 ^ (7 * Suc i)" by (simp only: distrib_right mult_Suc_right power_add) simp
      finally show ?thesis .
    qed
    have q: "0 < ?q" using False by (simp add: div_greater_zero_iff)
    have i3: "Suc i < 4"
    proof (rule ccontr)
      assume "\<not> Suc i < 4"
      then have "(2 :: nat) ^ 28 \<le> 2 ^ (7 * Suc i)" by (intro power_increasing) auto
      then have "(2 :: nat) ^ 28 \<le> ?q * 2 ^ (7 * Suc i)" using q by (simp add: order_trans)
      then show False using v 1(3) by linarith
    qed
    have sh: "int_shift w (0x80 OR word_of_nat ?m) (7 * i) = Some (?m * 2 ^ (7 * i))"
    proof (rule int_shift_small)
      show "(0x80 OR word_of_nat ?m :: byte) AND 0x7f = word_of_nat ?m" by (rule byte_and7f) (rule byte_no_bit7 [OF m])
      have le: "?m * 2 ^ (7 * i) \<le> v * 2 ^ (7 * i)" by (rule mult_right_mono) simp_all
      show "?m * 2 ^ (7 * i) < 2 ^ (8 * w)" by (rule le_less_trans [OF le 1(4)])
      have "?m * 2 ^ (7 * i) < 2 ^ 28" by (rule le_less_trans [OF le 1(3)])
      then show "?m * 2 ^ (7 * i) < 2 ^ 31" by simp
    qed (use 1(5) in auto)
    have a: "a + ?m * 2 ^ (7 * i) < 2 ^ (7 * Suc i)"
    proof -
      have "a + ?m * 2 ^ (7 * i) < (?m + 1) * 2 ^ (7 * i)" using 1(2) by simp
      also have "\<dots> \<le> 128 * 2 ^ (7 * i)" using m by (intro mult_right_mono) auto
      finally show ?thesis by (simp add: power_add)
    qed
    have bs: "varint_bytes v = (0x80 OR word_of_nat ?m) # varint_bytes ?q" using False by (simp add: varint_bytes.simps [of v])
    have "decode_loop w (varint_bytes ?q @ rest) limit (Suc i) (a + ?m * 2 ^ (7 * i)) =
        Some (a + ?m * 2 ^ (7 * i) + ?q * 2 ^ (7 * Suc i), int (Suc i + length (varint_bytes ?q)))"
      by (rule 1(1) [OF False a]) (use v 1(3,4,6) i3 bs in auto)
    then show ?thesis
      using 1(2,6) sh byte_or80_and80 v unfolding bs by (simp add: or_shifted Let_def)
  qed
qed

section \<open>Properties\<close>



text \<open>The limits of the round trip are real: \<open>sizeof(T) * 8 / 7\<close> rounds down, so the encoder writes past
  its buffer for a 32-bit value of 29 bits; and the decoder shifts an \<open>int\<close>, so a 64-bit value of 36 bits,
  which the encoder handles, makes it shift by 35.\<close>

theorem varint_overflow:
  "encode_uint 4 (2 ^ 28) = None \<and>
   encode_uint 8 (2 ^ 35) = Some [0x80, 0x80, 0x80, 0x80, 0x80, 1] \<and>
   decode_uint 8 [0x80, 0x80, 0x80, 0x80, 0x80, 1] = None"
proof -
  have 4: "replicate (varint_limit 4) 0 = [0, 0, 0, 0 :: byte]" and 8: "replicate (varint_limit 8) 0 = [0, 0, 0, 0, 0, 0, 0, 0, 0 :: byte]"
  proof -
    have "varint_limit 4 = 4" "varint_limit 8 = 9" by (simp_all add: varint_limit_def)
    then show "replicate (varint_limit 4) 0 = [0, 0, 0, 0 :: byte]"
      "replicate (varint_limit 8) 0 = [0, 0, 0, 0, 0, 0, 0, 0, 0 :: byte]"
      by (simp_all only:) (simp_all add: numeral_eq_Suc)
  qed
  have "encode_uint 4 (2 ^ 28) = None"
    unfolding encode_uint_def 4 by (simp, (subst encode_loop.simps, simp)+)
  moreover have "encode_uint 8 (2 ^ 35) = Some [0x80, 0x80, 0x80, 0x80, 0x80, 1]"
    unfolding encode_uint_def 8 by (simp, (subst encode_loop.simps, simp)+)
  moreover have "decode_uint 8 [0x80, 0x80, 0x80, 0x80, 0x80, 1] = None"
    by (simp add: decode_uint_def varint_limit_def int_shift_def)
  ultimately show ?thesis by blast
qed

end
