(* ===== verification/PointerList.thy ===== *)
theory PointerList
  imports Prelude
begin

text \<open>
  \<open>PointerList<T>\<close> of \<open>src/tll/util/pointer_list.h\<close>, the list of channels a processing loop iterates
  over while it changes: removed entries become null and are reused, so that indices stay
  valid. A pointer is a natural number, the null pointer is \<open>None\<close>.
\<close>

section \<open>Operations\<close>

record plist =
  pl_list :: "nat option list"
  pl_size :: nat

definition pl_new :: plist where
  "pl_new = \<lparr>pl_list = [], pl_size = 0\<rparr>"

definition pl_empty :: "plist \<Rightarrow> bool" where
  "pl_empty l \<longleftrightarrow> pl_size l = 0"

text \<open>The loop of \<open>insert\<close>: index of the first entry that is the value or null.\<close>

fun pl_find :: "nat option list \<Rightarrow> nat \<Rightarrow> nat \<Rightarrow> nat \<Rightarrow> nat option" where
  "pl_find [] n i v = None"
| "pl_find (x # xs) n i v =
     (if n \<le> i then None
      else if x = Some v then Some i
      else if x = None then Some i
      else pl_find xs n (i + 1) v)"

definition pl_insert :: "plist \<Rightarrow> nat \<Rightarrow> plist" where
  "pl_insert l v =
     (case pl_find (pl_list l) (pl_size l) 0 v of
        Some i \<Rightarrow> if pl_list l ! i = Some v then l else l\<lparr>pl_list := (pl_list l)[i := Some v]\<rparr>
      | None \<Rightarrow>
          if pl_size l < length (pl_list l)
          then l\<lparr>pl_list := (pl_list l)[pl_size l := Some v], pl_size := pl_size l + 1\<rparr>
          else l\<lparr>pl_list := pl_list l @ [Some v], pl_size := pl_size l + 1\<rparr>)"

fun pl_index :: "nat option list \<Rightarrow> nat \<Rightarrow> nat \<Rightarrow> nat \<Rightarrow> nat option" where
  "pl_index [] n i v = None"
| "pl_index (x # xs) n i v = (if n \<le> i then None else if x = Some v then Some i else pl_index xs n (i + 1) v)"

definition pl_erase :: "plist \<Rightarrow> nat \<Rightarrow> plist" where
  "pl_erase l v =
     (case pl_index (pl_list l) (pl_size l) 0 v of
        Some i \<Rightarrow> l\<lparr>pl_list := (pl_list l)[i := None]\<rparr>
      | None \<Rightarrow> l)"

fun pl_shrink :: "nat option list \<Rightarrow> nat \<Rightarrow> nat" where
  "pl_shrink xs 0 = 0"
| "pl_shrink xs (Suc n) = (if xs ! n \<noteq> None then Suc n else pl_shrink xs n)"

definition pl_erase_shrink :: "plist \<Rightarrow> nat \<Rightarrow> plist" where
  "pl_erase_shrink l v = (let l = pl_erase l v in l\<lparr>pl_size := pl_shrink (pl_list l) (pl_size l)\<rparr>)"

definition pl_add :: "plist \<Rightarrow> nat \<Rightarrow> plist" where
  "pl_add l v = pl_insert l v"

definition pl_del :: "plist \<Rightarrow> nat \<Rightarrow> plist" where
  "pl_del l v = pl_erase_shrink l v"

text \<open>\<open>rebuild\<close> swaps the non-null entries to the front, in order.\<close>

fun pl_compact :: "nat \<Rightarrow> nat \<Rightarrow> nat \<Rightarrow> nat option list \<Rightarrow> nat option list \<times> nat" where
  "pl_compact 0 i to xs = (xs, to)"
| "pl_compact (Suc n) i to xs =
     (if xs ! i = None then pl_compact n (i + 1) to xs
      else pl_compact n (i + 1) (to + 1) (xs[i := xs ! to, to := xs ! i]))"

definition pl_rebuild :: "plist \<Rightarrow> plist" where
  "pl_rebuild l = (let (xs, n) = pl_compact (pl_size l) 0 0 (pl_list l) in l\<lparr>pl_list := xs, pl_size := n\<rparr>)"

section \<open>Content\<close>

text \<open>What iterating from \<open>begin\<close> to \<open>end\<close> meets, null entries left out.\<close>

definition pl_items :: "plist \<Rightarrow> nat list" where
  "pl_items l = List.map_filter id (take (pl_size l) (pl_list l))"

definition pl_wf :: "plist \<Rightarrow> bool" where
  "pl_wf l \<longleftrightarrow> pl_size l \<le> length (pl_list l)"

lemma map_filter_simps' [simp]:
  "List.map_filter id [] = []" "List.map_filter id (Some x # xs) = x # List.map_filter id xs"
  "List.map_filter id (None # xs) = List.map_filter id xs"
  "List.map_filter id (xs @ ys) = List.map_filter id xs @ List.map_filter id ys"
  by (simp_all add: List.map_filter_def)

lemma set_map_filter_id: "set (List.map_filter id xs) = {x. Some x \<in> set xs}"
  by (induction xs) (auto simp: List.map_filter_def)

lemma pl_items_iff: "pl_wf l \<Longrightarrow> x \<in> set (pl_items l) \<longleftrightarrow> (\<exists>i < pl_size l. pl_list l ! i = Some x)"
  by (auto simp: pl_items_def set_map_filter_id in_set_conv_nth pl_wf_def)

lemma pl_find_some:
  "pl_find xs n i v = Some k \<Longrightarrow> i \<le> k \<and> k < n \<and> k - i < length xs \<and> (xs ! (k - i) = Some v \<or> xs ! (k - i) = None)"
  by (induction xs n i v rule: pl_find.induct) (auto simp: nth_Cons' split: if_splits)

lemma pl_find_none: "pl_find xs n i v = None \<Longrightarrow> j < length xs \<Longrightarrow> i + j < n \<Longrightarrow> xs ! j \<noteq> Some v \<and> xs ! j \<noteq> None"
  by (induction xs n i v arbitrary: j rule: pl_find.induct) (auto simp: nth_Cons' split: if_splits)

lemma pl_index_some:
  "pl_index xs n i v = Some k \<Longrightarrow> i \<le> k \<and> k < n \<and> k - i < length xs \<and> xs ! (k - i) = Some v"
  by (induction xs n i v rule: pl_index.induct) (auto simp: nth_Cons' split: if_splits)

lemma pl_index_none: "pl_index xs n i v = None \<Longrightarrow> j < length xs \<Longrightarrow> i + j < n \<Longrightarrow> xs ! j \<noteq> Some v"
  by (induction xs n i v arbitrary: j rule: pl_index.induct) (auto simp: nth_Cons' split: if_splits)

lemma pl_insert_wf: "pl_wf l \<Longrightarrow> pl_wf (pl_insert l v)"
  by (auto simp: pl_insert_def pl_wf_def split: option.splits)

text \<open>\<open>insert\<close> adds one occurrence, at the end or in a hole, unless it meets the value first.\<close>

lemma pl_insert_items:
  assumes "pl_wf l"
  shows "pl_insert l v = l \<and> v \<in> set (pl_items l) \<or>
         (\<exists>xs ys. pl_items l = xs @ ys \<and> pl_items (pl_insert l v) = xs @ v # ys)"
proof (cases "pl_find (pl_list l) (pl_size l) 0 v")
  case None
  have "pl_items (pl_insert l v) = pl_items l @ [v]"
  proof (cases "pl_size l < length (pl_list l)")
    case True
    then have "take (Suc (pl_size l)) ((pl_list l)[pl_size l := Some v]) = take (pl_size l) (pl_list l) @ [Some v]"
      by (simp add: take_Suc_conv_app_nth)
    then show ?thesis using None True by (simp add: pl_insert_def pl_items_def)
  next
    case False
    then have "pl_size l = length (pl_list l)" using assms by (simp add: pl_wf_def)
    then show ?thesis using None False by (simp add: pl_insert_def pl_items_def)
  qed
  then show ?thesis by (intro disjI2 exI [of _ "pl_items l"] exI [of _ "[]"]) simp
next
  case (Some i)
  have i: "i < pl_size l" "i < length (pl_list l)" "pl_list l ! i = Some v \<or> pl_list l ! i = None"
    using pl_find_some [OF Some] by simp_all
  show ?thesis
  proof (cases "pl_list l ! i = Some v")
    case True
    then show ?thesis using Some i pl_items_iff [OF assms] by (auto simp: pl_insert_def)
  next
    case False
    let ?t = "take (pl_size l) (pl_list l)"
    have t: "?t = take i ?t @ None # drop (Suc i) ?t"
      using i False id_take_nth_drop [of i ?t] by simp
    have "take (pl_size l) ((pl_list l)[i := Some v]) = take i ?t @ Some v # drop (Suc i) ?t"
      by (subst take_update_swap, rule upd_conv_take_nth_drop) (use i in simp)
    then have "pl_items (pl_insert l v) = List.map_filter id (take i ?t) @ v # List.map_filter id (drop (Suc i) ?t)"
      using Some False by (simp add: pl_insert_def pl_items_def)
    moreover have "pl_items l = List.map_filter id (take i ?t) @ List.map_filter id (drop (Suc i) ?t)"
      unfolding pl_items_def by (subst t) simp
    ultimately show ?thesis by blast
  qed
qed

lemma pl_insert_set: "pl_wf l \<Longrightarrow> set (pl_items (pl_insert l v)) = insert v (set (pl_items l))"
  using pl_insert_items [of l v] by auto

lemma pl_shrink_le: "pl_shrink xs n \<le> n"
  by (induction n) auto

lemma pl_shrink_null: "pl_shrink xs n \<le> i \<Longrightarrow> i < n \<Longrightarrow> xs ! i = None"
  by (induction n) (auto simp: less_Suc_eq split: if_splits)

lemma pl_shrink_last: "pl_shrink xs n \<noteq> 0 \<Longrightarrow> xs ! (pl_shrink xs n - 1) \<noteq> None"
  by (induction n) (auto split: if_splits)

lemma pl_erase_wf: "pl_wf l \<Longrightarrow> pl_wf (pl_erase l v)" and pl_del_wf: "pl_wf l \<Longrightarrow> pl_wf (pl_del l v)"
  using pl_shrink_le order_trans
  by (auto simp: pl_erase_def pl_del_def pl_erase_shrink_def Let_def pl_wf_def split: option.splits) blast+

text \<open>After \<open>del\<close> the last entry is not null, so an empty list has size 0.\<close>

definition pl_trim :: "plist \<Rightarrow> bool" where
  "pl_trim l \<longleftrightarrow> pl_wf l \<and> (pl_size l \<noteq> 0 \<longrightarrow> pl_list l ! (pl_size l - 1) \<noteq> None)"

lemma pl_trim_empty: "pl_trim l \<Longrightarrow> pl_size l = 0 \<longleftrightarrow> pl_items l = []"
  using pl_items_iff [of l] by (cases "pl_size l") (auto simp: pl_trim_def pl_items_def)

lemma pl_del_trim: "pl_wf l \<Longrightarrow> pl_trim (pl_del l v)"
  using pl_del_wf [of l v] pl_shrink_last by (auto simp: pl_trim_def pl_del_def pl_erase_shrink_def Let_def)

lemma pl_insert_trim: "pl_trim l \<Longrightarrow> pl_trim (pl_insert l v)"
proof -
  assume t: "pl_trim l"
  then have wf: "pl_wf (pl_insert l v)" using pl_insert_wf by (simp add: pl_trim_def)
  show ?thesis
  proof (cases "pl_find (pl_list l) (pl_size l) 0 v")
    case None
    then show ?thesis using t wf by (auto simp: pl_trim_def pl_insert_def nth_append pl_wf_def)
  next
    case (Some i)
    then show ?thesis
      using t wf pl_find_some [OF Some] by (cases "i = pl_size l - 1") (auto simp: pl_trim_def pl_insert_def)
  qed
qed

text \<open>\<open>del\<close> removes the first occurrence only.\<close>

lemma pl_items_shrink:
  assumes "pl_wf l"
  shows "pl_items (l\<lparr>pl_size := pl_shrink (pl_list l) (pl_size l)\<rparr>) = pl_items l"
proof -
  let ?n = "pl_shrink (pl_list l) (pl_size l)"
  have "take (pl_size l) (pl_list l) = take ?n (pl_list l) @ take (pl_size l - ?n) (drop ?n (pl_list l))"
    using pl_shrink_le [of "pl_list l" "pl_size l"] by (metis le_add_diff_inverse take_add)
  moreover have "x = None" if "x \<in> set (take (pl_size l - ?n) (drop ?n (pl_list l)))" for x
    using that pl_shrink_null [of "pl_list l" "pl_size l"] assms
    by (auto simp: in_set_conv_nth pl_wf_def less_diff_conv add.commute)
  then have "List.map_filter id (take (pl_size l - ?n) (drop ?n (pl_list l))) = []"
    by (auto simp: List.map_filter_def filter_empty_conv)
  ultimately show ?thesis by (simp add: pl_items_def)
qed

lemma pl_index_first:
  "pl_index xs n i v = (if Some v \<in> set (take (n - i) xs) then Some (i + length (takeWhile (\<lambda>x. x \<noteq> Some v) xs)) else None)"
  by (induction xs n i v rule: pl_index.induct) (auto simp: take_Cons' Suc_diff_le split: if_splits)

lemma map_filter_remove1:
  "Some v \<in> set xs \<Longrightarrow> List.map_filter id (xs[length (takeWhile (\<lambda>x. x \<noteq> Some v) xs) := None]) = remove1 v (List.map_filter id xs)"
proof (induction xs)
  case (Cons x xs)
  then show ?case by (cases x) auto
qed simp

lemma pl_del_items:
  assumes "pl_wf l"
  shows "pl_items (pl_del l v) = remove1 v (pl_items l)"
proof -
  let ?t = "take (pl_size l) (pl_list l)" and ?k = "length (takeWhile (\<lambda>x. x \<noteq> Some v) (pl_list l))"
  have "pl_items (pl_erase l v) = remove1 v (pl_items l)"
  proof (cases "Some v \<in> set ?t")
    case True
    then have "length (takeWhile (\<lambda>x. x \<noteq> Some v) ?t) = ?k"
      using takeWhile_append1 [of "Some v" ?t "\<lambda>x. x \<noteq> Some v" "drop (pl_size l) (pl_list l)"] by simp
    moreover have "take (pl_size l) ((pl_list l)[?k := None]) = ?t[?k := None]" by (simp add: take_update_swap)
    ultimately show ?thesis
      using True map_filter_remove1 [OF True] by (simp add: pl_erase_def pl_index_first pl_items_def)
  next
    case False
    then have "v \<notin> set (pl_items l)" by (simp add: pl_items_def set_map_filter_id)
    then show ?thesis using False by (simp add: pl_erase_def pl_index_first remove1_idem)
  qed
  then show ?thesis
    using pl_items_shrink [OF pl_erase_wf [OF assms]] by (simp add: pl_del_def pl_erase_shrink_def Let_def)
qed

section \<open>Pointer lists as sets\<close>

text \<open>What the loop relies on: a list that holds each pointer once is a set, as long as a pointer is added only when
  it is absent, or again right after it was added.\<close>

locale pointer_set =
  fixes add :: "'l \<Rightarrow> nat \<Rightarrow> 'l" and del :: "'l \<Rightarrow> nat \<Rightarrow> 'l" and items :: "'l \<Rightarrow> nat list" and ok :: "'l \<Rightarrow> bool"
  assumes ok_add: "ok l \<Longrightarrow> ok (add l v)"
    and ok_del: "ok l \<Longrightarrow> ok (del l v)"
    and items_add: "ok l \<Longrightarrow> set (items (add l v)) = insert v (set (items l))"
    and distinct_add: "ok l \<Longrightarrow> v \<notin> set (items l) \<Longrightarrow> distinct (items l) \<Longrightarrow> distinct (items (add l v))"
    and add_again: "ok l \<Longrightarrow> v \<notin> set (items l) \<Longrightarrow> add (add l v) v = add l v"
    and items_del: "ok l \<Longrightarrow> items (del l v) = remove1 v (items l)"
begin

definition good :: "'l \<Rightarrow> bool" where
  "good l \<longleftrightarrow> ok l \<and> distinct (items l)"

lemma good_add: "good l \<Longrightarrow> v \<notin> set (items l) \<Longrightarrow> good (add l v)"
  by (simp add: good_def ok_add distinct_add)

lemma good_del: "good l \<Longrightarrow> good (del l v)"
  by (simp add: good_def ok_del items_del distinct_remove1)

lemma set_add: "good l \<Longrightarrow> set (items (add l v)) = insert v (set (items l))"
  by (simp add: good_def items_add)

lemma set_del: "good l \<Longrightarrow> set (items (del l v)) = set (items l) - {v}"
  by (simp add: good_def items_del)

end

lemma pl_find_first:
  "pl_find xs n i v = Some k \<Longrightarrow> j < k - i \<Longrightarrow> xs ! j \<noteq> None \<and> xs ! j \<noteq> Some v"
proof (induction xs n i v arbitrary: j rule: pl_find.induct)
  case (2 x xs n i v)
  then show ?case by (cases j) (auto split: if_splits)
qed simp

lemma pl_find_at:
  "(\<And>j. j < k \<Longrightarrow> xs ! j \<noteq> None \<and> xs ! j \<noteq> Some v) \<Longrightarrow> k < length xs \<Longrightarrow> i + k < n \<Longrightarrow> xs ! k = Some v \<Longrightarrow>
     pl_find xs n i v = Some (i + k)"
proof (induction xs arbitrary: k i)
  case (Cons x xs)
  show ?case
  proof (cases k)
    case (Suc m)
    have "x \<noteq> None" "x \<noteq> Some v" using Cons.prems(1) [of 0] Suc by simp_all
    moreover have "pl_find xs n (Suc i) v = Some (Suc i + m)"
    proof (rule Cons.IH)
      show "xs ! j \<noteq> None \<and> xs ! j \<noteq> Some v" if "j < m" for j using Cons.prems(1) [of "Suc j"] that Suc by simp
    qed (use Cons.prems Suc in auto)
    ultimately show ?thesis using Cons.prems Suc by simp
  qed (use Cons.prems in simp)
qed simp

lemma pl_insert_again:
  assumes "pl_wf l"
  shows "pl_insert (pl_insert l v) v = pl_insert l v"
proof (cases "pl_find (pl_list l) (pl_size l) 0 v")
  case (Some k)
  then have k: "k < pl_size l" "k < length (pl_list l)" using pl_find_some by fastforce+
  have "pl_find ((pl_list l)[k := Some v]) (pl_size l) 0 v = Some (0 + k)"
    by (rule pl_find_at) (use k pl_find_first [OF Some] in \<open>auto simp: nth_list_update\<close>)
  then show ?thesis using Some k by (simp add: pl_insert_def split: if_splits)
next
  case None
  note n = pl_find_none [OF None]
  show ?thesis
  proof (cases "pl_size l < length (pl_list l)")
    case True
    have "pl_find ((pl_list l)[pl_size l := Some v]) (Suc (pl_size l)) 0 v = Some (0 + pl_size l)"
      by (rule pl_find_at) (use True n in \<open>auto simp: nth_list_update\<close>)
    then show ?thesis using None True by (simp add: pl_insert_def)
  next
    case False
    then have "pl_size l = length (pl_list l)" using assms by (simp add: pl_wf_def)
    moreover from this have "pl_find (pl_list l @ [Some v]) (Suc (pl_size l)) 0 v = Some (0 + pl_size l)"
      by (intro pl_find_at) (use n in \<open>auto simp: nth_append\<close>)
    ultimately show ?thesis using None by (simp add: pl_insert_def nth_append)
  qed
qed

interpretation pls: pointer_set pl_add pl_del pl_items pl_trim
proof unfold_locales
  fix l v assume l: "pl_trim l"
  then have wf: "pl_wf l" by (simp add: pl_trim_def)
  show "pl_trim (pl_add l v)" using l by (simp add: pl_add_def pl_insert_trim)
  show "pl_trim (pl_del l v)" using wf by (rule pl_del_trim)
  show "set (pl_items (pl_add l v)) = insert v (set (pl_items l))" using wf by (simp add: pl_add_def pl_insert_set)
  show "pl_items (pl_del l v) = remove1 v (pl_items l)" using wf by (rule pl_del_items)
  show "pl_add (pl_add l v) v = pl_add l v" using wf by (simp add: pl_add_def pl_insert_again)
  show "distinct (pl_items (pl_add l v))" if "v \<notin> set (pl_items l)" "distinct (pl_items l)"
    using pl_insert_items [OF wf, of v] that by (auto simp: pl_add_def)
qed

section \<open>Properties\<close>



text \<open>\<open>add\<close> stops at the first null entry without looking further: after \<open>add 1\<close>, \<open>add 2\<close>, \<open>del 1\<close> another
  \<open>add 2\<close> stores a second copy of a pointer that is already in the list, and one \<open>del 2\<close> leaves the
  other copy behind.\<close>

theorem pl_duplicate:
  "pl_items (pl_add (pl_del (pl_add (pl_add pl_new 1) 2) 1) 2) = [2, 2] \<and>
   2 \<in> set (pl_items (pl_del (pl_add (pl_del (pl_add (pl_add pl_new 1) 2) 1) 2) 2))"
  by code_simp

end
