(* ===== verification/Channel.thy ===== *)
theory Channel
  imports Prelude
begin

text \<open>
  The channel object: constants and messages of \<open>src/tll/channel.h\<close>, the internal part of
  \<open>src/tll/channel/impl.h\<close> and \<open>src/channel/impl.c\<close> (children, callbacks, state), the callback lists and
  the guarded entry points of \<open>src/channel/context.cc\<close>, and the life cycle of \<open>Base<T>\<close> in
  \<open>src/tll/channel/base.h\<close>. The methods a channel class overrides (\<open>_open\<close>, \<open>_close\<close>, \<open>_process\<close>, \<open>_post\<close>)
  and its policies are a record of hooks, the argument of the life cycle operations.
  Callbacks are observers: their invocations, in order, are recorded with the message.
\<close>

section \<open>Constants and messages\<close>

datatype tll_state = StClosed | StOpening | StActive | StClosing | StError | StDestroy

fun state_num :: "tll_state \<Rightarrow> nat" where
  "state_num StClosed = 0"
| "state_num StOpening = 1"
| "state_num StActive = 2"
| "state_num StClosing = 3"
| "state_num StError = 4"
| "state_num StDestroy = 5"

fun tll_state_str :: "tll_state \<Rightarrow> string" where
  "tll_state_str StClosed = ''Closed''"
| "tll_state_str StOpening = ''Opening''"
| "tll_state_str StActive = ''Active''"
| "tll_state_str StError = ''Error''"
| "tll_state_str StClosing = ''Closing''"
| "tll_state_str StDestroy = ''Destroy''"

datatype msg_type = MsgData | MsgControl | MsgState | MsgChannel

fun type_num :: "msg_type \<Rightarrow> nat" where
  "type_num MsgData = 0"
| "type_num MsgControl = 1"
| "type_num MsgState = 2"
| "type_num MsgChannel = 3"

definition CHANNEL_UPDATE :: int where "CHANNEL_UPDATE = 0"
definition CHANNEL_ADD :: int where "CHANNEL_ADD = 1"
definition CHANNEL_DELETE :: int where "CHANNEL_DELETE = 2"
definition CHANNEL_UPDATE_FD :: int where "CHANNEL_UPDATE_FD = 3"

text \<open>What \<open>msg->data\<close> points to: payload bytes, or the value a channel message carries.\<close>

datatype msg_body = BBytes "byte list" | BCaps u32 | BFd int | BChan nat

record tll_msg =
  m_type :: msg_type
  m_flags :: int
  m_msgid :: int
  m_seq :: int
  m_data :: msg_body
  m_addr :: u64
  m_time :: int

definition msg_empty :: tll_msg where
  "msg_empty = \<lparr>m_type = MsgData, m_flags = 0, m_msgid = 0, m_seq = 0, m_data = BBytes [], m_addr = 0, m_time = 0\<rparr>"

definition msg_size :: "tll_msg \<Rightarrow> nat" where
  "msg_size m = (case m_data m of BBytes bs \<Rightarrow> length bs | BCaps _ \<Rightarrow> 4 | BFd _ \<Rightarrow> 4 | BChan _ \<Rightarrow> 8)"

definition tll_msg_copy_info :: "tll_msg \<Rightarrow> tll_msg \<Rightarrow> tll_msg" where
  "tll_msg_copy_info dest src =
     dest\<lparr>m_type := m_type src, m_flags := m_flags src, m_msgid := m_msgid src, m_seq := m_seq src,
          m_addr := m_addr src, m_time := m_time src\<rparr>"

definition CAPS_PARENT :: u32 where "CAPS_PARENT = 0x1"
definition CAPS_PROXY :: u32 where "CAPS_PROXY = 0x2"
definition CAPS_INPUT :: u32 where "CAPS_INPUT = 0x4"
definition CAPS_OUTPUT :: u32 where "CAPS_OUTPUT = 0x8"
definition CAPS_CUSTOM :: u32 where "CAPS_CUSTOM = 0x10"
definition CAPS_LONG_CLOSE :: u32 where "CAPS_LONG_CLOSE = 0x20"

definition DCAPS_POLLIN :: u32 where "DCAPS_POLLIN = 0x1"
definition DCAPS_POLLOUT :: u32 where "DCAPS_POLLOUT = 0x2"
definition DCAPS_POLLMASK :: u32 where "DCAPS_POLLMASK = 0x3"
definition DCAPS_PROCESS :: u32 where "DCAPS_PROCESS = 0x10"
definition DCAPS_PENDING :: u32 where "DCAPS_PENDING = 0x20"
definition DCAPS_SUSPEND :: u32 where "DCAPS_SUSPEND = 0x40"
definition DCAPS_SUSPEND_PERMANENT :: u32 where "DCAPS_SUSPEND_PERMANENT = 0x80"
definition DCAPS_PROCESS_MASK :: u32 where "DCAPS_PROCESS_MASK = DCAPS_PROCESS OR DCAPS_SUSPEND"

lemmas dcaps_defs = DCAPS_POLLIN_def DCAPS_POLLOUT_def DCAPS_POLLMASK_def DCAPS_PROCESS_def DCAPS_PENDING_def
  DCAPS_SUSPEND_def DCAPS_SUSPEND_PERMANENT_def DCAPS_PROCESS_MASK_def

definition need_process :: "u32 \<Rightarrow> bool" where
  "need_process dcap \<longleftrightarrow> dcap AND DCAPS_PROCESS_MASK = DCAPS_PROCESS"

definition message_mask :: "msg_type \<Rightarrow> u32" where
  "message_mask t = push_bit (type_num t) 1"

definition MASK_ALL :: u32 where
  "MASK_ALL = 0xffffffff XOR message_mask MsgChannel"

definition PROCESS_HINT_MASK :: u32 where "PROCESS_HINT_MASK = 0x7"

section \<open>Callback lists\<close>

text \<open>\<open>tll_channel_callback_pair_t\<close>: function and user pointers are numbers, a null function is \<open>None\<close>.\<close>

record cb_pair =
  cb_fn :: "nat option"
  cb_user :: nat
  cb_mask :: u32

text \<open>The loop of \<open>callback_add\<close>: the entry of the same pair, or else the first free one.\<close>

fun callback_scan :: "cb_pair list \<Rightarrow> nat \<Rightarrow> nat option \<Rightarrow> cb_pair \<Rightarrow> nat option \<times> nat option" where
  "callback_scan [] i hole cb = (None, hole)"
| "callback_scan (p # ps) i hole cb =
     (if cb_fn p = None \<and> hole = None then callback_scan ps (i + 1) (Some i) cb
      else if cb_fn p = cb_fn cb \<and> cb_user p = cb_user cb then (Some i, hole)
      else callback_scan ps (i + 1) hole cb)"

definition callback_add :: "cb_pair list \<Rightarrow> cb_pair \<Rightarrow> cb_pair list" where
  "callback_add c cb =
     (case callback_scan c 0 None cb of
        (Some i, _) \<Rightarrow> c[i := (c ! i)\<lparr>cb_mask := cb_mask (c ! i) OR cb_mask cb\<rparr>]
      | (None, Some i) \<Rightarrow> c[i := cb]
      | (None, None) \<Rightarrow> c @ [cb])"

fun callback_shrink :: "cb_pair list \<Rightarrow> cb_pair list" where
  "callback_shrink c = (if c = [] then [] else if cb_fn (last c) \<noteq> None then c else callback_shrink (butlast c))"

declare callback_shrink.simps [simp del]

fun callback_find :: "cb_pair list \<Rightarrow> nat \<Rightarrow> cb_pair \<Rightarrow> nat option" where
  "callback_find [] i cb = None"
| "callback_find (p # ps) i cb =
     (if cb_fn p \<noteq> cb_fn cb \<or> cb_user p \<noteq> cb_user cb then callback_find ps (i + 1) cb else Some i)"

definition callback_del :: "cb_pair list \<Rightarrow> cb_pair \<Rightarrow> cb_pair list \<times> errno option" where
  "callback_del c cb =
     (case callback_find c 0 cb of
        None \<Rightarrow> (c, Some ENOENT)
      | Some i \<Rightarrow>
          let m = cb_mask (c ! i) AND NOT (cb_mask cb)
          in if m \<noteq> 0 then (c[i := (c ! i)\<lparr>cb_mask := m\<rparr>], None)
             else (callback_shrink (c[i := \<lparr>cb_fn = None, cb_user = 0, cb_mask = 0\<rparr>]), None))"

section \<open>The internal part of a channel\<close>

record chan_stat =
  st_rx :: i64
  st_rxb :: i64
  st_tx :: i64
  st_txb :: i64

text \<open>\<open>in_stat_busy\<close>: the statistics page is being swapped and cannot be acquired. \<open>in_calls\<close> is the record
  of callback invocations (function, user, message).\<close>

record chan_internal =
  in_state :: tll_state
  in_caps :: u32
  in_dcaps :: u32
  in_fd :: int
  in_config_state :: string
  in_children :: "nat list"
  in_data_cb :: "cb_pair list"
  in_cb :: "cb_pair list"
  in_stat :: "chan_stat option"
  in_stat_busy :: bool
  in_state_count :: u32
  in_calls :: "(nat \<times> nat \<times> tll_msg) list"

definition internal_init :: chan_internal where
  "internal_init = \<lparr>in_state = StClosed, in_caps = 0, in_dcaps = 0, in_fd = - 1, in_config_state = ''Closed'',
     in_children = [], in_data_cb = [], in_cb = [], in_stat = None, in_stat_busy = False, in_state_count = 0,
     in_calls = []\<rparr>"

definition internal_clear :: "chan_internal \<Rightarrow> chan_internal" where
  "internal_clear c = c\<lparr>in_children := [], in_cb := [], in_data_cb := []\<rparr>"

definition channel_callback_add :: "chan_internal \<Rightarrow> nat \<Rightarrow> nat \<Rightarrow> u32 \<Rightarrow> chan_internal" where
  "channel_callback_add c cb user msk =
     (if msk AND message_mask MsgData \<noteq> 0
      then (let rest = msk XOR message_mask MsgData;
                c = c\<lparr>in_data_cb := callback_add (in_data_cb c) \<lparr>cb_fn = Some cb, cb_user = user, cb_mask = message_mask MsgData\<rparr>\<rparr>
            in if rest = 0 then c
               else c\<lparr>in_cb := callback_add (in_cb c) \<lparr>cb_fn = Some cb, cb_user = user, cb_mask = rest\<rparr>\<rparr>)
      else c\<lparr>in_cb := callback_add (in_cb c) \<lparr>cb_fn = Some cb, cb_user = user, cb_mask = msk\<rparr>\<rparr>)"

definition channel_callback_del :: "chan_internal \<Rightarrow> nat \<Rightarrow> nat \<Rightarrow> u32 \<Rightarrow> chan_internal \<times> errno option" where
  "channel_callback_del c cb user msk =
     (if msk AND message_mask MsgData \<noteq> 0
      then (let rest = msk XOR message_mask MsgData;
                c = c\<lparr>in_data_cb := fst (callback_del (in_data_cb c)
                        \<lparr>cb_fn = Some cb, cb_user = user, cb_mask = message_mask MsgData\<rparr>)\<rparr>
            in if rest = 0 then (c, None)
               else (let (l, e) = callback_del (in_cb c) \<lparr>cb_fn = Some cb, cb_user = user, cb_mask = rest\<rparr>
                     in (c\<lparr>in_cb := l\<rparr>, e)))
      else (let (l, e) = callback_del (in_cb c) \<lparr>cb_fn = Some cb, cb_user = user, cb_mask = msk\<rparr>
            in (c\<lparr>in_cb := l\<rparr>, e)))"

text \<open>\<open>tll_channel_callback_data\<close>: every entry of the data list is called, without a check for null;
  \<open>None\<close> is a call through a null pointer.\<close>

fun call_all :: "cb_pair list \<Rightarrow> tll_msg \<Rightarrow> (nat \<times> nat \<times> tll_msg) list option" where
  "call_all [] m = Some []"
| "call_all (p # ps) m =
     (case cb_fn p of
        None \<Rightarrow> None
      | Some f \<Rightarrow> map_option (Cons (f, cb_user p, m)) (call_all ps m))"

definition callback_data :: "chan_internal \<Rightarrow> tll_msg \<Rightarrow> chan_internal option" where
  "callback_data c m =
     (if in_state c = StError then Some c
      else
        (let c = (case in_stat c of
                    Some s \<Rightarrow>
                      if in_stat_busy c then c
                      else c\<lparr>in_stat := Some (s\<lparr>st_rx := st_rx s + 1, st_rxb := st_rxb s + word_of_nat (msg_size m)\<rparr>)\<rparr>
                  | None \<Rightarrow> c)
         in map_option (\<lambda>calls. c\<lparr>in_calls := in_calls c @ calls\<rparr>) (call_all (in_data_cb c) m)))"

text \<open>The other message types: entries are selected by their mask, and a free entry has mask 0.\<close>

fun call_masked :: "cb_pair list \<Rightarrow> tll_msg \<Rightarrow> (nat \<times> nat \<times> tll_msg) list option" where
  "call_masked [] m = Some []"
| "call_masked (p # ps) m =
     (if cb_mask p AND message_mask (m_type m) \<noteq> 0
      then (case cb_fn p of
              None \<Rightarrow> None
            | Some f \<Rightarrow> map_option (Cons (f, cb_user p, m)) (call_masked ps m))
      else call_masked ps m)"

definition channel_callback :: "chan_internal \<Rightarrow> tll_msg \<Rightarrow> chan_internal option" where
  "channel_callback c m =
     (if m_type m = MsgData then callback_data c m
      else if in_state c = StError \<and> m_type m \<noteq> MsgState \<and> m_type m \<noteq> MsgChannel then Some c
      else map_option (\<lambda>calls. c\<lparr>in_calls := in_calls c @ calls\<rparr>) (call_masked (in_cb c) m))"

definition set_state :: "chan_internal \<Rightarrow> tll_state \<Rightarrow> chan_internal option" where
  "set_state c s =
     (if s = in_state c then Some c
      else channel_callback
             (c\<lparr>in_state_count := in_state_count c + 1, in_state := s, in_config_state := tll_state_str s\<rparr>)
             (msg_empty\<lparr>m_type := MsgState, m_msgid := int (state_num s)\<rparr>))"

section \<open>Children\<close>

definition list_add :: "nat list \<Rightarrow> nat \<Rightarrow> errno + nat list" where
  "list_add l c = (if c \<in> set l then Inl EEXIST else Inr (l @ [c]))"

definition list_del :: "nat list \<Rightarrow> nat \<Rightarrow> errno + nat list" where
  "list_del l c = (if c \<in> set l then Inr (remove1 c l) else Inl ENOENT)"

text \<open>\<open>child_add\<close> and \<open>child_del\<close> also register and drop a state callback at the child: \<open>k\<close> is the internal
  part of the child, \<open>cbid\<close> the function \<open>_state_callback\<close> and \<open>self\<close> the parent it is registered with. The
  configuration subtree under a tag is not part of the model.\<close>

definition child_add ::
  "nat \<Rightarrow> nat \<Rightarrow> chan_internal \<Rightarrow> nat \<Rightarrow> chan_internal \<Rightarrow> (errno + chan_internal \<times> chan_internal) option" where
  "child_add cbid self c kid k =
     (case list_add (in_children c) kid of
        Inl e \<Rightarrow> Some (Inl e)
      | Inr l \<Rightarrow>
          map_option (\<lambda>c. Inr (c, channel_callback_add k cbid self (message_mask MsgState)))
            (channel_callback (c\<lparr>in_children := l\<rparr>)
               (msg_empty\<lparr>m_type := MsgChannel, m_msgid := CHANNEL_ADD, m_data := BChan kid\<rparr>)))"

definition child_del ::
  "nat \<Rightarrow> nat \<Rightarrow> chan_internal \<Rightarrow> nat \<Rightarrow> chan_internal \<Rightarrow> (errno + chan_internal \<times> chan_internal) option" where
  "child_del cbid self c kid k =
     (case list_del (in_children c) kid of
        Inl e \<Rightarrow> Some (Inl e)
      | Inr l \<Rightarrow>
          map_option (\<lambda>c. Inr (c, fst (channel_callback_del k cbid self (message_mask MsgState))))
            (channel_callback (c\<lparr>in_children := l\<rparr>)
               (msg_empty\<lparr>m_type := MsgChannel, m_msgid := CHANNEL_DELETE, m_data := BChan kid\<rparr>)))"

definition state_callback ::
  "nat \<Rightarrow> nat \<Rightarrow> chan_internal \<Rightarrow> nat \<Rightarrow> chan_internal \<Rightarrow> tll_msg \<Rightarrow> (errno + chan_internal \<times> chan_internal) option" where
  "state_callback cbid self c kid k m =
     (if m_type m \<noteq> MsgState \<or> m_msgid m \<noteq> int (state_num StDestroy) then Some (Inr (c, k))
      else child_del cbid self c kid k)"

section \<open>The life cycle of Base\<close>

datatype process_policy = ProcessNormal | ProcessNever | ProcessAlways | ProcessCustom
datatype flags_policy = FlagsNormal | FlagsPollHint
datatype open_policy = OpenAuto | OpenManual
datatype close_policy = CloseNormal | CloseLong
datatype post_policy = PostDisable | PostEnable
datatype scheme_policy = SchemeNormal | SchemeManual

text \<open>\<open>ch_kids\<close> are the states of the child channels, \<open>ch_user\<close> the members of the derived class. A scheme is
  a number, and error code 0 is \<open>None\<close>.\<close>

record 'u chan =
  ch_in :: chan_internal
  ch_scheme :: "nat option"
  ch_scheme_control :: "nat option"
  ch_scheme_url :: "string option"
  ch_scheme_tags :: "(string \<times> nat) list"
  ch_export :: "(nat \<times> nat) list"
  ch_kids :: "nat \<Rightarrow> tll_state"
  ch_user :: 'u

type_synonym 'u hook = "'u chan \<Rightarrow> ('u chan \<times> errno option) option"

record 'u hooks =
  hk_process_policy :: process_policy
  hk_flags_policy :: flags_policy
  hk_open_policy :: open_policy
  hk_close_policy :: close_policy
  hk_post_opening :: post_policy
  hk_post_closing :: post_policy
  hk_scheme_policy :: scheme_policy
  hk_open :: "'u hook"
  hk_close :: "bool \<Rightarrow> 'u hook"
  hk_process :: "u32 \<Rightarrow> 'u hook"
  hk_post :: "tll_msg \<Rightarrow> int \<Rightarrow> 'u hook"
  hk_free :: "'u chan \<Rightarrow> 'u chan"

abbreviation ch_state :: "'u chan \<Rightarrow> tll_state" where
  "ch_state c \<equiv> in_state (ch_in c)"

abbreviation ch_dcaps :: "'u chan \<Rightarrow> u32" where
  "ch_dcaps c \<equiv> in_dcaps (ch_in c)"

definition base_state :: "'u chan \<Rightarrow> tll_state \<Rightarrow> 'u chan option" where
  "base_state c s = map_option (\<lambda>i. c\<lparr>ch_in := i\<rparr>) (set_state (ch_in c) s)"

definition base_callback :: "'u chan \<Rightarrow> tll_msg \<Rightarrow> 'u chan option" where
  "base_callback c m = map_option (\<lambda>i. c\<lparr>ch_in := i\<rparr>) (channel_callback (ch_in c) m)"

definition update_dcaps :: "'u chan \<Rightarrow> u32 \<Rightarrow> u32 \<Rightarrow> 'u chan option" where
  "update_dcaps c caps msk =
     (let caps = caps AND msk; old = ch_dcaps c in
      if old AND msk = caps then Some c
      else base_callback
             (c\<lparr>ch_in := (ch_in c)\<lparr>in_dcaps := old XOR ((old AND msk) XOR caps)\<rparr>\<rparr>)
             (msg_empty\<lparr>m_type := MsgChannel, m_msgid := CHANNEL_UPDATE, m_data := BCaps old\<rparr>))"

definition dcaps_poll :: "'u chan \<Rightarrow> u32 \<Rightarrow> 'u chan option" where
  "dcaps_poll c caps = update_dcaps c caps DCAPS_POLLMASK"

definition dcaps_pending :: "'u chan \<Rightarrow> bool \<Rightarrow> 'u chan option" where
  "dcaps_pending c pending = update_dcaps c (if pending then DCAPS_PENDING else 0) DCAPS_PENDING"

definition update_fd :: "'u chan \<Rightarrow> int \<Rightarrow> ('u chan \<times> int) option" where
  "update_fd c fd =
     (if fd = in_fd (ch_in c) then Some (c, fd)
      else let old = in_fd (ch_in c) in
           map_option (\<lambda>c. (c, old))
             (base_callback (c\<lparr>ch_in := (ch_in c)\<lparr>in_fd := fd\<rparr>\<rparr>)
                (msg_empty\<lparr>m_type := MsgChannel, m_msgid := CHANNEL_UPDATE_FD, m_data := BFd old\<rparr>)))"

definition state_fail :: "'u chan \<Rightarrow> errno \<Rightarrow> ('u chan \<times> errno option) option" where
  "state_fail c e = map_option (\<lambda>c. (c, Some e)) (base_state c StError)"

text \<open>\<open>ld\<close> is \<open>context().scheme_load\<close>.\<close>

definition scheme_load :: "(string \<Rightarrow> nat option) \<Rightarrow> 'u chan \<Rightarrow> string \<Rightarrow> msg_type \<Rightarrow> ('u chan \<times> errno option) option" where
  "scheme_load ld c url t =
     (case ld url of
        None \<Rightarrow> Some (c, Some EINVAL)
      | Some s \<Rightarrow>
          (case t of
             MsgData \<Rightarrow> Some (c\<lparr>ch_scheme := Some s\<rparr>, None)
           | MsgControl \<Rightarrow> Some (c\<lparr>ch_scheme_control := Some s\<rparr>, None)
           | _ \<Rightarrow> state_fail c EINVAL))"

definition base_open :: "'u hooks \<Rightarrow> (string \<Rightarrow> nat option) \<Rightarrow> 'u hook" where
  "base_open hk ld c =
     Option.bind (base_state c StOpening) (\<lambda>c.
     Option.bind (case hk_process_policy hk of
                    ProcessNormal \<Rightarrow> update_dcaps c DCAPS_PROCESS DCAPS_PROCESS
                  | ProcessAlways \<Rightarrow> update_dcaps c DCAPS_PROCESS DCAPS_PROCESS
                  | _ \<Rightarrow> Some c) (\<lambda>c.
     Option.bind (case ch_scheme_url c of
                    Some url \<Rightarrow> if hk_scheme_policy hk = SchemeNormal then scheme_load ld c url MsgData else Some (c, None)
                  | None \<Rightarrow> Some (c, None)) (\<lambda>(c, r).
     case r of
       Some e \<Rightarrow> state_fail c e
     | None \<Rightarrow>
         Option.bind (hk_open hk c) (\<lambda>(c, r).
           if r \<noteq> None then map_option (\<lambda>c. (c, r)) (base_state c StError)
           else if hk_open_policy hk = OpenAuto then map_option (\<lambda>c. (c, r)) (base_state c StActive)
           else Some (c, r)))))"

text \<open>A forced \<open>tll_channel_close\<close> of a child.\<close>

definition kid_close :: "tll_state \<Rightarrow> tll_state" where
  "kid_close s = (if s = StClosed \<or> s = StDestroy then s else StClosed)"

definition base_close_common :: "'u hooks \<Rightarrow> 'u hook" where
  "base_close_common hk c =
     (let c = (if hk_scheme_policy hk = SchemeNormal then c\<lparr>ch_scheme := None\<rparr> else c) in
      Option.bind (update_dcaps c 0 (DCAPS_PROCESS OR DCAPS_PENDING OR DCAPS_POLLMASK)) (\<lambda>c.
        let c = c\<lparr>ch_kids := (\<lambda>k. if k \<in> set (in_children (ch_in c)) then kid_close (ch_kids c k) else ch_kids c k)\<rparr>
        in map_option (\<lambda>c. (c, None)) (base_state c StClosed)))"

definition base_close :: "'u hooks \<Rightarrow> bool \<Rightarrow> 'u hook" where
  "base_close hk force c =
     Option.bind (base_state c StClosing) (\<lambda>c.
     Option.bind (hk_close hk (hk_close_policy hk = CloseLong \<and> force) c) (\<lambda>(c, r).
       if hk_close_policy hk = CloseLong \<and> \<not> force \<and> ch_state c \<noteq> StClosed
       then (if r \<noteq> None then map_option (\<lambda>c. (c, r)) (base_state c StError) else Some (c, r))
       else map_option (\<lambda>(c, _). (c, None)) (base_close_common hk c)))"

definition base_process :: "'u hooks \<Rightarrow> u32 \<Rightarrow> 'u hook" where
  "base_process hk flags c =
     (if ch_state c = StError \<or> ch_state c = StClosed then Some (c, None)
      else
        (let flags = (if hk_flags_policy hk = FlagsPollHint \<and> flags AND PROCESS_HINT_MASK = 0
                      then flags OR PROCESS_HINT_MASK else flags) in
         Option.bind (hk_process hk flags c) (\<lambda>(c, r).
           if r \<noteq> None \<and> r \<noteq> Some EAGAIN then map_option (\<lambda>c. (c, r)) (base_state c StError)
           else Some (c, r))))"

definition base_post :: "'u hooks \<Rightarrow> tll_msg \<Rightarrow> int \<Rightarrow> 'u hook" where
  "base_post hk m flags c =
     (let s = ch_state c in
      if s \<noteq> StActive \<and> \<not> (s = StOpening \<and> hk_post_opening hk = PostEnable) \<and>
         \<not> (s = StClosing \<and> hk_post_closing hk = PostEnable)
      then Some (c, Some EINVAL)
      else hk_post hk m flags c)"

definition base_free :: "'u hooks \<Rightarrow> 'u chan \<Rightarrow> 'u chan option" where
  "base_free hk c =
     map_option (\<lambda>c. let c = hk_free hk c
                     in c\<lparr>ch_scheme := None, ch_scheme_control := None, ch_in := internal_clear (ch_in c)\<rparr>)
       (base_state c StDestroy)"

definition export_scheme_range :: nat where
  "export_scheme_range = 0x01000000"

definition base_scheme :: "'u chan \<Rightarrow> nat \<Rightarrow> nat option" where
  "base_scheme c t =
     (if t = type_num MsgData then ch_scheme c
      else if t = type_num MsgControl then ch_scheme_control c
      else map_of (ch_export c) t)"

definition scheme_add :: "'u chan \<Rightarrow> nat \<Rightarrow> string \<Rightarrow> 'u chan \<times> errno option" where
  "scheme_add c s tag =
     (if tag = ''data'' \<or> tag = ''control'' \<or> tag = ''state'' \<or> tag = ''channel'' then (c, Some EINVAL)
      else let t = export_scheme_range + length (ch_export c) in
           if map_of (ch_scheme_tags c) tag \<noteq> None then (c, Some EINVAL)
           else (c\<lparr>ch_scheme_tags := (tag, t) # ch_scheme_tags c, ch_export := (t, s) # ch_export c\<rparr>, None))"

section \<open>Entry points\<close>

definition channel_open :: "'u hooks \<Rightarrow> (string \<Rightarrow> nat option) \<Rightarrow> 'u hook" where
  "channel_open hk ld c = (if ch_state c \<noteq> StClosed then Some (c, Some EINVAL) else base_open hk ld c)"

definition channel_close :: "'u hooks \<Rightarrow> bool \<Rightarrow> 'u hook" where
  "channel_close hk force c =
     (case ch_state c of
        StClosed \<Rightarrow> Some (c, None)
      | StDestroy \<Rightarrow> Some (c, None)
      | StClosing \<Rightarrow> if \<not> force then Some (c, None) else base_close hk force c
      | _ \<Rightarrow> base_close hk force c)"

definition channel_process :: "'u hooks \<Rightarrow> u32 \<Rightarrow> 'u hook" where
  "channel_process hk flags c = (if \<not> need_process (ch_dcaps c) then Some (c, Some EAGAIN) else base_process hk flags c)"

definition channel_post :: "'u hooks \<Rightarrow> tll_msg \<Rightarrow> int \<Rightarrow> 'u hook" where
  "channel_post hk m flags c =
     map_option (\<lambda>(c, r).
       (if r = None \<and> m_type m = MsgData
        then (case in_stat (ch_in c) of
                Some s \<Rightarrow>
                  if in_stat_busy (ch_in c) then c
                  else c\<lparr>ch_in := (ch_in c)\<lparr>in_stat := Some (s\<lparr>st_tx := st_tx s + 1, st_txb := st_txb s + word_of_nat (msg_size m)\<rparr>)\<rparr>\<rparr>
              | None \<Rightarrow> c)
        else c, r))
       (base_post hk m flags c)"

text \<open>\<open>suspend\<close> and \<open>resume\<close> walk over the tree of channels: a node is the internal part of a channel and its
  children. The walk is from the root to the leaves, each channel announcing its change before its children.\<close>

datatype ctree = CNode (ct_in: chan_internal) (ct_kids: "ctree list")

definition update_message :: "u32 \<Rightarrow> tll_msg" where
  "update_message old = msg_empty\<lparr>m_type := MsgChannel, m_msgid := CHANNEL_UPDATE, m_data := BCaps old\<rparr>"

fun tree_suspend :: "ctree \<Rightarrow> ctree option" where
  "tree_suspend (CNode c ks) =
     (let old = in_dcaps c in
      if old AND DCAPS_SUSPEND \<noteq> 0 then Some (CNode c ks)
      else case channel_callback (c\<lparr>in_dcaps := old OR DCAPS_SUSPEND\<rparr>) (update_message old) of
             None \<Rightarrow> None
           | Some c \<Rightarrow> map_option (CNode c) (those (map tree_suspend ks)))"

fun tree_resume :: "ctree \<Rightarrow> ctree option" where
  "tree_resume (CNode c ks) =
     (if in_dcaps c AND DCAPS_SUSPEND_PERMANENT \<noteq> 0 then Some (CNode c ks)
      else let old = in_dcaps c in
      if old AND DCAPS_SUSPEND = 0 then Some (CNode c ks)
      else case channel_callback (c\<lparr>in_dcaps := old AND NOT DCAPS_SUSPEND\<rparr>) (update_message old) of
             None \<Rightarrow> None
           | Some c \<Rightarrow> map_option (CNode c) (those (map tree_resume ks)))"

definition channel_suspend :: "ctree \<Rightarrow> ctree option" where
  "channel_suspend t =
     tree_suspend (CNode ((ct_in t)\<lparr>in_dcaps := in_dcaps (ct_in t) OR DCAPS_SUSPEND_PERMANENT\<rparr>) (ct_kids t))"

definition channel_resume :: "ctree \<Rightarrow> ctree option" where
  "channel_resume t =
     tree_resume (CNode ((ct_in t)\<lparr>in_dcaps := in_dcaps (ct_in t) AND NOT DCAPS_SUSPEND_PERMANENT\<rparr>) (ct_kids t))"

section \<open>Callback lists as a map\<close>

text \<open>The mask under which a pair is registered; 0 when it is not.\<close>

fun cb_lookup :: "cb_pair list \<Rightarrow> nat \<Rightarrow> nat \<Rightarrow> u32" where
  "cb_lookup [] f u = 0"
| "cb_lookup (p # ps) f u = (if cb_fn p = Some f \<and> cb_user p = u then cb_mask p else cb_lookup ps f u)"

text \<open>Free entries have an empty mask, and a pair has one entry.\<close>

definition cbs_ok :: "cb_pair list \<Rightarrow> bool" where
  "cbs_ok c \<longleftrightarrow> (\<forall>p \<in> set c. cb_fn p = None \<longrightarrow> cb_mask p = 0) \<and>
     distinct (map (\<lambda>p. (cb_fn p, cb_user p)) (filter (\<lambda>p. cb_fn p \<noteq> None) c))"


lemma callback_find_some:
  "callback_find c i cb = Some k \<Longrightarrow> i \<le> k \<and> k - i < length c \<and> cb_fn (c ! (k - i)) = cb_fn cb \<and> cb_user (c ! (k - i)) = cb_user cb"
  by (induction c i cb rule: callback_find.induct) (auto simp: nth_Cons' split: if_splits)

lemma callback_find_none:
  "callback_find c i cb = None \<longleftrightarrow> (\<forall>p \<in> set c. cb_fn p \<noteq> cb_fn cb \<or> cb_user p \<noteq> cb_user cb)"
  by (induction c i cb rule: callback_find.induct) auto

lemma callback_scan_found:
  "cb_fn cb = Some f \<Longrightarrow> fst (callback_scan c i h cb) = callback_find c i cb"
  by (induction c i h cb rule: callback_scan.induct) auto

lemma callback_scan_hole:
  "snd (callback_scan c i h cb) = Some k \<Longrightarrow> h = Some k \<or> i \<le> k \<and> k - i < length c \<and> cb_fn (c ! (k - i)) = None"
  by (induction c i h cb rule: callback_scan.induct) (auto simp: nth_Cons' split: if_splits)

lemma split_nth: "k < length c \<Longrightarrow> \<exists>xs ys. c = xs @ c ! k # ys \<and> length xs = k"
  by (metis id_take_nth_drop length_take min.absorb4)

lemma cb_lookup_append:
  "cb_lookup (xs @ ys) f u = (if \<exists>p \<in> set xs. cb_fn p = Some f \<and> cb_user p = u then cb_lookup xs f u else cb_lookup ys f u)"
  by (induction xs) auto

lemma cbs_ok_append: "cbs_ok (xs @ p # ys) \<Longrightarrow> cb_fn p = Some f \<Longrightarrow>
    \<forall>q \<in> set xs \<union> set ys. cb_fn q \<noteq> Some f \<or> cb_user q \<noteq> cb_user p"
  by (auto simp: cbs_ok_def intro: rev_image_eqI)

lemma cb_lookup_none: "(\<forall>p \<in> set c. cb_fn p \<noteq> Some f \<or> cb_user p \<noteq> u) \<Longrightarrow> cb_lookup c f u = 0"
  by (induction c) auto

lemma callback_add_ok:
  assumes "cbs_ok c" and "cb_fn cb = Some f"
  shows "cbs_ok (callback_add c cb)"
    and "cb_lookup (callback_add c cb) g u =
           (if g = f \<and> u = cb_user cb then cb_lookup c g u OR cb_mask cb else cb_lookup c g u)"
proof -
  obtain r h where s: "callback_scan c 0 None cb = (r, h)" by (cases "callback_scan c 0 None cb")
  have r: "r = callback_find c 0 cb" using callback_scan_found [OF assms(2), of c 0 None] s by simp
  have "cbs_ok (callback_add c cb) \<and> cb_lookup (callback_add c cb) g u =
           (if g = f \<and> u = cb_user cb then cb_lookup c g u OR cb_mask cb else cb_lookup c g u)"
  proof (cases r)
    case (Some k)
    then have k: "k < length c" "cb_fn (c ! k) = Some f" "cb_user (c ! k) = cb_user cb"
      using callback_find_some [of c 0 cb k] r assms(2) by simp_all
    obtain xs ys where c: "c = xs @ c ! k # ys" "length xs = k" using split_nth [OF k(1)] by blast
    define p where "p = c ! k"
    have add: "callback_add c cb = xs @ p\<lparr>cb_mask := cb_mask p OR cb_mask cb\<rparr> # ys"
      using s Some c p_def by (simp add: callback_add_def) (metis list_update_length)
    have n: "\<forall>q \<in> set xs \<union> set ys. cb_fn q \<noteq> Some f \<or> cb_user q \<noteq> cb_user p"
      using cbs_ok_append [of xs p ys f] assms(1) c k p_def by simp
    have "cbs_ok (xs @ p # ys)" using assms(1) c p_def by simp
    then have "cbs_ok (callback_add c cb)" unfolding add using k by (auto simp: cbs_ok_def p_def)
    moreover have "cb_lookup (xs @ p\<lparr>cb_mask := cb_mask p OR cb_mask cb\<rparr> # ys) g u =
        (if g = f \<and> u = cb_user cb then cb_lookup (xs @ p # ys) g u OR cb_mask cb else cb_lookup (xs @ p # ys) g u)"
      using n k by (auto simp: cb_lookup_append p_def)
    ultimately show ?thesis using add c p_def by simp
  next
    case None
    then have nf: "\<forall>p \<in> set c. cb_fn p \<noteq> Some f \<or> cb_user p \<noteq> cb_user cb"
      using r callback_find_none [of c 0 cb] assms(2) by simp
    have lk0: "cb_lookup c f (cb_user cb) = 0" using nf by (rule cb_lookup_none)
    show ?thesis
    proof (cases h)
      case None
      then have "callback_add c cb = c @ [cb]" using s \<open>r = None\<close> by (simp add: callback_add_def)
      moreover have "cbs_ok (c @ [cb])" using assms nf by (auto simp: cbs_ok_def)
      ultimately show ?thesis using nf lk0 assms(2) cb_lookup_none [of c g u] by (auto simp: cb_lookup_append)
    next
      case (Some k)
      then have k: "k < length c" "cb_fn (c ! k) = None"
        using callback_scan_hole [of c 0 None cb k] s by simp_all
      obtain xs ys where c: "c = xs @ c ! k # ys" "length xs = k" using split_nth [OF k(1)] by blast
      define p where "p = c ! k"
      have c': "c = xs @ p # ys" "cb_fn p = None" using c k p_def by simp_all
      have add: "callback_add c cb = xs @ cb # ys"
        using s \<open>r = None\<close> Some c'(1) c(2) by (simp add: callback_add_def) (metis list_update_length)
      have "cbs_ok (xs @ cb # ys)" using assms nf c' by (auto simp: cbs_ok_def)
      then show ?thesis using add nf lk0 assms(2) c' by (auto simp: cb_lookup_append)
    qed
  qed
  then show "cbs_ok (callback_add c cb)"
    and "cb_lookup (callback_add c cb) g u =
           (if g = f \<and> u = cb_user cb then cb_lookup c g u OR cb_mask cb else cb_lookup c g u)" by simp_all
qed

lemma callback_shrink_prefix: "\<exists>ys. c = callback_shrink c @ ys \<and> (\<forall>p \<in> set ys. cb_fn p = None)"
proof (induction c rule: callback_shrink.induct)
  case (1 c)
  show ?case
  proof (cases "c = [] \<or> cb_fn (last c) \<noteq> None")
    case True
    then show ?thesis by (subst callback_shrink.simps) auto
  next
    case False
    then obtain ys where "butlast c = callback_shrink (butlast c) @ ys" "\<forall>p \<in> set ys. cb_fn p = None"
      using 1 by blast
    then show ?thesis
      using False by (subst callback_shrink.simps) (auto intro!: exI [of _ "ys @ [last c]"] simp flip: append_assoc)
  qed
qed

lemma cb_lookup_null: "(\<forall>p \<in> set c. cb_fn p = None) \<Longrightarrow> cb_lookup c f u = 0"
  by (induction c) auto

lemma callback_shrink_ok:
  assumes "cbs_ok c"
  shows "cbs_ok (callback_shrink c)" and "cb_lookup (callback_shrink c) f u = cb_lookup c f u"
proof -
  obtain ys where ys: "c = callback_shrink c @ ys" "\<forall>p \<in> set ys. cb_fn p = None"
    using callback_shrink_prefix by blast
  define d where "d = callback_shrink c"
  have c: "c = d @ ys" using ys d_def by simp
  have "cbs_ok (d @ ys)" using assms by (simp only: c [symmetric])
  then show "cbs_ok (callback_shrink c)" unfolding d_def [symmetric] by (auto simp: cbs_ok_def)
  have "cb_lookup (d @ ys) f u = cb_lookup d f u"
    using ys(2) cb_lookup_null [of ys f u] cb_lookup_none [of d f u] by (auto simp: cb_lookup_append)
  then show "cb_lookup (callback_shrink c) f u = cb_lookup c f u"
    unfolding d_def [symmetric] by (simp only: c [symmetric])
qed

lemma callback_del_ok:
  assumes "cbs_ok c" and "cb_fn cb = Some f"
  shows "cbs_ok (fst (callback_del c cb))"
    and "cb_lookup (fst (callback_del c cb)) g u =
           (if g = f \<and> u = cb_user cb then cb_lookup c g u AND NOT (cb_mask cb) else cb_lookup c g u)"
proof -
  have "cbs_ok (fst (callback_del c cb)) \<and> cb_lookup (fst (callback_del c cb)) g u =
           (if g = f \<and> u = cb_user cb then cb_lookup c g u AND NOT (cb_mask cb) else cb_lookup c g u)"
  proof (cases "callback_find c 0 cb")
    case None
    then have "cb_lookup c f (cb_user cb) = 0"
      using callback_find_none [of c 0 cb] assms(2) by (intro cb_lookup_none) simp
    then show ?thesis using None assms(1) by (simp add: callback_del_def)
  next
    case (Some k)
    then have k: "k < length c" "cb_fn (c ! k) = Some f" "cb_user (c ! k) = cb_user cb"
      using callback_find_some [of c 0 cb k] assms(2) by simp_all
    obtain xs ys where c: "c = xs @ c ! k # ys" "length xs = k" using split_nth [OF k(1)] by blast
    define p where "p = c ! k"
    have c': "c = xs @ p # ys" "cb_fn p = Some f" "cb_user p = cb_user cb" using c k p_def by simp_all
    have upd: "c[k := x] = xs @ x # ys" for x using c'(1) c(2) by (metis list_update_length)
    have n: "\<forall>q \<in> set xs \<union> set ys. cb_fn q \<noteq> Some f \<or> cb_user q \<noteq> cb_user cb"
      using cbs_ok_append [of xs p ys f] assms(1) c' by simp
    have lk: "cb_lookup ys f (cb_user cb) = 0" using n by (intro cb_lookup_none) simp
    let ?m = "cb_mask p AND NOT (cb_mask cb)"
    show ?thesis
    proof (cases "?m = 0")
      case False
      have "cbs_ok (xs @ p\<lparr>cb_mask := ?m\<rparr> # ys)" using assms(1) c' by (auto simp: cbs_ok_def)
      moreover have "cb_lookup (xs @ p\<lparr>cb_mask := ?m\<rparr> # ys) g u =
         (if g = f \<and> u = cb_user cb then cb_lookup c g u AND NOT (cb_mask cb) else cb_lookup c g u)"
        using n c' by (auto simp: cb_lookup_append)
      ultimately show ?thesis using Some False upd p_def by (simp add: callback_del_def Let_def)
    next
      case True
      let ?e = "\<lparr>cb_fn = None, cb_user = 0, cb_mask = 0\<rparr>"
      have ok: "cbs_ok (xs @ ?e # ys)" using assms(1) c' by (auto simp: cbs_ok_def)
      moreover have "cb_lookup (xs @ ?e # ys) g u =
         (if g = f \<and> u = cb_user cb then cb_lookup c g u AND NOT (cb_mask cb) else cb_lookup c g u)"
        using n c' lk True by (auto simp: cb_lookup_append)
      ultimately show ?thesis
        using Some True upd p_def callback_shrink_ok [OF ok] by (simp add: callback_del_def Let_def)
    qed
  qed
  then show "cbs_ok (fst (callback_del c cb))"
    and "cb_lookup (fst (callback_del c cb)) g u =
           (if g = f \<and> u = cb_user cb then cb_lookup c g u AND NOT (cb_mask cb) else cb_lookup c g u)" by simp_all
qed


section \<open>Delivery\<close>

text \<open>Who receives a message: the registered pairs whose mask selects it, in the order of the list.\<close>

lemma call_masked_ok:
  "cbs_ok c \<Longrightarrow> \<exists>calls. call_masked c m = Some calls \<and>
     (\<forall>f u. (f, u, m) \<in> set calls \<longleftrightarrow> cb_lookup c f u AND message_mask (m_type m) \<noteq> 0) \<and> distinct calls \<and>
     (\<forall>x \<in> set calls. snd (snd x) = m)"
proof (induction c)
  case (Cons p ps)
  have ok: "cbs_ok ps" using Cons.prems by (auto simp: cbs_ok_def split: if_splits)
  obtain calls where calls: "call_masked ps m = Some calls"
    "\<And>f u. (f, u, m) \<in> set calls \<longleftrightarrow> cb_lookup ps f u AND message_mask (m_type m) \<noteq> 0" "distinct calls"
    "\<forall>x \<in> set calls. snd (snd x) = m" using Cons.IH [OF ok] by blast
  show ?case
  proof (cases "cb_fn p")
    case None
    then have "cb_mask p = 0" using Cons.prems by (simp add: cbs_ok_def)
    then show ?thesis using None calls by simp
  next
    case (Some f)
    have n: "\<forall>q \<in> set ps. cb_fn q \<noteq> Some f \<or> cb_user q \<noteq> cb_user p"
      using cbs_ok_append [of "[]" p ps f] Cons.prems Some by simp
    then have "cb_lookup ps f (cb_user p) = 0" by (rule cb_lookup_none)
    then have "(f, cb_user p, m) \<notin> set calls" using calls(2) by simp
    then show ?thesis using Some calls \<open>cb_lookup ps f (cb_user p) = 0\<close> by auto
  qed
qed simp

definition internal_ok :: "chan_internal \<Rightarrow> bool" where
  "internal_ok c \<longleftrightarrow> cbs_ok (in_cb c) \<and> cbs_ok (in_data_cb c)"

lemma channel_callback_some:
  assumes "internal_ok c" and "m_type m \<noteq> MsgData"
  shows "\<exists>calls. channel_callback c m = Some (c\<lparr>in_calls := in_calls c @ calls\<rparr>)"
  using call_masked_ok [of "in_cb c" m] assms
  by (auto simp: channel_callback_def internal_ok_def intro: exI [of _ "[]"])

lemma internal_ok_calls [simp]: "internal_ok (c\<lparr>in_calls := x\<rparr>) = internal_ok c"
  by (simp add: internal_ok_def)

lemma set_state_ok:
  assumes "internal_ok c"
  shows "\<exists>c'. set_state c s = Some c' \<and> in_state c' = s \<and> internal_ok c' \<and> in_dcaps c' = in_dcaps c \<and>
           in_children c' = in_children c \<and> in_fd c' = in_fd c \<and>
           in_state_count c' = in_state_count c + (if s = in_state c then 0 else 1)"
proof (cases "s = in_state c")
  case False
  let ?c = "c\<lparr>in_state_count := in_state_count c + 1, in_state := s, in_config_state := tll_state_str s\<rparr>"
  have "internal_ok ?c" using assms by (simp add: internal_ok_def)
  from channel_callback_some [OF this, of "msg_empty\<lparr>m_type := MsgState, m_msgid := int (state_num s)\<rparr>"]
  show ?thesis using False \<open>internal_ok ?c\<close> by (auto simp: set_state_def)
qed (use assms in \<open>simp add: set_state_def\<close>)

lemma base_state_ok:
  assumes "internal_ok (ch_in c)"
  shows "\<exists>i. base_state c s = Some (c\<lparr>ch_in := i\<rparr>) \<and> in_state i = s \<and> internal_ok i \<and> in_dcaps i = in_dcaps (ch_in c) \<and>
           in_children i = in_children (ch_in c)"
  using set_state_ok [OF assms, of s] by (auto simp: base_state_def)

lemma dcaps_merge: "(old :: u32) XOR ((old AND m) XOR (c AND m)) = (old AND NOT m) OR (c AND m)"
  by (rule bit_word_eqI) (auto simp: bit_simps)

lemma dcaps_merge_same: "(old :: u32) AND m = c AND m \<Longrightarrow> (old AND NOT m) OR (c AND m) = old"
proof (rule bit_word_eqI)
  fix n assume "old AND m = c AND m" and "n < LENGTH(32)"
  then have "bit (old AND m) n = bit (c AND m) n" by simp
  then show "bit ((old AND NOT m) OR (c AND m)) n = bit old n" using \<open>n < LENGTH(32)\<close> by (auto simp: bit_simps)
qed

lemma update_dcaps_ok:
  assumes "internal_ok (ch_in c)"
  shows "\<exists>i. update_dcaps c caps msk = Some (c\<lparr>ch_in := i\<rparr>) \<and> internal_ok i \<and>
           in_dcaps i = (ch_dcaps c AND NOT msk) OR (caps AND msk) \<and> in_state i = ch_state c \<and>
           in_children i = in_children (ch_in c)"
proof (cases "ch_dcaps c AND msk = caps AND msk")
  case True
  then show ?thesis
    using assms dcaps_merge_same [OF True] by (intro exI [of _ "ch_in c"]) (simp add: update_dcaps_def Let_def)
next
  case False
  let ?i = "(ch_in c)\<lparr>in_dcaps := ch_dcaps c XOR ((ch_dcaps c AND msk) XOR (caps AND msk))\<rparr>"
  have "internal_ok ?i" using assms by (simp add: internal_ok_def)
  from channel_callback_some [OF this, of "msg_empty\<lparr>m_type := MsgChannel, m_msgid := CHANNEL_UPDATE, m_data := BCaps (ch_dcaps c)\<rparr>"]
  show ?thesis using False \<open>internal_ok ?i\<close> dcaps_merge [of "ch_dcaps c" msk caps]
    by (auto simp: update_dcaps_def base_callback_def Let_def)
qed

text \<open>A hook that returns keeps the callback lists well-formed; it may do anything else.\<close>

definition hook_ok :: "'u hook \<Rightarrow> bool" where
  "hook_ok h \<longleftrightarrow> (\<forall>c. internal_ok (ch_in c) \<longrightarrow> (\<exists>c' r. h c = Some (c', r) \<and> internal_ok (ch_in c')))"

lemma hook_okE: "hook_ok h \<Longrightarrow> internal_ok (ch_in c) \<Longrightarrow> (\<And>c' r. h c = Some (c', r) \<Longrightarrow> internal_ok (ch_in c') \<Longrightarrow> P) \<Longrightarrow> P"
  by (auto simp: hook_ok_def)

definition DCAPS_RUN :: u32 where
  "DCAPS_RUN = DCAPS_PROCESS OR DCAPS_PENDING OR DCAPS_POLLMASK"

lemma base_close_common_ok:
  assumes "internal_ok (ch_in c)"
  shows "\<exists>c'. base_close_common hk c = Some (c', None) \<and> internal_ok (ch_in c') \<and> ch_state c' = StClosed \<and>
           ch_dcaps c' AND DCAPS_RUN = 0 \<and> in_children (ch_in c') = in_children (ch_in c) \<and>
           (\<forall>k \<in> set (in_children (ch_in c)). ch_kids c' k = StClosed \<or> ch_kids c' k = StDestroy)"
proof -
  define c1 where "c1 = (if hk_scheme_policy hk = SchemeNormal then c\<lparr>ch_scheme := None\<rparr> else c)"
  have i1: "ch_in c1 = ch_in c" by (simp add: c1_def)
  obtain i where i: "update_dcaps c1 0 DCAPS_RUN = Some (c1\<lparr>ch_in := i\<rparr>)" "internal_ok i"
    "in_dcaps i = ch_dcaps c1 AND NOT DCAPS_RUN" "in_children i = in_children (ch_in c)"
    using update_dcaps_ok [of c1 0 DCAPS_RUN] assms i1 by auto
  define c2 where "c2 = (c1\<lparr>ch_in := i\<rparr>)\<lparr>ch_kids := (\<lambda>k. if k \<in> set (in_children i) then kid_close (ch_kids c1 k) else ch_kids c1 k)\<rparr>"
  obtain j where j: "base_state c2 StClosed = Some (c2\<lparr>ch_in := j\<rparr>)" "in_state j = StClosed" "internal_ok j"
    "in_dcaps j = in_dcaps i" "in_children j = in_children i"
    using base_state_ok [of c2 StClosed] i(2) by (auto simp: c2_def)
  have "base_close_common hk c = Some (c2\<lparr>ch_in := j\<rparr>, None)"
    using i(1) j(1) by (simp add: base_close_common_def c1_def [symmetric] DCAPS_RUN_def [symmetric] c2_def cong: if_cong)
  moreover have "in_dcaps j AND DCAPS_RUN = 0"
    unfolding j(4) i(3) by (simp add: and.assoc)
  ultimately show ?thesis
    using i j by (intro exI [of _ "c2\<lparr>ch_in := j\<rparr>"]) (auto simp: c2_def kid_close_def)
qed

lemma dcaps_run_need: "d AND DCAPS_RUN = 0 \<Longrightarrow> \<not> need_process d"
proof
  assume "d AND DCAPS_RUN = 0" and "need_process d"
  then have "bit (d AND DCAPS_RUN) 4 = bit (0 :: u32) 4" and "bit (d AND DCAPS_PROCESS_MASK) 4 = bit DCAPS_PROCESS 4"
    by (simp_all add: need_process_def)
  then show False by (simp add: bit_and_iff DCAPS_RUN_def dcaps_defs)
qed

lemma base_close_ok:
  assumes "internal_ok (ch_in c)" and "\<And>b. hook_ok (hk_close hk b)" and "force \<or> hk_close_policy hk = CloseNormal"
  shows "\<exists>c'. base_close hk force c = Some (c', None) \<and> ch_state c' = StClosed \<and> internal_ok (ch_in c') \<and>
           ch_dcaps c' AND DCAPS_RUN = 0 \<and>
           (\<forall>k \<in> set (in_children (ch_in c')). ch_kids c' k = StClosed \<or> ch_kids c' k = StDestroy)"
proof -
  obtain i where i: "base_state c StClosing = Some (c\<lparr>ch_in := i\<rparr>)" "internal_ok i"
    using base_state_ok [OF assms(1)] by blast
  have "internal_ok (ch_in (c\<lparr>ch_in := i\<rparr>))" using i(2) by simp
  then obtain d r where d: "hk_close hk (hk_close_policy hk = CloseLong \<and> force) (c\<lparr>ch_in := i\<rparr>) = Some (d, r)" "internal_ok (ch_in d)"
    by (rule hook_okE [OF assms(2)])
  have "hk_close_policy hk = CloseLong \<Longrightarrow> force" using assms(3) by auto
  then have "base_close hk force c = map_option (\<lambda>(c, _). (c, None)) (base_close_common hk d)"
    using i(1) d(1) by (auto simp: base_close_def)
  then show ?thesis using base_close_common_ok [OF d(2), of hk] by auto
qed

lemma base_state_result:
  assumes "internal_ok (ch_in c)"
  shows "\<exists>c'. map_option (\<lambda>c. (c, r)) (base_state c s) = Some (c', r) \<and> internal_ok (ch_in c') \<and> ch_state c' = s"
  using base_state_ok [OF assms, of s] by auto

lemma scheme_load_data: "\<exists>d r. scheme_load ld c url MsgData = Some (d, r) \<and> ch_in d = ch_in c"
  by (auto simp: scheme_load_def split: option.splits)

lemma base_open_ok:
  assumes "internal_ok (ch_in c)" and "hook_ok (hk_open hk)"
  shows "\<exists>c' r. base_open hk ld c = Some (c', r) \<and> internal_ok (ch_in c') \<and> (r \<noteq> None \<longrightarrow> ch_state c' = StError) \<and>
           (r = None \<and> hk_open_policy hk = OpenAuto \<longrightarrow> ch_state c' = StActive)"
proof -
  obtain i where i: "base_state c StOpening = Some (c\<lparr>ch_in := i\<rparr>)" "internal_ok i"
    using base_state_ok [OF assms(1)] by blast
  define c1 where "c1 = c\<lparr>ch_in := i\<rparr>"
  obtain j where j: "(case hk_process_policy hk of
                    ProcessNormal \<Rightarrow> update_dcaps c1 DCAPS_PROCESS DCAPS_PROCESS
                  | ProcessAlways \<Rightarrow> update_dcaps c1 DCAPS_PROCESS DCAPS_PROCESS
                  | _ \<Rightarrow> Some c1) = Some (c1\<lparr>ch_in := j\<rparr>)" "internal_ok j"
    using update_dcaps_ok [of c1 DCAPS_PROCESS DCAPS_PROCESS] i(2)
    by (cases "hk_process_policy hk") (auto simp: c1_def intro: that [of i])
  define c2 where "c2 = c1\<lparr>ch_in := j\<rparr>"
  obtain d r where d: "(case ch_scheme_url c2 of
                    Some url \<Rightarrow> if hk_scheme_policy hk = SchemeNormal then scheme_load ld c2 url MsgData else Some (c2, None)
                  | None \<Rightarrow> Some (c2, None)) = Some (d, r)" "internal_ok (ch_in d)"
    using j(2) scheme_load_data [of ld c2] by (cases "ch_scheme_url c2"; cases "hk_scheme_policy hk") (fastforce simp: c2_def)+
  have o: "base_open hk ld c = (case r of
       Some e \<Rightarrow> state_fail d e
     | None \<Rightarrow> Option.bind (hk_open hk d) (\<lambda>(c, r).
           if r \<noteq> None then map_option (\<lambda>c. (c, r)) (base_state c StError)
           else if hk_open_policy hk = OpenAuto then map_option (\<lambda>c. (c, r)) (base_state c StActive)
           else Some (c, r)))"
    unfolding base_open_def i(1) bind.bind_lunit c1_def [symmetric] j(1) c2_def [symmetric] d(1) by (simp only: Option.bind.bind_lunit prod.case)
  show ?thesis
  proof (cases r)
    case (Some e)
    then show ?thesis using o base_state_result [OF d(2)] by (fastforce simp: state_fail_def)
  next
    case None
    obtain e q where e: "hk_open hk d = Some (e, q)" "internal_ok (ch_in e)"
      using assms(2) d(2) by (rule hook_okE)
    then show ?thesis
      using o None base_state_result [OF e(2), of q StError] base_state_result [OF e(2), of q StActive]
      by (cases "q = None"; cases "hk_open_policy hk") auto
  qed
qed

lemma bit_dcaps:
  "bit DCAPS_PROCESS n \<longleftrightarrow> n = 4" "bit DCAPS_SUSPEND n \<longleftrightarrow> n = 6" "bit DCAPS_SUSPEND_PERMANENT n \<longleftrightarrow> n = 7"
  "bit DCAPS_PROCESS_MASK n \<longleftrightarrow> n = 4 \<or> n = 6"
proof -
  have d: "DCAPS_PROCESS = push_bit 4 1" "DCAPS_SUSPEND = push_bit 6 1" "DCAPS_SUSPEND_PERMANENT = push_bit 7 1"
    by (simp_all add: dcaps_defs)
  have p: "bit (push_bit k 1 :: u32) n \<longleftrightarrow> n = k" if "k < 32" for k
    using that by (auto simp: bit_simps)
  show 1: "bit DCAPS_PROCESS n \<longleftrightarrow> n = 4" and 2: "bit DCAPS_SUSPEND n \<longleftrightarrow> n = 6"
    and "bit DCAPS_SUSPEND_PERMANENT n \<longleftrightarrow> n = 7" unfolding d by (rule p, simp)+
  show "bit DCAPS_PROCESS_MASK n \<longleftrightarrow> n = 4 \<or> n = 6"
    by (simp only: DCAPS_PROCESS_MASK_def bit_or_iff 1 2)
qed

lemma suspended_iff: "d AND DCAPS_SUSPEND \<noteq> 0 \<longleftrightarrow> bit d 6"
  and permanent_iff: "d AND DCAPS_SUSPEND_PERMANENT \<noteq> 0 \<longleftrightarrow> bit d 7"
  by (auto simp: bit_eq_iff [where b = 0] bit_and_iff bit_dcaps)

lemma need_process_iff: "need_process d \<longleftrightarrow> bit d 4 \<and> \<not> bit d 6"
proof
  assume "need_process d"
  then have e: "bit (d AND DCAPS_PROCESS_MASK) n = bit DCAPS_PROCESS n" for n by (simp add: need_process_def)
  show "bit d 4 \<and> \<not> bit d 6" using e [of 4] e [of 6] by (simp add: bit_and_iff bit_dcaps)
next
  assume "bit d 4 \<and> \<not> bit d 6"
  then show "need_process d"
    unfolding need_process_def by (intro bit_word_eqI) (auto simp: bit_and_iff bit_dcaps)
qed

lemma suspend_undo:
  assumes "\<not> bit d 6"
  shows "(d OR DCAPS_SUSPEND) AND NOT DCAPS_SUSPEND = d"
  by (rule bit_word_eqI) (use assms in \<open>auto simp: bit_and_iff bit_or_iff bit_not_iff bit_dcaps\<close>)

lemma suspend_nonzero: "DCAPS_SUSPEND \<noteq> 0"
  by (simp add: DCAPS_SUSPEND_def)

section \<open>Suspending a tree\<close>

text \<open>What the walks do to the dynamic caps alone.\<close>

fun tree_all :: "(chan_internal \<Rightarrow> bool) \<Rightarrow> ctree \<Rightarrow> bool" where
  "tree_all P (CNode c ks) \<longleftrightarrow> P c \<and> list_all (tree_all P) ks"

datatype dtree = DNode u32 "dtree list"

fun tree_dcaps :: "ctree \<Rightarrow> dtree" where
  "tree_dcaps (CNode c ks) = DNode (in_dcaps c) (map tree_dcaps ks)"

fun dtree_all :: "(u32 \<Rightarrow> bool) \<Rightarrow> dtree \<Rightarrow> bool" where
  "dtree_all P (DNode d ks) \<longleftrightarrow> P d \<and> list_all (dtree_all P) ks"

fun dtree_suspend :: "dtree \<Rightarrow> dtree" where
  "dtree_suspend (DNode d ks) = (if bit d 6 then DNode d ks else DNode (d OR DCAPS_SUSPEND) (map dtree_suspend ks))"

fun dtree_resume :: "dtree \<Rightarrow> dtree" where
  "dtree_resume (DNode d ks) =
     (if bit d 7 \<or> \<not> bit d 6 then DNode d ks else DNode (d AND NOT DCAPS_SUSPEND) (map dtree_resume ks))"

lemma those_map_some:
  "(\<And>x. x \<in> set xs \<Longrightarrow> \<exists>y. f x = Some y \<and> Q y \<and> g y = h x) \<Longrightarrow>
     \<exists>ys. those (map f xs) = Some ys \<and> list_all Q ys \<and> map g ys = map h xs"
proof (induction xs)
  case (Cons x xs)
  obtain y where "f x = Some y" "Q y" "g y = h x" using Cons.prems [of x] by auto
  moreover obtain ys where "those (map f xs) = Some ys" "list_all Q ys" "map g ys = map h xs" using Cons by auto
  ultimately show ?case by simp
qed simp

text \<open>One step of a walk at a node with well-formed callback lists.\<close>

lemma tree_announce:
  assumes "internal_ok c"
  shows "\<exists>c'. channel_callback (c\<lparr>in_dcaps := d\<rparr>) (update_message old) = Some c' \<and> internal_ok c' \<and> in_dcaps c' = d"
proof -
  have "internal_ok (c\<lparr>in_dcaps := d\<rparr>)" using assms by (simp add: internal_ok_def)
  from channel_callback_some [OF this, of "update_message old"] show ?thesis
    using \<open>internal_ok (c\<lparr>in_dcaps := d\<rparr>)\<close> by (auto simp: update_message_def)
qed

lemma tree_suspend_refines:
  "tree_all internal_ok t \<Longrightarrow>
     \<exists>t'. tree_suspend t = Some t' \<and> tree_all internal_ok t' \<and> tree_dcaps t' = dtree_suspend (tree_dcaps t)"
proof (induction t)
  case (CNode c ks)
  show ?case
  proof (cases "bit (in_dcaps c) 6")
    case False
    then have z: "in_dcaps c AND DCAPS_SUSPEND = 0" using suspended_iff by blast
    obtain c' where c': "channel_callback (c\<lparr>in_dcaps := in_dcaps c OR DCAPS_SUSPEND\<rparr>) (update_message (in_dcaps c)) = Some c'"
      "internal_ok c'" "in_dcaps c' = in_dcaps c OR DCAPS_SUSPEND"
      using tree_announce [of c "in_dcaps c OR DCAPS_SUSPEND" "in_dcaps c"] CNode.prems by auto
    have "\<exists>ys. those (map tree_suspend ks) = Some ys \<and> list_all (tree_all internal_ok) ys \<and>
        map tree_dcaps ys = map (\<lambda>x. dtree_suspend (tree_dcaps x)) ks"
      using CNode by (intro those_map_some) (simp add: list_all_iff)
    then show ?thesis using c' z False by (auto simp: Let_def)
  qed (use CNode.prems in \<open>simp add: suspended_iff\<close>)
qed

lemma tree_resume_refines:
  "tree_all internal_ok t \<Longrightarrow>
     \<exists>t'. tree_resume t = Some t' \<and> tree_all internal_ok t' \<and> tree_dcaps t' = dtree_resume (tree_dcaps t)"
proof (induction t)
  case (CNode c ks)
  show ?case
  proof (cases "bit (in_dcaps c) 7 \<or> \<not> bit (in_dcaps c) 6")
    case False
    then have z: "in_dcaps c AND DCAPS_SUSPEND \<noteq> 0" "in_dcaps c AND DCAPS_SUSPEND_PERMANENT = 0"
      using suspended_iff permanent_iff by blast+
    obtain c' where c': "channel_callback (c\<lparr>in_dcaps := in_dcaps c AND NOT DCAPS_SUSPEND\<rparr>) (update_message (in_dcaps c)) = Some c'"
      "internal_ok c'" "in_dcaps c' = in_dcaps c AND NOT DCAPS_SUSPEND"
      using tree_announce [of c "in_dcaps c AND NOT DCAPS_SUSPEND" "in_dcaps c"] CNode.prems by auto
    have "\<exists>ys. those (map tree_resume ks) = Some ys \<and> list_all (tree_all internal_ok) ys \<and>
        map tree_dcaps ys = map (\<lambda>x. dtree_resume (tree_dcaps x)) ks"
      using CNode by (intro those_map_some) (simp add: list_all_iff)
    then show ?thesis using c' z False by (auto simp: Let_def)
  next
    case True
    then show ?thesis using CNode.prems suspended_iff permanent_iff by (cases "bit (in_dcaps c) 7") (auto simp: Let_def)
  qed
qed

text \<open>A tree at rest: a suspended channel is one that was suspended itself, with everything below it, and
  no other channel carries a suspend flag.\<close>

fun suspend_rest :: "dtree \<Rightarrow> bool" where
  "suspend_rest (DNode d ks) \<longleftrightarrow>
     (if bit d 6 then bit d 7 \<and> list_all (dtree_all (\<lambda>d. bit d 6)) ks else \<not> bit d 7 \<and> list_all suspend_rest ks)"

lemma dtree_suspend_all: "suspend_rest t \<Longrightarrow> dtree_all (\<lambda>d. bit d 6) (dtree_suspend t)"
  by (induction t) (auto simp: list_all_iff bit_or_iff bit_dcaps split: if_splits)

lemma dtree_resume_undo: "suspend_rest t \<Longrightarrow> dtree_resume (dtree_suspend t) = t"
  by (induction t) (auto simp: list_all_iff suspend_undo bit_or_iff bit_dcaps split: if_splits intro!: map_idI)

lemma dtree_suspend_root: "\<not> bit d 6 \<Longrightarrow> dtree_suspend (DNode (d OR DCAPS_SUSPEND_PERMANENT) ks) =
    DNode ((d OR DCAPS_SUSPEND) OR DCAPS_SUSPEND_PERMANENT) (map dtree_suspend ks)"
  by (simp add: bit_or_iff bit_dcaps or.assoc or.left_commute or.commute)

lemma permanent_undo:
  assumes "\<not> bit d 7"
  shows "(d OR DCAPS_SUSPEND_PERMANENT) AND NOT DCAPS_SUSPEND_PERMANENT = d"
  by (rule bit_word_eqI) (use assms in \<open>auto simp: bit_and_iff bit_or_iff bit_not_iff bit_dcaps\<close>)

lemma dtree_all_mono: "dtree_all P t \<Longrightarrow> (\<And>d. P d \<Longrightarrow> Q d) \<Longrightarrow> dtree_all Q t"
  by (induction t) (auto simp: list_all_iff)

lemma dtree_all_tree: "dtree_all P (tree_dcaps t) \<longleftrightarrow> tree_all (\<lambda>c. P (in_dcaps c)) t"
  by (induction t) (auto simp: list_all_iff)


section \<open>Properties of a channel\<close>

text \<open>C27: suspending a channel succeeds and leaves no channel of its tree that wants to be processed; resuming
  it gives every channel of the tree back the dynamic caps it had. Channels below that had been suspended on
  their own stay suspended.\<close>

theorem suspend_resume:
  assumes "tree_all internal_ok t" and "suspend_rest (tree_dcaps t)" and "\<not> bit (in_dcaps (ct_in t)) 6"
  shows "\<exists>t' t''. channel_suspend t = Some t' \<and> tree_all (\<lambda>c. \<not> need_process (in_dcaps c)) t' \<and>
           channel_resume t' = Some t'' \<and> tree_dcaps t'' = tree_dcaps t"
proof -
  obtain c ks where t: "t = CNode c ks" by (cases t)
  define d where "d = in_dcaps c"
  have d: "\<not> bit d 6" "\<not> bit d 7" "list_all suspend_rest (map tree_dcaps ks)"
    using assms(2,3) t d_def by (auto split: if_splits)
  let ?r = "CNode (c\<lparr>in_dcaps := d OR DCAPS_SUSPEND_PERMANENT\<rparr>) ks"
  have "tree_all internal_ok ?r" using assms(1) t by (simp add: internal_ok_def)
  then obtain t' where t': "channel_suspend t = Some t'" "tree_all internal_ok t'" "tree_dcaps t' = dtree_suspend (tree_dcaps ?r)"
    using tree_suspend_refines [of ?r] t d_def by (auto simp: channel_suspend_def)
  have dt: "tree_dcaps t' = DNode ((d OR DCAPS_SUSPEND) OR DCAPS_SUSPEND_PERMANENT) (map dtree_suspend (map tree_dcaps ks))"
    using t'(3) dtree_suspend_root [OF d(1)] by simp
  then have "dtree_all (\<lambda>d. bit d 6) (tree_dcaps t')"
    using d(3) dtree_suspend_all by (auto simp: list_all_iff bit_or_iff bit_dcaps)
  then have "dtree_all (\<lambda>d. \<not> need_process d) (tree_dcaps t')"
    by (rule dtree_all_mono) (simp add: need_process_iff)
  then have np: "tree_all (\<lambda>c. \<not> need_process (in_dcaps c)) t'" by (simp add: dtree_all_tree)
  obtain c' ks' where s: "t' = CNode c' ks'" by (cases t')
  let ?q = "CNode (c'\<lparr>in_dcaps := in_dcaps c' AND NOT DCAPS_SUSPEND_PERMANENT\<rparr>) ks'"
  have "tree_all internal_ok ?q" using t'(2) s by (simp add: internal_ok_def)
  then obtain t'' where t'': "channel_resume t' = Some t''" "tree_dcaps t'' = dtree_resume (tree_dcaps ?q)"
    using tree_resume_refines [of ?q] s by (auto simp: channel_resume_def)
  have "\<not> bit (d OR DCAPS_SUSPEND) 7" using d by (simp add: bit_or_iff bit_dcaps)
  from permanent_undo [OF this]
  have "tree_dcaps ?q = dtree_suspend (tree_dcaps t)" using dt s t d d_def by simp
  then have "tree_dcaps t'' = tree_dcaps t" using t''(2) dtree_resume_undo [OF assms(2)] by simp
  then show ?thesis using t' np t'' by blast
qed


text \<open>Two channels under a parent, the second suspended on its own.\<close>

theorem suspend_resume_witness:
  "let t = CNode (internal_init\<lparr>in_dcaps := 0x10\<rparr>)
             [CNode (internal_init\<lparr>in_dcaps := 0x31\<rparr>) [], CNode (internal_init\<lparr>in_dcaps := 0xd0\<rparr>) []]
   in \<exists>t' t''. channel_suspend t = Some t' \<and> tree_all (\<lambda>c. \<not> need_process (in_dcaps c)) t' \<and>
        channel_resume t' = Some t'' \<and> tree_dcaps t'' = tree_dcaps t"
  unfolding Let_def by (rule suspend_resume) (simp_all add: internal_ok_def cbs_ok_def internal_init_def bit_numeral_simps)

text \<open>C14: closing a channel that is not closed, by force or without a long close, ends in state Closed whatever
  \<open>_close\<close> did or returned: nothing of the run caps is left, the children are closed, and the closed channel
  is neither processed nor takes posts.\<close>

theorem channel_close_final:
  assumes "internal_ok (ch_in c)" and "\<And>b. hook_ok (hk_close hk b)"
    and "ch_state c \<noteq> StClosed" and "ch_state c \<noteq> StDestroy"
    and "force \<or> hk_close_policy hk = CloseNormal \<and> ch_state c \<noteq> StClosing"
  shows "\<exists>c'. channel_close hk force c = Some (c', None) \<and> ch_state c' = StClosed \<and>
           ch_dcaps c' AND (DCAPS_PROCESS OR DCAPS_PENDING OR DCAPS_POLLMASK) = 0 \<and>
           (\<forall>k \<in> set (in_children (ch_in c')). ch_kids c' k = StClosed \<or> ch_kids c' k = StDestroy) \<and>
           (\<forall>fl. channel_process hk fl c' = Some (c', Some EAGAIN)) \<and>
           (\<forall>m fl. channel_post hk m fl c' = Some (c', Some EINVAL))"
proof -
  have "channel_close hk force c = base_close hk force c"
    using assms(3-5) by (cases "ch_state c") (auto simp: channel_close_def)
  moreover obtain c' where c': "base_close hk force c = Some (c', None)" "ch_state c' = StClosed" "ch_dcaps c' AND DCAPS_RUN = 0"
    "\<forall>k \<in> set (in_children (ch_in c')). ch_kids c' k = StClosed \<or> ch_kids c' k = StDestroy"
    using base_close_ok [OF assms(1,2), of force] assms(5) by blast
  ultimately show ?thesis
    using dcaps_run_need [OF c'(3)]
    by (intro exI [of _ c']) (simp add: channel_process_def channel_post_def base_post_def DCAPS_RUN_def)
qed

abbreviation idle_hooks :: "unit hooks" where
  "idle_hooks \<equiv> \<lparr>hk_process_policy = ProcessNormal, hk_flags_policy = FlagsNormal, hk_open_policy = OpenAuto,
     hk_close_policy = CloseNormal, hk_post_opening = PostDisable, hk_post_closing = PostDisable,
     hk_scheme_policy = SchemeNormal, hk_open = (\<lambda>c. Some (c, None)), hk_close = (\<lambda>f c. Some (c, Some EINVAL)),
     hk_process = (\<lambda>fl c. Some (c, Some EINVAL)), hk_post = (\<lambda>m fl c. Some (c, None)), hk_free = (\<lambda>c. c)\<rparr>"

abbreviation plain_chan :: "tll_state \<Rightarrow> unit chan" where
  "plain_chan s \<equiv> \<lparr>ch_in = internal_init\<lparr>in_state := s, in_dcaps := 0x11, in_children := [7]\<rparr>, ch_scheme = None,
     ch_scheme_control = None, ch_scheme_url = None, ch_scheme_tags = [], ch_export = [],
     ch_kids = (\<lambda>k. StActive), ch_user = ()\<rparr>"

theorem channel_close_final_witness:
  "\<exists>c'. channel_close idle_hooks False (plain_chan StActive) = Some (c', None) \<and> ch_state c' = StClosed \<and>
     ch_dcaps c' AND (DCAPS_PROCESS OR DCAPS_PENDING OR DCAPS_POLLMASK) = 0 \<and>
     (\<forall>k \<in> set (in_children (ch_in c')). ch_kids c' k = StClosed \<or> ch_kids c' k = StDestroy) \<and>
     (\<forall>fl. channel_process idle_hooks fl c' = Some (c', Some EAGAIN)) \<and>
     (\<forall>m fl. channel_post idle_hooks m fl c' = Some (c', Some EINVAL))"
  by (rule channel_close_final) (simp_all add: internal_ok_def cbs_ok_def internal_init_def hook_ok_def)

text \<open>C29: opening a channel is refused with no effect unless it is closed; otherwise it returns, and a failure of
  the scheme or of \<open>_open\<close> leaves it in state Error, a success of an automatic class in state Active.\<close>

theorem channel_open_outcome:
  assumes "internal_ok (ch_in c)" and "hook_ok (hk_open hk)"
  shows "\<exists>c' r. channel_open hk ld c = Some (c', r) \<and> internal_ok (ch_in c') \<and>
           (if ch_state c \<noteq> StClosed then c' = c \<and> r = Some EINVAL
            else if r \<noteq> None then ch_state c' = StError
            else hk_open_policy hk = OpenAuto \<longrightarrow> ch_state c' = StActive)"
proof (cases "ch_state c = StClosed")
  case True
  then show ?thesis using base_open_ok [OF assms, of ld] by (auto simp: channel_open_def)
qed (use assms in \<open>simp add: channel_open_def\<close>)

theorem channel_open_outcome_witness:
  "\<exists>c' r. channel_open idle_hooks (\<lambda>u. None) (plain_chan StClosed) = Some (c', r) \<and> internal_ok (ch_in c') \<and>
     (if ch_state (plain_chan StClosed) \<noteq> StClosed then c' = plain_chan StClosed \<and> r = Some EINVAL
      else if r \<noteq> None then ch_state c' = StError
      else hk_open_policy idle_hooks = OpenAuto \<longrightarrow> ch_state c' = StActive)"
  by (rule channel_open_outcome) (simp_all add: internal_ok_def cbs_ok_def internal_init_def hook_ok_def)

text \<open>C28: a channel whose \<open>_process\<close> fails with anything but EAGAIN goes to state Error and is quiet from then on:
  processing it does nothing more, posts are refused, and data and control messages reach nobody.\<close>

theorem channel_error_quiet:
  assumes "channel_process hk fl c = Some (c', Some e)" and "e \<noteq> EAGAIN" and "internal_ok (ch_in c)"
    and "\<And>fl. hook_ok (hk_process hk fl)"
  shows "ch_state c' = StError \<and>
         (\<forall>fl. \<exists>r. channel_process hk fl c' = Some (c', r) \<and> (r = None \<or> r = Some EAGAIN)) \<and>
         (\<forall>m fl. channel_post hk m fl c' = Some (c', Some EINVAL)) \<and>
         (\<forall>m. m_type m = MsgData \<or> m_type m = MsgControl \<longrightarrow> base_callback c' m = Some c')"
proof -
  have np: "need_process (ch_dcaps c)" using assms(1,2) by (auto simp: channel_process_def split: if_splits)
  have s: "ch_state c \<noteq> StError" "ch_state c \<noteq> StClosed" using assms(1) np by (auto simp: channel_process_def base_process_def)
  define g where "g = (if hk_flags_policy hk = FlagsPollHint \<and> fl AND PROCESS_HINT_MASK = 0 then fl OR PROCESS_HINT_MASK else fl)"
  obtain d r where d: "hk_process hk g c = Some (d, r)" "internal_ok (ch_in d)"
    using hook_okE [OF assms(4,3)] by blast
  have "channel_process hk fl c = (if r \<noteq> None \<and> r \<noteq> Some EAGAIN then map_option (\<lambda>c. (c, r)) (base_state d StError) else Some (d, r))"
    using np s d(1) by (simp add: channel_process_def base_process_def g_def [symmetric] Let_def)
  then have "ch_state c' = StError"
    using assms(1,2) base_state_ok [OF d(2), of StError] by (auto split: if_splits)
  then show ?thesis
    by (auto simp: channel_process_def base_process_def channel_post_def base_post_def base_callback_def
        channel_callback_def callback_data_def)
qed

theorem channel_error_quiet_witness:
  "\<exists>c'. channel_process idle_hooks 0 (plain_chan StActive) = Some (c', Some EINVAL) \<and> ch_state c' = StError \<and>
         (\<forall>fl. \<exists>r. channel_process idle_hooks fl c' = Some (c', r) \<and> (r = None \<or> r = Some EAGAIN)) \<and>
         (\<forall>m fl. channel_post idle_hooks m fl c' = Some (c', Some EINVAL)) \<and>
         (\<forall>m. m_type m = MsgData \<or> m_type m = MsgControl \<longrightarrow> base_callback c' m = Some c')"
proof -
  have "need_process 0x11" unfolding need_process_iff by (simp add: bit_numeral_simps)
  then obtain c' where "channel_process idle_hooks 0 (plain_chan StActive) = Some (c', Some EINVAL)"
    by (simp add: channel_process_def base_process_def internal_init_def base_state_def set_state_def channel_callback_def msg_empty_def)
  from this channel_error_quiet [OF this] show ?thesis
    by (intro exI [of _ c']) (simp add: internal_ok_def cbs_ok_def internal_init_def hook_ok_def)
qed

section \<open>Registered callbacks\<close>

text \<open>The mask a pair is registered with, over both lists; data callbacks and the others are kept apart.\<close>

definition registered :: "chan_internal \<Rightarrow> nat \<Rightarrow> nat \<Rightarrow> u32" where
  "registered c f u = cb_lookup (in_data_cb c) f u OR cb_lookup (in_cb c) f u"

definition registry_ok :: "chan_internal \<Rightarrow> bool" where
  "registry_ok c \<longleftrightarrow> internal_ok c \<and> (\<forall>f u. cb_lookup (in_data_cb c) f u AND NOT (message_mask MsgData) = 0) \<and>
     (\<forall>f u. cb_lookup (in_cb c) f u AND message_mask MsgData = 0)"

lemma bit_message_mask [simp]: "bit (message_mask t) n \<longleftrightarrow> n = type_num t"
proof -
  have "type_num t < 32" by (cases t) simp_all
  then show ?thesis by (auto simp: message_mask_def bit_simps)
qed

lemma u32_zero_iff: "m = 0 \<longleftrightarrow> (\<forall>n. \<not> bit (m :: u32) n)"
  by (auto intro: bit_word_eqI)

lemma and_message_mask: "(m :: u32) AND message_mask t \<noteq> 0 \<longleftrightarrow> bit m (type_num t)"
  unfolding u32_zero_iff by (simp add: bit_and_iff)

lemma and_not_data: "(m :: u32) AND NOT (message_mask MsgData) = 0 \<longleftrightarrow> (\<forall>n. bit m n \<longrightarrow> n = 0)"
  unfolding u32_zero_iff by (simp add: bit_and_iff bit_not_iff) (use bit_imp_le_length [of m] in auto)

lemma and_data: "(m :: u32) AND message_mask MsgData = 0 \<longleftrightarrow> \<not> bit m 0"
  using and_message_mask [of m MsgData] by simp blast

lemma mask_data: "msk AND message_mask MsgData \<noteq> 0 \<Longrightarrow> msk AND message_mask MsgData = message_mask MsgData"
  and mask_rest: "msk AND message_mask MsgData \<noteq> 0 \<Longrightarrow> msk XOR message_mask MsgData = msk AND NOT (message_mask MsgData)"
  and mask_other: "msk AND message_mask MsgData = 0 \<Longrightarrow> msk AND NOT (message_mask MsgData) = msk"
  unfolding and_message_mask and_data
  by (rule bit_word_eqI; simp only: bit_and_iff bit_xor_iff bit_not_iff bit_message_mask type_num.simps; auto intro: gr0I)+

lemma registry_ok_bits: "registry_ok c \<longleftrightarrow> internal_ok c \<and> (\<forall>f u n. bit (cb_lookup (in_data_cb c) f u) n \<longrightarrow> n = 0) \<and>
    (\<forall>f u. \<not> bit (cb_lookup (in_cb c) f u) 0)"
  by (simp add: registry_ok_def and_not_data and_data)

text \<open>The lists after a registration and after a removal, by lookup: the data bit goes to the one list, the
  other bits to the other.\<close>

lemma registry_add:
  assumes "internal_ok c"
  shows "internal_ok (channel_callback_add c f u msk)"
    and "cb_lookup (in_data_cb (channel_callback_add c f u msk)) g v =
           cb_lookup (in_data_cb c) g v OR (if g = f \<and> v = u then msk AND message_mask MsgData else 0)"
    and "cb_lookup (in_cb (channel_callback_add c f u msk)) g v =
           cb_lookup (in_cb c) g v OR (if g = f \<and> v = u then msk AND NOT (message_mask MsgData) else 0)"
proof -
  define p where "p m = \<lparr>cb_fn = Some f, cb_user = u, cb_mask = m\<rparr>" for m :: u32
  have p: "cb_fn (p m) = Some f" "cb_user (p m) = u" "cb_mask (p m) = m" for m by (simp_all add: p_def)
  have c: "cbs_ok (in_cb c)" "cbs_ok (in_data_cb c)" using assms by (simp_all add: internal_ok_def)
  note a = callback_add_ok [OF c(1) p(1), unfolded p] callback_add_ok [OF c(2) p(1), unfolded p]
  define D where "D = msk AND message_mask MsgData"
  define R where "R = msk AND NOT (message_mask MsgData)"
  have m: "D \<noteq> 0 \<Longrightarrow> D = message_mask MsgData" "D \<noteq> 0 \<Longrightarrow> msk XOR message_mask MsgData = R" "D = 0 \<Longrightarrow> R = msk"
    unfolding D_def R_def by (fact mask_data mask_rest mask_other)+
  note def = channel_callback_add_def [of c f u msk, folded p_def]
  show "internal_ok (channel_callback_add c f u msk)"
    unfolding def using a c by (simp add: internal_ok_def Let_def)
  show "cb_lookup (in_data_cb (channel_callback_add c f u msk)) g v =
           cb_lookup (in_data_cb c) g v OR (if g = f \<and> v = u then msk AND message_mask MsgData else 0)"
    unfolding def D_def [symmetric] using a m(1) by (auto simp: Let_def)
  show "cb_lookup (in_cb (channel_callback_add c f u msk)) g v =
           cb_lookup (in_cb c) g v OR (if g = f \<and> v = u then msk AND NOT (message_mask MsgData) else 0)"
    unfolding def D_def [symmetric] R_def [symmetric] using a m(2,3) by (auto simp: Let_def)
qed

lemma registry_del:
  assumes "internal_ok c"
  shows "internal_ok (fst (channel_callback_del c f u msk))"
    and "cb_lookup (in_data_cb (fst (channel_callback_del c f u msk))) g v =
           cb_lookup (in_data_cb c) g v AND NOT (if g = f \<and> v = u then msk AND message_mask MsgData else 0)"
    and "cb_lookup (in_cb (fst (channel_callback_del c f u msk))) g v =
           cb_lookup (in_cb c) g v AND NOT (if g = f \<and> v = u then msk AND NOT (message_mask MsgData) else 0)"
proof -
  define p where "p m = \<lparr>cb_fn = Some f, cb_user = u, cb_mask = m\<rparr>" for m :: u32
  have p: "cb_fn (p m) = Some f" "cb_user (p m) = u" "cb_mask (p m) = m" for m by (simp_all add: p_def)
  have c: "cbs_ok (in_cb c)" "cbs_ok (in_data_cb c)" using assms by (simp_all add: internal_ok_def)
  note a = callback_del_ok [OF c(1) p(1), unfolded p] callback_del_ok [OF c(2) p(1), unfolded p]
  define D where "D = msk AND message_mask MsgData"
  define R where "R = msk AND NOT (message_mask MsgData)"
  have m: "D \<noteq> 0 \<Longrightarrow> D = message_mask MsgData" "D \<noteq> 0 \<Longrightarrow> msk XOR message_mask MsgData = R" "D = 0 \<Longrightarrow> R = msk"
    unfolding D_def R_def by (fact mask_data mask_rest mask_other)+
  note def = channel_callback_del_def [of c f u msk, folded p_def]
  show "internal_ok (fst (channel_callback_del c f u msk))"
    unfolding def using a c by (simp add: internal_ok_def Let_def split_beta)
  show "cb_lookup (in_data_cb (fst (channel_callback_del c f u msk))) g v =
           cb_lookup (in_data_cb c) g v AND NOT (if g = f \<and> v = u then msk AND message_mask MsgData else 0)"
    unfolding def D_def [symmetric] using a m(1) by (auto simp: Let_def split_beta)
  show "cb_lookup (in_cb (fst (channel_callback_del c f u msk))) g v =
           cb_lookup (in_cb c) g v AND NOT (if g = f \<and> v = u then msk AND NOT (message_mask MsgData) else 0)"
    unfolding def D_def [symmetric] R_def [symmetric] using a m(2,3) by (auto simp: Let_def split_beta)
qed



text \<open>With two data callbacks registered, removing the first succeeds and leaves a null entry in the data list,
  through which the next data message calls; removing a data callback that was never registered reports
  success.\<close>

theorem data_callback_null:
  "let c = channel_callback_add (channel_callback_add internal_init 1 0 (message_mask MsgData)) 2 0 (message_mask MsgData);
       (d, r) = channel_callback_del c 1 0 (message_mask MsgData)
   in r = None \<and> callback_data c m \<noteq> None \<and> callback_data d m = None \<and>
      channel_callback_del c 3 0 (message_mask MsgData) = (c, None)"
  by (simp add: channel_callback_add_def channel_callback_del_def callback_add_def callback_del_def internal_init_def
      message_mask_def callback_data_def callback_shrink.simps)

end
