(* ===== verification/Loop.thy ===== *)
theory Loop
  imports PointerList Channel "HOL-Library.Multiset"
begin

text \<open>
  The processing loop of \<open>src/tll/processor/loop.h\<close>: the lists of channels it iterates over, the interest set
  of the poller (\<open>EPoll\<close>), the handlers of channel messages and one step of the loop. Channels are numbers; what
  the loop asks of a channel (descriptor, dynamic caps, children) comes with the call. The interest set of
  epoll is a map from descriptors, changed as \<open>epoll_ctl\<close> documents: adding a present descriptor, and changing
  or deleting an absent one, fails without effect. What \<open>epoll_wait\<close> reports is an argument of a step.
\<close>

section \<open>The poller\<close>

definition EPOLLIN :: u32 where "EPOLLIN = 0x1"
definition EPOLLOUT :: u32 where "EPOLLOUT = 0x4"
definition PROCESS_READ :: u32 where "PROCESS_READ = 0x1"
definition PROCESS_WRITE :: u32 where "PROCESS_WRITE = 0x2"
definition PROCESS_PENDING :: u32 where "PROCESS_PENDING = 0x4"

text \<open>The pointer stored with a descriptor: the address of one of the two service descriptors, or a channel.\<close>

datatype ep_ptr = EpPending | EpNofd | EpChan nat

datatype ep_op = CtlAdd | CtlMod | CtlDel

text \<open>\<open>ep_ticks\<close>: expirations of the timer that were not read yet.\<close>

record epoll =
  ep_map :: "int \<rightharpoonup> ep_ptr \<times> u32"
  ep_fd_pending :: int
  ep_fd_nofd :: int
  ep_ticks :: nat

definition epoll_ctl :: "epoll \<Rightarrow> ep_op \<Rightarrow> int \<Rightarrow> ep_ptr \<Rightarrow> u32 \<Rightarrow> epoll" where
  "epoll_ctl e opr fd p ev =
     (case opr of
        CtlAdd \<Rightarrow> if ep_map e fd = None then e\<lparr>ep_map := (ep_map e)(fd \<mapsto> (p, ev))\<rparr> else e
      | CtlMod \<Rightarrow> if ep_map e fd = None then e else e\<lparr>ep_map := (ep_map e)(fd \<mapsto> (p, ev))\<rparr>
      | CtlDel \<Rightarrow> e\<lparr>ep_map := (ep_map e)(fd := None)\<rparr>)"

text \<open>\<open>init\<close>, with the descriptors the system returned.\<close>

definition epoll_init :: "int \<Rightarrow> int \<Rightarrow> epoll" where
  "epoll_init pfd nfd =
     (let e = \<lparr>ep_map = Map.empty, ep_fd_pending = pfd, ep_fd_nofd = nfd, ep_ticks = 0\<rparr>
      in epoll_ctl (epoll_ctl e CtlAdd pfd EpPending 0) CtlAdd nfd EpNofd 0)"

definition pending_enable :: "epoll \<Rightarrow> epoll" where
  "pending_enable e = epoll_ctl e CtlMod (ep_fd_pending e) EpPending EPOLLIN"

definition pending_disable :: "epoll \<Rightarrow> epoll" where
  "pending_disable e = epoll_ctl e CtlMod (ep_fd_pending e) EpPending 0"

definition nofd_enable :: "epoll \<Rightarrow> epoll" where
  "nofd_enable e = epoll_ctl e CtlMod (ep_fd_nofd e) EpNofd EPOLLIN"

definition nofd_disable :: "epoll \<Rightarrow> epoll" where
  "nofd_disable e = epoll_ctl e CtlMod (ep_fd_nofd e) EpNofd 0"

definition nofd_flush :: "epoll \<Rightarrow> epoll" where
  "nofd_flush e = e\<lparr>ep_ticks := 0\<rparr>"

definition caps2events :: "u32 \<Rightarrow> u32" where
  "caps2events caps =
     (if caps AND DCAPS_SUSPEND \<noteq> 0 then 0
      else (if caps AND DCAPS_POLLIN \<noteq> 0 then EPOLLIN else 0) OR (if caps AND DCAPS_POLLOUT \<noteq> 0 then EPOLLOUT else 0))"

definition poll_add :: "epoll \<Rightarrow> int \<Rightarrow> nat \<Rightarrow> u32 \<Rightarrow> epoll" where
  "poll_add e cfd c caps = epoll_ctl e CtlAdd cfd (EpChan c) (caps2events caps)"

definition poll_update :: "epoll \<Rightarrow> int \<Rightarrow> nat \<Rightarrow> u32 \<Rightarrow> epoll" where
  "poll_update e cfd c caps = epoll_ctl e CtlMod cfd (EpChan c) (caps2events caps)"

definition poll_del :: "epoll \<Rightarrow> int \<Rightarrow> epoll" where
  "poll_del e cfd = epoll_ctl e CtlDel cfd (EpChan 0) (caps2events 0)"

text \<open>The result of \<open>epoll_wait\<close> for one event, and \<open>PollResult\<close>.\<close>

datatype wait_result = WaitNone | WaitIntr | WaitFail | WaitEvent ep_ptr u32

datatype poll_result = PollTimeout | PollError | PollPtr ep_ptr u32

fun poll_events :: "wait_result \<Rightarrow> poll_result" where
  "poll_events WaitNone = PollTimeout"
| "poll_events WaitIntr = PollTimeout"
| "poll_events WaitFail = PollError"
| "poll_events (WaitEvent p ev) =
     PollPtr p ((if ev AND EPOLLIN \<noteq> 0 then PROCESS_READ else 0) OR (if ev AND EPOLLOUT \<noteq> 0 then PROCESS_WRITE else 0))"

section \<open>The loop\<close>

text \<open>\<open>lp_cb\<close>: the mask the loop is registered with at each channel. The statistics block, when set, counts steps
  and time spent in poll; \<open>ls_busy\<close> says that its page cannot be acquired.\<close>

record loop_stat =
  ls_step :: i64
  ls_poll :: i64
  ls_busy :: bool

record loop =
  lp_poll_enable :: bool
  lp_ep :: epoll
  lp_stat :: "loop_stat option"
  lp_pending_count :: u32
  lp_pending_steps :: u32
  lp_list :: "nat list"
  lp_process :: plist
  lp_pending :: plist
  lp_nofd :: plist
  lp_stop :: bool
  lp_cb :: "nat \<Rightarrow> u32"

text \<open>\<open>init\<close> after the parameters are read.\<close>

definition loop_init :: "bool \<Rightarrow> u32 \<Rightarrow> int \<Rightarrow> int \<Rightarrow> loop" where
  "loop_init poll steps pfd nfd =
     \<lparr>lp_poll_enable = poll,
      lp_ep = (if poll then epoll_init pfd nfd else \<lparr>ep_map = Map.empty, ep_fd_pending = - 1, ep_fd_nofd = - 1, ep_ticks = 0\<rparr>),
      lp_stat = None, lp_pending_count = 0, lp_pending_steps = (if poll then steps else 0), lp_list = [],
      lp_process = pl_new, lp_pending = pl_new, lp_nofd = pl_new, lp_stop = False, lp_cb = (\<lambda>c. 0)\<rparr>"

definition LOOP_MASK :: u32 where
  "LOOP_MASK = message_mask MsgChannel OR message_mask MsgState"

definition loop_pending :: "loop \<Rightarrow> bool" where
  "loop_pending l \<longleftrightarrow> pl_size (lp_nofd l) + pl_size (lp_pending l) \<noteq> 0"

definition pending_add :: "nat \<Rightarrow> loop \<Rightarrow> loop" where
  "pending_add c l =
     (let was_empty = (pl_size (lp_pending l) = 0);
          l = l\<lparr>lp_pending := pl_add (lp_pending l) c\<rparr>
      in if \<not> was_empty then l
         else if lp_poll_enable l then l\<lparr>lp_ep := pending_enable (lp_ep l)\<rparr> else l)"

definition pending_del :: "nat \<Rightarrow> loop \<Rightarrow> loop" where
  "pending_del c l =
     (let l = l\<lparr>lp_pending := pl_del (lp_pending l) c\<rparr>
      in if pl_size (lp_pending l) \<noteq> 0 then l
         else if lp_poll_enable l then l\<lparr>lp_ep := pending_disable (lp_ep l)\<rparr> else l)"

definition process_add :: "nat \<Rightarrow> int \<Rightarrow> u32 \<Rightarrow> loop \<Rightarrow> loop" where
  "process_add c fd caps l =
     (if \<not> need_process caps then l
      else
        let l = l\<lparr>lp_process := pl_add (lp_process l) c\<rparr>;
            l = (if caps AND DCAPS_PENDING \<noteq> 0 then pending_add c l else l)
        in if fd = - 1
           then (let was_empty = (pl_size (lp_nofd l) = 0);
                     l = l\<lparr>lp_nofd := pl_add (lp_nofd l) c\<rparr>
                 in if \<not> was_empty then l
                    else if lp_poll_enable l then l\<lparr>lp_ep := nofd_enable (lp_ep l)\<rparr> else l)
           else if lp_poll_enable l then l\<lparr>lp_ep := poll_add (lp_ep l) fd c caps\<rparr>
           else l)"

definition process_del :: "nat \<Rightarrow> int \<Rightarrow> loop \<Rightarrow> loop" where
  "process_del c fd l =
     (let l = pending_del c (l\<lparr>lp_process := pl_del (lp_process l) c\<rparr>)
      in if fd = - 1
         then (let l = l\<lparr>lp_nofd := pl_del (lp_nofd l) c\<rparr>
               in if pl_size (lp_nofd l) \<noteq> 0 then l
                  else if lp_poll_enable l then l\<lparr>lp_ep := nofd_disable (lp_ep l)\<rparr> else l)
         else if lp_poll_enable l then l\<lparr>lp_ep := poll_del (lp_ep l) fd\<rparr>
         else l)"

text \<open>A channel with its children, as \<open>add\<close> and \<open>del\<close> walk over them.\<close>

datatype lnode = LNode (ln_id: nat) (ln_fd: int) (ln_dcaps: u32) (ln_kids: "lnode list")

fun loop_add :: "lnode \<Rightarrow> loop \<Rightarrow> loop" where
  "loop_add (LNode c fd caps ks) l =
     fold loop_add ks
       (process_add c fd caps (l\<lparr>lp_cb := (lp_cb l)(c := lp_cb l c OR LOOP_MASK), lp_list := lp_list l @ [c]\<rparr>))"

fun loop_del :: "lnode \<Rightarrow> loop \<Rightarrow> loop" where
  "loop_del (LNode c fd caps ks) l =
     (let l = process_del c fd (fold loop_del ks l)
      in l\<lparr>lp_list := remove1 c (lp_list l), lp_cb := (lp_cb l)(c := lp_cb l c AND NOT LOOP_MASK)\<rparr>)"

definition loop_update :: "nat \<Rightarrow> int \<Rightarrow> u32 \<Rightarrow> u32 \<Rightarrow> loop \<Rightarrow> loop" where
  "loop_update c fd caps old l =
     (let delta = caps XOR old;
          l = (if delta AND DCAPS_PROCESS_MASK \<noteq> 0 \<and> need_process caps \<noteq> need_process old
               then (if need_process caps then process_add c fd caps l else process_del c fd l)
               else l)
      in if \<not> need_process caps then l
         else
           let l = (if delta AND DCAPS_POLLMASK \<noteq> 0 \<and> lp_poll_enable l \<and> fd \<noteq> - 1
                    then l\<lparr>lp_ep := poll_update (lp_ep l) fd c caps\<rparr> else l)
           in if delta AND DCAPS_PENDING \<noteq> 0
              then (if caps AND DCAPS_PENDING \<noteq> 0 then pending_add c l else pending_del c l)
              else l)"

definition loop_update_fd :: "nat \<Rightarrow> int \<Rightarrow> u32 \<Rightarrow> int \<Rightarrow> loop \<Rightarrow> loop" where
  "loop_update_fd c fd caps old l =
     (if need_process caps then process_add c fd caps (process_del c old l) else l)"

text \<open>\<open>callback\<close>: \<open>n\<close> is the channel that sends the message, with its present descriptor, caps and children, and
  \<open>kid\<close> the channel a child message points to.\<close>

definition loop_callback :: "lnode \<Rightarrow> (nat \<Rightarrow> lnode) \<Rightarrow> tll_msg \<Rightarrow> loop \<Rightarrow> loop" where
  "loop_callback n kid m l =
     (if m_type m = MsgState
      then (if m_msgid m = int (state_num StOpening) then process_add (ln_id n) (ln_fd n) (ln_dcaps n) l
            else if m_msgid m = int (state_num StClosed) \<or> m_msgid m = int (state_num StError)
            then process_del (ln_id n) (ln_fd n) l
            else if m_msgid m = int (state_num StDestroy) then loop_del n l
            else l)
      else if m_type m \<noteq> MsgChannel then l
      else (case m_data m of
              BChan k \<Rightarrow> if m_msgid m = CHANNEL_ADD then loop_add (kid k) l
                         else if m_msgid m = CHANNEL_DELETE then loop_del (kid k) l
                         else l
            | BCaps old \<Rightarrow> if m_msgid m = CHANNEL_UPDATE then loop_update (ln_id n) (ln_fd n) (ln_dcaps n) old l else l
            | BFd old \<Rightarrow> if m_msgid m = CHANNEL_UPDATE_FD then loop_update_fd (ln_id n) (ln_fd n) (ln_dcaps n) old l else l
            | BBytes _ \<Rightarrow> l))"

section \<open>One step of the loop\<close>

text \<open>The state a step works on is an extension of \<open>loop\<close>: \<open>pr c flags\<close> is \<open>Channel::process\<close>, which may change
  the loop through the handlers above, and returns an error code. Error code \<open>0\<close> is success.\<close>

definition EAGAIN_num :: u32 where "EAGAIN_num = 11"

partial_function (option) process_from ::
  "(nat \<Rightarrow> u32 \<Rightarrow> 's loop_scheme \<Rightarrow> 's loop_scheme \<times> u32) \<Rightarrow> ('s loop_scheme \<Rightarrow> plist) \<Rightarrow> u32 \<Rightarrow>
   nat \<Rightarrow> u32 \<Rightarrow> 's loop_scheme \<Rightarrow> ('s loop_scheme \<times> u32) option" where
  "process_from pr sel flags i r s =
     (if i < pl_size (sel s)
      then (case pl_list (sel s) ! i of
              None \<Rightarrow> process_from pr sel flags (i + 1) r s
            | Some c \<Rightarrow> (case pr c flags s of
                           (s', e) \<Rightarrow> process_from pr sel flags (i + 1) (r OR (e XOR EAGAIN_num)) s'))
      else Some (s, r))"

definition process_list ::
  "(nat \<Rightarrow> u32 \<Rightarrow> 's loop_scheme \<Rightarrow> 's loop_scheme \<times> u32) \<Rightarrow> ('s loop_scheme \<Rightarrow> plist) \<Rightarrow> u32 \<Rightarrow>
   's loop_scheme \<Rightarrow> ('s loop_scheme \<times> u32) option" where
  "process_list pr sel flags s =
     map_option (\<lambda>(s, r). (s, if r = 0 then EAGAIN_num else 0)) (process_from pr sel flags 0 0 s)"

definition stat_step :: "i64 \<Rightarrow> 's loop_scheme \<Rightarrow> 's loop_scheme" where
  "stat_step dt s =
     (case lp_stat s of
        Some st \<Rightarrow> if ls_busy st then s
                   else s\<lparr>lp_stat := Some (st\<lparr>ls_step := ls_step st + 1, ls_poll := ls_poll st + dt\<rparr>)\<rparr>
      | None \<Rightarrow> s)"

text \<open>\<open>poll<Process>\<close>: \<open>w\<close> is what \<open>epoll_wait\<close> reports and \<open>dt\<close> the time it took. The result is the channel
  that was polled.\<close>

definition loop_poll ::
  "(nat \<Rightarrow> u32 \<Rightarrow> 's loop_scheme \<Rightarrow> 's loop_scheme \<times> u32) \<Rightarrow> bool \<Rightarrow> wait_result \<Rightarrow> i64 \<Rightarrow>
   's loop_scheme \<Rightarrow> ('s loop_scheme \<times> nat option) option" where
  "loop_poll pr proc w dt s =
     (if lp_poll_enable s
      then
        (let has = (lp_pending_steps s \<noteq> 0 \<and> pl_size (lp_pending s) \<noteq> 0) in
         if has \<and> lp_pending_count s < lp_pending_steps s
         then map_option (\<lambda>(s, _). (s, None))
                (process_list pr lp_pending 0 (stat_step 0 (s\<lparr>lp_pending_count := lp_pending_count s + 1\<rparr>)))
         else
           (let s = stat_step dt (if has then s\<lparr>lp_pending_count := 0\<rparr> else s) in
            case poll_events w of
              PollPtr EpPending _ \<Rightarrow> map_option (\<lambda>(s, _). (s, None)) (process_list pr lp_pending PROCESS_PENDING s)
            | PollPtr EpNofd _ \<Rightarrow>
                map_option (\<lambda>(s, _). (s\<lparr>lp_ep := nofd_flush (lp_ep s)\<rparr>, None)) (process_list pr lp_nofd 0 s)
            | PollTimeout \<Rightarrow> Some (s, None)
            | PollError \<Rightarrow> Some (s, None)
            | PollPtr (EpChan c) events \<Rightarrow> Some (if proc then fst (pr c events s) else s, Some c)))
      else
        Option.bind (process_list pr lp_pending 0 (stat_step 0 s)) (\<lambda>(s, _).
          map_option (\<lambda>(s, _). (s, None)) (process_list pr lp_process 0 s)))"

section \<open>The loop as sets of channels\<close>

text \<open>What the lists and the interest set say about channels.\<close>

record lview =
  v_process :: "nat set"
  v_pending :: "nat set"
  v_nofd :: "nat set"
  v_fds :: "int \<rightharpoonup> nat \<times> u32"

definition ep_chans :: "epoll \<Rightarrow> int \<rightharpoonup> nat \<times> u32" where
  "ep_chans e fd = (case ep_map e fd of Some (EpChan c, ev) \<Rightarrow> Some (c, ev) | _ \<Rightarrow> None)"

definition lp_view :: "loop \<Rightarrow> lview" where
  "lp_view l = \<lparr>v_process = set (pl_items (lp_process l)), v_pending = set (pl_items (lp_pending l)),
     v_nofd = set (pl_items (lp_nofd l)), v_fds = ep_chans (lp_ep l)\<rparr>"

text \<open>Every list holds a pointer once; with polling, the two service descriptors are in the interest set, enabled
  exactly when their list is not empty, and every other entry is a channel.\<close>

definition svc_ok :: "epoll \<Rightarrow> bool \<Rightarrow> bool \<Rightarrow> bool" where
  "svc_ok e p n \<longleftrightarrow> ep_fd_pending e \<noteq> ep_fd_nofd e \<and>
     ep_map e (ep_fd_pending e) = Some (EpPending, if p then EPOLLIN else 0) \<and>
     ep_map e (ep_fd_nofd e) = Some (EpNofd, if n then EPOLLIN else 0) \<and>
     (\<forall>fd. fd \<noteq> ep_fd_pending e \<and> fd \<noteq> ep_fd_nofd e \<longrightarrow> ep_chans e fd = None \<longrightarrow> ep_map e fd = None)"

definition lp_ok :: "loop \<Rightarrow> bool" where
  "lp_ok l \<longleftrightarrow> pls.good (lp_process l) \<and> pls.good (lp_pending l) \<and> pls.good (lp_nofd l) \<and>
     (lp_poll_enable l \<longrightarrow> svc_ok (lp_ep l) (pl_items (lp_pending l) \<noteq> []) (pl_items (lp_nofd l) \<noteq> []))"

definition is_svc :: "loop \<Rightarrow> int \<Rightarrow> bool" where
  "is_svc l fd \<longleftrightarrow> lp_poll_enable l \<and> (fd = ep_fd_pending (lp_ep l) \<or> fd = ep_fd_nofd (lp_ep l))"

text \<open>What the operations leave alone.\<close>

definition same_frame :: "loop \<Rightarrow> loop \<Rightarrow> bool" where
  "same_frame l l' \<longleftrightarrow> lp_poll_enable l' = lp_poll_enable l \<and> lp_list l' = lp_list l \<and> lp_cb l' = lp_cb l \<and>
     ep_fd_pending (lp_ep l') = ep_fd_pending (lp_ep l) \<and> ep_fd_nofd (lp_ep l') = ep_fd_nofd (lp_ep l)"

lemma same_frame_refl [simp]: "same_frame l l"
  by (simp add: same_frame_def)

lemma same_frame_trans: "same_frame a b \<Longrightarrow> same_frame b c \<Longrightarrow> same_frame a c"
  by (simp add: same_frame_def)

lemma same_frame_svc: "same_frame l l' \<Longrightarrow> is_svc l' = is_svc l"
  by (simp add: same_frame_def is_svc_def fun_eq_iff)

lemmas ep_ops = epoll_ctl_def pending_enable_def pending_disable_def nofd_enable_def nofd_disable_def
  poll_add_def poll_update_def poll_del_def

lemma svc_ok_switch:
  assumes "svc_ok e p n"
  shows "svc_ok (pending_enable e) True n" and "svc_ok (pending_disable e) False n"
    and "svc_ok (nofd_enable e) p True" and "svc_ok (nofd_disable e) p False"
    and "ep_chans (pending_enable e) = ep_chans e" and "ep_chans (pending_disable e) = ep_chans e"
    and "ep_chans (nofd_enable e) = ep_chans e" and "ep_chans (nofd_disable e) = ep_chans e"
  using assms by (auto simp: svc_ok_def ep_ops ep_chans_def fun_eq_iff)

lemma ep_switch_frame [simp]:
  "ep_fd_pending (epoll_ctl e opr fd p ev) = ep_fd_pending e" "ep_fd_nofd (epoll_ctl e opr fd p ev) = ep_fd_nofd e"
  by (auto simp: epoll_ctl_def split: ep_op.splits)

lemma pl_size_items: "pls.good l \<Longrightarrow> pl_size l = 0 \<longleftrightarrow> pl_items l = []"
  by (simp add: pls.good_def pl_trim_empty)

lemma pl_add_nonempty: "pls.good l \<Longrightarrow> pl_items (pl_add l c) \<noteq> []"
  using pls.set_add [of l c] by auto

lemma pending_add_ok:
  assumes "lp_ok l" and "c \<notin> v_pending (lp_view l)"
  shows "lp_ok (pending_add c l)" and "lp_view (pending_add c l) = (lp_view l)\<lparr>v_pending := insert c (v_pending (lp_view l))\<rparr>"
    and "same_frame l (pending_add c l)" and "pending_add c (pending_add c l) = pending_add c l"
proof -
  have g: "pls.good (lp_pending l)" "c \<notin> set (pl_items (lp_pending l))" using assms by (simp_all add: lp_ok_def lp_view_def)
  note a = pls.good_add [OF g] pls.set_add [OF g(1), of c] pl_add_nonempty [OF g(1), of c] pl_size_items [OF g(1)]
  have ne: "pl_size (pl_add (lp_pending l) c) \<noteq> 0" using pl_size_items [OF a(1)] a(3) by simp
  have again: "pl_add (pl_add (lp_pending l) c) c = pl_add (lp_pending l) c"
    using g pls.add_again [of "lp_pending l" c] by (simp add: pls.good_def)
  show "lp_ok (pending_add c l)" and "lp_view (pending_add c l) = (lp_view l)\<lparr>v_pending := insert c (v_pending (lp_view l))\<rparr>"
    using assms(1) a svc_ok_switch by (auto simp: lp_ok_def lp_view_def pending_add_def Let_def)
  show "same_frame l (pending_add c l)" by (simp add: same_frame_def pending_add_def Let_def ep_ops)
  show "pending_add c (pending_add c l) = pending_add c l"
    using ne again by (simp add: pending_add_def Let_def)
qed

lemma pending_del_ok:
  assumes "lp_ok l"
  shows "lp_ok (pending_del c l)" and "lp_view (pending_del c l) = (lp_view l)\<lparr>v_pending := v_pending (lp_view l) - {c}\<rparr>"
    and "same_frame l (pending_del c l)"
proof -
  have g: "pls.good (lp_pending l)" using assms by (simp add: lp_ok_def)
  note d = pls.good_del [OF g, of c] pls.set_del [OF g, of c] pl_size_items [OF pls.good_del [OF g, of c]]
  have e: "svc_ok e (pl_items (lp_pending l) \<noteq> []) n \<Longrightarrow> pl_items (pl_del (lp_pending l) c) \<noteq> [] \<Longrightarrow> svc_ok e True n" for e n
    using d(2) by (cases "pl_items (lp_pending l)") auto
  show "lp_ok (pending_del c l)" and "lp_view (pending_del c l) = (lp_view l)\<lparr>v_pending := v_pending (lp_view l) - {c}\<rparr>"
    using assms d svc_ok_switch e by (auto simp: lp_ok_def lp_view_def pending_del_def Let_def)
  show "same_frame l (pending_del c l)" by (simp add: same_frame_def pending_del_def Let_def ep_ops)
qed

text \<open>The operations on the view.\<close>

definition v_add :: "bool \<Rightarrow> nat \<Rightarrow> int \<Rightarrow> u32 \<Rightarrow> lview \<Rightarrow> lview" where
  "v_add poll c fd caps v =
     (if \<not> need_process caps then v
      else v\<lparr>v_process := insert c (v_process v),
             v_pending := (if bit caps 5 then insert c (v_pending v) else v_pending v),
             v_nofd := (if fd = - 1 then insert c (v_nofd v) else v_nofd v),
             v_fds := (if fd \<noteq> - 1 \<and> poll then (v_fds v)(fd \<mapsto> (c, caps2events caps)) else v_fds v)\<rparr>)"

definition v_del :: "bool \<Rightarrow> nat \<Rightarrow> int \<Rightarrow> lview \<Rightarrow> lview" where
  "v_del poll c fd v =
     v\<lparr>v_process := v_process v - {c}, v_pending := v_pending v - {c},
       v_nofd := (if fd = - 1 then v_nofd v - {c} else v_nofd v),
       v_fds := (if fd \<noteq> - 1 \<and> poll then (v_fds v)(fd := None) else v_fds v)\<rparr>"

text \<open>A channel the loop does not know about, and a descriptor it may use.\<close>

definition v_absent :: "nat \<Rightarrow> lview \<Rightarrow> bool" where
  "v_absent c v \<longleftrightarrow> c \<notin> v_process v \<and> c \<notin> v_pending v \<and> c \<notin> v_nofd v"

lemma pending_bit: "d AND DCAPS_PENDING \<noteq> 0 \<longleftrightarrow> bit d 5"
proof -
  have d: "DCAPS_PENDING = push_bit 5 1" by (simp add: dcaps_defs)
  have p: "bit (push_bit k 1 :: u32) n \<longleftrightarrow> n = k" if "k < 32" for k n using that by (auto simp: bit_simps)
  have "bit DCAPS_PENDING n \<longleftrightarrow> n = 5" for n unfolding d by (rule p) simp
  then show ?thesis unfolding u32_zero_iff by (simp add: bit_and_iff)
qed

lemma poll_entry_ok:
  assumes "svc_ok e p n" and "fd \<noteq> ep_fd_pending e" and "fd \<noteq> ep_fd_nofd e"
  shows "svc_ok (poll_del e fd) p n" and "ep_chans (poll_del e fd) = (ep_chans e)(fd := None)"
    and "svc_ok (poll_update e fd c caps) p n"
    and "ep_chans e fd = None \<Longrightarrow> svc_ok (poll_add e fd c caps) p n"
    and "ep_chans e fd = None \<Longrightarrow> ep_chans (poll_add e fd c caps) = (ep_chans e)(fd \<mapsto> (c, caps2events caps))"
    and "ep_chans e fd = Some (c, ev) \<Longrightarrow> ep_chans (poll_update e fd c caps) = (ep_chans e)(fd \<mapsto> (c, caps2events caps))"
    and "ep_chans e fd = None \<Longrightarrow> poll_update e fd c caps = e"
  using assms by (auto simp: svc_ok_def ep_ops ep_chans_def fun_eq_iff split: option.splits)

lemma process_del_ok:
  assumes "lp_ok l" and "fd = - 1 \<or> \<not> is_svc l fd"
  shows "lp_ok (process_del c fd l)" and "lp_view (process_del c fd l) = v_del (lp_poll_enable l) c fd (lp_view l)"
    and "same_frame l (process_del c fd l)"
proof -
  define l1 where "l1 = l\<lparr>lp_process := pl_del (lp_process l) c\<rparr>"
  have g: "pls.good (lp_process l)" "pls.good (lp_nofd l)" using assms(1) by (simp_all add: lp_ok_def)
  have l1: "lp_ok l1" "lp_view l1 = (lp_view l)\<lparr>v_process := v_process (lp_view l) - {c}\<rparr>" "same_frame l l1"
    using assms(1) pls.good_del [OF g(1)] pls.set_del [OF g(1)] by (simp_all add: l1_def lp_ok_def lp_view_def same_frame_def)
  define l2 where "l2 = pending_del c l1"
  note p = pending_del_ok [OF l1(1), of c, folded l2_def]
  have l2: "lp_ok l2" "lp_view l2 = (lp_view l1)\<lparr>v_pending := v_pending (lp_view l1) - {c}\<rparr>" "same_frame l l2"
    using p same_frame_trans [OF l1(3) p(3)] by simp_all
  have po: "lp_poll_enable l2 = lp_poll_enable l" using l2(3) by (simp add: same_frame_def)
  have eq: "process_del c fd l = (if fd = - 1
      then (let l = l2\<lparr>lp_nofd := pl_del (lp_nofd l2) c\<rparr>
               in if pl_size (lp_nofd l) \<noteq> 0 then l
                  else if lp_poll_enable l then l\<lparr>lp_ep := nofd_disable (lp_ep l)\<rparr> else l)
      else if lp_poll_enable l2 then l2\<lparr>lp_ep := poll_del (lp_ep l2) fd\<rparr> else l2)"
    by (simp add: process_del_def l1_def [symmetric] l2_def [symmetric] Let_def)
  have g2: "pls.good (lp_nofd l2)" using l2(1) by (simp add: lp_ok_def)
  note d = pls.good_del [OF g2, of c] pls.set_del [OF g2, of c] pl_size_items [OF pls.good_del [OF g2, of c]]
  have e: "svc_ok e p (pl_items (lp_nofd l2) \<noteq> []) \<Longrightarrow> pl_items (pl_del (lp_nofd l2) c) \<noteq> [] \<Longrightarrow> svc_ok e p True" for e p
    using d(2) by (cases "pl_items (lp_nofd l2)") auto
  have s: "fd \<noteq> - 1 \<Longrightarrow> lp_poll_enable l2 \<Longrightarrow> fd \<noteq> ep_fd_pending (lp_ep l2) \<and> fd \<noteq> ep_fd_nofd (lp_ep l2)"
    using assms(2) l2(3) by (auto simp: is_svc_def same_frame_def)
  show "lp_ok (process_del c fd l)"
    unfolding eq using l2(1) d svc_ok_switch e poll_entry_ok s by (auto simp: lp_ok_def Let_def)
  have "lp_view (process_del c fd l) = (lp_view l2)\<lparr>v_nofd := (if fd = - 1 then v_nofd (lp_view l2) - {c} else v_nofd (lp_view l2)),
      v_fds := (if fd \<noteq> - 1 \<and> lp_poll_enable l2 then (v_fds (lp_view l2))(fd := None) else v_fds (lp_view l2))\<rparr>"
    unfolding eq using l2(1) d svc_ok_switch poll_entry_ok s by (auto simp: lp_ok_def lp_view_def Let_def)
  then show "lp_view (process_del c fd l) = v_del (lp_poll_enable l) c fd (lp_view l)"
    using l2(2) l1(2) po by (simp add: v_del_def)
  show "same_frame l (process_del c fd l)"
    unfolding eq using l2(3) by (simp add: same_frame_def Let_def ep_ops)
qed

lemma process_add_ok:
  assumes "lp_ok l" and "fd = - 1 \<or> \<not> is_svc l fd" and "need_process caps \<Longrightarrow> v_absent c (lp_view l)"
    and "need_process caps \<Longrightarrow> fd \<noteq> - 1 \<Longrightarrow> v_fds (lp_view l) fd = None"
  shows "lp_ok (process_add c fd caps l)" and "lp_view (process_add c fd caps l) = v_add (lp_poll_enable l) c fd caps (lp_view l)"
    and "same_frame l (process_add c fd caps l)"
proof -
  have "lp_ok (process_add c fd caps l) \<and> lp_view (process_add c fd caps l) = v_add (lp_poll_enable l) c fd caps (lp_view l) \<and>
      same_frame l (process_add c fd caps l)"
  proof (cases "need_process caps")
    case True
    note ab = assms(3) [OF True, unfolded v_absent_def] and fr = assms(4) [OF True]
    define l1 where "l1 = l\<lparr>lp_process := pl_add (lp_process l) c\<rparr>"
    have g: "pls.good (lp_process l)" "c \<notin> set (pl_items (lp_process l))" using assms(1) ab by (simp_all add: lp_ok_def lp_view_def)
    have l1: "lp_ok l1" "lp_view l1 = (lp_view l)\<lparr>v_process := insert c (v_process (lp_view l))\<rparr>" "same_frame l l1"
      using assms(1) pls.good_add [OF g] pls.set_add [OF g(1)] by (simp_all add: l1_def lp_ok_def lp_view_def same_frame_def)
    define l2 where "l2 = (if caps AND DCAPS_PENDING \<noteq> 0 then pending_add c l1 else l1)"
    have "c \<notin> v_pending (lp_view l1)" using ab l1(2) by simp
    note p = pending_add_ok [OF l1(1) this]
    have l2: "lp_ok l2" "same_frame l l2"
      "lp_view l2 = (lp_view l1)\<lparr>v_pending := (if bit caps 5 then insert c (v_pending (lp_view l1)) else v_pending (lp_view l1))\<rparr>"
      using p l1 same_frame_trans [OF l1(3) p(3)] by (auto simp: l2_def pending_bit)
    have po: "lp_poll_enable l2 = lp_poll_enable l" using l2(2) by (simp add: same_frame_def)
    have eq: "process_add c fd caps l = (if fd = - 1
           then (let l = l2\<lparr>lp_nofd := pl_add (lp_nofd l2) c\<rparr>
                 in if pl_size (lp_nofd l2) \<noteq> 0 then l
                    else if lp_poll_enable l then l\<lparr>lp_ep := nofd_enable (lp_ep l)\<rparr> else l)
           else if lp_poll_enable l2 then l2\<lparr>lp_ep := poll_add (lp_ep l2) fd c caps\<rparr> else l2)"
      using True by (simp add: process_add_def l1_def [symmetric] l2_def [symmetric] Let_def)
    have g2: "pls.good (lp_nofd l2)" "c \<notin> set (pl_items (lp_nofd l2))" using l2 l1 ab by (simp_all add: lp_ok_def lp_view_def)
    note a = pls.good_add [OF g2] pls.set_add [OF g2(1), of c] pl_add_nonempty [OF g2(1), of c] pl_size_items [OF g2(1)]
    have s: "fd \<noteq> ep_fd_pending (lp_ep l2)" "fd \<noteq> ep_fd_nofd (lp_ep l2)" "ep_chans (lp_ep l2) fd = None"
      if "fd \<noteq> - 1" "lp_poll_enable l2"
      using assms(2) fr l2 l1 that by (auto simp: is_svc_def same_frame_def lp_view_def)
    have "lp_ok (process_add c fd caps l)"
      unfolding eq using l2(1) a svc_ok_switch poll_entry_ok s by (auto simp: lp_ok_def Let_def)
    moreover have "lp_view (process_add c fd caps l) = (lp_view l2)\<lparr>v_nofd := (if fd = - 1 then insert c (v_nofd (lp_view l2)) else v_nofd (lp_view l2)),
        v_fds := (if fd \<noteq> - 1 \<and> lp_poll_enable l2 then (v_fds (lp_view l2))(fd \<mapsto> (c, caps2events caps)) else v_fds (lp_view l2))\<rparr>"
      unfolding eq using l2(1) a svc_ok_switch poll_entry_ok s by (auto simp: lp_ok_def lp_view_def Let_def)
    moreover have "same_frame l (process_add c fd caps l)"
      unfolding eq using l2(2) by (simp add: same_frame_def Let_def ep_ops)
    ultimately show ?thesis using True l2(3) l1(2) po by (simp add: v_add_def)
  qed (use assms(1) in \<open>simp add: process_add_def v_add_def\<close>)
  then show "lp_ok (process_add c fd caps l)" and "lp_view (process_add c fd caps l) = v_add (lp_poll_enable l) c fd caps (lp_view l)"
    and "same_frame l (process_add c fd caps l)" by simp_all
qed

definition v_update :: "bool \<Rightarrow> nat \<Rightarrow> int \<Rightarrow> u32 \<Rightarrow> u32 \<Rightarrow> lview \<Rightarrow> lview" where
  "v_update poll c fd caps old v =
     (if need_process caps \<noteq> need_process old
      then (if need_process caps then v_add poll c fd caps v else v_del poll c fd v)
      else if \<not> need_process caps then v
      else v\<lparr>v_pending := (if bit caps 5 = bit old 5 then v_pending v
                           else if bit caps 5 then insert c (v_pending v) else v_pending v - {c}),
             v_fds := (if (caps XOR old) AND DCAPS_POLLMASK \<noteq> 0 \<and> poll \<and> fd \<noteq> - 1 \<and> v_fds v fd \<noteq> None
                       then (v_fds v)(fd \<mapsto> (c, caps2events caps)) else v_fds v)\<rparr>)"

lemma need_delta: "need_process caps \<noteq> need_process old \<Longrightarrow> (caps XOR old) AND DCAPS_PROCESS_MASK \<noteq> 0"
  unfolding u32_zero_iff need_process_iff by (auto simp: bit_and_iff bit_xor_iff bit_dcaps)

lemma pending_delta: "(caps XOR old) AND DCAPS_PENDING \<noteq> 0 \<longleftrightarrow> bit caps 5 \<noteq> bit old 5"
  unfolding pending_bit by (simp add: bit_xor_iff)

lemma poll_step_ok:
  fixes caps :: u32
  assumes "lp_ok l" and "fd \<noteq> - 1" and "lp_poll_enable l" and "\<not> is_svc l fd" and "\<And>d ev. v_fds (lp_view l) fd = Some (d, ev) \<Longrightarrow> d = c"
  defines "l' \<equiv> l\<lparr>lp_ep := poll_update (lp_ep l) fd c caps\<rparr>"
  shows "lp_ok l'" and "same_frame l l'"
    and "lp_view l' = (lp_view l)\<lparr>v_fds := (if v_fds (lp_view l) fd \<noteq> None then (v_fds (lp_view l))(fd \<mapsto> (c, caps2events caps)) else v_fds (lp_view l))\<rparr>"
proof -
  have s: "fd \<noteq> ep_fd_pending (lp_ep l)" "fd \<noteq> ep_fd_nofd (lp_ep l)" using assms(3,4) by (auto simp: is_svc_def)
  have o: "svc_ok (lp_ep l) (pl_items (lp_pending l) \<noteq> []) (pl_items (lp_nofd l) \<noteq> [])" using assms(1,3) by (simp add: lp_ok_def)
  note e = poll_entry_ok [OF o s]
  show "lp_ok l'" using assms(1) e(3) by (simp add: lp_ok_def l'_def)
  show "same_frame l l'" by (simp add: same_frame_def l'_def ep_ops)
  show "lp_view l' = (lp_view l)\<lparr>v_fds := (if v_fds (lp_view l) fd \<noteq> None then (v_fds (lp_view l))(fd \<mapsto> (c, caps2events caps)) else v_fds (lp_view l))\<rparr>"
    using e(6,7) assms(5) by (cases "ep_chans (lp_ep l) fd") (auto simp: lp_view_def l'_def)
qed

lemma process_add_pending:
  "need_process caps \<Longrightarrow> bit caps 5 \<Longrightarrow> lp_pending (process_add c fd caps l) = pl_add (lp_pending l) c"
  by (simp add: process_add_def pending_add_def Let_def pending_bit)

lemma loop_update_ok:
  assumes "lp_ok l" and "fd = - 1 \<or> \<not> is_svc l fd"
    and "\<not> need_process old \<Longrightarrow> v_absent c (lp_view l) \<and> (fd \<noteq> - 1 \<longrightarrow> v_fds (lp_view l) fd = None)"
    and "\<And>d ev. fd \<noteq> - 1 \<Longrightarrow> v_fds (lp_view l) fd = Some (d, ev) \<Longrightarrow> d = c"
    and "c \<in> v_pending (lp_view l) \<Longrightarrow> bit old 5"
  shows "lp_ok (loop_update c fd caps old l) \<and> same_frame l (loop_update c fd caps old l) \<and>
         lp_view (loop_update c fd caps old l) = v_update (lp_poll_enable l) c fd caps old (lp_view l)"
proof (cases "need_process caps")
  case False
  then have "loop_update c fd caps old l = (if need_process old then process_del c fd l else l)"
    using need_delta [of caps old] by (simp add: loop_update_def Let_def)
  then show ?thesis using False process_del_ok [OF assms(1,2), of c] assms(1) by (simp add: v_update_def)
next
  case True
  define l1 where "l1 = (if need_process old then l else process_add c fd caps l)"
  have d: "loop_update c fd caps old l =
      (let l = (if (caps XOR old) AND DCAPS_POLLMASK \<noteq> 0 \<and> lp_poll_enable l1 \<and> fd \<noteq> - 1
                then l1\<lparr>lp_ep := poll_update (lp_ep l1) fd c caps\<rparr> else l1)
       in if bit caps 5 \<noteq> bit old 5 then (if bit caps 5 then pending_add c l else pending_del c l) else l)"
    using True need_delta [of caps old]
    by (cases "need_process old"; simp only: loop_update_def Let_def l1_def pending_delta pending_bit [of caps] simp_thms if_True if_False HOL.refl)
  have a: "\<not> need_process old \<Longrightarrow> lp_ok (process_add c fd caps l) \<and> same_frame l (process_add c fd caps l) \<and>
      lp_view (process_add c fd caps l) = v_add (lp_poll_enable l) c fd caps (lp_view l)"
    using process_add_ok [OF assms(1,2), of caps c] assms(3) by simp
  have l1: "lp_ok l1" "same_frame l l1"
    and v1: "lp_view l1 = (if need_process old then lp_view l else v_add (lp_poll_enable l) c fd caps (lp_view l))"
    using a assms(1) by (auto simp: l1_def)
  have po: "lp_poll_enable l1 = lp_poll_enable l" using l1(2) by (simp add: same_frame_def)
  define l2 where "l2 = (if (caps XOR old) AND DCAPS_POLLMASK \<noteq> 0 \<and> lp_poll_enable l1 \<and> fd \<noteq> - 1
                then l1\<lparr>lp_ep := poll_update (lp_ep l1) fd c caps\<rparr> else l1)"
  have own: "e = c" if "fd \<noteq> - 1" "v_fds (lp_view l1) fd = Some (e, ev)" for e ev
    using that v1 assms(3,4) True by (auto simp: v_add_def split: if_splits)
  have svc: "fd \<noteq> - 1 \<Longrightarrow> \<not> is_svc l1 fd" using assms(2) same_frame_svc [OF l1(2)] by auto
  have l2: "lp_ok l2" "same_frame l l2"
    and v2: "lp_view l2 = (lp_view l1)\<lparr>v_fds := (if (caps XOR old) AND DCAPS_POLLMASK \<noteq> 0 \<and> lp_poll_enable l1 \<and> fd \<noteq> - 1 \<and> v_fds (lp_view l1) fd \<noteq> None
        then (v_fds (lp_view l1))(fd \<mapsto> (c, caps2events caps)) else v_fds (lp_view l1))\<rparr>"
    using poll_step_ok [OF l1(1), of fd c caps] l1 same_frame_trans [OF l1(2)] own svc
    by (auto simp: l2_def)
  show ?thesis
  proof (cases "bit caps 5 = bit old 5")
    case True
    then have "loop_update c fd caps old l = l2" using d by (simp add: l2_def Let_def)
    then show ?thesis
      using l2 v2 v1 po True \<open>need_process caps\<close> by (auto simp: v_update_def v_add_def)
  next
    case False
    have u: "loop_update c fd caps old l = (if bit caps 5 then pending_add c l2 else pending_del c l2)"
      using d False by (simp add: l2_def [symmetric] Let_def)
    show ?thesis
    proof (cases "need_process old")
      case True
      have "bit caps 5 \<Longrightarrow> c \<notin> v_pending (lp_view l2)" using v2 v1 True False assms(5) by auto
      then show ?thesis
        using u pending_add_ok [OF l2(1), of c] pending_del_ok [OF l2(1), of c] same_frame_trans [OF l2(2)] v2 v1 po False True \<open>need_process caps\<close>
        by (auto simp: v_update_def)
    next
      case old: False
      then have ab: "v_absent c (lp_view l)" using assms(3) by simp
      show ?thesis
      proof (cases "bit caps 5")
        case True
        have p: "lp_pending l2 = pl_add (lp_pending l) c"
          using process_add_pending [OF \<open>need_process caps\<close> True] old by (simp add: l2_def l1_def)
        have g: "pls.good (lp_pending l)" "c \<notin> set (pl_items (lp_pending l))"
          using assms(1) ab by (simp_all add: lp_ok_def lp_view_def v_absent_def)
        have "pl_size (lp_pending l2) \<noteq> 0"
          using pl_size_items [OF pls.good_add [OF g]] pl_add_nonempty [OF g(1)] p by simp
        moreover have "pl_add (pl_add (lp_pending l) c) c = pl_add (lp_pending l) c"
          using g pls.add_again [of "lp_pending l" c] by (simp add: pls.good_def)
        ultimately have "pending_add c l2 = l2" using p by (simp add: pending_add_def Let_def)
        then show ?thesis using u l2 v2 v1 po True old \<open>need_process caps\<close> by (auto simp: v_update_def v_add_def)
      next
        case f: False
        then show ?thesis
          using u pending_del_ok [OF l2(1), of c] same_frame_trans [OF l2(2)] v2 v1 po old ab \<open>need_process caps\<close>
          by (auto simp: v_update_def v_add_def v_absent_def)
      qed
    qed
  qed
qed

section \<open>The loop and its channels\<close>

text \<open>What a channel shows to the loop. \<open>sy_off\<close> is ghost state: the channels that failed or were closed and whose
  caps did not change since.\<close>

record lchan =
  lc_fd :: int
  lc_dcaps :: u32

record sys =
  sy_loop :: loop
  sy_ch :: "nat \<Rightarrow> lchan"
  sy_off :: "nat set"

abbreviation wants :: "(nat \<Rightarrow> lchan) \<Rightarrow> nat \<Rightarrow> bool" where
  "wants w c \<equiv> need_process (lc_dcaps (w c))"

text \<open>How one channel appears in the loop: in the list of processed channels, of pending ones, of those without a
  descriptor, and its descriptors in the interest set with their events.\<close>

type_synonym seen = "bool \<times> bool \<times> bool \<times> (int \<times> u32) set"

definition seen_in :: "lview \<Rightarrow> nat \<Rightarrow> seen" where
  "seen_in v d = (d \<in> v_process v, d \<in> v_pending v, d \<in> v_nofd v, {(f, ev). v_fds v f = Some (d, ev)})"

abbreviation unseen :: seen where
  "unseen \<equiv> (False, False, False, {})"

text \<open>How it should appear.\<close>

definition expected :: "bool \<Rightarrow> int \<Rightarrow> u32 \<Rightarrow> seen" where
  "expected poll fd caps =
     (if need_process caps
      then (True, bit caps 5, fd = - 1, if fd \<noteq> - 1 \<and> poll then {(fd, caps2events caps)} else {})
      else unseen)"

fun seen_le :: "seen \<Rightarrow> seen \<Rightarrow> bool" where
  "seen_le (p, q, n, e) (p', q', n', e') \<longleftrightarrow> (p \<longrightarrow> p') \<and> (q \<longrightarrow> q') \<and> (n \<longrightarrow> n') \<and> e \<subseteq> e'"

lemma seen_le_refl [simp]: "seen_le x x" and seen_le_unseen [simp]: "seen_le x unseen \<longleftrightarrow> x = unseen" and unseen_le [simp]: "seen_le unseen x"
  by (cases x; auto)+

text \<open>A channel the loop has, and that is not switched off, appears as it should; one that is switched off shows
  nothing that it should not; one the loop does not have does not appear.\<close>

definition chan_ok :: "bool \<Rightarrow> nat set \<Rightarrow> (nat \<Rightarrow> lchan) \<Rightarrow> nat set \<Rightarrow> lview \<Rightarrow> nat \<Rightarrow> bool" where
  "chan_ok poll L w off v d \<longleftrightarrow>
     (if d \<notin> L then seen_in v d = unseen
      else if d \<in> off then seen_le (seen_in v d) (expected poll (lc_fd (w d)) (lc_dcaps (w d)))
      else seen_in v d = expected poll (lc_fd (w d)) (lc_dcaps (w d)))"

text \<open>Descriptors are those of the system: no two registered channels share one, and none is a service
  descriptor of the loop.\<close>

definition fds_ok :: "loop \<Rightarrow> nat set \<Rightarrow> (nat \<Rightarrow> lchan) \<Rightarrow> bool" where
  "fds_ok l L w \<longleftrightarrow> (\<forall>c \<in> L. lc_fd (w c) \<noteq> - 1 \<longrightarrow> \<not> is_svc l (lc_fd (w c)) \<and> (\<forall>d \<in> L. d \<noteq> c \<longrightarrow> lc_fd (w d) \<noteq> lc_fd (w c)))"

definition chans_ok :: "loop \<Rightarrow> nat set \<Rightarrow> (nat \<Rightarrow> lchan) \<Rightarrow> nat set \<Rightarrow> bool" where
  "chans_ok l L w off \<longleftrightarrow> lp_ok l \<and> fds_ok l L w \<and> (\<forall>d. chan_ok (lp_poll_enable l) L w off (lp_view l) d)"

lemma seen_le_expected: "chan_ok poll L w off v d \<Longrightarrow> seen_le (seen_in v d) (expected poll (lc_fd (w d)) (lc_dcaps (w d)))"
  by (auto simp: chan_ok_def split: if_splits)

lemma seen_unseen: "chan_ok poll L w off v d \<Longrightarrow> \<not> wants w d \<Longrightarrow> seen_in v d = unseen"
  using seen_le_expected [of poll L w off v d] by (simp add: expected_def)

lemma seen_fds_iff: "v_fds v f = Some (d, ev) \<longleftrightarrow> (f, ev) \<in> snd (snd (snd (seen_in v d)))"
  by (simp add: seen_in_def)

text \<open>The owner of an entry is the channel with that descriptor.\<close>

lemma fds_owner:
  assumes "chan_ok poll L w off v d" and "v_fds v f = Some (d, ev)"
  shows "d \<in> L \<and> wants w d \<and> lc_fd (w d) = f \<and> f \<noteq> - 1 \<and> poll"
  using assms seen_le_expected [OF assms(1)] unfolding seen_fds_iff
  by (cases "seen_in v d") (auto simp: chan_ok_def expected_def split: if_splits)

lemma seen_add:
  assumes "seen_in v c = unseen" and "fd \<noteq> - 1 \<Longrightarrow> v_fds v fd = None"
  shows "seen_in (v_add poll c fd caps v) d = (if d = c then expected poll fd caps else seen_in v d)"
  using assms by (auto simp: seen_in_def v_add_def expected_def split: if_splits)

lemma seen_del_other:
  assumes "d \<noteq> c" and "\<And>e ev. fd \<noteq> - 1 \<Longrightarrow> v_fds v fd = Some (e, ev) \<Longrightarrow> e = c"
  shows "seen_in (v_del poll c fd v) d = seen_in v d"
  using assms by (auto simp: seen_in_def v_del_def split: if_splits)

lemma seen_del_self:
  assumes "chan_ok poll L w off v c"
  shows "seen_in (v_del poll c (lc_fd (w c)) v) c = unseen"
  using seen_le_expected [OF assms] by (auto simp: seen_in_def v_del_def expected_def split: if_splits)

lemma events_same:
  assumes "need_process caps" and "need_process old" and "(caps XOR old) AND DCAPS_POLLMASK = 0"
  shows "caps2events caps = caps2events old"
proof -
  have p: "bit (push_bit k 1 :: u32) n \<longleftrightarrow> n = k" if "k < 32" for k n using that by (auto simp: bit_simps)
  have b: "bit DCAPS_POLLIN n \<longleftrightarrow> n = 0" "bit DCAPS_POLLOUT n \<longleftrightarrow> n = 1" for n
    using p [of 0 n] p [of 1 n] by (simp_all add: dcaps_defs)
  have d: "DCAPS_POLLMASK = DCAPS_POLLIN OR DCAPS_POLLOUT" by (simp add: dcaps_defs)
  have m: "bit DCAPS_POLLMASK n \<longleftrightarrow> n = 0 \<or> n = 1" for n by (simp only: d bit_or_iff b)
  have s: "caps AND DCAPS_SUSPEND = 0" "old AND DCAPS_SUSPEND = 0"
    using assms(1,2) suspended_iff need_process_iff by blast+
  have "bit ((caps XOR old) AND DCAPS_POLLMASK) n = False" for n using assms(3) by simp
  from this [of 0] this [of 1] have "bit caps 0 = bit old 0" "bit caps 1 = bit old 1"
    by (simp_all only: bit_and_iff bit_xor_iff m) auto
  moreover have "x AND DCAPS_POLLIN \<noteq> 0 \<longleftrightarrow> bit x 0" "x AND DCAPS_POLLOUT \<noteq> 0 \<longleftrightarrow> bit x 1" for x
    unfolding u32_zero_iff by (simp_all only: bit_and_iff b) auto
  ultimately show ?thesis by (simp only: caps2events_def s)
qed

lemma seen_update_other:
  assumes "\<And>e ev. fd \<noteq> - 1 \<Longrightarrow> v_fds v fd = Some (e, ev) \<Longrightarrow> e = c" and "d \<noteq> c"
    and "\<not> need_process old \<Longrightarrow> fd \<noteq> - 1 \<Longrightarrow> v_fds v fd = None" and "seen_le (seen_in v c) (expected poll fd old)"
  shows "seen_in (v_update poll c fd caps old v) d = seen_in v d"
proof (cases "need_process caps = need_process old")
  case True
  then show ?thesis using assms(1,2) by (auto simp: v_update_def seen_in_def split: if_splits)
next
  case False
  then show ?thesis
  proof (cases "need_process caps")
    case True
    then have "seen_in v c = unseen" using assms(4) False by (simp add: expected_def)
    then show ?thesis using True False assms(2,3) seen_add [of v c fd poll caps d] by (simp add: v_update_def)
  qed (use assms(1,2) seen_del_other [of d c fd v poll] in \<open>simp add: v_update_def\<close>)
qed

lemma seen_update_switch:
  assumes "seen_le (seen_in v c) (expected poll fd old)" and "need_process caps \<noteq> need_process old"
    and "\<not> need_process old \<Longrightarrow> fd \<noteq> - 1 \<Longrightarrow> v_fds v fd = None"
  shows "seen_in (v_update poll c fd caps old v) c = expected poll fd caps"
proof (cases "need_process caps")
  case True
  then have "seen_in v c = unseen" using assms(1,2) by (simp add: expected_def)
  then show ?thesis using True assms(2,3) seen_add [of v c fd poll caps c] by (simp add: v_update_def)
next
  case False
  then show ?thesis
    using assms by (auto simp: v_update_def seen_in_def v_del_def expected_def split: if_splits)
qed

lemma seen_update_self:
  assumes "seen_le (seen_in v c) (expected poll fd old)" and "need_process caps = need_process old"
  shows "seen_le (seen_in (v_update poll c fd caps old v) c) (expected poll fd caps)"
    and "seen_in v c = expected poll fd old \<Longrightarrow> seen_in (v_update poll c fd caps old v) c = expected poll fd caps"
proof -
  have e: "need_process caps \<Longrightarrow> (caps XOR old) AND DCAPS_POLLMASK = 0 \<Longrightarrow> caps2events old = caps2events caps"
    using events_same [of caps old] assms(2) by simp
  have s: "f = fd \<and> ev = caps2events old \<and> fd \<noteq> - 1 \<and> poll \<and> need_process old" if "v_fds v f = Some (c, ev)" for f ev
    using assms(1) that by (auto simp: seen_in_def expected_def split: if_splits)
  show "seen_le (seen_in (v_update poll c fd caps old v) c) (expected poll fd caps)"
    using assms e by (cases "need_process caps") (auto simp: v_update_def seen_in_def expected_def dest: s split: if_splits)
  assume q: "seen_in v c = expected poll fd old"
  then have f: "v_fds v f = Some (c, ev) \<longleftrightarrow> need_process old \<and> fd \<noteq> - 1 \<and> poll \<and> f = fd \<and> ev = caps2events old" for f ev
    unfolding seen_fds_iff by (auto simp: expected_def)
  then have g: "need_process old \<Longrightarrow> fd \<noteq> - 1 \<Longrightarrow> poll \<Longrightarrow> v_fds v fd = Some (c, caps2events old)" by blast
  show "seen_in (v_update poll c fd caps old v) c = expected poll fd caps"
  proof (cases "need_process caps")
    case True
    have "{(f, ev). v_fds (v_update poll c fd caps old v) f = Some (c, ev)} = (if fd \<noteq> - 1 \<and> poll then {(fd, caps2events caps)} else {})"
      using True assms(2) f g e by (auto simp: v_update_def split: if_splits)
    then show ?thesis using q True assms(2) by (auto simp: v_update_def seen_in_def expected_def)
  qed (use q assms(2) in \<open>simp add: v_update_def expected_def\<close>)
qed

text \<open>The operations of the loop keep the channels in order.\<close>

lemma chans_ok_entry:
  assumes "chans_ok l L w off" and "c \<in> L" and "lc_fd (w c) \<noteq> - 1" and "v_fds (lp_view l) (lc_fd (w c)) = Some (e, ev)"
  shows "e = c"
proof -
  have "chan_ok (lp_poll_enable l) L w off (lp_view l) e" using assms(1) by (simp add: chans_ok_def)
  from fds_owner [OF this assms(4)] have "e \<in> L" "lc_fd (w e) = lc_fd (w c)" by simp_all
  then show ?thesis using assms(1-3) by (auto simp: chans_ok_def fds_ok_def)
qed

lemma chans_ok_svc: "chans_ok l L w off \<Longrightarrow> c \<in> L \<Longrightarrow> lc_fd (w c) = - 1 \<or> \<not> is_svc l (lc_fd (w c))"
  by (auto simp: chans_ok_def fds_ok_def)

lemma fds_ok_frame: "same_frame l l' \<Longrightarrow> fds_ok l' L w = fds_ok l L w"
  by (simp add: fds_ok_def same_frame_svc)

lemma chans_ok_del:
  assumes "chans_ok l L w off" and "c \<in> L"
  defines "l' \<equiv> process_del c (lc_fd (w c)) l"
  shows "chans_ok l' L w (insert c off)" and "seen_in (lp_view l') c = unseen" and "same_frame l l'"
proof -
  have ok: "lp_ok l" and f: "fds_ok l L w" and co: "\<And>d. chan_ok (lp_poll_enable l) L w off (lp_view l) d"
    using assms(1) by (simp_all add: chans_ok_def)
  note p = process_del_ok [OF ok chans_ok_svc [OF assms(1,2)], of c, folded l'_def]
  have pe: "lp_poll_enable l' = lp_poll_enable l" using p(3) by (simp add: same_frame_def)
  have own: "e = c" if "lc_fd (w c) \<noteq> - 1" "v_fds (lp_view l) (lc_fd (w c)) = Some (e, ev)" for e ev
    using chans_ok_entry [OF assms(1,2) that] .
  show s: "seen_in (lp_view l') c = unseen" unfolding p(2) by (rule seen_del_self [OF co])
  have "chan_ok (lp_poll_enable l) L w (insert c off) (lp_view l') d" for d
  proof (cases "d = c")
    case True
    then show ?thesis using s by (simp add: chan_ok_def)
  next
    case False
    then have "seen_in (lp_view l') d = seen_in (lp_view l) d" unfolding p(2) using own by (rule seen_del_other)
    then show ?thesis using co [of d] False by (simp add: chan_ok_def)
  qed
  then show "chans_ok l' L w (insert c off)" using p(1) f fds_ok_frame [OF p(3)] pe by (simp add: chans_ok_def)
  show "same_frame l l'" by (fact p(3))
qed

lemma free_entry:
  assumes "chans_ok l L w off" and "seen_in (lp_view l) c = unseen" and "fd \<noteq> - 1"
    and "\<forall>d \<in> L. d \<noteq> c \<longrightarrow> lc_fd (w d) \<noteq> fd"
  shows "v_fds (lp_view l) fd = None"
proof (rule ccontr)
  assume "v_fds (lp_view l) fd \<noteq> None"
  then obtain e ev where e: "v_fds (lp_view l) fd = Some (e, ev)" by auto
  have "chan_ok (lp_poll_enable l) L w off (lp_view l) e" using assms(1) by (simp add: chans_ok_def)
  from fds_owner [OF this e] have "e \<in> L" "lc_fd (w e) = fd" by simp_all
  then have "e = c" using assms(4) by auto
  then show False using assms(2) e by (auto simp: seen_in_def)
qed

text \<open>Adding a channel that is not seen, as itself or under new caps and descriptor.\<close>

lemma chans_ok_add:
  assumes "chans_ok l L w off" and "seen_in (lp_view l) c = unseen" and "\<And>d. d \<in> L \<Longrightarrow> d \<noteq> c \<Longrightarrow> w' d = w d"
    and "fds_ok l (insert c L) w'"
  defines "l' \<equiv> process_add c (lc_fd (w' c)) (lc_dcaps (w' c)) l"
  shows "chans_ok l' (insert c L) w' (off - {c})" and "same_frame l l'"
proof -
  have ok: "lp_ok l" and co: "\<And>d. chan_ok (lp_poll_enable l) L w off (lp_view l) d"
    using assms(1) by (simp_all add: chans_ok_def)
  have "\<forall>d \<in> L. d \<noteq> c \<longrightarrow> lc_fd (w' d) \<noteq> lc_fd (w' c)" if "lc_fd (w' c) \<noteq> - 1"
    using assms(4) that by (auto simp: fds_ok_def)
  then have fr: "lc_fd (w' c) \<noteq> - 1 \<Longrightarrow> v_fds (lp_view l) (lc_fd (w' c)) = None"
    using free_entry [OF assms(1,2)] assms(3) by auto
  have sv: "lc_fd (w' c) = - 1 \<or> \<not> is_svc l (lc_fd (w' c))" using assms(4) by (auto simp: fds_ok_def)
  have ab: "v_absent c (lp_view l)" using assms(2) by (simp add: seen_in_def v_absent_def)
  have p: "lp_ok l'" "lp_view l' = v_add (lp_poll_enable l) c (lc_fd (w' c)) (lc_dcaps (w' c)) (lp_view l)" "same_frame l l'"
    unfolding l'_def using process_add_ok [OF ok sv, of "lc_dcaps (w' c)" c] ab fr by simp_all
  have pe: "lp_poll_enable l' = lp_poll_enable l" using p(3) by (simp add: same_frame_def)
  have s: "seen_in (lp_view l') d = (if d = c then expected (lp_poll_enable l) (lc_fd (w' c)) (lc_dcaps (w' c)) else seen_in (lp_view l) d)" for d
    unfolding p(2) by (rule seen_add [OF assms(2) fr])
  have "chan_ok (lp_poll_enable l) (insert c L) w' (off - {c}) (lp_view l') d" for d
    using co [of d] s [of d] assms(3) [of d] by (auto simp: chan_ok_def)
  then show "chans_ok l' (insert c L) w' (off - {c})"
    using p(1) assms(4) fds_ok_frame [OF p(3)] pe by (simp add: chans_ok_def)
  show "same_frame l l'" by (fact p(3))
qed

lemma chans_ok_update:
  fixes caps :: u32
  assumes "chans_ok l L w off" and "c \<in> L"
  defines "l' \<equiv> loop_update c (lc_fd (w c)) caps (lc_dcaps (w c)) l" and "w' \<equiv> w(c := (w c)\<lparr>lc_dcaps := caps\<rparr>)"
  shows "chans_ok l' L w' (if need_process caps = wants w c then off else off - {c})" and "same_frame l l'"
proof -
  let ?fd = "lc_fd (w c)" and ?old = "lc_dcaps (w c)" and ?v = "lp_view l" and ?p = "lp_poll_enable l"
  have ok: "lp_ok l" and f: "fds_ok l L w" and co: "\<And>d. chan_ok ?p L w off ?v d"
    using assms(1) by (simp_all add: chans_ok_def)
  have own: "e = c" if "?fd \<noteq> - 1" "v_fds ?v ?fd = Some (e, ev)" for e ev using chans_ok_entry [OF assms(1,2) that] .
  have le: "seen_le (seen_in ?v c) (expected ?p ?fd ?old)" by (rule seen_le_expected [OF co])
  have un: "\<not> need_process ?old \<Longrightarrow> v_absent c ?v \<and> (?fd \<noteq> - 1 \<longrightarrow> v_fds ?v ?fd = None)"
    using seen_unseen [OF co, of c] free_entry [OF assms(1), of c ?fd] f assms(2)
    by (auto simp: v_absent_def seen_in_def fds_ok_def)
  have pn: "c \<in> v_pending ?v \<Longrightarrow> bit ?old 5" using le by (auto simp: seen_in_def expected_def split: if_splits)
  have u: "lp_ok l' \<and> same_frame l l' \<and> lp_view l' = v_update ?p c ?fd caps ?old ?v"
    unfolding l'_def using loop_update_ok [OF ok chans_ok_svc [OF assms(1,2)] un own pn] .
  then show "same_frame l l'" by simp
  have pe: "lp_poll_enable l' = ?p" using u by (simp add: same_frame_def)
  have un': "\<not> need_process ?old \<Longrightarrow> ?fd \<noteq> - 1 \<Longrightarrow> v_fds ?v ?fd = None" using un by simp
  have other: "seen_in (lp_view l') d = seen_in ?v d" if "d \<noteq> c" for d
    using u seen_update_other [OF own that _ le, where caps = caps] un' by simp
  have self: "need_process caps \<noteq> need_process ?old \<Longrightarrow> seen_in (lp_view l') c = expected ?p ?fd caps"
    "need_process caps = need_process ?old \<Longrightarrow> seen_le (seen_in (lp_view l') c) (expected ?p ?fd caps)"
    "need_process caps = need_process ?old \<Longrightarrow> seen_in ?v c = expected ?p ?fd ?old \<Longrightarrow> seen_in (lp_view l') c = expected ?p ?fd caps"
    using u seen_update_switch [OF le, of caps] un' seen_update_self [OF le, of caps] by simp_all
  have "chan_ok ?p L w' (if need_process caps = wants w c then off else off - {c}) (lp_view l') d" for d
  proof (cases "d = c")
    case True
    then show ?thesis using self co [of c] assms(2) by (auto simp: chan_ok_def w'_def)
  next
    case False
    then show ?thesis using other [OF False] co [of d] by (auto simp: chan_ok_def w'_def)
  qed
  moreover have "fds_ok l' L w'" using f fds_ok_frame [of l l'] u by (auto simp: fds_ok_def w'_def)
  ultimately show "chans_ok l' L w' (if need_process caps = wants w c then off else off - {c})"
    using u pe by (simp add: chans_ok_def)
qed

text \<open>\<open>add\<close> and \<open>del\<close> of a tree, channel by channel.\<close>

definition add_one :: "nat \<times> int \<times> u32 \<Rightarrow> loop \<Rightarrow> loop" where
  "add_one = (\<lambda>(c, fd, caps) l.
     process_add c fd caps (l\<lparr>lp_cb := (lp_cb l)(c := lp_cb l c OR LOOP_MASK), lp_list := lp_list l @ [c]\<rparr>))"

definition del_one :: "nat \<times> int \<times> u32 \<Rightarrow> loop \<Rightarrow> loop" where
  "del_one = (\<lambda>(c, fd, caps) l.
     let l = process_del c fd l
     in l\<lparr>lp_list := remove1 c (lp_list l), lp_cb := (lp_cb l)(c := lp_cb l c AND NOT LOOP_MASK)\<rparr>)"

fun flat_pre :: "lnode \<Rightarrow> (nat \<times> int \<times> u32) list" where
  "flat_pre (LNode c fd caps ks) = (c, fd, caps) # concat (map flat_pre ks)"

fun flat_post :: "lnode \<Rightarrow> (nat \<times> int \<times> u32) list" where
  "flat_post (LNode c fd caps ks) = concat (map flat_post ks) @ [(c, fd, caps)]"

lemma fold_concat: "(\<And>k l. k \<in> set ks \<Longrightarrow> f k l = fold g (h k) l) \<Longrightarrow> fold f ks l = fold g (concat (map h ks)) l"
  by (induction ks arbitrary: l) auto

lemma loop_add_flat: "loop_add n l = fold add_one (flat_pre n) l"
proof (induction n arbitrary: l)
  case (LNode c fd caps ks)
  then show ?case by (simp add: fold_concat [of ks loop_add add_one flat_pre] add_one_def)
qed

lemma loop_del_flat: "loop_del n l = fold del_one (flat_post n) l"
proof (induction n arbitrary: l)
  case (LNode c fd caps ks)
  then show ?case by (simp add: fold_concat [of ks loop_del del_one flat_post] del_one_def)
qed

lemma lp_frame_irrelevant [simp]:
  "lp_ok (l\<lparr>lp_cb := a, lp_list := b\<rparr>) = lp_ok l" "lp_view (l\<lparr>lp_cb := a, lp_list := b\<rparr>) = lp_view l"
  "is_svc (l\<lparr>lp_cb := a, lp_list := b\<rparr>) = is_svc l"
  "lp_ok (l\<lparr>lp_list := b, lp_cb := a\<rparr>) = lp_ok l" "lp_view (l\<lparr>lp_list := b, lp_cb := a\<rparr>) = lp_view l"
  "is_svc (l\<lparr>lp_list := b, lp_cb := a\<rparr>) = is_svc l"
  by (simp_all add: lp_ok_def lp_view_def is_svc_def fun_eq_iff)

lemma chans_ok_frame [simp]:
  "chans_ok (l\<lparr>lp_cb := a, lp_list := b\<rparr>) L w off = chans_ok l L w off"
  "chans_ok (l\<lparr>lp_list := b, lp_cb := a\<rparr>) L w off = chans_ok l L w off"
  by (simp_all add: chans_ok_def fds_ok_def)

abbreviation listed :: "loop \<Rightarrow> nat set" where
  "listed l \<equiv> set (lp_list l)"

lemma add_one_ok:
  assumes "chans_ok l (listed l) w off" and "distinct (lp_list l)" and "c \<notin> listed l" and "w c = \<lparr>lc_fd = fd, lc_dcaps = caps\<rparr>"
    and "fds_ok l (insert c (listed l)) w"
  defines "l' \<equiv> add_one (c, fd, caps) l"
  shows "chans_ok l' (insert c (listed l)) w (off - {c})" and "distinct (lp_list l')" and "lp_list l' = lp_list l @ [c]"
    and "is_svc l' = is_svc l" and "lp_poll_enable l' = lp_poll_enable l"
proof -
  define l1 where "l1 = l\<lparr>lp_cb := (lp_cb l)(c := lp_cb l c OR LOOP_MASK), lp_list := lp_list l @ [c]\<rparr>"
  have "seen_in (lp_view l1) c = unseen"
    using assms(1,3) by (simp add: l1_def chans_ok_def chan_ok_def)
  note a = chans_ok_add [of l1 "listed l" w off c w, OF _ this]
  have l': "l' = process_add c (lc_fd (w c)) (lc_dcaps (w c)) l1" by (simp add: l'_def add_one_def l1_def assms(4))
  have f: "fds_ok l1 (insert c (listed l)) w" using assms(5) by (simp add: l1_def fds_ok_def)
  have 1: "chans_ok l' (insert c (listed l)) w (off - {c})" "same_frame l1 l'"
    unfolding l' using a f assms(1) by (simp_all add: l1_def)
  then show "chans_ok l' (insert c (listed l)) w (off - {c})" by simp
  show "lp_list l' = lp_list l @ [c]" using 1(2) by (simp add: same_frame_def l1_def)
  then show "distinct (lp_list l')" using assms(2,3) by simp
  show "is_svc l' = is_svc l" using same_frame_svc [OF 1(2)] by (simp add: l1_def)
  show "lp_poll_enable l' = lp_poll_enable l" using 1(2) by (simp add: same_frame_def l1_def)
qed

lemma add_all_ok:
  assumes "chans_ok l (listed l) w off" and "distinct (lp_list l)" and "distinct (map fst xs)" and "fst ` set xs \<inter> listed l = {}"
    and "\<forall>(c, fd, caps) \<in> set xs. w c = \<lparr>lc_fd = fd, lc_dcaps = caps\<rparr>" and "fds_ok l (listed l \<union> fst ` set xs) w"
  shows "chans_ok (fold add_one xs l) (listed (fold add_one xs l)) w (off - fst ` set xs) \<and> distinct (lp_list (fold add_one xs l)) \<and>
         listed (fold add_one xs l) = listed l \<union> fst ` set xs"
  using assms
proof (induction xs arbitrary: l off)
  case (Cons x xs)
  obtain c fd caps where x: "x = (c, fd, caps)" by (cases x)
  have "fds_ok l (insert c (listed l)) w" using Cons.prems(6) x by (auto simp: fds_ok_def)
  note o = add_one_ok [OF Cons.prems(1,2) _ _ this, of fd caps]
  have o: "chans_ok (add_one x l) (listed (add_one x l)) w (off - {c})" "distinct (lp_list (add_one x l))"
    "listed (add_one x l) = insert c (listed l)" "is_svc (add_one x l) = is_svc l"
    using o Cons.prems(4,5) x by auto
  let ?m = "fold add_one xs (add_one x l)"
  have "chans_ok ?m (listed ?m) w (off - {c} - fst ` set xs) \<and> distinct (lp_list ?m) \<and> listed ?m = listed (add_one x l) \<union> fst ` set xs"
    by (rule Cons.IH) (use o Cons.prems x in \<open>auto simp: fds_ok_def\<close>)
  then have m: "chans_ok ?m (listed ?m) w (off - {c} - fst ` set xs)" "distinct (lp_list ?m)"
    and li: "listed ?m = insert c (listed l) \<union> fst ` set xs" unfolding o(3) by blast+
  have "off - fst ` set (x # xs) = off - {c} - fst ` set xs" using x by auto
  then have "chans_ok ?m (listed ?m) w (off - fst ` set (x # xs))" using m(1) by (simp only:)
  then show ?case using m(2) li x by (simp only: fold_simps) auto
qed simp

lemma del_one_ok:
  fixes caps :: u32
  assumes "chans_ok l (listed l) w off" and "distinct (lp_list l)" and "c \<in> listed l" and "fd = lc_fd (w c)"
  defines "l' \<equiv> del_one (c, fd, caps) l"
  shows "chans_ok l' (listed l') w off" and "distinct (lp_list l')" and "listed l' = listed l - {c}"
proof -
  define l1 where "l1 = process_del c fd l"
  note d = chans_ok_del [OF assms(1,3), folded assms(4), folded l1_def]
  have l': "l' = l1\<lparr>lp_list := remove1 c (lp_list l), lp_cb := (lp_cb l1)(c := lp_cb l1 c AND NOT LOOP_MASK)\<rparr>"
    using d(3) by (simp add: l'_def del_one_def l1_def [symmetric] Let_def same_frame_def)
  show li: "listed l' = listed l - {c}" and "distinct (lp_list l')" using assms(2) by (simp_all add: l')
  have "chan_ok (lp_poll_enable l1) (listed l - {c}) w off (lp_view l1) e" for e
    using d(1,2) by (cases "e = c") (auto simp: chans_ok_def chan_ok_def split: if_splits)
  then show "chans_ok l' (listed l') w off"
    unfolding li using d(1) by (simp add: l' chans_ok_def fds_ok_def)
qed

lemma del_all_ok:
  assumes "chans_ok l (listed l) w off" and "distinct (lp_list l)" and "distinct (map fst xs)" and "fst ` set xs \<subseteq> listed l"
    and "\<forall>(c, fd, caps) \<in> set xs. fd = lc_fd (w c)"
  shows "chans_ok (fold del_one xs l) (listed (fold del_one xs l)) w off \<and> distinct (lp_list (fold del_one xs l)) \<and>
         listed (fold del_one xs l) = listed l - fst ` set xs"
  using assms
proof (induction xs arbitrary: l)
  case (Cons x xs)
  obtain c fd caps where x: "x = (c, fd, caps)" by (cases x)
  have o: "chans_ok (del_one x l) (listed (del_one x l)) w off" "distinct (lp_list (del_one x l))" "listed (del_one x l) = listed l - {c}"
    using del_one_ok [OF Cons.prems(1,2), of c fd caps] Cons.prems(4,5) x by auto
  have "chans_ok (fold del_one xs (del_one x l)) (listed (fold del_one xs (del_one x l))) w off \<and>
      distinct (lp_list (fold del_one xs (del_one x l))) \<and> listed (fold del_one xs (del_one x l)) = listed (del_one x l) - fst ` set xs"
  proof (rule Cons.IH [OF o(1,2)])
    show "distinct (map fst xs)" "\<forall>(c, fd, caps) \<in> set xs. fd = lc_fd (w c)" using Cons.prems(3,5) by simp_all
    show "fst ` set xs \<subseteq> listed (del_one x l)" using Cons.prems(3,4) o(3) x by auto
  qed
  then show ?case using o x by auto
qed simp

section \<open>The loop under any sequence of channel events\<close>

definition chan_node :: "(nat \<Rightarrow> lchan) \<Rightarrow> nat \<Rightarrow> lnode" where
  "chan_node w c = LNode c (lc_fd (w c)) (lc_dcaps (w c)) []"

definition fd_message :: "int \<Rightarrow> tll_msg" where
  "fd_message old = msg_empty\<lparr>m_type := MsgChannel, m_msgid := CHANNEL_UPDATE_FD, m_data := BFd old\<rparr>"

definition state_message :: "tll_state \<Rightarrow> tll_msg" where
  "state_message st = msg_empty\<lparr>m_type := MsgState, m_msgid := int (state_num st)\<rparr>"

text \<open>Channel \<open>c\<close>, now as \<open>w\<close> says, sends a message to the loop.\<close>

definition deliver :: "sys \<Rightarrow> (nat \<Rightarrow> lchan) \<Rightarrow> nat \<Rightarrow> tll_msg \<Rightarrow> nat set \<Rightarrow> sys" where
  "deliver s w c m off = \<lparr>sy_loop = loop_callback (chan_node w c) (chan_node w) m (sy_loop s), sy_ch = w, sy_off = off\<rparr>"

definition node_ids :: "lnode \<Rightarrow> nat set" where
  "node_ids n = fst ` set (flat_pre n)"

definition node_of :: "(nat \<Rightarrow> lchan) \<Rightarrow> lnode \<Rightarrow> bool" where
  "node_of w n \<longleftrightarrow> distinct (map fst (flat_pre n)) \<and> (\<forall>(c, fd, caps) \<in> set (flat_pre n). w c = \<lparr>lc_fd = fd, lc_dcaps = caps\<rparr>)"

text \<open>Registered channels change their caps and descriptors and move through their states, trees of channels are
  added and deleted. A channel that announces Opening is in no list: it was closed, which took it out, and its
  caps do not ask for processing yet.\<close>

inductive sys_step :: "sys \<Rightarrow> sys \<Rightarrow> bool" where
  step_dcaps: "c \<in> listed (sy_loop s) \<Longrightarrow> w = sy_ch s \<Longrightarrow>
     sys_step s (deliver s (w(c := (w c)\<lparr>lc_dcaps := caps\<rparr>)) c (update_message (lc_dcaps (w c)))
       (if need_process caps = wants w c then sy_off s else sy_off s - {c}))"
| step_fd: "c \<in> listed (sy_loop s) \<Longrightarrow> w = sy_ch s \<Longrightarrow> fds_ok (sy_loop s) (listed (sy_loop s)) (w(c := (w c)\<lparr>lc_fd := fd\<rparr>)) \<Longrightarrow>
     sys_step s (deliver s (w(c := (w c)\<lparr>lc_fd := fd\<rparr>)) c (fd_message (lc_fd (w c)))
       (if wants w c then sy_off s - {c} else sy_off s))"
| step_off: "c \<in> listed (sy_loop s) \<Longrightarrow> st = StClosed \<or> st = StError \<Longrightarrow>
     sys_step s (deliver s (sy_ch s) c (state_message st) (insert c (sy_off s)))"
| step_opening: "c \<in> listed (sy_loop s) \<Longrightarrow> seen_in (lp_view (sy_loop s)) c = unseen \<Longrightarrow>
     sys_step s (deliver s (sy_ch s) c (state_message StOpening) (sy_off s - {c}))"
| step_quiet: "st = StActive \<or> st = StClosing \<Longrightarrow> sys_step s (deliver s (sy_ch s) c (state_message st) (sy_off s))"
| step_add: "node_of w n \<Longrightarrow> node_ids n \<inter> listed (sy_loop s) = {} \<Longrightarrow> (\<forall>d \<in> listed (sy_loop s). w d = sy_ch s d) \<Longrightarrow>
     fds_ok (sy_loop s) (listed (sy_loop s) \<union> node_ids n) w \<Longrightarrow>
     sys_step s \<lparr>sy_loop = loop_add n (sy_loop s), sy_ch = w, sy_off = sy_off s - node_ids n\<rparr>"
| step_del: "node_of (sy_ch s) n \<Longrightarrow> node_ids n \<subseteq> listed (sy_loop s) \<Longrightarrow>
     sys_step s (s\<lparr>sy_loop := loop_del n (sy_loop s)\<rparr>)"

inductive sys_reach :: "bool \<Rightarrow> u32 \<Rightarrow> int \<Rightarrow> int \<Rightarrow> sys \<Rightarrow> bool" for poll steps pfd nfd where
  reach_init: "sys_reach poll steps pfd nfd \<lparr>sy_loop = loop_init poll steps pfd nfd, sy_ch = w, sy_off = {}\<rparr>"
| reach_step: "sys_reach poll steps pfd nfd s \<Longrightarrow> sys_step s s' \<Longrightarrow> sys_reach poll steps pfd nfd s'"

definition sys_inv :: "sys \<Rightarrow> bool" where
  "sys_inv s \<longleftrightarrow> distinct (lp_list (sy_loop s)) \<and> chans_ok (sy_loop s) (listed (sy_loop s)) (sy_ch s) (sy_off s)"

lemma callback_update: "loop_callback (chan_node w c) k (update_message old) l = loop_update c (lc_fd (w c)) (lc_dcaps (w c)) old l"
  and callback_fd: "loop_callback (chan_node w c) k (fd_message old') l = loop_update_fd c (lc_fd (w c)) (lc_dcaps (w c)) old' l"
  by (simp_all add: loop_callback_def chan_node_def update_message_def fd_message_def msg_empty_def)

lemma callback_state: "loop_callback (chan_node w c) k (state_message st) l =
    (if st = StOpening then process_add c (lc_fd (w c)) (lc_dcaps (w c)) l
     else if st = StClosed \<or> st = StError then process_del c (lc_fd (w c)) l
     else if st = StDestroy then loop_del (chan_node w c) l else l)"
  by (cases st) (simp_all add: loop_callback_def chan_node_def state_message_def msg_empty_def)

lemma flat_post_perm: "mset (flat_post n) = mset (flat_pre n)"
proof (induction n)
  case (LNode c fd caps ks)
  then have "mset (concat (map flat_post ks)) = mset (concat (map flat_pre ks))" by (induction ks) auto
  then show ?case by simp
qed

lemma flat_post_props: "distinct (map fst (flat_post n)) = distinct (map fst (flat_pre n))" "set (flat_post n) = set (flat_pre n)"
proof -
  show "set (flat_post n) = set (flat_pre n)" using flat_post_perm [of n] by (rule mset_eq_setD)
  have "mset (map fst (flat_post n)) = mset (map fst (flat_pre n))" using flat_post_perm [of n] by simp
  then show "distinct (map fst (flat_post n)) = distinct (map fst (flat_pre n))" by (rule mset_eq_imp_distinct_iff)
qed

lemma chans_ok_fd:
  assumes "chans_ok l L w off" and "c \<in> L" and "fds_ok l L (w(c := (w c)\<lparr>lc_fd := fd\<rparr>))"
  defines "l' \<equiv> loop_update_fd c fd (lc_dcaps (w c)) (lc_fd (w c)) l"
  shows "chans_ok l' L (w(c := (w c)\<lparr>lc_fd := fd\<rparr>)) (if wants w c then off - {c} else off)" and "same_frame l l'"
proof -
  let ?w = "w(c := (w c)\<lparr>lc_fd := fd\<rparr>)"
  have "chans_ok l' L ?w (if wants w c then off - {c} else off) \<and> same_frame l l'"
  proof (cases "wants w c")
    case True
    define l1 where "l1 = process_del c (lc_fd (w c)) l"
    note d = chans_ok_del [OF assms(1,2), folded l1_def]
    have f: "fds_ok l1 (insert c L) ?w" using assms(2,3) fds_ok_frame [OF d(3)] by (simp add: insert_absorb)
    note a = chans_ok_add [OF d(1,2) _ f, simplified]
    have "l' = process_add c fd (lc_dcaps (w c)) l1" using True by (simp add: l'_def loop_update_fd_def l1_def)
    then show ?thesis
      using a same_frame_trans [OF d(3)] True assms(2) by (simp add: insert_absorb)
  next
    case False
    then have "l' = l" by (simp add: l'_def loop_update_fd_def)
    moreover have "chan_ok (lp_poll_enable l) L ?w off (lp_view l) e" for e
    proof -
      have "chan_ok (lp_poll_enable l) L w off (lp_view l) e" using assms(1) by (simp add: chans_ok_def)
      then show ?thesis using False by (cases "e = c") (auto simp: chan_ok_def expected_def)
    qed
    ultimately show ?thesis using assms(1,3) False by (simp add: chans_ok_def)
  qed
  then show "chans_ok l' L ?w (if wants w c then off - {c} else off)" and "same_frame l l'" by simp_all
qed

lemma sys_step_inv: "sys_step s s' \<Longrightarrow> sys_inv s \<Longrightarrow> sys_inv s'"
proof (induction rule: sys_step.induct)
  case (step_dcaps c s w caps)
  then show ?case
    using chans_ok_update [of "sy_loop s" "listed (sy_loop s)" w "sy_off s" c caps]
    by (auto simp: sys_inv_def deliver_def callback_update same_frame_def)
next
  case (step_fd c s w fd)
  then show ?case
    using chans_ok_fd [of "sy_loop s" "listed (sy_loop s)" w "sy_off s" c fd]
    by (auto simp: sys_inv_def deliver_def callback_fd same_frame_def)
next
  case (step_off c s st)
  then show ?case
    using chans_ok_del [of "sy_loop s" "listed (sy_loop s)" "sy_ch s" "sy_off s" c]
    by (auto simp: sys_inv_def deliver_def callback_state same_frame_def)
next
  case (step_opening c s)
  then show ?case
    using chans_ok_add [of "sy_loop s" "listed (sy_loop s)" "sy_ch s" "sy_off s" c "sy_ch s"]
    by (auto simp: sys_inv_def deliver_def callback_state same_frame_def insert_absorb chans_ok_def)
next
  case (step_quiet st s c)
  then show ?case by (auto simp: sys_inv_def deliver_def callback_state)
next
  case (step_add w n s)
  have "chans_ok (sy_loop s) (listed (sy_loop s)) w (sy_off s)"
    using step_add.prems step_add.hyps(3,4) by (auto simp: sys_inv_def chans_ok_def chan_ok_def fds_ok_def)
  from add_all_ok [OF this, of "flat_pre n"] step_add
  have "chans_ok (loop_add n (sy_loop s)) (listed (loop_add n (sy_loop s))) w (sy_off s - node_ids n)"
    and "distinct (lp_list (loop_add n (sy_loop s)))"
    unfolding sys_inv_def loop_add_flat node_of_def node_ids_def by blast+
  then show ?case by (simp add: sys_inv_def)
next
  case (step_del s n)
  then show ?case
    using del_all_ok [of "sy_loop s" "sy_ch s" "sy_off s" "flat_post n"]
    by (fastforce simp: sys_inv_def loop_del_flat flat_post_props node_of_def node_ids_def)
qed

lemma loop_init_ok: "pfd \<noteq> nfd \<Longrightarrow> lp_ok (loop_init poll steps pfd nfd)"
  by (auto simp: lp_ok_def loop_init_def pls.good_def pl_trim_def pl_wf_def pl_new_def pl_items_def svc_ok_def epoll_init_def
      epoll_ctl_def ep_chans_def Let_def)

lemma sys_reach_inv: "sys_reach poll steps pfd nfd s \<Longrightarrow> pfd \<noteq> nfd \<Longrightarrow> sys_inv s"
proof (induction rule: sys_reach.induct)
  case (reach_init w)
  have "seen_in (lp_view (loop_init poll steps pfd nfd)) d = unseen" for d
    by (auto simp: seen_in_def lp_view_def loop_init_def pl_new_def pl_items_def ep_chans_def epoll_init_def epoll_ctl_def Let_def
        split: if_splits)
  then show ?case
    using loop_init_ok [OF reach_init] by (simp add: sys_inv_def chans_ok_def chan_ok_def fds_ok_def loop_init_def)
qed (blast intro: sys_step_inv)

section \<open>Iterating over a list\<close>

text \<open>Entries keep their index while pointers are added and other pointers are removed.\<close>

inductive pl_edit :: "nat \<Rightarrow> plist \<Rightarrow> plist \<Rightarrow> bool" for v where
  edit_refl: "pl_edit v l l"
| edit_add: "pl_edit v l m \<Longrightarrow> pl_edit v l (pl_add m u)"
| edit_del: "pl_edit v l m \<Longrightarrow> u \<noteq> v \<Longrightarrow> pl_edit v l (pl_del m u)"

definition pl_at :: "plist \<Rightarrow> nat \<Rightarrow> nat \<Rightarrow> bool" where
  "pl_at l k v \<longleftrightarrow> k < pl_size l \<and> pl_size l \<le> length (pl_list l) \<and> pl_list l ! k = Some v"

lemma pl_add_at: "pl_at l k v \<Longrightarrow> pl_at (pl_add l u) k v"
proof (cases "pl_find (pl_list l) (pl_size l) 0 u")
  case (Some i)
  assume "pl_at l k v"
  moreover have "pl_list l ! i = Some u \<or> pl_list l ! i = None" using pl_find_some [OF Some] by simp
  ultimately show ?thesis
    using Some by (cases "i = k") (auto simp: pl_at_def pl_add_def pl_insert_def)
qed (auto simp: pl_at_def pl_add_def pl_insert_def nth_append)

lemma pl_shrink_keeps: "k < n \<Longrightarrow> xs ! k \<noteq> None \<Longrightarrow> k < pl_shrink xs n"
  by (metis linorder_not_less pl_shrink_null)

lemma pl_del_at: "pl_at l k v \<Longrightarrow> u \<noteq> v \<Longrightarrow> pl_at (pl_del l u) k v"
proof -
  assume a: "pl_at l k v" and u: "u \<noteq> v"
  have e: "pl_at (pl_erase l u) k v"
  proof (cases "pl_index (pl_list l) (pl_size l) 0 u")
    case (Some i)
    then have "pl_list l ! i = Some u" using pl_index_some [OF Some] by simp
    then show ?thesis using a u Some by (cases "i = k") (auto simp: pl_at_def pl_erase_def)
  qed (use a in \<open>simp add: pl_erase_def\<close>)
  then show ?thesis
    using pl_shrink_keeps [of k "pl_size (pl_erase l u)" "pl_list (pl_erase l u)"]
      pl_shrink_le [of "pl_list (pl_erase l u)" "pl_size (pl_erase l u)"]
    by (auto simp: pl_at_def pl_del_def pl_erase_shrink_def Let_def)
qed

lemma pl_edit_at: "pl_edit v l m \<Longrightarrow> pl_at l k v \<Longrightarrow> pl_at m k v"
  by (induction rule: pl_edit.induct) (simp_all add: pl_add_at pl_del_at)

text \<open>A pass over the list as the sequence of channels it processes, with the state each finds.\<close>

inductive pass :: "(nat \<Rightarrow> u32 \<Rightarrow> 's loop_scheme \<Rightarrow> 's loop_scheme \<times> u32) \<Rightarrow> ('s loop_scheme \<Rightarrow> plist) \<Rightarrow> u32 \<Rightarrow>
    nat \<Rightarrow> 's loop_scheme \<Rightarrow> (nat \<times> u32) list \<Rightarrow> 's loop_scheme \<Rightarrow> bool" for pr sel flags where
  pass_end: "pl_size (sel s) \<le> i \<Longrightarrow> pass pr sel flags i s [] s"
| pass_null: "i < pl_size (sel s) \<Longrightarrow> pl_list (sel s) ! i = None \<Longrightarrow> pass pr sel flags (i + 1) s t s' \<Longrightarrow> pass pr sel flags i s t s'"
| pass_call: "i < pl_size (sel s) \<Longrightarrow> pl_list (sel s) ! i = Some c \<Longrightarrow> pr c flags s = (s1, e) \<Longrightarrow>
     pass pr sel flags (i + 1) s1 t s' \<Longrightarrow> pass pr sel flags i s ((c, e) # t) s'"

lemma u32_xor_zero: "(a :: u32) XOR b = 0 \<longleftrightarrow> a = b"
  unfolding u32_zero_iff by (auto simp: bit_xor_iff intro: bit_word_eqI)

lemma process_from_pass:
  "process_from pr sel flags i r s = Some y \<Longrightarrow>
   \<exists>t. pass pr sel flags i s t (fst y) \<and> (snd y = 0 \<longleftrightarrow> r = 0 \<and> (\<forall>x \<in> set t. snd x = EAGAIN_num))"
proof (erule process_from.raw_induct [where P = "\<lambda>pr sel flags i r s y.
    \<exists>t. pass pr sel flags i s t (fst y) \<and> (snd y = 0 \<longleftrightarrow> r = 0 \<and> (\<forall>x \<in> set t. snd x = EAGAIN_num))", rotated])
  fix pf :: "(nat \<Rightarrow> u32 \<Rightarrow> 'a loop_scheme \<Rightarrow> 'a loop_scheme \<times> u32) \<Rightarrow> ('a loop_scheme \<Rightarrow> plist) \<Rightarrow> u32 \<Rightarrow>
    nat \<Rightarrow> u32 \<Rightarrow> 'a loop_scheme \<Rightarrow> ('a loop_scheme \<times> u32) option" and pr sel flags i r s y
  assume IH: "\<And>pr sel flags i r s y. pf pr sel flags i r s = Some y \<Longrightarrow>
      \<exists>t. pass pr sel flags i s t (fst y) \<and> (snd y = 0 \<longleftrightarrow> r = 0 \<and> (\<forall>x \<in> set t. snd x = EAGAIN_num))"
    and eq: "(if i < pl_size (sel s)
      then (case pl_list (sel s) ! i of
              None \<Rightarrow> pf pr sel flags (i + 1) r s
            | Some c \<Rightarrow> (case pr c flags s of (s', e) \<Rightarrow> pf pr sel flags (i + 1) (r OR (e XOR EAGAIN_num)) s'))
      else Some (s, r)) = Some y"
  consider (stop) "\<not> i < pl_size (sel s)" | (null) "i < pl_size (sel s)" "pl_list (sel s) ! i = None"
    | (call) c where "i < pl_size (sel s)" "pl_list (sel s) ! i = Some c" by fastforce
  then show "\<exists>t. pass pr sel flags i s t (fst y) \<and> (snd y = 0 \<longleftrightarrow> r = 0 \<and> (\<forall>x \<in> set t. snd x = EAGAIN_num))"
  proof cases
    case stop
    then show ?thesis using eq by (intro exI [of _ "[]"]) (auto simp: not_less intro: pass_end)
  next
    case null
    then have "pf pr sel flags (i + 1) r s = Some y" using eq by simp
    then obtain t where "pass pr sel flags (i + 1) s t (fst y)"
      "snd y = 0 \<longleftrightarrow> r = 0 \<and> (\<forall>x \<in> set t. snd x = EAGAIN_num)" using IH by blast
    then show ?thesis using null pass_null by blast
  next
    case (call c)
    obtain s1 e where p: "pr c flags s = (s1, e)" by (cases "pr c flags s")
    have "pf pr sel flags (i + 1) (r OR (e XOR EAGAIN_num)) s1 = Some y" using eq call p by simp
    then obtain t where t: "pass pr sel flags (i + 1) s1 t (fst y)"
      "snd y = 0 \<longleftrightarrow> r OR (e XOR EAGAIN_num) = 0 \<and> (\<forall>x \<in> set t. snd x = EAGAIN_num)" using IH by blast
    moreover have "r OR (e XOR EAGAIN_num) = 0 \<longleftrightarrow> r = 0 \<and> e = EAGAIN_num" by (simp add: or_eq_0_iff u32_xor_zero)
    ultimately show ?thesis using pass_call [of i sel s c pr flags s1 e t "fst y"] call p
      by (intro exI [of _ "(c, e) # t"]) auto
  qed
qed

text \<open>As long as calls keep the size of the list below a bound, the pass ends.\<close>

lemma process_from_ends:
  assumes "\<And>c s. pl_size (sel s) \<le> n \<Longrightarrow> pl_size (sel (fst (pr c flags s))) \<le> n" and "pl_size (sel s) \<le> n"
  shows "process_from pr sel flags i r s \<noteq> None"
  using assms(2)
proof (induction "n - i" arbitrary: i r s)
  case 0
  then show ?case by (subst process_from.simps) simp
next
  case (Suc m)
  have m: "m = n - (i + 1)" using Suc.hyps(2) by simp
  show ?case
  proof (cases "i < pl_size (sel s)")
    case True
    show ?thesis
    proof (cases "pl_list (sel s) ! i")
      case None
      then show ?thesis using True Suc.hyps(1) [OF m Suc.prems] by (subst process_from.simps) simp
    next
      case (Some c)
      have "pl_size (sel (fst (pr c flags s))) \<le> n" using assms(1) Suc.prems by blast
      from Suc.hyps(1) [OF m this] show ?thesis
        using True Some by (subst process_from.simps) (simp add: split_beta)
    qed
  qed (subst process_from.simps, simp)
qed

text \<open>A channel that no call removes keeps its place, so the pass meets it.\<close>

lemma pass_meets:
  "pass pr sel flags i s t s' \<Longrightarrow> (\<And>c s. pl_edit v (sel s) (sel (fst (pr c flags s)))) \<Longrightarrow> pl_at (sel s) k v \<Longrightarrow> i \<le> k \<Longrightarrow> v \<in> fst ` set t"
proof (induction rule: pass.induct)
  case (pass_end s i)
  then show ?case by (simp add: pl_at_def)
next
  case (pass_null i s t s')
  then show ?case by (cases "i = k") (auto simp: pl_at_def)
next
  case (pass_call i s c s1 e t s')
  show ?case
  proof (cases "i = k")
    case True
    then show ?thesis using pass_call by (simp add: pl_at_def)
  next
    case False
    have "pl_at (sel s1) k v" using pl_edit_at [OF pass_call.prems(1)] pass_call by (metis fst_conv)
    then show ?thesis using False pass_call by simp
  qed
qed


text \<open>What processing a channel keeps, a pass keeps.\<close>

lemma pass_keeps: "pass pr sel flags i s t s' \<Longrightarrow> (\<And>c s. g (fst (pr c flags s)) = g s) \<Longrightarrow> g s' = g s"
  by (induction rule: pass.induct) (simp, simp, metis fst_conv)

lemma process_list_keeps:
  "process_list pr sel flags s = Some (s', r) \<Longrightarrow> (\<And>c s. g (fst (pr c flags s)) = g s) \<Longrightarrow> g s' = g s"
proof -
  assume "process_list pr sel flags s = Some (s', r)" and g: "\<And>c s. g (fst (pr c flags s)) = g s"
  then obtain q where "process_from pr sel flags 0 0 s = Some (s', q)" by (auto simp: process_list_def)
  from process_from_pass [OF this] obtain t where "pass pr sel flags 0 s t s'" by auto
  then show ?thesis using g by (rule pass_keeps)
qed

lemma stat_step_keeps [simp]:
  "lp_pending_count (stat_step dt s) = lp_pending_count s" "lp_pending_steps (stat_step dt s) = lp_pending_steps s"
  "lp_poll_enable (stat_step dt s) = lp_poll_enable s"
  by (simp_all add: stat_step_def split: option.split)

text \<open>A step that goes to the pending list without asking the poller.\<close>

definition skips_poll :: "'s loop_scheme \<Rightarrow> bool" where
  "skips_poll s \<longleftrightarrow> lp_pending_steps s \<noteq> 0 \<and> pl_size (lp_pending s) \<noteq> 0 \<and> lp_pending_count s < lp_pending_steps s"

lemma loop_poll_skip:
  assumes "loop_poll pr proc w dt s = Some (s', r)" and "lp_poll_enable s" and "skips_poll s"
    and "\<And>c fl s. lp_pending_count (fst (pr c fl s)) = lp_pending_count s \<and> lp_pending_steps (fst (pr c fl s)) = lp_pending_steps s \<and>
           lp_poll_enable (fst (pr c fl s)) = lp_poll_enable s"
  shows "lp_pending_count s' = lp_pending_count s + 1 \<and> lp_pending_steps s' = lp_pending_steps s \<and> lp_poll_enable s'"
proof -
  obtain q where "process_list pr lp_pending 0 (stat_step 0 (s\<lparr>lp_pending_count := lp_pending_count s + 1\<rparr>)) = Some (s', q)"
    using assms(1-3) by (auto simp: loop_poll_def skips_poll_def)
  from process_list_keeps [OF this, of "\<lambda>s. (lp_pending_count s, lp_pending_steps s, lp_poll_enable s)"]
  show ?thesis using assms(2,4) by simp
qed

section \<open>Properties of the loop\<close>



text \<open>C6: a pass over a list returns when calls keep the list below some size; it calls every channel that was in the
  list and is not removed during the pass, whatever is added or removed around it, and reports EAGAIN exactly
  when every channel it called did.\<close>

theorem process_list_complete:
  assumes "\<And>c s. pl_size (sel s) \<le> n \<Longrightarrow> pl_size (sel (fst (pr c flags s))) \<le> n" and "pl_size (sel s) \<le> n"
    and "pl_wf (sel s)" and "v \<in> set (pl_items (sel s))" and "\<And>c s. pl_edit v (sel s) (sel (fst (pr c flags s)))"
  shows "\<exists>s' r t. process_list pr sel flags s = Some (s', r) \<and> pass pr sel flags 0 s t s' \<and> v \<in> fst ` set t \<and>
           r = (if \<forall>x \<in> set t. snd x = EAGAIN_num then EAGAIN_num else 0)"
proof -
  obtain s' q where p: "process_from pr sel flags 0 0 s = Some (s', q)"
    using process_from_ends [of sel n pr flags s 0 0] assms(1,2) by auto
  obtain t where t: "pass pr sel flags 0 s t s'" "q = 0 \<longleftrightarrow> (\<forall>x \<in> set t. snd x = EAGAIN_num)"
    using process_from_pass [OF p] by auto
  obtain k where "pl_at (sel s) k v" using assms(3,4) pl_items_iff by (auto simp: pl_at_def pl_wf_def)
  then have "v \<in> fst ` set t" using pass_meets [OF t(1) assms(5)] by simp
  then show ?thesis using p t by (auto simp: process_list_def)
qed

theorem process_list_complete_witness:
  "\<exists>s' r t. process_list (\<lambda>c fl s. (s, EAGAIN_num)) lp_process 0
       ((loop_init False 0 0 0)\<lparr>lp_process := \<lparr>pl_list = [Some 1, None, Some 2], pl_size = 3\<rparr>\<rparr>) = Some (s', r) \<and>
     pass (\<lambda>c fl s. (s, EAGAIN_num)) lp_process 0 0
       ((loop_init False 0 0 0)\<lparr>lp_process := \<lparr>pl_list = [Some 1, None, Some 2], pl_size = 3\<rparr>\<rparr>) t s' \<and> 2 \<in> fst ` set t \<and>
     r = (if \<forall>x \<in> set t. snd x = EAGAIN_num then EAGAIN_num else 0)"
  by (rule process_list_complete [of lp_process 3])
    (simp_all add: pl_wf_def pl_items_def edit_refl)

text \<open>C30: pending channels cannot starve the others: among any \<open>pending-steps + 1\<close> steps of a polling loop, one asks
  the poller, provided that processing channels does not touch the counters.\<close>

theorem loop_asks_poller:
  assumes "\<And>k. \<exists>r. loop_poll pr proc (w k) (dt k) (f k) = Some (f (Suc k), r)" and "lp_poll_enable (f 0)"
    and "\<And>c fl s. lp_pending_count (fst (pr c fl s)) = lp_pending_count s \<and> lp_pending_steps (fst (pr c fl s)) = lp_pending_steps s \<and>
           lp_poll_enable (fst (pr c fl s)) = lp_poll_enable s"
  shows "\<exists>k \<le> unat (lp_pending_steps (f 0)). lp_poll_enable (f k) \<and> \<not> skips_poll (f k)"
proof (rule ccontr)
  let ?n = "lp_pending_steps (f 0)"
  assume "\<not> ?thesis"
  then have n: "k \<le> unat ?n \<Longrightarrow> lp_poll_enable (f k) \<Longrightarrow> skips_poll (f k)" for k by blast
  have "k \<le> unat ?n \<Longrightarrow> k \<le> unat (lp_pending_count (f k)) \<and> lp_pending_steps (f k) = ?n \<and> lp_poll_enable (f k)" for k
  proof (induction k)
    case (Suc k)
    then have k: "k \<le> unat (lp_pending_count (f k))" "lp_pending_steps (f k) = ?n" "lp_poll_enable (f k)" by simp_all
    have sk: "skips_poll (f k)" using n Suc.prems k(3) by simp
    obtain r where "loop_poll pr proc (w k) (dt k) (f k) = Some (f (Suc k), r)" using assms(1) by blast
    note next_k = loop_poll_skip [OF this k(3) sk assms(3)]
    have "lp_pending_count (f k) < ?n" using sk k(2) by (simp add: skips_poll_def)
    then have "unat (lp_pending_count (f k) + 1) = unat (lp_pending_count (f k)) + 1"
      using unsigned_less [of ?n, where ?'a = nat] by (simp add: word_less_nat_alt unat_word_ariths)
    then show ?case using next_k k by simp
  qed (use assms(2) in simp)
  from this [of "unat ?n"] have "\<not> lp_pending_count (f (unat ?n)) < lp_pending_steps (f (unat ?n))" "lp_poll_enable (f (unat ?n))"
    by (simp_all add: word_less_nat_alt)
  then show False using n [of "unat ?n"] by (simp add: skips_poll_def)
qed

text \<open>A loop with one channel that is always pending.\<close>

abbreviation busy_loop :: "nat \<Rightarrow> loop" where
  "busy_loop k \<equiv> (loop_init True 8 3 4)\<lparr>lp_pending := \<lparr>pl_list = [Some 1], pl_size = 1\<rparr>, lp_pending_count := word_of_nat (k mod 9)\<rparr>"

lemma busy_loop_step: "\<exists>r. loop_poll (\<lambda>c fl s. (s, 0)) True WaitNone 0 (busy_loop k) = Some (busy_loop (Suc k), r)"
proof -
  have p: "process_list (\<lambda>c fl s. (s, 0)) lp_pending 0 (busy_loop j) = Some (busy_loop j, 0)" for j
    by (simp add: process_list_def process_from.simps EAGAIN_num_def loop_init_def)
  have "k mod 9 < 9" by simp
  then consider "k mod 9 = 8" | "k mod 9 < 8" by linarith
  then show ?thesis
  proof cases
    case 1
    then have "Suc k mod 9 = 0" by (simp add: mod_Suc)
    then show ?thesis using 1 by (simp add: loop_poll_def loop_init_def stat_step_def)
  next
    case 2
    then have s: "Suc k mod 9 = Suc (k mod 9)" by (simp add: mod_Suc)
    have "(word_of_nat (k mod 9) :: u32) < 8" using 2 by (simp add: word_less_nat_alt unat_of_nat)
    moreover have "(busy_loop k)\<lparr>lp_pending_count := lp_pending_count (busy_loop k) + 1\<rparr> = busy_loop (Suc k)"
      using s by (simp add: loop_init_def)
    ultimately show ?thesis
      using p [of "Suc k"] by (simp add: loop_poll_def stat_step_def loop_init_def)
  qed
qed

theorem loop_asks_poller_witness:
  "\<exists>k \<le> unat (lp_pending_steps (busy_loop 0)). lp_poll_enable (busy_loop k) \<and> \<not> skips_poll (busy_loop k)"
  by (rule loop_asks_poller [where w = "\<lambda>k. WaitNone" and dt = "\<lambda>k. 0" and f = busy_loop, OF busy_loop_step])
    (simp_all add: loop_init_def)

end
