(* ===== verification/Conv.thy ===== *)
theory Conv
  imports Prelude
begin

text \<open>
  Text conversions: integers (\<open>src/tll/conv/integer.h\<close>), booleans and enumerations (\<open>src/tll/conv/base.h\<close>), sizes with
  suffixes (\<open>src/tll/util/size.h\<close>) and host:port pairs (\<open>src/tll/util/hostport.h\<close>). Unsigned integers of \<open>w\<close> bits are natural
  numbers below \<open>2 ^ w\<close> with the wrap-around written out; signed ones are integers.
\<close>

section \<open>Parsing integers\<close>

datatype conv_error = EmptyString | InvalidDigit | ConvOverflow | InvalidBool | NoMatches | MissingValue | InvalidValue
  | EmptyValue | NoDigits | InvalidSuffix | NoSeparator | InvalidPort

type_synonym 'a conv = "conv_error + 'a"

abbreviation chr :: "char \<Rightarrow> nat" where
  "chr c \<equiv> of_char c"

definition digit_decode10 :: "char \<Rightarrow> nat" where
  "digit_decode10 c = (if chr c < 48 \<or> 57 < chr c then 10 else chr c - 48)"

text \<open>The lookup table of the hexadecimal digits.\<close>

definition digit_decode16 :: "char \<Rightarrow> nat" where
  "digit_decode16 c =
     (let n = chr c in
      if 48 \<le> n \<and> n \<le> 57 then n - 48
      else if 65 \<le> n \<and> n \<le> 70 then n - 55
      else if 97 \<le> n \<and> n \<le> 102 then n - 87
      else 16)"

definition digit_decode :: "nat \<Rightarrow> char \<Rightarrow> nat" where
  "digit_decode base c = (if base = 16 then digit_decode16 c else digit_decode10 c)"

definition uint_threshold :: "nat \<Rightarrow> nat \<Rightarrow> nat" where
  "uint_threshold limit base = (if base < limit div base then limit div base - base else 0)"

text \<open>The loop over the digits: \<open>r\<close> is kept modulo \<open>2 ^ w\<close>.\<close>

fun uint_loop :: "nat \<Rightarrow> nat \<Rightarrow> nat \<Rightarrow> string \<Rightarrow> nat \<Rightarrow> nat conv" where
  "uint_loop w limit base [] r = Inr r"
| "uint_loop w limit base (c # cs) r =
     (let x = digit_decode base c in
      if x = base then Inl InvalidDigit
      else
        let r' = (base * r + x) mod 2 ^ w in
        if uint_threshold limit base < r \<and> (r' < r \<or> limit < r') then Inl ConvOverflow
        else uint_loop w limit base cs r')"

definition to_any_uint_base :: "nat \<Rightarrow> nat \<Rightarrow> nat \<Rightarrow> string \<Rightarrow> nat conv" where
  "to_any_uint_base w limit base s = (if s = [] then Inl EmptyString else uint_loop w limit base s 0)"

definition to_any_uint :: "nat \<Rightarrow> nat \<Rightarrow> string \<Rightarrow> nat conv" where
  "to_any_uint w limit s =
     (if 2 < length s \<and> s ! 0 = CHR ''0'' \<and> (s ! 1 = CHR ''x'' \<or> s ! 1 = CHR ''X'')
      then to_any_uint_base w limit 16 (drop 2 s)
      else to_any_uint_base w limit 10 s)"

definition to_any_sint :: "nat \<Rightarrow> string \<Rightarrow> int conv" where
  "to_any_sint w s =
     (case s of
        [] \<Rightarrow> Inl EmptyString
      | c # cs \<Rightarrow>
          if c = CHR ''-''
          then map_sum id (\<lambda>r. - int r) (to_any_uint w (2 ^ (w - 1)) cs)
          else map_sum id int (to_any_uint w (2 ^ (w - 1) - 1) (if c = CHR ''+'' then cs else s)))"

definition to_any_int :: "bool \<Rightarrow> nat \<Rightarrow> string \<Rightarrow> int conv" where
  "to_any_int signd w s = (if signd then to_any_sint w s else map_sum id int (to_any_uint w (2 ^ w - 1) s))"

section \<open>Printing integers\<close>

text \<open>The digits are written backwards from the end of the buffer; \<open>None\<close> is a write in front of it.\<close>

definition hex_lookup :: "nat \<Rightarrow> char" where
  "hex_lookup n = ''0123456789abcdef'' ! n"

fun print10_loop :: "nat \<Rightarrow> nat \<Rightarrow> string \<Rightarrow> string option" where
  "print10_loop 0 v acc = None"
| "print10_loop (Suc room) v acc =
     (let acc = char_of (48 + v mod 10) # acc; v = v div 10
      in if v \<noteq> 0 then print10_loop room v acc else Some acc)"

definition to_string_buf_uint10 :: "nat \<Rightarrow> nat \<Rightarrow> string option" where
  "to_string_buf_uint10 w v = print10_loop (1 + w div 8 * 3) v []"

text \<open>Base 16: two digits for a byte, at most \<open>w / 8\<close> times.\<close>

fun print16_loop :: "nat \<Rightarrow> nat \<Rightarrow> string \<Rightarrow> string" where
  "print16_loop 0 v acc = acc"
| "print16_loop (Suc n) v acc =
     (let acc = hex_lookup (v mod 256 div 16) # hex_lookup (v mod 16) # acc; v = v div 256
      in if v = 0 then acc else print16_loop n v acc)"

definition to_string_buf_uint16 :: "nat \<Rightarrow> nat \<Rightarrow> string" where
  "to_string_buf_uint16 w v = print16_loop (w div 8) v []"

text \<open>A signed value is negated in its own type: for the smallest value of a type that is not promoted to a
  wider one (32 bits and more) the negation overflows, which is undefined (\<open>None\<close>).\<close>

definition to_string_buf_int :: "bool \<Rightarrow> nat \<Rightarrow> int \<Rightarrow> string option" where
  "to_string_buf_int signd w v =
     (if \<not> signd \<or> 0 \<le> v then to_string_buf_uint10 w (nat v)
      else if 32 \<le> w \<and> v = - (2 ^ (w - 1)) then None
      else Option.bind (to_string_buf_uint10 w (nat (- v))) (\<lambda>r.
             if length r < 1 + w div 8 * 3 then Some (CHR ''-'' # r) else None))"

section \<open>Other values\<close>

definition bool_to_string :: "bool \<Rightarrow> string" where
  "bool_to_string b = (if b then ''true'' else ''false'')"

definition bool_to_any :: "string \<Rightarrow> bool conv" where
  "bool_to_any s =
     (if s = ''true'' \<or> s = ''yes'' \<or> s = ''1'' then Inr True
      else if s = ''false'' \<or> s = ''no'' \<or> s = ''0'' then Inr False
      else Inl InvalidBool)"

definition conv_select :: "string \<Rightarrow> (string \<times> 'a) list \<Rightarrow> 'a conv" where
  "conv_select s m = (case map_of m s of None \<Rightarrow> Inl NoMatches | Some v \<Rightarrow> Inr v)"

definition optional_to_any :: "(string \<Rightarrow> 'a conv) \<Rightarrow> string \<Rightarrow> 'a option conv" where
  "optional_to_any p s = (if s = [] then Inr None else map_sum id Some (p s))"

text \<open>Sizes with suffixes, for \<open>size_t\<close>.\<close>

definition size_suffix :: "nat \<Rightarrow> nat \<times> string" where
  "size_suffix v =
     (if v mod (1024 * 1024 * 1024) = 0 then (1024 * 1024 * 1024, ''gb'')
      else if v mod (1024 * 1024) = 0 then (1024 * 1024, ''mb'')
      else if v mod 1024 = 0 then (1024, ''kb'')
      else (1, ''b''))"

definition size_to_string :: "nat \<Rightarrow> string option" where
  "size_to_string v = (case size_suffix v of (d, s) \<Rightarrow> map_option (\<lambda>r. r @ s) (to_string_buf_uint10 64 (v div d)))"

definition find_last_not_of :: "string \<Rightarrow> string \<Rightarrow> nat option" where
  "find_last_not_of chars s =
     (case dropWhile (\<lambda>c. c \<in> set chars) (rev s) of [] \<Rightarrow> None | _ # cs \<Rightarrow> Some (length cs))"

definition size_scale :: "nat \<Rightarrow> string \<Rightarrow> nat conv" where
  "size_scale v suffix =
     (if suffix = ''b'' then Inr v
      else if suffix = ''kb'' then Inr (v * 1024 mod 2 ^ 64)
      else if suffix = ''mb'' then Inr (v * (1024 * 1024) mod 2 ^ 64)
      else if suffix = ''gb'' then Inr (v * (1024 * 1024 * 1024) mod 2 ^ 64)
      else if suffix = ''bit'' then Inr (v div 8)
      else if suffix = ''kbit'' then Inr (v * (1024 div 8) mod 2 ^ 64)
      else if suffix = ''mbit'' then Inr (v * (1024 * 1024 div 8) mod 2 ^ 64)
      else if suffix = ''gbit'' then Inr (v * (1024 * 1024 * 1024 div 8) mod 2 ^ 64)
      else Inl InvalidSuffix)"

definition size_to_any :: "string \<Rightarrow> nat conv" where
  "size_to_any s =
     (if s = [] then Inl EmptyValue
      else
        case find_last_not_of ''kmgbit'' s of
          None \<Rightarrow> Inl NoDigits
        | Some sep \<Rightarrow>
            (case to_any_uint 64 (2 ^ 64 - 1) (take (sep + 1) s) of
               Inl e \<Rightarrow> Inl e
             | Inr v \<Rightarrow> size_scale v (drop (sep + 1) s)))"

text \<open>Host and port.\<close>

datatype address_family = AF_UNSPEC | AF_INET | AF_INET6 | AF_UNIX

record hostport =
  hp_af :: address_family
  hp_host :: string
  hp_port :: nat

definition hostport_set_af :: "hostport \<Rightarrow> address_family \<Rightarrow> errno + hostport" where
  "hostport_set_af h v =
     (if v = AF_UNSPEC then Inr h
      else if hp_af h \<noteq> AF_UNSPEC \<and> hp_af h \<noteq> v then Inl EINVAL
      else Inr (h\<lparr>hp_af := v\<rparr>))"

definition find_last_of :: "char \<Rightarrow> string \<Rightarrow> nat option" where
  "find_last_of c s = (case dropWhile (\<lambda>d. d \<noteq> c) (rev s) of [] \<Rightarrow> None | _ # cs \<Rightarrow> Some (length cs))"

definition parse_hostport :: "string \<Rightarrow> address_family \<Rightarrow> hostport conv" where
  "parse_hostport host af =
     (let af = (if af = AF_UNSPEC \<and> CHR ''/'' \<in> set host then AF_UNIX else af) in
      if af = AF_UNIX then Inr \<lparr>hp_af = af, hp_host = host, hp_port = 0\<rparr>
      else
        case find_last_of (CHR '':'') host of
          None \<Rightarrow> Inl NoSeparator
        | Some sep \<Rightarrow>
            (case to_any_uint 16 (2 ^ 16 - 1) (drop (sep + 1) host) of
               Inl e \<Rightarrow> Inl InvalidPort
             | Inr p \<Rightarrow> Inr \<lparr>hp_af = af, hp_host = take sep host, hp_port = p\<rparr>))"

text \<open>A host:port from a property set \<open>g\<close>: one value, or host and port or path under their own keys.\<close>

definition get_hostport :: "(string \<Rightarrow> string option) \<Rightarrow> string \<Rightarrow> hostport option conv" where
  "get_hostport g key =
     (case g key of
        Some (c # v) \<Rightarrow> map_sum id Some (parse_hostport (c # v) AF_UNSPEC)
      | _ \<Rightarrow>
          (case g (key @ ''.host'') of
             Some (c # host) \<Rightarrow>
               (case g (key @ ''.port'') of
                  Some (d # port) \<Rightarrow>
                    (case to_any_uint 16 (2 ^ 16 - 1) (d # port) of
                       Inl e \<Rightarrow> Inl InvalidPort
                     | Inr p \<Rightarrow> Inr (Some \<lparr>hp_af = (if CHR '':'' \<in> set (c # host) then AF_INET6 else AF_UNSPEC),
                                         hp_host = c # host, hp_port = p\<rparr>))
                | _ \<Rightarrow> Inl InvalidPort)
           | _ \<Rightarrow>
               (case g (key @ ''.path'') of
                  Some (c # path) \<Rightarrow> Inr (Some \<lparr>hp_af = AF_UNIX, hp_host = c # path, hp_port = 0\<rparr>)
                | _ \<Rightarrow> Inr None)))"

section \<open>Integers as numerals\<close>

text \<open>The value of a string of digits.\<close>

definition numeral_from :: "nat \<Rightarrow> nat \<Rightarrow> string \<Rightarrow> nat" where
  "numeral_from base r s = foldl (\<lambda>r c. base * r + digit_decode base c) r s"

definition numeral_ok :: "nat \<Rightarrow> string \<Rightarrow> bool" where
  "numeral_ok base s \<longleftrightarrow> s \<noteq> [] \<and> (\<forall>c \<in> set s. digit_decode base c < base)"

lemma numeral_from_simps [simp]:
  "numeral_from base r [] = r" "numeral_from base r (c # s) = numeral_from base (base * r + digit_decode base c) s"
  "numeral_from base r (s @ t) = numeral_from base (numeral_from base r s) t"
  by (simp_all add: numeral_from_def)

lemma numeral_from_ge: "0 < base \<Longrightarrow> r \<le> numeral_from base r s"
proof (induction s arbitrary: r)
  case (Cons c s)
  have "r \<le> base * r + digit_decode base c" using Cons.prems by (simp add: trans_le_add1)
  also have "\<dots> \<le> numeral_from base (base * r + digit_decode base c) s" using Cons by simp
  finally show ?case by simp
qed simp

text \<open>The overflow check never refuses a numeral up to the limit.\<close>

lemma uint_loop_exact:
  assumes "\<forall>c \<in> set s. digit_decode base c < base" and "numeral_from base r s \<le> limit" and "limit < 2 ^ w" and "0 < base"
  shows "uint_loop w limit base s r = Inr (numeral_from base r s)"
  using assms
proof (induction s arbitrary: r)
  case (Cons c s)
  let ?r = "base * r + digit_decode base c"
  have "?r \<le> limit" using Cons.prems numeral_from_ge [of base ?r s] by simp
  then have m: "?r mod 2 ^ w = ?r" using Cons.prems(3) by simp
  have "r \<le> ?r" using Cons.prems(4) by (simp add: trans_le_add1)
  then show ?case using Cons m \<open>?r \<le> limit\<close> by (simp add: Let_def)
qed simp

text \<open>What it does accept is within the limit, and right modulo \<open>2 ^ w\<close>.\<close>

lemma uint_threshold_le: "r \<le> uint_threshold limit base \<Longrightarrow> 0 < r \<Longrightarrow> x < base \<Longrightarrow> base * r + x \<le> limit"
proof -
  assume r: "r \<le> uint_threshold limit base" "0 < r" and x: "x < base"
  then have "r + base \<le> limit div base" by (auto simp: uint_threshold_def split: if_splits)
  then have "base * (r + base) \<le> base * (limit div base)" by simp
  also have "\<dots> \<le> limit" by (simp add: mult.commute)
  finally have "base * r + base * base \<le> limit" by (simp add: distrib_left)
  moreover have "x \<le> base * base" using x by (metis less_imp_le_nat le_square order_trans)
  ultimately show ?thesis by linarith
qed

lemma uint_loop_sound:
  assumes "uint_loop w limit base s r = Inr v" and "r \<le> limit" and "base \<le> limit" and "limit < 2 ^ w"
    and "\<And>c. digit_decode base c \<le> base"
  shows "v \<le> limit \<and> (\<forall>c \<in> set s. digit_decode base c < base) \<and> v mod 2 ^ w = numeral_from base r s mod 2 ^ w"
  using assms
proof (induction s arbitrary: r)
  case (Cons c s)
  let ?x = "digit_decode base c"
  let ?r = "(base * r + ?x) mod 2 ^ w"
  have x: "?x < base" using Cons.prems(1) Cons.prems(5) [of c] by (auto simp: Let_def split: if_splits)
  have l: "uint_loop w limit base s ?r = Inr v" using Cons.prems(1) by (auto simp: Let_def split: if_splits)
  have "?r \<le> limit"
  proof (cases "uint_threshold limit base < r")
    case True
    then show ?thesis using Cons.prems(1) by (auto simp: Let_def split: if_splits)
  next
    case False
    then have "base * r + ?x \<le> limit"
      using uint_threshold_le [of r limit base ?x] x Cons.prems(3) by (cases "r = 0") auto
    then show ?thesis by (meson mod_less_eq_dividend order_trans)
  qed
  from Cons.IH [OF l this Cons.prems(3,4,5)] have IH: "v \<le> limit" "\<forall>c \<in> set s. digit_decode base c < base"
    "v mod 2 ^ w = numeral_from base ?r s mod 2 ^ w" by simp_all
  have "numeral_from base (a mod 2 ^ w) s mod 2 ^ w = numeral_from base a s mod 2 ^ w" for a
  proof (induction s arbitrary: a)
    case (Cons d s)
    have "numeral_from base (base * (a mod 2 ^ w) + digit_decode base d) s mod 2 ^ w =
        numeral_from base ((base * (a mod 2 ^ w) + digit_decode base d) mod 2 ^ w) s mod 2 ^ w" using Cons.IH by simp
    also have "\<dots> = numeral_from base ((base * a + digit_decode base d) mod 2 ^ w) s mod 2 ^ w"
      by (simp add: mod_add_left_eq [symmetric, of "base * _"] mod_mult_right_eq)
    also have "\<dots> = numeral_from base (base * a + digit_decode base d) s mod 2 ^ w" using Cons.IH by simp
    finally show ?case by simp
  qed simp
  then show ?case using IH x by simp
qed simp

lemma to_any_uint_dec:
  assumes "numeral_ok 10 s" and "numeral_from 10 0 s \<le> limit" and "limit < 2 ^ w"
  shows "to_any_uint w limit s = Inr (numeral_from 10 0 s)"
proof -
  have "\<not> (2 < length s \<and> s ! 0 = CHR ''0'' \<and> (s ! 1 = CHR ''x'' \<or> s ! 1 = CHR ''X''))"
  proof
    assume a: "2 < length s \<and> s ! 0 = CHR ''0'' \<and> (s ! 1 = CHR ''x'' \<or> s ! 1 = CHR ''X'')"
    then have "digit_decode 10 (s ! 1) < 10" using assms(1) nth_mem [of 1 s] by (simp add: numeral_ok_def)
    then show False using a by (auto simp: digit_decode_def digit_decode10_def)
  qed
  moreover have "to_any_uint_base w limit 10 s = Inr (numeral_from 10 0 s)"
    using assms uint_loop_exact [of s 10 0 limit w] by (simp add: to_any_uint_base_def numeral_ok_def)
  ultimately show ?thesis by (simp only: to_any_uint_def if_False)
qed

text \<open>The printed numeral.\<close>

lemma chr_digit: "d < 10 \<Longrightarrow> digit_decode 10 (char_of (48 + d)) = d"
  by (simp add: digit_decode_def digit_decode10_def)

lemma print10_loop_ok:
  "v < 10 ^ room \<Longrightarrow> 0 < room \<Longrightarrow> \<exists>s. print10_loop room v acc = Some (s @ acc) \<and> numeral_ok 10 s \<and> numeral_from 10 0 s = v \<and> length s \<le> room \<and>
     (v \<noteq> 0 \<longrightarrow> hd s \<noteq> CHR ''0'')"
proof (induction room v acc rule: print10_loop.induct)
  case (2 room v acc)
  let ?c = "char_of (48 + v mod 10) :: char"
  have d: "digit_decode 10 ?c = v mod 10" using chr_digit [of "v mod 10"] by simp
  show ?case
  proof (cases "v div 10 = 0")
    case True
    have z: "digit_decode 10 (CHR ''0'') = 0" by (simp add: digit_decode_def digit_decode10_def)
    have "v mod 10 \<noteq> 0" if "v \<noteq> 0" using True that div_mult_mod_eq [of v 10] by linarith
    then have "?c \<noteq> CHR ''0''" if "v \<noteq> 0" using that d z by metis
    then show ?thesis using True d by (intro exI [of _ "[?c]"]) (auto simp: Let_def numeral_ok_def)
  next
    case False
    have "v div 10 < 10 ^ room" using "2.prems"(1) by (simp add: less_mult_imp_div_less mult.commute)
    moreover have "0 < room" using False \<open>v div 10 < 10 ^ room\<close> by (cases room) auto
    ultimately obtain s where s: "print10_loop room (v div 10) (?c # acc) = Some (s @ ?c # acc)" "numeral_ok 10 s"
      "numeral_from 10 0 s = v div 10" "length s \<le> room" "hd s \<noteq> CHR ''0''"
      using "2.IH" [of "?c # acc" "v div 10"] False by auto
    have "numeral_from 10 0 (s @ [?c]) = v" using s(3) d by simp
    moreover have "numeral_ok 10 (s @ [?c])" using s(2) d by (auto simp: numeral_ok_def)
    moreover have "hd (s @ [?c]) \<noteq> CHR ''0''" using s(2,5) by (simp add: numeral_ok_def)
    ultimately show ?thesis using s False by (intro exI [of _ "s @ [?c]"]) (auto simp: Let_def)
  qed
qed simp

lemma width_room: "8 dvd w \<Longrightarrow> 2 ^ w \<le> (10 :: nat) ^ (w div 8 * 3)"
proof -
  assume "8 dvd w"
  then obtain k where w: "w = 8 * k" by auto
  have "(2 :: nat) ^ w = 256 ^ k" by (simp add: w power_mult)
  also have "\<dots> \<le> 1000 ^ k" by (rule power_mono) simp_all
  also have "\<dots> = 10 ^ (w div 8 * 3)" by (simp add: w power_mult mult.commute [of k])
  finally show ?thesis .
qed

lemma print10_uint:
  assumes "8 dvd w" and "v < 2 ^ w" and "0 < w"
  shows "\<exists>s. to_string_buf_uint10 w v = Some s \<and> numeral_ok 10 s \<and> numeral_from 10 0 s = v \<and> length s < 1 + w div 8 * 3 \<and>
     (v \<noteq> 0 \<longrightarrow> hd s \<noteq> CHR ''0'')"
proof -
  let ?n = "w div 8 * 3"
  have v: "v < 10 ^ ?n" using assms width_room [of w] by simp
  then have "v < 10 ^ (1 + ?n)" by simp
  then obtain s where s: "print10_loop (1 + ?n) v [] = Some s" "numeral_ok 10 s" "numeral_from 10 0 s = v" "v \<noteq> 0 \<longrightarrow> hd s \<noteq> CHR ''0''"
    using print10_loop_ok [of v "1 + ?n" "[]"] by auto
  moreover have "length s \<le> ?n"
  proof -
    have n: "0 < ?n" using assms(1,3) by (auto elim!: dvdE)
    obtain t where "print10_loop ?n v [] = Some t" "length t \<le> ?n" using print10_loop_ok [of v ?n "[]"] v n by auto
    moreover have "print10_loop a v acc = Some t \<Longrightarrow> print10_loop (a + 1) v acc = Some t" for a v acc t
      by (induction a v acc rule: print10_loop.induct) (auto simp: Let_def split: if_splits)
    ultimately show ?thesis using s(1) by (metis add.commute option.inject)
  qed
  ultimately show ?thesis by (auto simp: to_string_buf_uint10_def)
qed

text \<open>Sizes are printed with the largest unit that divides them, and read back.\<close>

lemma find_last_not_of_append:
  assumes "set suf \<subseteq> set chars" and "s \<noteq> []" and "last s \<notin> set chars"
  shows "find_last_not_of chars (s @ suf) = Some (length s - 1)"
proof -
  have "dropWhile (\<lambda>c. c \<in> set chars) (rev suf @ rev s) = rev s"
    using assms by (subst dropWhile_append2) (auto simp: dropWhile_eq_self_iff hd_rev)
  then show ?thesis using assms(2) by (cases "rev s") (auto simp: find_last_not_of_def)
qed

lemma digit_not_suffix: "digit_decode 10 c < 10 \<Longrightarrow> c \<notin> set ''kmgbit''"
  by (auto simp: digit_decode_def digit_decode10_def split: if_splits)

lemma size_roundtrip:
  assumes "v < 2 ^ 64"
  shows "\<exists>s. size_to_string v = Some s \<and> size_to_any s = Inr v"
proof -
  obtain d suf where ds: "size_suffix v = (d, suf)" by (cases "size_suffix v")
  then have d: "d dvd v" "0 < d" and suf: "set suf \<subseteq> set ''kmgbit''" and sc: "\<And>n. n * d < 2 ^ 64 \<Longrightarrow> size_scale n suf = Inr (n * d)"
    by (auto simp: size_suffix_def size_scale_def split: if_splits)
  have dv: "v div d * d = v" using d by simp
  then have lt: "v div d < 2 ^ 64" using assms by (metis div_le_dividend order_le_less_trans)
  obtain s where s: "to_string_buf_uint10 64 (v div d) = Some s" "numeral_ok 10 s" "numeral_from 10 0 s = v div d"
    using print10_uint [of 64 "v div d"] lt by auto
  have "last s \<notin> set ''kmgbit''" using s(2) digit_not_suffix by (simp add: numeral_ok_def)
  then have "find_last_not_of ''kmgbit'' (s @ suf) = Some (length s - 1)"
    using find_last_not_of_append suf s(2) by (simp add: numeral_ok_def)
  moreover have "to_any_uint 64 (2 ^ 64 - 1) s = Inr (v div d)"
    using to_any_uint_dec [OF s(2), of "2 ^ 64 - 1" 64] s(3) lt by simp
  ultimately have "size_to_any (s @ suf) = size_scale (v div d) suf"
    using s(2) by (simp add: size_to_any_def numeral_ok_def)
  then have "size_to_any (s @ suf) = Inr v" using sc [of "v div d"] dv assms by simp
  then show ?thesis using s(1) ds by (auto simp: size_to_string_def)
qed

section \<open>Properties of conversions\<close>

text \<open>C34: printing an integer of any width of whole bytes stays inside its buffer and reading the text gives the value
  back; for signed types of 32 bits and more the smallest value is excluded, whose negation overflows.\<close>

theorem int_roundtrip:
  assumes "8 dvd w" and "0 < w" and "if signd then - (2 ^ (w - 1)) \<le> v \<and> v < 2 ^ (w - 1) else 0 \<le> v \<and> v < 2 ^ w"
    and "signd \<and> 32 \<le> w \<longrightarrow> v \<noteq> - (2 ^ (w - 1))"
  shows "\<exists>s. to_string_buf_int signd w v = Some s \<and> to_any_int signd w s = Inr v"
proof (cases "signd \<and> v < 0")
  case True
  have hw: "(2 :: nat) ^ (w - 1) < 2 ^ w" using assms(2) by simp
  have n: "nat (- v) \<le> 2 ^ (w - 1)" using assms(3) True by (simp add: nat_le_iff)
  obtain s where s: "to_string_buf_uint10 w (nat (- v)) = Some s" "numeral_ok 10 s" "numeral_from 10 0 s = nat (- v)" "length s < 1 + w div 8 * 3"
    using print10_uint [OF assms(1) le_less_trans [OF n hw] assms(2)] by blast
  have "to_string_buf_int signd w v = Some (CHR ''-'' # s)" using True s assms(4) by (simp add: to_string_buf_int_def)
  moreover have "to_any_uint w (2 ^ (w - 1)) s = Inr (nat (- v))" using to_any_uint_dec [OF s(2) _ hw] n s(3) by simp
  ultimately show ?thesis using True by (simp add: to_any_int_def to_any_sint_def)
next
  case False
  define limit :: nat where "limit = (if signd then 2 ^ (w - 1) - 1 else 2 ^ w - 1)"
  have v: "0 \<le> v" using False assms(3) by (auto split: if_splits)
  have "nat v \<le> limit"
  proof (cases signd)
    case True
    then have "v < 2 ^ (w - 1)" using assms(3) by simp
    then have "nat v < 2 ^ (w - 1)" using v by (simp add: nat_less_iff)
    then have "nat v \<le> 2 ^ (w - 1) - 1" by linarith
    then show ?thesis by (simp only: limit_def True if_True)
  next
    case False
    then have "nat v < 2 ^ w" using assms(3) v by (simp add: nat_less_iff)
    then have "nat v \<le> 2 ^ w - 1" by linarith
    then show ?thesis by (simp only: limit_def False if_False)
  qed
  have lw: "limit < 2 ^ w"
  proof -
    have "(2 :: nat) ^ (w - 1) < 2 ^ w" using assms(2) by simp
    then show ?thesis by (simp add: limit_def less_imp_diff_less)
  qed
  obtain s where s: "to_string_buf_uint10 w (nat v) = Some s" "numeral_ok 10 s" "numeral_from 10 0 s = nat v"
    using print10_uint [OF assms(1) le_less_trans [OF \<open>nat v \<le> limit\<close> lw] assms(2)] by blast
  have a: "to_any_uint w limit s = Inr (nat v)" using to_any_uint_dec [OF s(2) _ lw] s(3) \<open>nat v \<le> limit\<close> by simp
  obtain c cs where c: "s = c # cs" "digit_decode 10 c < 10" using s(2) by (cases s) (auto simp: numeral_ok_def)
  then have "c \<noteq> CHR ''-''" "c \<noteq> CHR ''+''" by (auto simp: digit_decode_def digit_decode10_def)
  then have "to_any_int signd w s = Inr v"
    using a v c by (cases signd) (simp_all add: to_any_int_def to_any_sint_def limit_def)
  then show ?thesis using s(1) v by (auto simp: to_string_buf_int_def)
qed

theorem int_roundtrip_witness:
  "\<exists>s. to_string_buf_int True 8 (- 128) = Some s \<and> to_any_int True 8 s = Inr (- 128)"
  by (rule int_roundtrip) simp_all

text \<open>The overflow check compares the wrapped result with the value before the digit and misses numerals that wrap to
  something larger: 100000 is read as the 16-bit number 34464, also as the port of a host, 5000000000 as the 32-bit int
  705032704, and 1005 as the byte 237.\<close>

theorem int_overflow_missed:
  "to_any_int False 16 ''100000'' = Inr 34464 \<and> to_any_int True 32 ''5000000000'' = Inr 705032704 \<and>
   to_any_int False 8 ''1005'' = Inr 237 \<and> map_sum id hp_port (parse_hostport ''host:100000'' AF_UNSPEC) = Inr 34464"
  by (simp add: to_any_int_def to_any_uint_def to_any_sint_def to_any_uint_base_def digit_decode_def digit_decode10_def
      uint_threshold_def Let_def parse_hostport_def find_last_of_def)

end
