(* ===== verification/Url.thy ===== *)
theory Url
  imports Conv "HOL-Library.List_Lexorder" "HOL-Library.Char_ord"
begin

text \<open>
  Splitting strings (\<open>src/tll/util/string.h\<close>), property sets and URLs (\<open>src/tll/util/url.h\<close>), and the ways properties are read:
  typed access, prefixes, chains and the accumulating reader (\<open>src/tll/util/props.h\<close>). A \<open>std::map\<close> from strings is a list of
  pairs sorted by key.
\<close>

section \<open>Splitting\<close>

definition printable :: "char \<Rightarrow> bool" where
  "printable c \<longleftrightarrow> 0x20 \<le> chr c \<and> chr c < 0x7f"

definition find_first_not_of :: "string \<Rightarrow> string \<Rightarrow> nat option" where
  "find_first_not_of chars s =
     (let n = length (takeWhile (\<lambda>c. c \<in> set chars) s) in if n = length s then None else Some n)"

definition strip :: "string \<Rightarrow> string \<Rightarrow> string" where
  "strip chars s =
     (case find_first_not_of chars s of
        None \<Rightarrow> []
      | Some p \<Rightarrow>
          let s = drop p s in
          case find_last_not_of chars s of
            None \<Rightarrow> s
          | Some q \<Rightarrow> take (q + 1) s)"

text \<open>The iterator of \<open>split\<close>: positions run from 0 to \<open>length s + 1\<close>, the end.\<close>

function split_next :: "string \<Rightarrow> string \<Rightarrow> nat \<Rightarrow> nat" where
  "split_next seps s p =
     (if length s + 1 \<le> p then length s + 1
      else if p + 1 < length s + 1 \<and> s ! p \<notin> set seps then split_next seps s (p + 1)
      else p)"
  by auto
termination by (relation "measure (\<lambda>(seps, s, p). length s + 1 - p)") auto

function split_prev :: "string \<Rightarrow> string \<Rightarrow> nat \<Rightarrow> nat" where
  "split_prev seps s p =
     (if p = 0 then 0
      else if s ! (p - 1) \<notin> set seps then split_prev seps s (p - 1)
      else p)"
  by auto
termination by (relation "measure (\<lambda>(seps, s, p). p)") auto

declare split_next.simps [simp del] split_prev.simps [simp del]

record split_iter =
  si_begin :: nat
  si_end :: nat

definition split_begin :: "string \<Rightarrow> string \<Rightarrow> split_iter" where
  "split_begin seps s = \<lparr>si_begin = 0, si_end = split_next seps s 0\<rparr>"

definition split_inc :: "string \<Rightarrow> string \<Rightarrow> split_iter \<Rightarrow> split_iter" where
  "split_inc seps s i =
     (let i = i\<lparr>si_begin := si_end i\<rparr> in
      if si_begin i = length s + 1 then i
      else \<lparr>si_begin = si_begin i + 1, si_end = split_next seps s (si_begin i + 1)\<rparr>)"

definition split_dec :: "string \<Rightarrow> string \<Rightarrow> split_iter \<Rightarrow> split_iter" where
  "split_dec seps s i =
     (if si_begin i = 0 then i
      else let e = si_begin i - 1 in \<lparr>si_begin = split_prev seps s e, si_end = e\<rparr>)"

definition split_deref :: "string \<Rightarrow> split_iter \<Rightarrow> string" where
  "split_deref s i = (if si_begin i = length s + 1 then [] else take (si_end i - si_begin i) (drop (si_begin i) s))"

text \<open>The loop \<open>for (auto i : split<...>(s))\<close>, from \<open>begin\<close> until the iterator equals \<open>end\<close>.\<close>

partial_function (option) split_from :: "string \<Rightarrow> string \<Rightarrow> split_iter \<Rightarrow> string list option" where
  "split_from seps s i =
     (if si_begin i = length s + 1 then Some []
      else Option.bind (split_from seps s (split_inc seps s i)) (\<lambda>r. Some (split_deref s i # r)))"

definition split :: "string \<Rightarrow> string \<Rightarrow> string list option" where
  "split seps s = split_from seps s (split_begin seps s)"

definition splitv :: "bool \<Rightarrow> string \<Rightarrow> string \<Rightarrow> string list option" where
  "splitv skip seps s = map_option (filter (\<lambda>x. \<not> (skip \<and> x = []))) (split seps s)"

text \<open>Masks of paths (\<open>src/tll/util/browse.h\<close>): the checks on the mask, then both sequences in step.\<close>

fun mask_ok :: "string list \<Rightarrow> bool \<Rightarrow> bool" where
  "mask_ok [] dstar = True"
| "mask_ok (i # is) dstar =
     (if i = [] then False
      else if i = ''**'' then (if dstar then False else mask_ok is True)
      else mask_ok is dstar)"

fun match_loop :: "string list \<Rightarrow> string list \<Rightarrow> bool" where
  "match_loop [] [] = True"
| "match_loop (m # ms) [] = False"
| "match_loop [] (p # ps) = False"
| "match_loop (m # ms) (p # ps) =
     (if m = ''*'' then match_loop ms ps
      else if m = ''**'' then (if ms = [] then True else match_loop ms ps)
      else if m \<noteq> p then False
      else match_loop ms ps)"

definition match_list :: "string list \<Rightarrow> string \<Rightarrow> bool option" where
  "match_list msk path = map_option (\<lambda>ps. mask_ok msk False \<and> match_loop msk ps) (split ''.'' path)"

definition match :: "string \<Rightarrow> string \<Rightarrow> bool option" where
  "match msk path =
     (if msk = [] then Some (path = [])
      else if path = [] then Some False
      else if msk = ''**'' then Some True
      else Option.bind (splitv False ''.'' msk) (\<lambda>m. match_list m path))"

section \<open>Property sets\<close>

type_synonym props = "(string \<times> string) list"

datatype url_error = MissingEq | DuplicateKey | NoProtoSep | EmptyProto

fun props_insert :: "string \<Rightarrow> string \<Rightarrow> props \<Rightarrow> props option" where
  "props_insert k v [] = Some [(k, v)]"
| "props_insert k v ((a, b) # m) =
     (if k = a then None
      else if k < a then Some ((k, v) # (a, b) # m)
      else map_option (Cons (a, b)) (props_insert k v m))"

definition find_first_of :: "char \<Rightarrow> string \<Rightarrow> nat option" where
  "find_first_of c s = (let n = length (takeWhile (\<lambda>d. d \<noteq> c) s) in if n = length s then None else Some n)"

fun props_loop :: "string list \<Rightarrow> props \<Rightarrow> url_error + props" where
  "props_loop [] r = Inr r"
| "props_loop (i # is) r =
     (if i = [] then props_loop is r
      else case find_first_of (CHR ''='') i of
             None \<Rightarrow> Inl MissingEq
           | Some sep \<Rightarrow>
               (case props_insert (take sep i) (drop (sep + 1) i) r of
                  None \<Rightarrow> Inl DuplicateKey
                | Some r \<Rightarrow> props_loop is r))"

definition props_parse :: "string \<Rightarrow> (url_error + props) option" where
  "props_parse s = map_option (\<lambda>is. props_loop is []) (split '';'' s)"

definition props_has :: "props \<Rightarrow> string \<Rightarrow> bool" where
  "props_has m k \<longleftrightarrow> map_of m k \<noteq> None"

definition props_get :: "props \<Rightarrow> string \<Rightarrow> string option" where
  "props_get m k = map_of m k"

definition props_browse :: "props \<Rightarrow> string \<Rightarrow> props option" where
  "props_browse m msk =
     Option.bind (splitv False ''.'' msk) (\<lambda>mv.
       map_option (\<lambda>bs. map snd (filter fst (zip bs m))) (those (map (\<lambda>(k, v). match_list mv k) m)))"

fun props_to_string :: "props \<Rightarrow> string \<Rightarrow> string" where
  "props_to_string [] r = r"
| "props_to_string ((k, v) # m) r = props_to_string m ((if r \<noteq> [] then r @ '';'' else r) @ k @ ''='' @ v)"

section \<open>URLs\<close>

record url =
  url_proto :: string
  url_host :: string
  url_props :: props

fun find_str :: "string \<Rightarrow> string \<Rightarrow> nat \<Rightarrow> nat option" where
  "find_str pat s 0 = (if take (length pat) s = pat then Some 0 else None)"
| "find_str pat s (Suc n) =
     (if take (length pat) s = pat then Some 0
      else case s of [] \<Rightarrow> None | _ # cs \<Rightarrow> map_option Suc (find_str pat cs n))"

definition url_parse :: "string \<Rightarrow> (url_error + url) option" where
  "url_parse s =
     (case find_str ''://'' s (length s) of
        None \<Rightarrow> Some (Inl NoProtoSep)
      | Some sep \<Rightarrow>
          let proto = take sep s in
          if proto = [] then Some (Inl EmptyProto)
          else
            let rest = drop (sep + 3) s in
            case find_first_of (CHR '';'') rest of
              None \<Rightarrow> Some (Inr \<lparr>url_proto = proto, url_host = rest, url_props = []\<rparr>)
            | Some hsep \<Rightarrow>
                map_option (map_sum id (\<lambda>p. \<lparr>url_proto = proto, url_host = take hsep rest, url_props = p\<rparr>))
                  (props_parse (drop (hsep + 1) rest)))"

definition url_to_string :: "url \<Rightarrow> string" where
  "url_to_string u =
     (let r = url_proto u @ ''://'' @ url_host u; p = props_to_string (url_props u) []
      in if p = [] then r else r @ '';'' @ p)"

section \<open>Reading properties\<close>

text \<open>A property source is its \<open>get\<close>; \<open>conv\<close> is the conversion of the type that is asked for.\<close>

type_synonym getter = "string \<Rightarrow> string option"

definition get_any :: "(string \<Rightarrow> 'a conv) \<Rightarrow> getter \<Rightarrow> string \<Rightarrow> 'a option conv" where
  "get_any conv g k =
     (case g k of
        None \<Rightarrow> Inr None
      | Some v \<Rightarrow> if v = [] then Inr None
                  else (case conv v of Inl e \<Rightarrow> Inl InvalidValue | Inr r \<Rightarrow> Inr (Some r)))"

definition getT :: "(string \<Rightarrow> 'a conv) \<Rightarrow> getter \<Rightarrow> string \<Rightarrow> 'a conv" where
  "getT conv g k =
     (case get_any conv g k of Inl e \<Rightarrow> Inl e | Inr None \<Rightarrow> Inl MissingValue | Inr (Some r) \<Rightarrow> Inr r)"

definition getT_default :: "(string \<Rightarrow> 'a conv) \<Rightarrow> getter \<Rightarrow> string \<Rightarrow> 'a \<Rightarrow> 'a conv" where
  "getT_default conv g k d =
     (case get_any conv g k of Inl e \<Rightarrow> Inl e | Inr None \<Rightarrow> Inr d | Inr (Some r) \<Rightarrow> Inr r)"

definition getT_select :: "getter \<Rightarrow> string \<Rightarrow> 'a \<Rightarrow> (string \<times> 'a) list \<Rightarrow> 'a conv" where
  "getT_select g k d m =
     (case g k of
        None \<Rightarrow> Inr d
      | Some v \<Rightarrow> if v = [] then Inr d
                  else (case conv_select v m of Inl e \<Rightarrow> Inl InvalidValue | Inr r \<Rightarrow> Inr r))"

definition prefix_get :: "getter \<Rightarrow> string \<Rightarrow> getter" where
  "prefix_get g prefix k = g (prefix @ ''.'' @ k)"

fun chain_get :: "getter list \<Rightarrow> getter" where
  "chain_get [] k = None"
| "chain_get (g # gs) k =
     (case g k of
        Some v \<Rightarrow> if v \<noteq> [] then Some v else chain_get gs k
      | None \<Rightarrow> chain_get gs k)"

definition chain_has :: "(string \<Rightarrow> bool) list \<Rightarrow> string \<Rightarrow> bool" where
  "chain_has hs k \<longleftrightarrow> (\<exists>h \<in> set hs. h k)"

text \<open>\<open>PropsReaderT\<close>: the first error is kept and later reads return their default. \<open>zero\<close> is the value
  initialisation of the type.\<close>

record reader =
  rd_get :: getter
  rd_error :: "(string \<times> conv_error) option"

definition reader_getT :: "(string \<Rightarrow> 'a conv) \<Rightarrow> 'a \<Rightarrow> reader \<Rightarrow> string \<Rightarrow> 'a option \<Rightarrow> reader \<times> 'a" where
  "reader_getT conv zero r k def =
     (let dv = (case def of Some d \<Rightarrow> d | None \<Rightarrow> zero) in
      if rd_error r \<noteq> None then (r, dv)
      else case get_any conv (rd_get r) k of
             Inl e \<Rightarrow> (r\<lparr>rd_error := Some (k, e)\<rparr>, dv)
           | Inr None \<Rightarrow> (if def = None then r\<lparr>rd_error := Some (k, MissingValue)\<rparr> else r, dv)
           | Inr (Some v) \<Rightarrow> (r, v))"

definition reader_select :: "reader \<Rightarrow> string \<Rightarrow> 'a \<Rightarrow> (string \<times> 'a) list \<Rightarrow> reader \<times> 'a" where
  "reader_select r k d m =
     (if rd_error r \<noteq> None then (r, d)
      else case rd_get r k of
             None \<Rightarrow> (r, d)
           | Some v \<Rightarrow> (case conv_select v m of
                          Inr x \<Rightarrow> (r, x)
                        | Inl e \<Rightarrow> (r\<lparr>rd_error := Some (k, InvalidValue)\<rparr>, d)))"

section \<open>Splitting against its definition\<close>

text \<open>The pieces between separators, and joining them.\<close>

fun pieces :: "string \<Rightarrow> string \<Rightarrow> string list" where
  "pieces seps [] = [[]]"
| "pieces seps (c # cs) =
     (if c \<in> set seps then [] # pieces seps cs
      else (c # hd (pieces seps cs)) # tl (pieces seps cs))"

fun join :: "char \<Rightarrow> string list \<Rightarrow> string" where
  "join c [] = []"
| "join c [x] = x"
| "join c (x # xs) = x @ c # join c xs"

lemma pieces_nonempty [simp]: "pieces seps s \<noteq> []"
  by (induction s) auto

lemma pieces_step:
  "pieces seps s = takeWhile (\<lambda>c. c \<notin> set seps) s #
     (case dropWhile (\<lambda>c. c \<notin> set seps) s of [] \<Rightarrow> [] | _ # r \<Rightarrow> pieces seps r)"
  by (induction s) auto

lemma split_next_eq: "p \<le> length s \<Longrightarrow> split_next seps s p = p + length (takeWhile (\<lambda>c. c \<notin> set seps) (drop p s))"
proof (induction seps s p rule: split_next.induct)
  case (1 seps s p)
  show ?case
  proof (cases "p < length s \<and> s ! p \<notin> set seps")
    case True
    then have "split_next seps s p = split_next seps s (p + 1)" by (subst split_next.simps) simp
    moreover have "drop p s = s ! p # drop (p + 1) s" using True by (simp add: Cons_nth_drop_Suc)
    ultimately show ?thesis using 1 True by simp
  next
    case False
    then have "split_next seps s p = p" using "1.prems" by (subst split_next.simps) auto
    moreover have "takeWhile (\<lambda>c. c \<notin> set seps) (drop p s) = []"
      using False "1.prems" by (cases "p < length s") (simp_all add: Cons_nth_drop_Suc [symmetric])
    ultimately show ?thesis by simp
  qed
qed

lemma split_from_eq:
  "p \<le> length s \<Longrightarrow> split_from seps s \<lparr>si_begin = p, si_end = split_next seps s p\<rparr> = Some (pieces seps (drop p s))"
proof (induction "length s - p" arbitrary: p rule: less_induct)
  case less
  let ?t = "takeWhile (\<lambda>c. c \<notin> set seps) (drop p s)"
  let ?q = "p + length ?t"
  have q: "split_next seps s p = ?q" using split_next_eq less.prems by simp
  have "length ?t \<le> length s - p" using length_takeWhile_le [of _ "drop p s"] by simp
  then have ql: "?q \<le> length s" using less.prems by simp
  have inc: "split_inc seps s \<lparr>si_begin = p, si_end = ?q\<rparr> = \<lparr>si_begin = ?q + 1, si_end = split_next seps s (?q + 1)\<rparr>"
    using ql by (simp add: split_inc_def)
  have de: "split_deref s \<lparr>si_begin = p, si_end = ?q\<rparr> = ?t"
    using less.prems by (simp add: split_deref_def takeWhile_eq_take [symmetric])
  have dw: "dropWhile (\<lambda>c. c \<notin> set seps) (drop p s) = drop ?q s"
    by (simp add: dropWhile_eq_drop add.commute)
  have "split_from seps s \<lparr>si_begin = p, si_end = ?q\<rparr> =
      Option.bind (split_from seps s \<lparr>si_begin = ?q + 1, si_end = split_next seps s (?q + 1)\<rparr>) (\<lambda>r. Some (?t # r))"
    using less.prems by (subst split_from.simps) (simp add: inc de)
  also have "\<dots> = Some (pieces seps (drop p s))"
  proof (cases "?q = length s")
    case True
    then have "split_from seps s \<lparr>si_begin = ?q + 1, si_end = split_next seps s (?q + 1)\<rparr> = Some []"
      by (subst split_from.simps) simp
    moreover have "pieces seps (drop p s) = [?t]" unfolding pieces_step [of seps "drop p s"] dw using True by simp
    ultimately show ?thesis by simp
  next
    case False
    then have "split_from seps s \<lparr>si_begin = ?q + 1, si_end = split_next seps s (?q + 1)\<rparr> = Some (pieces seps (drop (?q + 1) s))"
      using ql by (intro less.hyps) auto
    moreover have d: "drop ?q s = s ! ?q # drop (?q + 1) s" using False ql Cons_nth_drop_Suc [of ?q s] by simp
    moreover have "pieces seps (drop p s) = ?t # pieces seps (drop (?q + 1) s)"
      unfolding pieces_step [of seps "drop p s"] dw d by (simp only: list.case)
    ultimately show ?thesis by simp
  qed
  finally show ?case by (simp only: q)
qed

lemma split_eq [simp]: "split seps s = Some (pieces seps s)"
  using split_from_eq [of 0 s seps] by (simp add: split_def split_begin_def)

lemma pieces_clean: "set x \<inter> set seps = {} \<Longrightarrow> pieces seps (x @ s) = (x @ hd (pieces seps s)) # tl (pieces seps s)"
  by (induction x) auto

lemma pieces_join:
  "xs \<noteq> [] \<Longrightarrow> (\<And>x. x \<in> set xs \<Longrightarrow> c \<notin> set x) \<Longrightarrow> pieces [c] (join c xs) = xs"
proof (induction c xs rule: join.induct)
  case (2 c x)
  then show ?case using pieces_clean [of x "[c]" "[]"] by simp
next
  case (3 c x y xs)
  then show ?case using pieces_clean [of x "[c]" "c # join c (y # xs)"] by simp
qed simp

lemma join_pieces: "join c (pieces [c] s) = s"
proof (induction s)
  case (Cons a s)
  obtain x xs where x: "pieces [c] s = x # xs" by (cases "pieces [c] s") auto
  then show ?case using Cons by (cases xs) auto
qed simp

section \<open>Properties and URLs in text\<close>

lemma takeWhile_clean: "c \<notin> set k \<Longrightarrow> takeWhile (\<lambda>d. d \<noteq> c) (k @ c # v) = k" "c \<notin> set k \<Longrightarrow> takeWhile (\<lambda>d. d \<noteq> c) k = k"
  by (induction k) auto

lemma find_first_of_append: "c \<notin> set k \<Longrightarrow> find_first_of c (k @ c # v) = Some (length k)"
  by (simp add: find_first_of_def takeWhile_clean Let_def)

lemma find_first_of_none: "c \<notin> set k \<Longrightarrow> find_first_of c k = None"
  by (simp add: find_first_of_def takeWhile_clean Let_def)

lemma props_insert_last: "(\<And>a. a \<in> fst ` set m \<Longrightarrow> a < k) \<Longrightarrow> props_insert k v m = Some (m @ [(k, v)])"
proof (induction m)
  case (Cons p m)
  obtain a b where "p = (a, b)" by (cases p)
  moreover have "a < k" using Cons.prems [of a] \<open>p = (a, b)\<close> by simp
  ultimately show ?case using Cons by (auto dest: less_asym)
qed simp

definition props_ok :: "props \<Rightarrow> bool" where
  "props_ok m \<longleftrightarrow> sorted_wrt (<) (map fst m) \<and>
     (\<forall>(k, v) \<in> set m. CHR ''='' \<notin> set k \<and> CHR '';'' \<notin> set k \<and> CHR '';'' \<notin> set v)"

abbreviation pair_text :: "string \<times> string \<Rightarrow> string" where
  "pair_text p \<equiv> fst p @ ''='' @ snd p"

lemma props_loop_pairs:
  "props_ok (r @ m) \<Longrightarrow> props_loop (map pair_text m) r = Inr (r @ m)"
proof (induction m arbitrary: r)
  case (Cons p m)
  obtain k v where p: "p = (k, v)" by (cases p)
  have "find_first_of (CHR ''='') (k @ CHR ''='' # v) = Some (length k)"
    using Cons.prems p by (intro find_first_of_append) (auto simp: props_ok_def)
  moreover have "props_insert k v r = Some (r @ [(k, v)])"
    using Cons.prems p by (intro props_insert_last) (auto simp: props_ok_def sorted_wrt_append)
  ultimately show ?case using Cons.IH [of "r @ [p]"] Cons.prems p by simp
qed simp

lemma props_to_string_join: "r \<noteq> [] \<Longrightarrow> m \<noteq> [] \<Longrightarrow> props_to_string m r = r @ '';'' @ join (CHR '';'') (map pair_text m)"
proof (induction m arbitrary: r)
  case (Cons p m)
  obtain k v where p: "p = (k, v)" by (cases p)
  then show ?case using Cons by (cases m) auto
qed simp

lemma props_to_string_join0: "props_to_string m [] = join (CHR '';'') (map pair_text m)"
proof (cases m)
  case (Cons p m')
  obtain k v where p: "p = (k, v)" by (cases p)
  then show ?thesis using Cons props_to_string_join [of "k @ ''='' @ v" m'] by (cases m') auto
qed simp

lemma props_roundtrip:
  assumes "props_ok m"
  shows "props_parse (props_to_string m []) = Some (Inr m)"
proof (cases "m = []")
  case False
  have "pieces '';'' (join (CHR '';'') (map pair_text m)) = map pair_text m"
    using assms False by (intro pieces_join) (auto simp: props_ok_def)
  then show ?thesis using props_loop_pairs [of "[]" m] assms by (simp add: props_parse_def props_to_string_join0)
qed (simp add: props_parse_def)


lemma find_str_first:
  "(\<forall>i < length p. take (length pat) (drop i (p @ pat @ r)) \<noteq> pat) \<Longrightarrow> length p \<le> n \<Longrightarrow> find_str pat (p @ pat @ r) n = Some (length p)"
proof (induction p arbitrary: n)
  case Nil
  then show ?case by (cases n) simp_all
next
  case (Cons c p)
  obtain m where n: "n = Suc m" using Cons.prems(2) by (cases n) simp_all
  have "take (length pat) ((c # p) @ pat @ r) \<noteq> pat" using Cons.prems(1) by (auto dest: spec [of _ 0])
  moreover have "find_str pat (p @ pat @ r) m = Some (length p)"
    using Cons.prems n by (intro Cons.IH) (auto dest: spec [of _ "Suc _"])
  ultimately show ?case using n by simp
qed

lemma find_str_proto:
  assumes "CHR '':'' \<notin> set p"
  shows "find_str ''://'' (p @ ''://'' @ r) (length (p @ ''://'' @ r)) = Some (length p)"
proof (rule find_str_first)
  show "\<forall>i < length p. take (length ''://'') (drop i (p @ ''://'' @ r)) \<noteq> ''://''"
  proof (intro allI impI notI)
    fix i assume i: "i < length p" "take (length ''://'') (drop i (p @ ''://'' @ r)) = ''://''"
    then have "hd (drop i (p @ ''://'' @ r)) = CHR '':''" by (metis hd_take length_greater_0_conv list.sel(1) list.simps(3))
    then have "p ! i = CHR '':''" using i(1) by (simp add: hd_drop_conv_nth nth_append)
    then show False using assms i(1) by (metis nth_mem)
  qed
qed simp

definition url_ok :: "url \<Rightarrow> bool" where
  "url_ok u \<longleftrightarrow> url_proto u \<noteq> [] \<and> CHR '':'' \<notin> set (url_proto u) \<and> CHR '';'' \<notin> set (url_host u) \<and> props_ok (url_props u)"

section \<open>Properties of text\<close>

text \<open>Splitting by a separator terminates and gives the pieces between separators, empty ones included: joined again
  they are the string, and the pieces of a join are what was joined.\<close>

theorem split_join:
  assumes "xs \<noteq> []" and "\<forall>x \<in> set xs. c \<notin> set x"
  shows "map_option (join c) (split [c] s) = Some s \<and> split [c] (join c xs) = Some xs"
  using assms pieces_join [of xs c] by (simp add: join_pieces)

theorem split_join_witness:
  "map_option (join (CHR '';'')) (split '';'' ''a;;b;'') = Some ''a;;b;'' \<and>
   split '';'' (join (CHR '';'') [''a'', [], ''b'']) = Some [''a'', [], ''b'']"
  by (rule split_join) simp_all

text \<open>C32: an URL with a protocol without colon, a host without semicolon, and keys and values that do not contain their
  separators is read back from its text.\<close>

theorem url_roundtrip:
  assumes "url_ok u"
  shows "url_parse (url_to_string u) = Some (Inr u)"
proof -
  let ?p = "url_proto u" and ?h = "url_host u" and ?m = "url_props u"
  have ok: "?p \<noteq> []" "CHR '':'' \<notin> set ?p" "CHR '';'' \<notin> set ?h" "props_ok ?m" using assms by (simp_all add: url_ok_def)
  let ?t = "props_to_string ?m []"
  show ?thesis
  proof (cases "?t = []")
    case True
    have "?m = []"
    proof (rule ccontr)
      assume "?m \<noteq> []"
      then obtain k v m where m: "?m = (k, v) # m" by (cases ?m) auto
      then have "?t \<noteq> []" unfolding props_to_string_join0 by (cases m) auto
      then show False using True by simp
    qed
    then show ?thesis
      using True ok find_str_proto [OF ok(2), of ?h] find_first_of_none [OF ok(3)]
      by (simp add: url_to_string_def url_parse_def Let_def)
  next
    case False
    have "find_first_of (CHR '';'') (?h @ CHR '';'' # ?t) = Some (length ?h)" using ok(3) by (rule find_first_of_append)
    then show ?thesis
      using False ok find_str_proto [OF ok(2), of "?h @ '';'' @ ?t"] props_roundtrip [OF ok(4)]
      by (simp add: url_to_string_def url_parse_def Let_def)
  qed
qed

theorem url_roundtrip_witness:
  "url_parse (url_to_string \<lparr>url_proto = ''tcp'', url_host = ''localhost:5555'', url_props = [(''mode'', ''client''), (''name'', ''x'')]\<rparr>) =
     Some (Inr \<lparr>url_proto = ''tcp'', url_host = ''localhost:5555'', url_props = [(''mode'', ''client''), (''name'', ''x'')]\<rparr>)"
  by (rule url_roundtrip) (simp add: url_ok_def props_ok_def)

end
