(* ===== verification/Ascii.thy ===== *)
theory Ascii
  imports Conv
begin

text \<open>
  Binary data as text, \<open>src/tll/util/bin2ascii.h\<close>: hexadecimal and base64. Bytes are 8-bit words; \<open>None\<close> is an access outside
  of a table or buffer.
\<close>

section \<open>Hexadecimal\<close>

datatype ascii_error = OddSize | InvalidHex | InvalidBase64 | InvalidBase64Size

text \<open>The table of \<open>hex2bin\<close>: 0x80 marks what is not a digit.\<close>

definition hex_value :: "char \<Rightarrow> byte" where
  "hex_value c = (let d = digit_decode16 c in if d = 16 then 0x80 else word_of_nat d)"

fun hex2bin_loop :: "string \<Rightarrow> ascii_error + byte list" where
  "hex2bin_loop (a # b # s) =
     (let hi = hex_value a; lo = hex_value b in
      if 0x80 AND (hi OR lo) \<noteq> 0 then Inl InvalidHex
      else map_sum id (Cons (push_bit 4 hi OR lo)) (hex2bin_loop s))"
| "hex2bin_loop s = Inr []"

definition hex2bin :: "string \<Rightarrow> ascii_error + byte list" where
  "hex2bin s = (if length s mod 2 \<noteq> 0 then Inl OddSize else hex2bin_loop s)"

text \<open>\<open>s[i] >> 4\<close> shifts the element after promotion to int: for a container of signed characters a negative element
  keeps its sign. The index into the table of 16 digits and a terminator is the result as unsigned char.\<close>

definition nibble_hi :: "bool \<Rightarrow> byte \<Rightarrow> nat" where
  "nibble_hi sgnd b = (if sgnd then nat ((sint b div 16) mod 256) else unat b div 16)"

definition hex_at :: "nat \<Rightarrow> char option" where
  "hex_at n = (if n < 16 then Some (hex_lookup n) else if n = 16 then Some (char_of (0 :: nat)) else None)"

fun bin2hex :: "bool \<Rightarrow> byte list \<Rightarrow> string option" where
  "bin2hex sgnd [] = Some []"
| "bin2hex sgnd (b # bs) =
     Option.bind (hex_at (nibble_hi sgnd b)) (\<lambda>hi.
     Option.bind (hex_at (unat (b AND 0xf))) (\<lambda>lo.
     map_option (\<lambda>r. hi # lo # r) (bin2hex sgnd bs)))"

section \<open>Base64\<close>

definition b64_char :: "nat \<Rightarrow> char" where
  "b64_char n = ''ABCDEFGHIJKLMNOPQRSTUVWXYZabcdefghijklmnopqrstuvwxyz0123456789+/'' ! n"

text \<open>The table of \<open>b64_decode\<close>.\<close>

definition b64_value :: "char \<Rightarrow> nat" where
  "b64_value c =
     (let n = chr c in
      if 65 \<le> n \<and> n \<le> 90 then n - 65
      else if 97 \<le> n \<and> n \<le> 122 then n - 71
      else if 48 \<le> n \<and> n \<le> 57 then n + 4
      else if n = 43 then 62
      else if n = 47 then 63
      else if n = 61 then 0xff
      else 0x80)"

text \<open>One round of \<open>b64_encode\<close>: three bytes, or the one or two that are left.\<close>

fun b64_encode_loop :: "byte list \<Rightarrow> string" where
  "b64_encode_loop [] = []"
| "b64_encode_loop [a] =
     (let n = unat a * 65536 in [b64_char (n div 262144 mod 64), b64_char (n div 4096 mod 64)])"
| "b64_encode_loop [a, b] =
     (let n = unat a * 65536 + unat b * 256
      in [b64_char (n div 262144 mod 64), b64_char (n div 4096 mod 64), b64_char (n div 64 mod 64)])"
| "b64_encode_loop (a # b # c # s) =
     (let n = unat a * 65536 + unat b * 256 + unat c
      in b64_char (n div 262144 mod 64) # b64_char (n div 4096 mod 64) # b64_char (n div 64 mod 64) # b64_char (n mod 64) #
         b64_encode_loop s)"

text \<open>\<open>None\<close>: more characters than the buffer of \<open>size * 4 / 3 + 3\<close> holds.\<close>

definition b64_encode :: "byte list \<Rightarrow> string option" where
  "b64_encode s =
     (if s = [] then Some []
      else let r = b64_encode_loop s @ replicate ((3 - length s mod 3) mod 3) (CHR ''='')
           in if length r \<le> length s * 4 div 3 + 3 then Some r else None)"

abbreviation b64_bad :: "nat \<Rightarrow> bool" where
  "b64_bad n \<equiv> 0x80 \<le> n"

text \<open>The last four characters, where padding is allowed.\<close>

definition b64_decode_last :: "char \<Rightarrow> char \<Rightarrow> char \<Rightarrow> char \<Rightarrow> ascii_error + byte list" where
  "b64_decode_last c0 c1 c2 c3 =
     (let n0 = b64_value c0; n1 = b64_value c1; n2 = b64_value c2; n3 = b64_value c3 in
      if b64_bad n0 \<or> b64_bad n1 then Inl InvalidBase64
      else
        let n = n0 * 262144 + n1 * 4096; b0 = word_of_nat (n div 65536) in
        if c2 = CHR ''='' \<and> c3 = CHR ''='' then Inr [b0]
        else if c3 = CHR ''=''
        then (if b64_bad n2 then Inl InvalidBase64
              else let n = n + n2 * 64 in Inr [b0, word_of_nat (n div 256)])
        else if b64_bad n2 \<or> b64_bad n3 then Inl InvalidBase64
        else let n = n + n2 * 64 + n3 in Inr [b0, word_of_nat (n div 256), word_of_nat n])"

fun b64_decode_loop :: "string \<Rightarrow> ascii_error + byte list" where
  "b64_decode_loop (c0 # c1 # c2 # c3 # s) =
     (if s = [] then b64_decode_last c0 c1 c2 c3
      else
        let n0 = b64_value c0; n1 = b64_value c1; n2 = b64_value c2; n3 = b64_value c3 in
        if b64_bad n0 \<or> b64_bad n1 \<or> b64_bad n2 \<or> b64_bad n3 then Inl InvalidBase64
        else
          let n = n0 * 262144 + n1 * 4096 + n2 * 64 + n3
          in map_sum id (\<lambda>r. word_of_nat (n div 65536) # word_of_nat (n div 256) # word_of_nat n # r) (b64_decode_loop s))"
| "b64_decode_loop s = Inl InvalidBase64Size"

definition b64_decode :: "string \<Rightarrow> ascii_error + byte list" where
  "b64_decode s =
     (if s = [] then Inr []
      else if length s mod 4 \<noteq> 0 then Inl InvalidBase64Size
      else b64_decode_loop s)"

section \<open>Round trips\<close>

lemma hex_value_lookup: "n < 16 \<Longrightarrow> hex_value (hex_lookup n) = word_of_nat n"
proof -
  assume "n < 16"
  then have "n \<in> set [0..<16]" by simp
  moreover have "\<forall>n \<in> set [0..<16]. hex_value (hex_lookup n) = word_of_nat n"
    by code_simp
  ultimately show ?thesis by blast
qed

lemma table_inverse:
  assumes "map f t = [0..<k]" "length t = k" "x \<notin> set t" "n < k"
  shows "f (t ! n) = n \<and> t ! n \<noteq> x"
  using assms by (metis nth_map nth_mem add_0 nth_upt)

lemma b64_value_char:
  assumes "n < 64"
  shows "b64_value (b64_char n) = n \<and> b64_char n \<noteq> CHR ''=''"
  unfolding b64_char_def
proof (rule table_inverse [OF _ _ _ assms])
  show "map b64_value ''ABCDEFGHIJKLMNOPQRSTUVWXYZabcdefghijklmnopqrstuvwxyz0123456789+/'' = [0..<64]"
    by (simp add: b64_value_def upt_rec)
qed simp_all

lemma nibbles: 
  fixes b :: byte
  shows "0x80 AND ((word_of_nat (unat b div 16) :: byte) OR word_of_nat (unat (b AND 0xf))) = 0"
    and "push_bit 4 (word_of_nat (unat b div 16)) OR word_of_nat (unat (b AND 0xf)) = b"
proof -
  have d: "(word_of_nat (unat b div 16) :: byte) = drop_bit 4 b"
    by (simp add: drop_bit_eq_div word_arith_nat_div)
  have m: "0x80 = push_bit 7 (1 :: byte)" by simp
  have f: "0xf = (Bit_Operations.mask 4 :: byte)" by (simp add: mask_eq_exp_minus_1)
  show "0x80 AND ((word_of_nat (unat b div 16) :: byte) OR word_of_nat (unat (b AND 0xf))) = 0"
    unfolding d m f by (rule bit_eqI) (auto simp: bit_push_bit_iff bit_drop_bit_eq bit_and_iff bit_or_iff bit_1_iff bit_mask_iff dest: bit_imp_le_length simp del: push_bit_of_1 push_bit_numeral)
  show "push_bit 4 (word_of_nat (unat b div 16)) OR word_of_nat (unat (b AND 0xf)) = b"
    unfolding d f by (rule bit_eqI) (auto simp: bit_simps)
qed

lemma unat_byte_less: "unat (b :: byte) < 256"
  using unsigned_less [of b, where ?'a = nat] by simp

lemma nibble_low: "unat (b AND 0xf :: byte) < 16"
proof -
  have "b AND 0xf = take_bit 4 b" by (simp add: take_bit_eq_mask mask_eq_exp_minus_1)
  then have "unat (b AND 0xf) = take_bit 4 (unat b)" by (simp only: unsigned_take_bit_eq)
  then show ?thesis by (simp add: take_bit_eq_mod)
qed

lemma sint_byte: "sint (b :: byte) = (if unat b < 128 then int (unat b) else int (unat b) - 256)"
proof -
  have l: "uint b < 256" "0 \<le> uint b" using unsigned_less [of b] by simp_all
  have "sint b = (uint b + 128) mod 256 - 128"
    by (simp add: sint_uint signed_take_bit_eq_take_bit_shift take_bit_eq_mod)
  moreover have "(uint b + 128) mod 256 = (if uint b < 128 then uint b + 128 else uint b - 128)"
    using l mod_pos_geq [of 256 "uint b + 128"] by simp
  ultimately have "sint b = (if uint b < 128 then uint b else uint b - 256)" by simp
  moreover have "uint b < 128 \<longleftrightarrow> unat b < 128"
    by (simp only: uint_nat of_nat_less_numeral_iff)
  ultimately show ?thesis by simp
qed

lemma nibble_hi_ok:
  assumes "\<not> sgnd \<or> unat b < 128"
  shows "nibble_hi sgnd b = unat b div 16"
proof -
  have "nat ((int n div 16) mod 256) = n div 16" if "n < 128" for n
  proof -
    have "int n div 16 mod 256 = int (n div 16 mod 256)" by (simp add: zdiv_int zmod_int)
    then show ?thesis using that by (simp add: less_mult_imp_div_less)
  qed
  then show ?thesis using assms by (auto simp: nibble_hi_def sint_byte simp del: of_nat_unat)
qed

lemma nibble_hi_bad:
  assumes "128 \<le> unat b"
  shows "16 < nibble_hi True b"
proof -
  have "16 < nat (((int n - 256) div 16) mod 256)" if "128 \<le> n" "n < 256" for n
  proof -
    have "(int n - 256) div 16 = int n div 16 - 16" by simp
    moreover have "(int n div 16 - 16) mod 256 = int n div 16 + 240"
      using that mod_add_self2 [of "int n div 16 - 16" 256] by simp
    ultimately show ?thesis using that by simp
  qed
  then show ?thesis using assms unat_byte_less [of b] by (simp add: nibble_hi_def sint_byte del: of_nat_unat)
qed

lemma hex_at_nibbles:
  assumes "\<not> sgnd \<or> unat b < 128"
  shows "hex_at (nibble_hi sgnd b) = Some (hex_lookup (unat b div 16))"
    and "hex_at (unat (b AND 0xf)) = Some (hex_lookup (unat (b AND 0xf)))"
  using unat_byte_less [of b] nibble_low [of b] by (simp_all add: nibble_hi_ok [OF assms] hex_at_def less_mult_imp_div_less)

lemma hex2bin_loop_byte:
  "hex2bin_loop (hex_lookup (unat b div 16) # hex_lookup (unat (b AND 0xf)) # s) = map_sum id (Cons b) (hex2bin_loop s)"
proof -
  have "unat b div 16 < 16" using unat_byte_less [of b] by (simp add: less_mult_imp_div_less)
  then show ?thesis
    using nibbles [of b] nibble_low [of b] by (simp add: hex_value_lookup)
qed

lemma bin2hex_back:
  "\<not> sgnd \<or> (\<forall>b \<in> set bs. unat b < 128) \<Longrightarrow>
   \<exists>s. bin2hex sgnd bs = Some s \<and> length s = 2 * length bs \<and> hex2bin_loop s = Inr bs"
proof (induction bs)
  case (Cons b bs)
  then obtain s where "bin2hex sgnd bs = Some s" "length s = 2 * length bs" "hex2bin_loop s = Inr bs" by auto
  moreover have "\<not> sgnd \<or> unat b < 128" using Cons.prems by auto
  ultimately show ?case by (simp add: hex_at_nibbles hex2bin_loop_byte del: hex2bin_loop.simps)
qed simp

text \<open>What \<open>bin2hex\<close> writes \<open>hex2bin\<close> reads back, as long as the characters of the container are not negative.\<close>

theorem hex_roundtrip:
  assumes "\<not> sgnd \<or> (\<forall>b \<in> set bs. unat b < 128)"
  shows "\<exists>s. bin2hex sgnd bs = Some s \<and> length s = 2 * length bs \<and> hex2bin s = Inr bs"
  using bin2hex_back [OF assms] unfolding hex2bin_def by fastforce

lemma hex_roundtrip_witness: "\<exists>s. bin2hex True [0, 0x1f, 0x7f] = Some s \<and> length s = 6 \<and> hex2bin s = Inr [0, 0x1f, 0x7f]"
  using hex_roundtrip [of True "[0, 0x1f, 0x7f]"] by simp

text \<open>Over signed characters, which is what a string holds, \<open>bin2hex\<close> looks outside of its table of digits exactly when a
  byte has its top bit set.\<close>

theorem bin2hex_negative: "bin2hex True bs = None \<longleftrightarrow> (\<exists>b. b \<in> set bs \<and> 128 \<le> unat b)"
proof (induction bs)
  case (Cons b bs)
  show ?case
  proof (cases "unat b < 128")
    case True
    then show ?thesis using Cons by (auto simp: hex_at_nibbles)
  next
    case False
    then have "hex_at (nibble_hi True b) = None" using nibble_hi_bad [of b] by (simp add: hex_at_def)
    then show ?thesis using False by auto
  qed
qed simp

lemma sextets:
  assumes "n < 16777216"
  shows "n div 262144 mod 64 * 262144 + n div 4096 mod 64 * 4096 + n div 64 mod 64 * 64 + n mod 64 = (n :: nat)"
proof -
  have sum: "q3 * 262144 + r2 * 4096 + r1 * 64 + r0 = (n :: nat)"
    if "q1 * 64 + r0 = n" "q2 * 64 + r1 = q1" "q3 * 64 + r2 = q2" for q1 q2 q3 r0 r1 r2
    using that by linarith
  have "n div 4096 = n div 64 div 64" "n div 262144 = n div 64 div 64 div 64" "n div 262144 mod 64 = n div 262144"
    using assms by (simp_all add: div_mult2_eq [symmetric] less_mult_imp_div_less)
  then show ?thesis
    using sum [OF div_mult_mod_eq div_mult_mod_eq div_mult_mod_eq] by simp
qed

lemma octets:
  fixes a b c :: byte
  defines "n \<equiv> unat a * 65536 + unat b * 256 + unat c"
  shows "n < 16777216" "word_of_nat (n div 65536) = a" "word_of_nat (n div 256) = b" "word_of_nat n = c"
proof -
  note l = unat_byte_less [of a] unat_byte_less [of b] unat_byte_less [of c]
  show "n < 16777216" using l by (simp add: n_def)
  have z: "(256 :: byte) = 0" by simp
  have "n div 65536 = unat a"
  proof (rule div_nat_eqI)
    show "65536 * unat a \<le> n" "n < 65536 * Suc (unat a)" using l by (simp_all add: n_def)
  qed
  then show "word_of_nat (n div 65536) = a" by simp
  have "n div 256 = unat a * 256 + unat b"
  proof (rule div_nat_eqI)
    show "256 * (unat a * 256 + unat b) \<le> n" "n < 256 * Suc (unat a * 256 + unat b)" using l by (simp_all add: n_def)
  qed
  then show "word_of_nat (n div 256) = b" by (simp add: z)
  have "word_of_nat n = (word_of_nat (unat a * 256 + unat b) * 256 + c :: byte)" by (simp add: n_def)
  then show "word_of_nat n = c" unfolding z by simp
qed

lemma b64_value_le [simp]: "n < 64 \<Longrightarrow> \<not> b64_bad (b64_value (b64_char n))"
  using b64_value_char [of n] by simp

lemma b64_char_eq [simp]: "n < 64 \<Longrightarrow> b64_char n \<noteq> CHR ''=''" "n < 64 \<Longrightarrow> b64_value (b64_char n) = n"
  using b64_value_char [of n] by simp_all

lemma div_drop_low:
  assumes "r < k"
  shows "(k * m + r) div (k * j) = k * m div (k * (j :: nat))"
  using assms by (simp add: div_mult2_eq)

lemma sextets_high:
  fixes n :: nat
  defines "h \<equiv> n div 262144 mod 64 * 262144 + n div 4096 mod 64 * 4096"
  assumes "n < 16777216"
  shows "h div 65536 = n div 65536" "(h + n div 64 mod 64 * 64) div 256 = n div 256"
proof -
  define s0 s1 s2 s3 where s: "s0 = n div 262144 mod 64" "s1 = n div 4096 mod 64" "s2 = n div 64 mod 64" "s3 = n mod 64"
  have "s2 < 64" "s3 < 64" by (simp_all add: s)
  have h: "h = s0 * 262144 + s1 * 4096" "h + n div 64 mod 64 * 64 = s0 * 262144 + s1 * 4096 + s2 * 64"
    unfolding h_def s by (rule refl)+
  have n: "n = s0 * 262144 + s1 * 4096 + s2 * 64 + s3"
    unfolding s by (rule sextets [OF assms(2), symmetric])
  have "(4096 * (s0 * 64 + s1) + (s2 * 64 + s3)) div (4096 * 16) = 4096 * (s0 * 64 + s1) div (4096 * 16)"
    using \<open>s2 < 64\<close> \<open>s3 < 64\<close> by (intro div_drop_low) simp
  moreover have "4096 * (s0 * 64 + s1) + (s2 * 64 + s3) = n" "4096 * (s0 * 64 + s1) = h"
    using n h by simp_all
  ultimately show "h div 65536 = n div 65536" by simp
  have "(64 * (s0 * 4096 + s1 * 64 + s2) + s3) div (64 * 4) = 64 * (s0 * 4096 + s1 * 64 + s2) div (64 * 4)"
    using \<open>s3 < 64\<close> by (intro div_drop_low) simp
  moreover have "64 * (s0 * 4096 + s1 * 64 + s2) + s3 = n" "64 * (s0 * 4096 + s1 * 64 + s2) = h + n div 64 mod 64 * 64"
    unfolding h(2) using n by simp_all
  ultimately show "(h + n div 64 mod 64 * 64) div 256 = n div 256" by simp
qed

lemma b64_decode_last_ok:
  assumes "n < 16777216"
  defines "c0 \<equiv> b64_char (n div 262144 mod 64)" and "c1 \<equiv> b64_char (n div 4096 mod 64)"
  shows "b64_decode_last c0 c1 (b64_char (n div 64 mod 64)) (b64_char (n mod 64))
       = Inr [word_of_nat (n div 65536), word_of_nat (n div 256), word_of_nat n]"
    and "b64_decode_last c0 c1 (b64_char (n div 64 mod 64)) (CHR ''='') = Inr [word_of_nat (n div 65536), word_of_nat (n div 256)]"
    and "b64_decode_last c0 c1 (CHR ''='') (CHR ''='') = Inr [word_of_nat (n div 65536)]"
proof -
  define s0 s1 s2 s3 where s: "s0 = n div 262144 mod 64" "s1 = n div 4096 mod 64" "s2 = n div 64 mod 64" "s3 = n mod 64"
  have l: "s0 < 64" "s1 < 64" "s2 < 64" "s3 < 64" by (simp_all add: s)
  note e = sextets [OF assms(1)] sextets_high [OF assms(1)]
  note u = c0_def c1_def s [symmetric] b64_decode_last_def Let_def
  show "b64_decode_last c0 c1 (b64_char (n div 64 mod 64)) (b64_char (n mod 64))
       = Inr [word_of_nat (n div 65536), word_of_nat (n div 256), word_of_nat n]"
    using e l unfolding u by simp
  show "b64_decode_last c0 c1 (b64_char (n div 64 mod 64)) (CHR ''='') = Inr [word_of_nat (n div 65536), word_of_nat (n div 256)]"
    using e l unfolding u by simp
  show "b64_decode_last c0 c1 (CHR ''='') (CHR ''='') = Inr [word_of_nat (n div 65536)]"
    using e l unfolding u by simp
qed

lemma b64_decode_loop_step:
  assumes "n < 16777216" "s \<noteq> []"
  shows "b64_decode_loop (b64_char (n div 262144 mod 64) # b64_char (n div 4096 mod 64) # b64_char (n div 64 mod 64) # b64_char (n mod 64) # s)
       = map_sum id (\<lambda>r. word_of_nat (n div 65536) # word_of_nat (n div 256) # word_of_nat n # r) (b64_decode_loop s)"
proof -
  define s0 s1 s2 s3 where d: "s0 = n div 262144 mod 64" "s1 = n div 4096 mod 64" "s2 = n div 64 mod 64" "s3 = n mod 64"
  have l: "s0 < 64" "s1 < 64" "s2 < 64" "s3 < 64" by (simp_all add: d)
  show ?thesis
    using sextets [OF assms(1)] l assms(2) unfolding d [symmetric] by simp
qed

lemma b64_encode_loop_Nil: "b64_encode_loop s = [] \<longleftrightarrow> s = []"
  by (cases s rule: b64_encode_loop.cases) (simp_all add: Let_def)

lemma b64_decode_encode_loop:
  "s \<noteq> [] \<Longrightarrow> b64_decode_loop (b64_encode_loop s @ replicate ((3 - length s mod 3) mod 3) (CHR ''='')) = Inr s"
proof (induction s rule: b64_encode_loop.induct)
  case (2 a)
  have "b64_decode_last (b64_char (n div 262144 mod 64)) (b64_char (n div 4096 mod 64)) (CHR ''='') (CHR ''='') = Inr [a]"
    if "n = unat a * 65536 + unat (0 :: byte) * 256 + unat (0 :: byte)" for n
    using that octets [of a 0 0] b64_decode_last_ok(3) [of n] by simp
  then show ?case by (simp add: Let_def numeral_2_eq_2 del: of_nat_add)
next
  case (3 a b)
  have "b64_decode_last (b64_char (n div 262144 mod 64)) (b64_char (n div 4096 mod 64)) (b64_char (n div 64 mod 64)) (CHR ''='') = Inr [a, b]"
    if "n = unat a * 65536 + unat b * 256 + unat (0 :: byte)" for n
    using that octets [of a b 0] b64_decode_last_ok(2) [of n] by simp
  then show ?case by (simp add: Let_def)
next
  case (4 a b c s)
  define n where n: "n = unat a * 65536 + unat b * 256 + unat c"
  note o = octets [of a b c, folded n]
  have p: "length (a # b # c # s) mod 3 = length s mod 3" by simp
  show ?case
  proof (cases "s = []")
    case True
    then show ?thesis using b64_decode_last_ok(1) [OF o(1)] o by (simp add: Let_def n [symmetric])
  next
    case False
    then show ?thesis
      using 4 o b64_decode_loop_step [OF o(1)]
      unfolding p b64_encode_loop.simps Let_def n [symmetric]
      by (simp add: b64_encode_loop_Nil del: b64_decode_loop.simps)
  qed
qed simp

lemma b64_encode_length:
  "length (b64_encode_loop s) + (3 - length s mod 3) mod 3 = (length s + 2) div 3 * 4"
proof (induction s rule: b64_encode_loop.induct)
  case (4 a b c s)
  have "(length (a # b # c # s) + 2) div 3 = Suc ((length s + 2) div 3)" "length (a # b # c # s) mod 3 = length s mod 3"
    by simp_all
  then show ?case using 4 by (simp add: Let_def)
qed (simp_all add: Let_def)

text \<open>C35: base64 is read back: \<open>b64_encode\<close> stays within the buffer it has resized, writes four characters for three bytes, and
  \<open>b64_decode\<close> of the text is the data.\<close>

theorem b64_roundtrip: "\<exists>t. b64_encode s = Some t \<and> length t = (length s + 2) div 3 * 4 \<and> b64_decode t = Inr s"
proof (cases "s = []")
  case False
  let ?t = "b64_encode_loop s @ replicate ((3 - length s mod 3) mod 3) (CHR ''='')"
  have l: "length ?t = (length s + 2) div 3 * 4" using b64_encode_length [of s] by simp
  then have "length ?t \<le> length s * 4 div 3 + 3" by presburger
  then have "b64_encode s = Some ?t" using False by (simp add: b64_encode_def Let_def)
  moreover have "?t \<noteq> []" "length ?t mod 4 = 0" using False l by (simp_all add: b64_encode_loop_Nil)
  ultimately show ?thesis
    using l b64_decode_encode_loop [OF False] unfolding b64_decode_def by auto
qed (simp add: b64_encode_def b64_decode_def)

end
