(* ===== verification/Stat.thy ===== *)
theory Stat
  imports Complex_Main Prelude
begin

text \<open>
  Statistics, \<open>src/tll/stat.h\<close> and \<open>src/stat.cc\<close>: a block has two pages of fields. Writers take the active page by exchanging
  the pointer \<open>lock\<close> with null, update fields and store the pointer back; a collector replaces the pointer with that of the
  inactive page if no writer holds it, and then copies and resets the fields of the page it has taken out. The blocks of a
  program are in a linked list.

  Integers are \<^typ>\<open>int\<close> with the sum wrapped to 64 bits, doubles are rational numbers without rounding. The interleaving of
  writers with the collector is a step relation, one step per atomic operation and per access to a field; the fields
  \<open>active\<close> and \<open>inactive\<close> are accessed by the collector only. Reference counts of list nodes are not modelled: a node stays
  in the store.
\<close>

section \<open>Fields\<close>

datatype stat_method = TLL_STAT_SUM | TLL_STAT_MIN | TLL_STAT_MAX | TLL_STAT_LAST
datatype stat_unit = TLL_STAT_UNIT_UNKNOWN | TLL_STAT_UNIT_BYTES | TLL_STAT_UNIT_NS

text \<open>The union \<open>value\<close> and \<open>fvalue\<close> with the bit \<open>type\<close> that tells which one is used.\<close>

datatype stat_value = StatInt int | StatFloat rat

record stat_field =
  sf_method :: stat_method
  sf_unit :: stat_unit
  sf_name :: string
  sf_value :: stat_value

definition wrap64 :: "int \<Rightarrow> int" where
  "wrap64 n = (n + 2 ^ 63) mod 2 ^ 64 - 2 ^ 63"

text \<open>\<open>std::numeric_limits\<close>: for doubles \<open>min\<close> is the smallest positive normal number.\<close>

definition default_int :: "stat_method \<Rightarrow> int" where
  "default_int m = (case m of TLL_STAT_SUM \<Rightarrow> 0 | TLL_STAT_MIN \<Rightarrow> 2 ^ 63 - 1 | TLL_STAT_MAX \<Rightarrow> - (2 ^ 63) | TLL_STAT_LAST \<Rightarrow> - (2 ^ 63))"

definition double_min :: rat where
  "double_min = 1 / 2 ^ 1022"

definition double_max :: rat where
  "double_max = (2 - 1 / 2 ^ 52) * 2 ^ 1023"

definition default_float :: "stat_method \<Rightarrow> rat" where
  "default_float m = (case m of TLL_STAT_SUM \<Rightarrow> 0 | TLL_STAT_MIN \<Rightarrow> double_max | TLL_STAT_MAX \<Rightarrow> double_min | TLL_STAT_LAST \<Rightarrow> double_min)"

definition update_int :: "stat_method \<Rightarrow> int \<Rightarrow> int \<Rightarrow> int" where
  "update_int m v0 v1 = (case m of TLL_STAT_SUM \<Rightarrow> wrap64 (v0 + v1) | TLL_STAT_MIN \<Rightarrow> min v0 v1 | TLL_STAT_MAX \<Rightarrow> max v0 v1 | TLL_STAT_LAST \<Rightarrow> v1)"

definition update_float :: "stat_method \<Rightarrow> rat \<Rightarrow> rat \<Rightarrow> rat" where
  "update_float m v0 v1 = (case m of TLL_STAT_SUM \<Rightarrow> v0 + v1 | TLL_STAT_MIN \<Rightarrow> min v0 v1 | TLL_STAT_MAX \<Rightarrow> max v0 v1 | TLL_STAT_LAST \<Rightarrow> v1)"

definition value_default :: "stat_method \<Rightarrow> stat_value \<Rightarrow> stat_value" where
  "value_default m v = (case v of StatInt _ \<Rightarrow> StatInt (default_int m) | StatFloat _ \<Rightarrow> StatFloat (default_float m))"

definition field_reset :: "stat_field \<Rightarrow> stat_field" where
  "field_reset f = f\<lparr>sf_value := value_default (sf_method f) (sf_value f)\<rparr>"

text \<open>\<open>None\<close>: the call reads the member of the union that is not the one of the field's type.\<close>

definition field_update_int :: "stat_field \<Rightarrow> int \<Rightarrow> stat_field option" where
  "field_update_int f v =
     (case sf_value f of StatInt v0 \<Rightarrow> Some (f\<lparr>sf_value := StatInt (update_int (sf_method f) v0 v)\<rparr>) | StatFloat _ \<Rightarrow> None)"

definition field_update_float :: "stat_field \<Rightarrow> rat \<Rightarrow> stat_field option" where
  "field_update_float f v =
     (case sf_value f of StatFloat v0 \<Rightarrow> Some (f\<lparr>sf_value := StatFloat (update_float (sf_method f) v0 v)\<rparr>) | StatInt _ \<Rightarrow> None)"

text \<open>\<open>FieldT\<close>: the constructor fills the descriptor and resets the value; \<open>update\<close> picks the member of the union.\<close>

definition field_new :: "stat_value \<Rightarrow> stat_method \<Rightarrow> stat_unit \<Rightarrow> string \<Rightarrow> stat_field" where
  "field_new t m u n = field_reset \<lparr>sf_method = m, sf_unit = u, sf_name = take 7 n, sf_value = t\<rparr>"

definition field_update :: "stat_field \<Rightarrow> stat_value \<Rightarrow> stat_field option" where
  "field_update f v = (case v of StatInt n \<Rightarrow> field_update_int f n | StatFloat x \<Rightarrow> field_update_float f x)"

text \<open>\<open>GroupT\<close>: four fields, count, sum, minimum and maximum; \<open>None\<close> also if the four fields are not there.\<close>

definition group_new :: "stat_value \<Rightarrow> stat_unit \<Rightarrow> string \<Rightarrow> stat_field list" where
  "group_new t u n =
     [field_new (StatInt 0) TLL_STAT_SUM TLL_STAT_UNIT_UNKNOWN ''_tllgrp'', field_new t TLL_STAT_SUM u n,
      field_new t TLL_STAT_MIN u n, field_new t TLL_STAT_MAX u n]"

fun group_update :: "stat_field list \<Rightarrow> stat_value \<Rightarrow> stat_field list option" where
  "group_update [c, s, mi, ma] v =
     Option.bind (field_update c (StatInt 1)) (\<lambda>c. Option.bind (field_update s v) (\<lambda>s.
     Option.bind (field_update mi v) (\<lambda>mi. Option.bind (field_update ma v) (\<lambda>ma. Some [c, s, mi, ma]))))"
| "group_update _ v = None"

section \<open>Blocks\<close>

type_synonym stat_page = "stat_field list"

text \<open>Pages are numbered, \<open>None\<close> is the null pointer.\<close>

record stat_block =
  sb_lock :: "nat option"
  sb_active :: nat
  sb_inactive :: nat
  sb_name :: string
  sb_pages :: "nat \<Rightarrow> stat_page"

definition block_new :: "string \<Rightarrow> stat_page \<Rightarrow> stat_block" where
  "block_new n pg = \<lparr>sb_lock = Some 0, sb_active = 0, sb_inactive = 1, sb_name = n, sb_pages = (\<lambda>_. pg)\<rparr>"

definition stat_acquire :: "stat_block \<Rightarrow> stat_block \<times> nat option" where
  "stat_acquire b = (b\<lparr>sb_lock := None\<rparr>, sb_lock b)"

definition stat_release :: "stat_block \<Rightarrow> nat \<Rightarrow> stat_block" where
  "stat_release b p = b\<lparr>sb_lock := Some p\<rparr>"

text \<open>\<open>swap\<close>: the compare and exchange, which may fail without a reason, and the exchange of the two pointers.\<close>

definition stat_cas :: "bool \<Rightarrow> stat_block \<Rightarrow> stat_block \<times> bool" where
  "stat_cas spurious b =
     (if \<not> spurious \<and> sb_lock b = Some (sb_active b) then (b\<lparr>sb_lock := Some (sb_inactive b)\<rparr>, True) else (b, False))"

definition stat_exchange :: "stat_block \<Rightarrow> stat_block" where
  "stat_exchange b = b\<lparr>sb_active := sb_inactive b, sb_inactive := sb_active b\<rparr>"

definition stat_swap :: "bool \<Rightarrow> stat_block \<Rightarrow> stat_block \<times> nat option" where
  "stat_swap spurious b =
     (let (b1, ok) = stat_cas spurious b in
      if ok then (let b2 = stat_exchange b1 in (b2, Some (sb_inactive b2))) else (b1, None))"

text \<open>\<open>acquire_wait\<close> against the values of \<open>lock\<close> its successive exchanges meet. The counter is an unsigned int: it is
  decremented before the test, so 0 means the whole range. The result is the page and the number of exchanges.\<close>

function acquire_wait :: "(nat \<Rightarrow> nat option) \<Rightarrow> u32 \<Rightarrow> nat \<Rightarrow> nat option \<times> nat" where
  "acquire_wait seen iterations k =
     (case seen k of
        Some p \<Rightarrow> (Some p, Suc k)
      | None \<Rightarrow> if 0 < iterations - 1 then acquire_wait seen (iterations - 1) (Suc k) else (None, Suc k))"
  by auto
termination
proof (relation "measure (\<lambda>(_, n, _). unat (n - 1))")
  fix seen :: "nat \<Rightarrow> nat option" and n :: u32 and k
  assume "0 < n - 1"
  then have "n - 1 \<noteq> 0" and p: "0 < unat (n - 1)" by (auto simp: word_less_nat_alt)
  then have "unat (n - 1 - 1) = unat (n - 1) - 1" using unat_minus_one [of "n - 1"] by simp
  with p have "unat (n - 1 - 1) < unat (n - 1)" by linarith
  then show "((seen, n - 1, Suc k), seen, n, k) \<in> measure (\<lambda>(_, n, _). unat (n - 1))"
    unfolding in_measure prod.case .
qed simp

definition block_acquire_wait :: "(nat \<Rightarrow> nat option) \<Rightarrow> u32 \<Rightarrow> nat option \<times> nat" where
  "block_acquire_wait seen iterations = acquire_wait seen 0 0"

text \<open>\<open>PageGuard\<close>: the pointers of block and page, null after a move or a reset.\<close>

type_synonym page_guard = "bool \<times> nat option"

definition acquire_guard :: "stat_block \<Rightarrow> stat_block \<times> page_guard" where
  "acquire_guard b = (let (b, p) = stat_acquire b in (b, (True, p)))"

definition guard_reset :: "stat_block \<Rightarrow> page_guard \<Rightarrow> stat_block \<times> page_guard" where
  "guard_reset b g = (case g of (True, Some p) \<Rightarrow> (stat_release b p, (False, None)) | _ \<Rightarrow> (b, (False, None)))"

section \<open>The list of blocks\<close>

text \<open>A node is known by its position in the store. Its page is a copy of the block's page, so that the values the collector
  returns stay valid when the block is removed.\<close>

record stat_iter =
  si_block :: "nat option"
  si_next :: "nat option"
  si_name :: string
  si_page :: stat_page

record stat_list =
  sl_head :: "nat option"
  sl_nodes :: "stat_iter list"

definition iter_reset :: "(nat \<Rightarrow> stat_block) \<Rightarrow> nat \<Rightarrow> stat_iter" where
  "iter_reset blocks b =
     \<lparr>si_block = Some b, si_next = None, si_name = sb_name (blocks b), si_page = sb_pages (blocks b) (sb_inactive (blocks b))\<rparr>"

text \<open>The loop of \<open>swap\<close> over the fields of the page that was taken out.\<close>

definition copy_field :: "stat_field \<Rightarrow> stat_field \<Rightarrow> stat_field \<times> stat_field" where
  "copy_field dst src = (dst\<lparr>sf_value := sf_value src\<rparr>, field_reset src)"

fun copy_page :: "stat_page \<Rightarrow> stat_page \<Rightarrow> stat_page \<times> stat_page" where
  "copy_page (d # ds) (s # ss) =
     (let (d', s') = copy_field d s; (ds', ss') = copy_page ds ss in (d' # ds', s' # ss'))"
| "copy_page ds ss = (ds, ss)"

definition iter_swap :: "bool \<Rightarrow> (nat \<Rightarrow> stat_block) \<Rightarrow> stat_iter \<Rightarrow> (nat \<Rightarrow> stat_block) \<times> stat_iter \<times> stat_page option" where
  "iter_swap spurious blocks i =
     (case si_block i of
        None \<Rightarrow> (blocks, i, None)
      | Some b \<Rightarrow>
          (case stat_swap spurious (blocks b) of
             (blk, None) \<Rightarrow> (blocks(b := blk), i, None)
           | (blk, Some p) \<Rightarrow>
               (let (dst, src) = copy_page (si_page i) (sb_pages blk p)
                in (blocks(b := blk\<lparr>sb_pages := (sb_pages blk)(p := src)\<rparr>), i\<lparr>si_page := dst\<rparr>, Some dst))))"

definition stat_list_new :: stat_list where
  "stat_list_new = \<lparr>sl_head = None, sl_nodes = []\<rparr>"

definition stat_list_begin :: "stat_list option \<Rightarrow> nat option" where
  "stat_list_begin l = Option.bind l sl_head"

definition iter_next :: "stat_list \<Rightarrow> nat option \<Rightarrow> nat option" where
  "iter_next l i = Option.bind i (\<lambda>a. si_next (sl_nodes l ! a))"

definition iter_empty :: "stat_list \<Rightarrow> nat option \<Rightarrow> bool" where
  "iter_empty l i = (case i of None \<Rightarrow> True | Some a \<Rightarrow> si_block (sl_nodes l ! a) = None)"

definition iter_block :: "stat_list \<Rightarrow> nat option \<Rightarrow> nat option" where
  "iter_block l i = Option.bind i (\<lambda>a. si_block (sl_nodes l ! a))"

definition iter_name :: "stat_list \<Rightarrow> nat option \<Rightarrow> string option" where
  "iter_name l i = map_option (\<lambda>a. si_name (sl_nodes l ! a)) i"

partial_function (option) add_loop :: "stat_iter list \<Rightarrow> nat \<Rightarrow> nat option \<Rightarrow> nat option \<Rightarrow> (errno + nat option) option" where
  "add_loop ns b i prev =
     (case i of
        None \<Rightarrow> Some (Inr prev)
      | Some a \<Rightarrow> if si_block (ns ! a) = Some b then Some (Inl EEXIST) else add_loop ns b (si_next (ns ! a)) (Some a))"

definition stat_list_add :: "(nat \<Rightarrow> stat_block) \<Rightarrow> stat_list \<Rightarrow> nat \<Rightarrow> (stat_list \<times> errno option) option" where
  "stat_list_add blocks l b =
     Option.bind (add_loop (sl_nodes l) b (sl_head l) None) (\<lambda>r.
       case r of
         Inl e \<Rightarrow> Some (l, Some e)
       | Inr prev \<Rightarrow>
           (let new = length (sl_nodes l); l1 = l\<lparr>sl_nodes := sl_nodes l @ [iter_reset blocks b]\<rparr> in
            Some (case prev of
                    Some a \<Rightarrow> l1\<lparr>sl_nodes := (sl_nodes l1)[a := (sl_nodes l1 ! a)\<lparr>si_next := Some new\<rparr>]\<rparr>
                  | None \<Rightarrow> l1\<lparr>sl_head := Some new\<rparr>, None)))"

partial_function (option) remove_loop :: "stat_iter list \<Rightarrow> nat \<Rightarrow> nat option \<Rightarrow> nat option \<Rightarrow> (nat option \<times> nat) option option" where
  "remove_loop ns b i prev =
     (case i of
        None \<Rightarrow> Some None
      | Some a \<Rightarrow> if si_block (ns ! a) \<noteq> Some b then remove_loop ns b (si_next (ns ! a)) (Some a) else Some (Some (prev, a)))"

definition stat_list_remove :: "stat_list \<Rightarrow> nat \<Rightarrow> (stat_list \<times> errno option) option" where
  "stat_list_remove l b =
     Option.bind (remove_loop (sl_nodes l) b (sl_head l) None) (\<lambda>r.
       case r of
         None \<Rightarrow> Some (l, Some ENOENT)
       | Some (prev, a) \<Rightarrow>
           (let nxt = si_next (sl_nodes l ! a);
                l1 = (case prev of
                        Some q \<Rightarrow> l\<lparr>sl_nodes := (sl_nodes l)[q := (sl_nodes l ! q)\<lparr>si_next := nxt\<rparr>]\<rparr>
                      | None \<Rightarrow> l\<lparr>sl_head := nxt\<rparr>)
            in Some (l1\<lparr>sl_nodes := (sl_nodes l1)[a := (sl_nodes l1 ! a)\<lparr>si_block := None\<rparr>]\<rparr>, None)))"

section \<open>Writers and a collector\<close>

text \<open>What the collector does next: the compare and exchange, the exchange of the pointers, or the copy of a field.\<close>

datatype collector = CollIdle | CollSwap | CollCopy nat

text \<open>Writers hold a page or none; \<open>ss_node\<close> is the page of the list node, \<open>ss_out\<close> are the pages the collector has returned and
  \<open>ss_log\<close> the updates of each field, in order.\<close>

record stat_sys =
  ss_block :: stat_block
  ss_writers :: "nat \<Rightarrow> nat option"
  ss_coll :: collector
  ss_node :: stat_page
  ss_out :: "stat_page list"
  ss_log :: "nat \<Rightarrow> stat_value list"

abbreviation page_of :: "stat_sys \<Rightarrow> nat \<Rightarrow> stat_page" where
  "page_of s p \<equiv> sb_pages (ss_block s) p"

definition set_page :: "stat_block \<Rightarrow> nat \<Rightarrow> stat_page \<Rightarrow> stat_block" where
  "set_page b p pg = b\<lparr>sb_pages := (sb_pages b)(p := pg)\<rparr>"

definition stat_init :: "string \<Rightarrow> stat_page \<Rightarrow> stat_sys" where
  "stat_init n pg = \<lparr>ss_block = block_new n pg, ss_writers = (\<lambda>_. None), ss_coll = CollIdle, ss_node = pg, ss_out = [], ss_log = (\<lambda>_. [])\<rparr>"

inductive stat_step :: "stat_sys \<Rightarrow> stat_sys \<Rightarrow> bool" where
  acquire: "ss_writers s w = None \<Longrightarrow> stat_acquire (ss_block s) = (b, p) \<Longrightarrow>
    stat_step s (s\<lparr>ss_block := b, ss_writers := (ss_writers s)(w := p)\<rparr>)"
| update: "ss_writers s w = Some p \<Longrightarrow> i < length (page_of s p) \<Longrightarrow> field_update (page_of s p ! i) v = Some f \<Longrightarrow>
    stat_step s (s\<lparr>ss_block := set_page (ss_block s) p ((page_of s p)[i := f]), ss_log := (ss_log s)(i := ss_log s i @ [v])\<rparr>)"
| release: "ss_writers s w = Some p \<Longrightarrow>
    stat_step s (s\<lparr>ss_block := stat_release (ss_block s) p, ss_writers := (ss_writers s)(w := None)\<rparr>)"
| cas: "ss_coll s = CollIdle \<Longrightarrow> stat_cas spurious (ss_block s) = (b, ok) \<Longrightarrow>
    stat_step s (s\<lparr>ss_block := b, ss_coll := if ok then CollSwap else CollIdle\<rparr>)"
| exchange: "ss_coll s = CollSwap \<Longrightarrow> stat_step s (s\<lparr>ss_block := stat_exchange (ss_block s), ss_coll := CollCopy 0\<rparr>)"
| copy: "ss_coll s = CollCopy i \<Longrightarrow> q = sb_inactive (ss_block s) \<Longrightarrow> i < length (page_of s q) \<Longrightarrow>
    copy_field (ss_node s ! i) (page_of s q ! i) = (dst, src) \<Longrightarrow>
    stat_step s (s\<lparr>ss_block := set_page (ss_block s) q ((page_of s q)[i := src]), ss_node := (ss_node s)[i := dst], ss_coll := CollCopy (Suc i)\<rparr>)"
| finish: "ss_coll s = CollCopy i \<Longrightarrow> \<not> i < length (page_of s (sb_inactive (ss_block s))) \<Longrightarrow>
    stat_step s (s\<lparr>ss_coll := CollIdle, ss_out := ss_out s @ [ss_node s]\<rparr>)"

inductive stat_reach :: "string \<Rightarrow> stat_page \<Rightarrow> stat_sys \<Rightarrow> bool" for n pg where
  init: "stat_reach n pg (stat_init n pg)"
| step: "stat_reach n pg s \<Longrightarrow> stat_step s t \<Longrightarrow> stat_reach n pg t"

inductive_cases stat_stepE: "stat_step s t"

text \<open>A field after a sequence of updates.\<close>

fun field_after :: "stat_field \<Rightarrow> stat_value list \<Rightarrow> stat_field option" where
  "field_after f [] = Some f"
| "field_after f (v # vs) = Option.bind (field_update f v) (\<lambda>f. field_after f vs)"

lemma field_after_append: "field_after f (us @ vs) = Option.bind (field_after f us) (\<lambda>g. field_after g vs)"
  by (induction us arbitrary: f) (auto split: bind_split)

lemma field_update_keeps: "field_update f v = Some g \<Longrightarrow> field_reset g = field_reset f \<and> g = f\<lparr>sf_value := sf_value g\<rparr>"
  by (auto simp: field_update_def field_update_int_def field_update_float_def field_reset_def value_default_def
      split: stat_value.splits)

lemma field_after_keeps: "field_after f vs = Some g \<Longrightarrow> field_reset g = field_reset f \<and> g = f\<lparr>sf_value := sf_value g\<rparr>"
proof (induction vs arbitrary: f)
  case (Cons v vs)
  then obtain h where h: "field_update f v = Some h" "field_after h vs = Some g" by (auto split: bind_splits)
  have "g = h\<lparr>sf_value := sf_value g\<rparr>" "h = f\<lparr>sf_value := sf_value h\<rparr>"
    using Cons.IH [OF h(2)] field_update_keeps [OF h(1)] by blast+
  then have "g = f\<lparr>sf_value := sf_value g\<rparr>" by (metis stat_field.update_convs(4) stat_field.surjective)
  then show ?case using Cons.IH [OF h(2)] field_update_keeps [OF h(1)] by simp
qed simp

text \<open>The page writers can have, and who has it.\<close>

definition writer_page :: "stat_sys \<Rightarrow> nat" where
  "writer_page s = (if ss_coll s = CollSwap then sb_inactive (ss_block s) else sb_active (ss_block s))"

definition lock_inv :: "stat_sys \<Rightarrow> bool" where
  "lock_inv s \<longleftrightarrow>
     sb_active (ss_block s) \<noteq> sb_inactive (ss_block s) \<and>
     (case sb_lock (ss_block s) of
        Some p \<Rightarrow> p = writer_page s \<and> (\<forall>w. ss_writers s w = None)
      | None \<Rightarrow> \<exists>w. ss_writers s w = Some (writer_page s) \<and> (\<forall>v. v \<noteq> w \<longrightarrow> ss_writers s v = None))"

lemma lock_inv_distinct: "lock_inv s \<Longrightarrow> sb_active (ss_block s) \<noteq> sb_inactive (ss_block s)"
  by (simp add: lock_inv_def)

lemma lock_inv_Some: "lock_inv s \<Longrightarrow> sb_lock (ss_block s) = Some q \<Longrightarrow> q = writer_page s \<and> (\<forall>w. ss_writers s w = None)"
  by (simp add: lock_inv_def)

lemma lock_inv_holder:
  assumes "lock_inv s" "ss_writers s w = Some p"
  shows "sb_lock (ss_block s) = None \<and> p = writer_page s \<and> (\<forall>v. v \<noteq> w \<longrightarrow> ss_writers s v = None)"
proof (cases "sb_lock (ss_block s)")
  case None
  then obtain u where "ss_writers s u = Some (writer_page s)" "\<forall>v. v \<noteq> u \<longrightarrow> ss_writers s v = None"
    using assms(1) by (auto simp: lock_inv_def)
  moreover from this have "u = w" using assms(2) by fastforce
  ultimately show ?thesis using None assms(2) by simp
next
  case (Some q)
  then show ?thesis using assms lock_inv_Some by fastforce
qed

lemma lock_inv_cong:
  "lock_inv s \<Longrightarrow> sb_lock (ss_block t) = sb_lock (ss_block s) \<Longrightarrow> ss_writers t = ss_writers s \<Longrightarrow> writer_page t = writer_page s \<Longrightarrow>
   sb_active (ss_block t) \<noteq> sb_inactive (ss_block t) \<Longrightarrow> lock_inv t"
  by (simp add: lock_inv_def split: option.splits)

lemma lock_inv_step: "stat_step s t \<Longrightarrow> lock_inv s \<Longrightarrow> lock_inv t"
proof (induction rule: stat_step.induct)
  case (acquire s w b p)
  show ?case
  proof (cases "sb_lock (ss_block s)")
    case None
    then have "p = None" using acquire by (simp add: stat_acquire_def)
    then have "(ss_writers s)(w := p) = ss_writers s" using acquire by (auto simp: fun_eq_iff)
    moreover have "b = ss_block s" using acquire None by (cases "ss_block s") (simp add: stat_acquire_def)
    ultimately show ?thesis using acquire by simp
  next
    case (Some q)
    then have "p = Some (writer_page s)" "b = (ss_block s)\<lparr>sb_lock := None\<rparr>" "\<forall>v. ss_writers s v = None"
      "sb_active (ss_block s) \<noteq> sb_inactive (ss_block s)"
      using acquire lock_inv_Some [OF _ Some] lock_inv_distinct by (simp_all add: stat_acquire_def)
    then show ?thesis by (auto simp: lock_inv_def writer_page_def intro!: exI [of _ w])
  qed
next
  case (update s w p i v f)
  then show ?case using lock_inv_distinct [OF update.prems] by (elim lock_inv_cong) (simp_all add: set_page_def writer_page_def)
next
  case (release s w p)
  then have "p = writer_page s" "((ss_writers s)(w := None)) v = None" for v
    using lock_inv_holder [OF release.prems] by auto
  then show ?case
    using lock_inv_distinct [OF release.prems] by (simp add: lock_inv_def writer_page_def stat_release_def)
next
  case (cas s sp b ok)
  show ?case
  proof (cases ok)
    case True
    then have "sb_lock (ss_block s) = Some (sb_active (ss_block s))" "b = (ss_block s)\<lparr>sb_lock := Some (sb_inactive (ss_block s))\<rparr>"
      using cas by (auto simp: stat_cas_def split: if_splits)
    then show ?thesis
      using True lock_inv_Some [OF cas.prems] lock_inv_distinct [OF cas.prems] by (simp add: lock_inv_def writer_page_def)
  next
    case False
    then have "b = ss_block s" using cas by (auto simp: stat_cas_def split: if_splits)
    then show ?thesis using False cas lock_inv_distinct [OF cas.prems] by (elim lock_inv_cong) (simp_all add: writer_page_def)
  qed
next
  case (exchange s)
  then show ?case using lock_inv_distinct [OF exchange.prems] by (elim lock_inv_cong) (simp_all add: stat_exchange_def writer_page_def)
next
  case (copy s i q dst src)
  then show ?case using lock_inv_distinct [OF copy.prems] by (elim lock_inv_cong) (simp_all add: set_page_def writer_page_def)
next
  case (finish s i)
  then show ?case using lock_inv_distinct [OF finish.prems] by (elim lock_inv_cong) (simp_all add: writer_page_def)
qed

text \<open>Lengths and descriptors of the pages never change.\<close>

definition shape_inv :: "stat_page \<Rightarrow> stat_sys \<Rightarrow> bool" where
  "shape_inv pg s \<longleftrightarrow>
     (\<forall>p. length (page_of s p) = length pg) \<and> length (ss_node s) = length pg \<and>
     (\<forall>i < length pg. ss_node s ! i = (pg ! i)\<lparr>sf_value := sf_value (ss_node s ! i)\<rparr>)"

lemma shape_inv_step: "stat_step s t \<Longrightarrow> shape_inv pg s \<Longrightarrow> shape_inv pg t"
proof (induction rule: stat_step.induct)
  case (copy s i q dst src)
  have "ss_node s ! i = (pg ! i)\<lparr>sf_value := sf_value (ss_node s ! i)\<rparr>"
    using copy unfolding shape_inv_def by (metis (no_types))
  then have "dst = (pg ! i)\<lparr>sf_value := sf_value dst\<rparr>"
    using copy by (metis copy_field_def prod.inject stat_field.update_convs(4) stat_field.surjective)
  then show ?case using copy by (auto simp: shape_inv_def set_page_def nth_list_update)
qed (auto simp: shape_inv_def stat_acquire_def stat_release_def stat_cas_def stat_exchange_def set_page_def split: if_splits)

text \<open>The account of field \<open>i\<close>: the updates are those of the pages returned so far, those of the page the collector has taken
  and those of the page of the writers.\<close>

definition fld :: "stat_sys \<Rightarrow> nat \<Rightarrow> nat \<Rightarrow> stat_field" where
  "fld s p i = page_of s p ! i"

definition account :: "stat_field \<Rightarrow> stat_sys \<Rightarrow> nat \<Rightarrow> stat_value list list \<Rightarrow> stat_value list \<Rightarrow> stat_value list \<Rightarrow> bool" where
  "account f s i segs taken cur \<longleftrightarrow>
     concat segs @ taken @ cur = ss_log s i \<and>
     list_all2 (\<lambda>seg pg. field_after f seg = Some (pg ! i)) segs (ss_out s) \<and>
     field_after f cur = Some (fld s (writer_page s) i) \<and>
     (case ss_coll s of
        CollIdle \<Rightarrow> taken = [] \<and> fld s (sb_inactive (ss_block s)) i = f
      | CollSwap \<Rightarrow> field_after f taken = Some (fld s (sb_active (ss_block s)) i)
      | CollCopy k \<Rightarrow>
          if i < k then field_after f taken = Some (ss_node s ! i) \<and> fld s (sb_inactive (ss_block s)) i = f
          else field_after f taken = Some (fld s (sb_inactive (ss_block s)) i))"

lemma account_step:
  assumes "stat_step s t" "lock_inv s" "shape_inv pg s" "i < length pg" "field_reset (pg ! i) = pg ! i"
    and "account (pg ! i) s i segs taken cur"
  shows "\<exists>segs taken cur. account (pg ! i) t i segs taken cur"
  using assms(1)
proof cases
  case (acquire w b p)
  then have "account (pg ! i) t i segs taken cur"
    using assms(6) by (auto simp: account_def stat_acquire_def fld_def writer_page_def split: collector.splits if_splits)
  then show ?thesis by blast
next
  case (release w p)
  then have "account (pg ! i) t i segs taken cur"
    using assms(6) by (auto simp: account_def stat_release_def fld_def writer_page_def split: collector.splits if_splits)
  then show ?thesis by blast
next
  case (update w p j v f)
  have p: "p = writer_page s" using lock_inv_holder [OF assms(2) update(2)] by simp
  have w: "writer_page t = writer_page s" using update(1) by (simp add: writer_page_def set_page_def)
  show ?thesis
  proof (cases "i = j")
    case True
    have "field_after (pg ! i) (cur @ [v]) = Some f"
      using assms(6) update p True by (simp add: account_def field_after_append fld_def)
    moreover have "writer_page s \<noteq> (if ss_coll s = CollSwap then sb_active (ss_block s) else sb_inactive (ss_block s))"
      using assms(2) by (simp add: lock_inv_def writer_page_def)
    ultimately have "account (pg ! i) t i segs taken (cur @ [v])"
      using assms(6) update True w unfolding account_def
      by (auto simp: p fld_def set_page_def split: collector.splits if_splits)
    then show ?thesis by blast
  next
    case False
    then have "account (pg ! i) t i segs taken cur"
      using assms(6) update w by (auto simp: account_def fld_def set_page_def split: collector.splits if_splits)
    then show ?thesis by blast
  qed
next
  case (cas sp b ok)
  show ?thesis
  proof (cases ok)
    case True
    then have "account (pg ! i) t i segs cur []"
      using assms(6) cas by (auto simp: account_def stat_cas_def fld_def writer_page_def split: if_splits)
    then show ?thesis by blast
  next
    case False
    then have "account (pg ! i) t i segs taken cur"
      using assms(6) cas by (auto simp: account_def stat_cas_def fld_def writer_page_def split: if_splits)
    then show ?thesis by blast
  qed
next
  case exchange
  then have "account (pg ! i) t i segs taken cur"
    using assms(6) by (simp add: account_def stat_exchange_def fld_def writer_page_def)
  then show ?thesis by blast
next
  case (copy k q dst src)
  have a: "sb_active (ss_block s) \<noteq> q" using assms(2) copy(3) by (simp add: lock_inv_def)
  have "account (pg ! i) t i segs taken cur"
  proof (cases "i = k")
    case True
    then have f: "field_after (pg ! i) taken = Some (fld s q i)" using assms(6) copy by (simp add: account_def)
    have d: "dst = (ss_node s ! i)\<lparr>sf_value := sf_value (fld s q i)\<rparr>" "src = field_reset (fld s q i)"
      using copy True by (simp_all add: copy_field_def fld_def)
    have "dst = fld s q i"
      using assms(3,4) field_after_keeps [OF f] unfolding d(1) shape_inv_def
      by (metis stat_field.update_convs(4) stat_field.surjective)
    moreover have "src = pg ! i" using field_after_keeps [OF f] assms(5) d(2) by simp
    moreover have "i < length (ss_node s)" "i < length (page_of s q)" using assms(3,4) by (simp_all add: shape_inv_def)
    ultimately show ?thesis
      using assms(6) copy True f a by (simp add: account_def fld_def set_page_def writer_page_def)
  next
    case False
    then have "i < Suc k \<longleftrightarrow> i < k" by auto
    then show ?thesis
      using assms(6) copy False a by (auto simp: account_def fld_def set_page_def writer_page_def)
  qed
  then show ?thesis by blast
next
  case (finish k)
  then have "i < k" using assms(3,4) by (simp add: shape_inv_def)
  then have "account (pg ! i) t i (segs @ [taken]) [] cur"
    using assms(6) finish by (simp add: account_def fld_def writer_page_def list_all2_appendI)
  then show ?thesis by blast
qed

lemma stat_reach_inv:
  assumes "stat_reach n pg s" "\<forall>i < length pg. field_reset (pg ! i) = pg ! i"
  shows "lock_inv s \<and> shape_inv pg s \<and> (\<forall>i < length pg. \<exists>segs taken cur. account (pg ! i) s i segs taken cur)"
  using assms(1)
proof induction
  case init
  have "account (pg ! i) (stat_init n pg) i [] [] []" for i
    by (simp add: account_def stat_init_def block_new_def fld_def writer_page_def)
  then show ?case
    by (auto simp: lock_inv_def shape_inv_def stat_init_def block_new_def writer_page_def)
next
  case (step s t)
  then show ?case
    using lock_inv_step shape_inv_step account_step assms(2) by (metis (no_types, lifting))
qed

lemma stat_reach_lock: "stat_reach n pg s \<Longrightarrow> lock_inv s"
proof (induction rule: stat_reach.induct)
  case init
  show ?case by (simp add: lock_inv_def stat_init_def block_new_def writer_page_def)
qed (rule lock_inv_step)

section \<open>Properties\<close>

text \<open>C12: no update of a field is lost or counted twice. Writers and the collector interleave at every atomic operation and
  field access; whenever the collector is between two collections, the updates of a field, in the order they were made,
  are a sequence of segments followed by a rest, the pages returned so far hold the aggregate of one segment each, and the
  active page holds the aggregate of the rest.\<close>

theorem stat_no_lost_update:
  assumes "stat_reach n (map field_reset pg) s" "ss_coll s = CollIdle" "i < length pg"
  shows "\<exists>segs rest. concat segs @ rest = ss_log s i \<and>
    list_all2 (\<lambda>seg out. field_after (field_reset (pg ! i)) seg = Some (out ! i)) segs (ss_out s) \<and>
    field_after (field_reset (pg ! i)) rest = Some (sb_pages (ss_block s) (sb_active (ss_block s)) ! i)"
proof -
  have "field_reset (field_reset f) = field_reset f" for f
    by (simp add: field_reset_def value_default_def split: stat_value.splits)
  then have "\<forall>i < length (map field_reset pg). field_reset (map field_reset pg ! i) = map field_reset pg ! i" by simp
  from stat_reach_inv [OF assms(1) this] assms(3)
  obtain segs taken cur where "account (field_reset (pg ! i)) s i segs taken cur" by auto
  then have "taken = []" "concat segs @ taken @ cur = ss_log s i \<and>
    list_all2 (\<lambda>seg out. field_after (field_reset (pg ! i)) seg = Some (out ! i)) segs (ss_out s) \<and>
    field_after (field_reset (pg ! i)) cur = Some (sb_pages (ss_block s) (sb_active (ss_block s)) ! i)"
    using assms(2) by (auto simp: account_def fld_def writer_page_def)
  then show ?thesis by auto
qed

text \<open>A page has one owner: at most one writer holds a page, which is not the one the collector copies, and while it does neither
  a second writer nor the collector can take it.\<close>

theorem stat_exclusive:
  assumes "stat_reach n (map field_reset pg) s" "ss_writers s w = Some p"
  shows "(ss_writers s v = Some q \<longrightarrow> v = w) \<and> (ss_coll s = CollCopy k \<longrightarrow> p \<noteq> sb_inactive (ss_block s)) \<and>
    snd (stat_swap False (ss_block s)) = None \<and> snd (stat_acquire (ss_block s)) = None"
proof -
  have "lock_inv s" by (rule stat_reach_lock [OF assms(1)])
  then show ?thesis
    using lock_inv_holder [OF _ assms(2)] lock_inv_distinct [of s]
    by (auto simp: stat_swap_def stat_cas_def stat_acquire_def writer_page_def)
qed

lemma stat_no_lost_update_witness:
  "\<exists>segs rest. concat segs @ rest = [StatInt 5] \<and>
    list_all2 (\<lambda>seg out. field_after (field_reset (field_new (StatInt 0) TLL_STAT_SUM TLL_STAT_UNIT_NS ''rx'')) seg = Some (out ! 0)) segs [] \<and>
    field_after (field_reset (field_new (StatInt 0) TLL_STAT_SUM TLL_STAT_UNIT_NS ''rx'')) rest
      = Some (field_new (StatInt 0) TLL_STAT_SUM TLL_STAT_UNIT_NS ''rx''\<lparr>sf_value := StatInt 5\<rparr>)"
proof -
  let ?f = "field_new (StatInt 0) TLL_STAT_SUM TLL_STAT_UNIT_NS ''rx''"
  let ?i = "stat_init ''block'' (map field_reset [?f])"
  define s1 where "s1 = ?i\<lparr>ss_block := (ss_block ?i)\<lparr>sb_lock := None\<rparr>, ss_writers := (ss_writers ?i)(7 := Some 0)\<rparr>"
  define s2 where "s2 = s1\<lparr>ss_block := set_page (ss_block s1) 0 ((page_of s1 0)[0 := ?f\<lparr>sf_value := StatInt 5\<rparr>]),
    ss_log := (ss_log s1)(0 := ss_log s1 0 @ [StatInt 5])\<rparr>"
  note d = stat_init_def block_new_def field_new_def field_reset_def value_default_def default_int_def
  have "stat_step ?i s1" unfolding s1_def by (rule stat_step.acquire) (simp_all add: d stat_acquire_def)
  moreover have "stat_step s1 s2"
    unfolding s2_def by (rule stat_step.update [where w = 7])
      (simp_all add: s1_def d field_update_def field_update_int_def update_int_def wrap64_def)
  ultimately have r: "stat_reach ''block'' (map field_reset [?f]) s2"
    by (blast intro: stat_reach.intros)
  have e: "ss_coll s2 = CollIdle" "ss_log s2 0 = [StatInt 5]" "ss_out s2 = []"
    "page_of s2 (sb_active (ss_block s2)) ! 0 = ?f\<lparr>sf_value := StatInt 5\<rparr>"
    by (simp_all add: s2_def s1_def set_page_def stat_init_def block_new_def)
  show ?thesis using stat_no_lost_update [OF r e(1), of 0] unfolding e by simp
qed

text \<open>Over doubles the default of \<open>Max\<close> is the smallest positive number, not the lowest: a field updated with negative
  numbers only keeps that default.\<close>

theorem stat_max_negative:
  assumes "\<forall>v \<in> set vs. v < 0"
  shows "field_after (field_new (StatFloat 0) TLL_STAT_MAX u n) (map StatFloat vs) = Some (field_new (StatFloat 0) TLL_STAT_MAX u n)"
proof -
  have "0 < double_min" by (simp add: double_min_def)
  then show ?thesis
    using assms
    by (induction vs) (auto simp: field_new_def field_reset_def value_default_def default_float_def field_update_def
      field_update_float_def update_float_def max_def)
qed

lemma stat_max_negative_witness:
  "field_after (field_new (StatFloat 0) TLL_STAT_MAX TLL_STAT_UNIT_NS ''t'') (map StatFloat [- 1, - 5])
     = Some (field_new (StatFloat 0) TLL_STAT_MAX TLL_STAT_UNIT_NS ''t'')"
  by (rule stat_max_negative) simp

text \<open>\<open>BlockT::acquire_wait\<close> drops its argument: against a page that stays locked it makes the whole range of exchanges,
  whatever the number of iterations the caller has asked for.\<close>

lemma acquire_wait_locked:
  "seen = (\<lambda>_. None) \<Longrightarrow> acquire_wait seen n k = (None, k + unat (n - 1) + 1)"
proof (induction seen n k rule: acquire_wait.induct)
  case (1 seen n k)
  show ?case
  proof (cases "0 < n - 1")
    case True
    then have "n - 1 \<noteq> 0" by auto
    then have "unat (n - 1 - 1) = unat (n - 1) - 1" "0 < unat (n - 1)"
      using unat_minus_one [of "n - 1"] by (simp_all add: unat_gt_0)
    then have "Suc k + unat (n - 1 - 1) + 1 = k + unat (n - 1) + 1" by linarith
    then show ?thesis using 1 True by (subst acquire_wait.simps) simp
  next
    case False
    then have "n = 1" by (simp add: word_neq_0_conv [symmetric])
    then show ?thesis using 1 False by (subst acquire_wait.simps) simp
  qed
qed

lemma block_acquire_wait_ignores: "block_acquire_wait (\<lambda>_. None) n = (None, 2 ^ 32)"
proof -
  have "0 + unat (0 - 1 :: u32) + 1 = 2 ^ 32" by (simp add: unsigned_minus_1_eq_mask mask_eq_exp_minus_1)
  then show ?thesis unfolding block_acquire_wait_def acquire_wait_locked [OF refl] by (rule arg_cong)
qed

section \<open>The list refines a sequence of blocks\<close>

fun chain :: "stat_iter list \<Rightarrow> nat option \<Rightarrow> nat list \<Rightarrow> bool" where
  "chain ns p [] = (p = None)"
| "chain ns p (a # as) = (p = Some a \<and> a < length ns \<and> chain ns (si_next (ns ! a)) as)"

abbreviation block_at :: "stat_iter list \<Rightarrow> nat \<Rightarrow> nat option" where
  "block_at ns a \<equiv> si_block (ns ! a)"

text \<open>The nodes on the chain hold the blocks \<open>bs\<close>.\<close>

definition stat_list_rel :: "stat_list \<Rightarrow> nat list \<Rightarrow> nat list \<Rightarrow> bool" where
  "stat_list_rel l as bs \<longleftrightarrow> chain (sl_nodes l) (sl_head l) as \<and> distinct as \<and> distinct bs \<and> map (block_at (sl_nodes l)) as = map Some bs"

definition spec_add :: "nat list \<Rightarrow> nat \<Rightarrow> nat list \<times> errno option" where
  "spec_add bs b = (if b \<in> set bs then (bs, Some EEXIST) else (bs @ [b], None))"

definition spec_remove :: "nat list \<Rightarrow> nat \<Rightarrow> nat list \<times> errno option" where
  "spec_remove bs b = (if b \<in> set bs then (remove1 b bs, None) else (bs, Some ENOENT))"

lemma chain_range: "chain ns p as \<Longrightarrow> set as \<subseteq> {..<length ns}"
  by (induction as arbitrary: p) auto

lemma chain_cong: "chain ns p as \<Longrightarrow> length ns \<le> length ms \<Longrightarrow> \<forall>a \<in> set as. si_next (ms ! a) = si_next (ns ! a) \<Longrightarrow> chain ms p as"
  by (induction as arbitrary: p) auto

lemma chain_append: "chain ns p (as @ [a]) \<Longrightarrow> si_next (ns ! a) = None"
  by (induction as arbitrary: p) auto

lemma add_loop_chain:
  "chain ns p as \<Longrightarrow> map (block_at ns) as = map Some bs \<Longrightarrow>
   add_loop ns b p prev = Some (if b \<in> set bs then Inl EEXIST else Inr (if as = [] then prev else Some (last as)))"
proof (induction as arbitrary: p bs prev)
  case Nil
  then show ?case by (simp add: add_loop.simps)
next
  case (Cons a as)
  then obtain c cs where "bs = c # cs" by (cases bs) auto
  then show ?case using Cons by (subst add_loop.simps) auto
qed

lemma remove_loop_found:
  "chain ns p (us @ a # vs) \<Longrightarrow> \<forall>u \<in> set us. block_at ns u \<noteq> Some b \<Longrightarrow> block_at ns a = Some b \<Longrightarrow>
   remove_loop ns b p prev = Some (Some (if us = [] then prev else Some (last us), a))"
proof (induction us arbitrary: p prev)
  case Nil
  then show ?case by (subst remove_loop.simps) simp
next
  case (Cons u us)
  then show ?case by (subst remove_loop.simps) simp
qed

lemma remove_loop_missing:
  "chain ns p as \<Longrightarrow> \<forall>u \<in> set as. block_at ns u \<noteq> Some b \<Longrightarrow> remove_loop ns b p prev = Some None"
proof (induction as arbitrary: p prev)
  case Nil
  then show ?case by (subst remove_loop.simps) simp
next
  case (Cons u us)
  then show ?case by (subst remove_loop.simps) simp
qed

lemma chain_extend:
  assumes "chain ns p as" "as \<noteq> []" "distinct as" "si_next x = None"
  shows "chain ((ns @ [x])[last as := (ns ! last as)\<lparr>si_next := Some (length ns)\<rparr>]) p (as @ [length ns])"
  using assms
proof (induction as arbitrary: p)
  case (Cons a as)
  have "set (a # as) \<subseteq> {..<length ns}" using Cons.prems(1) by (rule chain_range)
  then have l: "a < length ns" "last (a # as) < length ns" using last_in_set [of "a # as"] by auto
  show ?case
  proof (cases "as = []")
    case True
    then show ?thesis using Cons.prems l by (simp add: nth_list_update nth_append)
  next
    case False
    then have "a \<noteq> last as" using Cons.prems(3) by auto
    then show ?thesis using Cons False l by (simp add: nth_append)
  qed
qed simp

lemma stat_list_add_refines:
  assumes "stat_list_rel l as bs"
  shows "\<exists>m as'. stat_list_add blocks l b = Some (m, snd (spec_add bs b)) \<and> stat_list_rel m as' (fst (spec_add bs b))"
proof -
  let ?ns = "sl_nodes l" and ?x = "iter_reset blocks b"
  have r: "chain ?ns (sl_head l) as" "distinct as" "distinct bs" "map (block_at ?ns) as = map Some bs"
    using assms by (simp_all add: stat_list_rel_def)
  note loop = add_loop_chain [OF r(1,4), of b None]
  have rng: "set as \<subseteq> {..<length ?ns}" using r chain_range by blast
  consider "b \<in> set bs" | "b \<notin> set bs" "as = []" | "b \<notin> set bs" "as \<noteq> []" by blast
  then show ?thesis
  proof cases
    case 1
    then show ?thesis using assms loop by (auto simp: stat_list_add_def spec_add_def)
  next
    case 2
    define m where "m = l\<lparr>sl_nodes := ?ns @ [?x], sl_head := Some (length ?ns)\<rparr>"
    have "stat_list_add blocks l b = Some (m, None)" using 2 loop by (simp add: stat_list_add_def m_def)
    moreover have "stat_list_rel m [length ?ns] [b]" by (simp add: stat_list_rel_def m_def iter_reset_def)
    ultimately show ?thesis using 2 r by (auto simp: spec_add_def)
  next
    case 3
    let ?ms = "(?ns @ [?x])[last as := (?ns ! last as)\<lparr>si_next := Some (length ?ns)\<rparr>]"
    define m where "m = l\<lparr>sl_nodes := ?ms\<rparr>"
    have la: "last as < length ?ns" "last as \<in> set as" using subsetD [OF rng last_in_set [of as]] 3 by simp_all
    have "stat_list_add blocks l b = Some (m, None)" using 3 loop la by (simp add: stat_list_add_def m_def nth_append)
    moreover have "stat_list_rel m (as @ [length ?ns]) (bs @ [b])"
    proof -
      have "chain ?ms (sl_head l) (as @ [length ?ns])"
        using r 3 by (intro chain_extend) (simp_all add: iter_reset_def)
      moreover have "block_at ?ms a = block_at ?ns a" if "a \<in> set as" for a
        using that rng la by (auto simp: nth_list_update nth_append)
      then have "map (block_at ?ms) as = map (block_at ?ns) as" by (intro map_cong) auto
      then have "map (block_at ?ms) as = map Some bs" using r(4) by simp
      ultimately show ?thesis
        using r 3 rng la by (auto simp: stat_list_rel_def m_def iter_reset_def nth_append)
    qed
    ultimately show ?thesis using 3 by (auto simp: spec_add_def)
  qed
qed

lemma chain_unlink:
  "chain ns p (us @ q # a # vs) \<Longrightarrow> distinct (us @ q # a # vs) \<Longrightarrow>
   chain (ns[q := (ns ! q)\<lparr>si_next := si_next (ns ! a)\<rparr>]) p (us @ q # vs)"
proof (induction us arbitrary: p)
  case Nil
  then have "chain ns (si_next (ns ! a)) vs" "q \<notin> set vs" by simp_all
  then have "chain (ns[q := (ns ! q)\<lparr>si_next := si_next (ns ! a)\<rparr>]) (si_next (ns ! a)) vs"
    by (elim chain_cong) (simp, metis nth_list_update_neq)
  then show ?case using Nil by simp
qed auto

lemma chain_same:
  assumes "length ms = length ns" "\<And>a. si_next (ms ! a) = si_next (ns ! a)"
  shows "chain ms p as = chain ns p as"
  using assms by (induction as arbitrary: p) auto

lemma nth_update_next: "si_block (ns[q := (ns ! q)\<lparr>si_next := n\<rparr>] ! a) = si_block (ns ! a)"
  by (cases "q = a"; cases "q < length ns") (simp_all add: list_update_beyond)

lemma nth_update_block: "si_next (ns[q := (ns ! q)\<lparr>si_block := n\<rparr>] ! a) = si_next (ns ! a)"
  by (cases "q = a"; cases "q < length ns") (simp_all add: list_update_beyond)

lemma nth_update_block_neq: "a \<noteq> q \<Longrightarrow> si_block (ns[q := (ns ! q)\<lparr>si_block := n\<rparr>] ! a) = si_block (ns ! a)"
  by simp

lemma stat_list_remove_refines:
  assumes "stat_list_rel l as bs"
  shows "\<exists>m as'. stat_list_remove l b = Some (m, snd (spec_remove bs b)) \<and> stat_list_rel m as' (fst (spec_remove bs b))"
proof -
  let ?ns = "sl_nodes l"
  have r: "chain ?ns (sl_head l) as" "distinct as" "distinct bs" "map (block_at ?ns) as = map Some bs"
    using assms by (simp_all add: stat_list_rel_def)
  show ?thesis
  proof (cases "b \<in> set bs")
    case False
    have "set (map (block_at ?ns) as) = set (map Some bs)" using r(4) by simp
    then have "\<forall>u \<in> set as. block_at ?ns u \<noteq> Some b" using False by force
    then show ?thesis using assms False remove_loop_missing [OF r(1)] by (auto simp: stat_list_remove_def spec_remove_def)
  next
    case True
    then obtain xs ys where bs: "bs = xs @ b # ys" "b \<notin> set xs" using split_list_first by metis
    then obtain us a vs where as: "as = us @ a # vs" "map (block_at ?ns) us = map Some xs" "block_at ?ns a = Some b" "map (block_at ?ns) vs = map Some ys"
      using r(4) by (auto simp: map_eq_append_conv map_eq_Cons_conv)
    have "set (map (block_at ?ns) us) = set (map Some xs)" using as(2) by simp
    then have "\<forall>u \<in> set us. block_at ?ns u \<noteq> Some b" using bs(2) by force
    note loop = remove_loop_found [OF r(1) [unfolded as(1)] this as(3), of None]
    define l1 where "l1 = (if us = [] then l\<lparr>sl_head := si_next (?ns ! a)\<rparr>
       else l\<lparr>sl_nodes := ?ns[last us := (?ns ! last us)\<lparr>si_next := si_next (?ns ! a)\<rparr>]\<rparr>)"
    define m where "m = l1\<lparr>sl_nodes := (sl_nodes l1)[a := (sl_nodes l1 ! a)\<lparr>si_block := None\<rparr>]\<rparr>"
    have "stat_list_remove l b = Some (m, None)"
      using loop by (simp add: stat_list_remove_def m_def l1_def Let_def)
    moreover have "chain (sl_nodes l1) (sl_head l1) (us @ vs)"
    proof (cases us rule: rev_cases)
      case Nil
      then show ?thesis using r(1) as(1) by (simp add: l1_def)
    next
      case (snoc ws q)
      then show ?thesis using r(1,2) as(1) chain_unlink [of ?ns "sl_head l" ws q a vs] by (simp add: l1_def)
    qed
    then have "chain (sl_nodes m) (sl_head m) (us @ vs)"
      using chain_same [of "sl_nodes m" "sl_nodes l1"] by (simp add: m_def nth_update_block)
    moreover have "block_at (sl_nodes m) u = block_at ?ns u" if "u \<in> set (us @ vs)" for u
    proof -
      have "u \<noteq> a" using that r(2) as(1) by auto
      then show ?thesis by (simp add: m_def l1_def nth_update_next)
    qed
    then have "map (block_at (sl_nodes m)) (us @ vs) = map (block_at ?ns) (us @ vs)" by (intro map_cong) auto
    ultimately have "stat_list_rel m (us @ vs) (xs @ ys)"
      using r(2,3) as bs by (auto simp: stat_list_rel_def)
    then show ?thesis
      using True bs \<open>stat_list_remove l b = Some (m, None)\<close> by (auto simp: spec_remove_def remove1_append)
  qed
qed
datatype list_op = ListAdd nat | ListRemove nat

primrec stat_list_run :: "(nat \<Rightarrow> stat_block) \<Rightarrow> list_op list \<Rightarrow> stat_list \<Rightarrow> (stat_list \<times> errno option list) option" where
  "stat_list_run blocks [] l = Some (l, [])"
| "stat_list_run blocks (x # xs) l =
     Option.bind (case x of ListAdd b \<Rightarrow> stat_list_add blocks l b | ListRemove b \<Rightarrow> stat_list_remove l b) (\<lambda>(l, r).
       map_option (\<lambda>(l, rs). (l, r # rs)) (stat_list_run blocks xs l))"

primrec spec_run :: "list_op list \<Rightarrow> nat list \<Rightarrow> nat list \<times> errno option list" where
  "spec_run [] bs = (bs, [])"
| "spec_run (x # xs) bs =
     (let (bs, r) = (case x of ListAdd b \<Rightarrow> spec_add bs b | ListRemove b \<Rightarrow> spec_remove bs b); (bs, rs) = spec_run xs bs in (bs, r # rs))"

text \<open>A loop from \<open>begin\<close> to \<open>end\<close>.\<close>

partial_function (option) stat_list_items :: "stat_list \<Rightarrow> nat option \<Rightarrow> nat option list option" where
  "stat_list_items l i =
     (case i of
        None \<Rightarrow> Some []
      | Some a \<Rightarrow> Option.bind (stat_list_items l (iter_next l i)) (\<lambda>r. Some (iter_block l i # r)))"

lemma stat_list_items_chain: "chain (sl_nodes l) i as \<Longrightarrow> stat_list_items l i = Some (map (block_at (sl_nodes l)) as)"
proof (induction as arbitrary: i)
  case Nil
  then show ?case by (subst stat_list_items.simps) simp
next
  case (Cons a as)
  then show ?case by (subst stat_list_items.simps) (simp add: iter_next_def iter_block_def)
qed

lemma stat_list_run_refines:
  "stat_list_rel l as bs \<Longrightarrow> \<exists>m as'. stat_list_run blocks ops l = Some (m, snd (spec_run ops bs)) \<and> stat_list_rel m as' (fst (spec_run ops bs))"
proof (induction ops arbitrary: l as bs)
  case (Cons x ops)
  obtain m as' where m: "(case x of ListAdd b \<Rightarrow> stat_list_add blocks l b | ListRemove b \<Rightarrow> stat_list_remove l b)
      = Some (m, snd (case x of ListAdd b \<Rightarrow> spec_add bs b | ListRemove b \<Rightarrow> spec_remove bs b))"
    "stat_list_rel m as' (fst (case x of ListAdd b \<Rightarrow> spec_add bs b | ListRemove b \<Rightarrow> spec_remove bs b))"
    using stat_list_add_refines [OF Cons.prems] stat_list_remove_refines [OF Cons.prems] by (cases x) fastforce+
  from Cons.IH [OF m(2)] m(1) show ?case
    by (auto simp: Let_def case_prod_unfold)
qed auto

text \<open>C37: the list of statistics refines a sequence of distinct blocks: \<open>add\<close> appends or reports EEXIST, \<open>remove\<close> deletes or
  reports ENOENT, for any sequence of calls, and a loop from begin to end meets exactly the blocks of the sequence, in order.\<close>

theorem stat_list_refines:
  "\<exists>l. stat_list_run blocks ops stat_list_new = Some (l, snd (spec_run ops [])) \<and>
       stat_list_items l (stat_list_begin (Some l)) = Some (map Some (fst (spec_run ops [])))"
proof -
  have "stat_list_rel stat_list_new [] []" by (simp add: stat_list_rel_def stat_list_new_def)
  from stat_list_run_refines [OF this, of blocks ops] obtain l as where
    "stat_list_run blocks ops stat_list_new = Some (l, snd (spec_run ops []))" "stat_list_rel l as (fst (spec_run ops []))" by blast
  then show ?thesis
    using stat_list_items_chain [of l "sl_head l" as] by (auto simp: stat_list_rel_def stat_list_begin_def)
qed

end
