(* ===== verification/Reopen.thy ===== *)
theory Reopen
  imports Channel Stat
begin

text \<open>
  The timer channel, \<open>src/channel/timer.cc\<close>, and the mixin that keeps a child channel open, \<open>src/tll/channel/reopen.h\<close> with its C
  interface \<open>src/channel/reopen.cc\<close>. Times and durations are nanoseconds; 0 is \<open>time_point {}\<close> and means that nothing is
  scheduled. Results of system calls are arguments.
\<close>

section \<open>Timer\<close>

text \<open>What was asked of the timerfd: time, one shot, absolute.\<close>

type_synonym timerfd = "int \<times> bool \<times> bool"

record timer =
  tm_monotonic :: bool
  tm_with_fd :: bool
  tm_skip_old :: bool
  tm_oneshot_init :: bool
  tm_interval_init :: int
  tm_interval :: int
  tm_next :: int
  tm_dcaps :: u32
  tm_fd :: "timerfd option"

text \<open>Operations return the timer as they leave it, and the error.\<close>

definition timer_init :: "bool \<Rightarrow> bool \<Rightarrow> bool \<Rightarrow> bool \<Rightarrow> int \<Rightarrow> int \<Rightarrow> bool \<Rightarrow> timer \<times> errno option" where
  "timer_init monotonic with_fd skip_old oneshot interval initial clock_ok =
     (let t = \<lparr>tm_monotonic = monotonic, tm_with_fd = with_fd, tm_skip_old = skip_old, tm_oneshot_init = oneshot,
               tm_interval_init = interval, tm_interval = 0, tm_next = 0, tm_dcaps = 0, tm_fd = None\<rparr>
      in if initial \<noteq> 0 \<and> interval \<noteq> 0 \<and> initial \<noteq> interval then (t, Some EINVAL)
         else let t = (if initial \<noteq> 0 \<and> interval = 0 then t\<lparr>tm_interval_init := initial, tm_oneshot_init := True\<rparr> else t)
              in (t, if clock_ok then None else Some EINVAL))"

definition rearm_timerfd :: "int \<Rightarrow> bool \<Rightarrow> bool \<Rightarrow> bool \<Rightarrow> timer \<Rightarrow> timer \<times> errno option" where
  "rearm_timerfd interval oneshot absolute ok t =
     (if ok then (t\<lparr>tm_fd := Some (interval, oneshot, absolute)\<rparr>, None) else (t, Some EINVAL))"

text \<open>The end of \<open>_open\<close> and of the two \<open>_rearm\<close>: the descriptor is set and the caps say so.\<close>

definition timer_arm :: "int \<Rightarrow> bool \<Rightarrow> bool \<Rightarrow> bool \<Rightarrow> timer \<Rightarrow> timer \<times> errno option" where
  "timer_arm interval oneshot absolute ok t =
     (if tm_with_fd t
      then (case rearm_timerfd interval oneshot absolute ok t of
              (t, Some e) \<Rightarrow> (t, Some e)
            | (t, None) \<Rightarrow> (t\<lparr>tm_dcaps := tm_dcaps t OR (DCAPS_PROCESS OR DCAPS_POLLIN)\<rparr>, None))
      else (t\<lparr>tm_dcaps := tm_dcaps t OR DCAPS_PROCESS\<rparr>, None))"

text \<open>\<open>param_interval\<close> and \<open>param_oneshot\<close> are the open parameters, the init ones when they are not given.\<close>

definition timer_open :: "int option \<Rightarrow> bool option \<Rightarrow> int \<Rightarrow> bool \<Rightarrow> bool \<Rightarrow> int \<Rightarrow> timer \<Rightarrow> timer \<times> errno option" where
  "timer_open param_interval param_oneshot initial fd_ok arm_ok now t =
     (let t = t\<lparr>tm_next := 0, tm_interval := (case param_interval of Some i \<Rightarrow> i | None \<Rightarrow> tm_interval_init t)\<rparr>;
          oneshot = (case param_oneshot of Some o1 \<Rightarrow> o1 | None \<Rightarrow> tm_oneshot_init t)
      in if initial \<noteq> 0 then (t, Some EINVAL)
         else if tm_with_fd t \<and> \<not> fd_ok then (t, Some EINVAL)
         else let t = (if tm_with_fd t then t\<lparr>tm_fd := Some (0, True, False)\<rparr> else t)
              in if tm_interval t \<noteq> 0
                 then (case timer_arm (tm_interval t) oneshot False arm_ok (t\<lparr>tm_next := now + tm_interval t\<rparr>) of
                         (t, Some e) \<Rightarrow> (t, Some e)
                       | (t, None) \<Rightarrow> (if oneshot then t\<lparr>tm_interval := 0\<rparr> else t, None))
                 else (t\<lparr>tm_next := 0\<rparr>, None))"

definition timer_close :: "timer \<Rightarrow> timer" where
  "timer_close t = t\<lparr>tm_fd := None\<rparr>"

definition rearm_rel :: "int \<Rightarrow> int \<Rightarrow> bool \<Rightarrow> timer \<Rightarrow> timer \<times> errno option" where
  "rearm_rel now ts ok t = timer_arm ts True False ok (t\<lparr>tm_next := now + ts, tm_interval := 0\<rparr>)"

definition rearm_abs :: "int \<Rightarrow> bool \<Rightarrow> timer \<Rightarrow> timer \<times> errno option" where
  "rearm_abs ts ok t = timer_arm ts True True ok (t\<lparr>tm_next := ts, tm_interval := 0\<rparr>)"

definition rearm_clear :: "bool \<Rightarrow> timer \<Rightarrow> timer \<times> errno option" where
  "rearm_clear ok t =
     (let t = t\<lparr>tm_next := 0, tm_interval := 0\<rparr>
      in case (if tm_with_fd t then rearm_timerfd 0 True False ok t else (t, None)) of
           (t, Some e) \<Rightarrow> (t, Some e)
         | (t, None) \<Rightarrow> (t\<lparr>tm_dcaps := tm_dcaps t AND NOT (DCAPS_PROCESS OR DCAPS_POLLIN)\<rparr>, None))"

text \<open>Messages posted to the timer, with the size of their body.\<close>

datatype timer_msg = TimerRelative nat int | TimerAbsolute nat int | TimerOther | TimerNotData

definition timer_post :: "int \<Rightarrow> bool \<Rightarrow> timer_msg \<Rightarrow> timer \<Rightarrow> timer \<times> errno option" where
  "timer_post now ok m t =
     (case m of
        TimerNotData \<Rightarrow> (t, None)
      | TimerRelative sz ts \<Rightarrow>
          if sz \<noteq> 8 then (t, Some EMSGSIZE) else if ts = 0 then rearm_clear ok t else rearm_rel now ts ok t
      | TimerAbsolute sz ts \<Rightarrow>
          if tm_monotonic t then (t, Some EINVAL)
          else if sz \<noteq> 8 then (t, Some EMSGSIZE)
          else if ts = 0 then rearm_clear ok t
          else rearm_abs ts ok t
      | TimerOther \<Rightarrow> (t, Some EINVAL))"

text \<open>\<open>_process\<close> up to the callback: the next time, with the number of skipped events kept in an unsigned int, and the read of
  the descriptor. The division is of positive numbers.\<close>

definition timer_expire :: "int \<Rightarrow> bool \<Rightarrow> timer \<Rightarrow> timer \<times> errno option" where
  "timer_expire now read_ok t =
     (if tm_next t = 0 then (t, Some EAGAIN)
      else if now < tm_next t then (t, Some EAGAIN)
      else
        let next = (if tm_interval t \<noteq> 0
                    then (let shift = (if tm_skip_old t then ((now - tm_next t) div tm_interval t) mod 2 ^ 32 else 0)
                          in tm_next t + shift * tm_interval t + tm_interval t)
                    else 0);
            t = t\<lparr>tm_next := next\<rparr>
        in (t, if tm_with_fd t \<and> (next = 0 \<or> now < next) \<and> \<not> read_ok then Some EINVAL else None))"

text \<open>The body of the message, and what follows the callback.\<close>

definition timer_body :: "int \<Rightarrow> timer \<Rightarrow> int" where
  "timer_body now t = (if tm_monotonic t then 0 else now)"

definition timer_finish :: "timer \<Rightarrow> timer" where
  "timer_finish t = (if tm_next t = 0 then t\<lparr>tm_dcaps := tm_dcaps t AND NOT (DCAPS_PROCESS OR DCAPS_POLLMASK)\<rparr> else t)"

text \<open>The callback may post to the timer.\<close>

definition timer_process :: "(int \<Rightarrow> timer \<Rightarrow> timer) \<Rightarrow> int \<Rightarrow> bool \<Rightarrow> timer \<Rightarrow> timer \<times> errno option" where
  "timer_process callback now read_ok t =
     (case timer_expire now read_ok t of
        (t1, Some e) \<Rightarrow> (t1, Some e)
      | (t1, None) \<Rightarrow> (timer_finish (callback (timer_body now t1) t1), None))"

section \<open>Reopening\<close>

datatype reopen_action = ActNone | ActOpen | ActClose | ActRearm

text \<open>\<open>rd_channel\<close>: the channel is set.\<close>

record reopen =
  rd_channel :: bool
  rd_state :: tll_state
  rd_next :: int
  rd_active_ts :: int
  rd_closing_ts :: int
  rd_timeout_open :: int
  rd_timeout_close :: int
  rd_timeout_min :: int
  rd_timeout_max :: int
  rd_timeout_tremble :: int
  rd_step_suspend :: int
  rd_wait :: bool
  rd_count :: nat

abbreviation ms :: int where "ms \<equiv> 1000000"

definition reopen_default :: reopen where
  "reopen_default =
     \<lparr>rd_channel = False, rd_state = StClosed, rd_next = 0, rd_active_ts = 0, rd_closing_ts = 0, rd_timeout_open = 300000 * ms,
      rd_timeout_close = 10000 * ms, rd_timeout_min = 1000 * ms, rd_timeout_max = 30000 * ms, rd_timeout_tremble = ms,
      rd_step_suspend = 1000 * ms, rd_wait = False, rd_count = 0\<rparr>"

definition reopen_pending :: "reopen \<Rightarrow> bool" where
  "reopen_pending r \<longleftrightarrow> rd_next r \<noteq> 0"

definition force_close :: "reopen \<Rightarrow> bool" where
  "force_close r \<longleftrightarrow> rd_state r = StClosing"

text \<open>\<open>child\<close>: the state of the channel, if there is one.\<close>

definition reopen_reset :: "tll_state \<Rightarrow> reopen \<Rightarrow> reopen" where
  "reopen_reset child r = r\<lparr>rd_count := 0, rd_next := 0, rd_state := if rd_channel r then child else StClosed\<rparr>"

text \<open>\<open>timeout_min * (1ll << (count - 1))\<close>; \<open>None\<close> is a shift by the width or more, or a product that does not fit.\<close>

definition reopen_timeout :: "reopen \<Rightarrow> int option" where
  "reopen_timeout r =
     (if rd_count r = 0 then Some 0
      else if 64 \<le> rd_count r - 1 then None
      else let p = rd_timeout_min r * wrap64 (2 ^ (rd_count r - 1))
           in if wrap64 p \<noteq> p then None else Some (min (rd_timeout_max r) p))"

definition on_state :: "tll_state \<Rightarrow> int \<Rightarrow> reopen \<Rightarrow> reopen option" where
  "on_state s now r =
     (let r = r\<lparr>rd_next := 0\<rparr>;
          tremble = (rd_state r = StActive \<and> now - rd_active_ts r < rd_timeout_tremble r)
      in map_option (\<lambda>r. r\<lparr>rd_state := s\<rparr>)
         (case s of
            StOpening \<Rightarrow>
              (let r = r\<lparr>rd_next := 0, rd_active_ts := 0\<rparr>
               in map_option (\<lambda>t.
                    let r = (if t < rd_timeout_max r then r\<lparr>rd_count := rd_count r + 1\<rparr> else r)
                    in if 0 < rd_timeout_open r then r\<lparr>rd_next := now + rd_timeout_open r\<rparr> else r) (reopen_timeout r))
          | StActive \<Rightarrow> Some (r\<lparr>rd_active_ts := now\<rparr>)
          | StError \<Rightarrow> Some (r\<lparr>rd_wait := rd_wait r \<or> rd_state r = StOpening \<or> tremble, rd_next := now\<rparr>)
          | StClosing \<Rightarrow>
              (let r = (if rd_closing_ts r = 0 then r\<lparr>rd_closing_ts := now\<rparr> else r)
               in Some (r\<lparr>rd_next := rd_closing_ts r + rd_timeout_close r, rd_wait := rd_wait r \<or> tremble\<rparr>))
          | StClosed \<Rightarrow>
              (if rd_wait r
               then map_option (\<lambda>t. r\<lparr>rd_next := now + t, rd_wait := False, rd_closing_ts := 0\<rparr>) (reopen_timeout r)
               else Some (r\<lparr>rd_next := now, rd_count := 0, rd_closing_ts := 0\<rparr>))
          | StDestroy \<Rightarrow> Some (reopen_reset StClosed (r\<lparr>rd_channel := False\<rparr>))))"

text \<open>\<open>suspended\<close>: the channel has the cap Suspend. \<open>None\<close>: the name of a null channel is logged.\<close>

definition on_timer :: "bool \<Rightarrow> int \<Rightarrow> reopen \<Rightarrow> (reopen \<times> reopen_action) option" where
  "on_timer suspended now r =
     (if rd_state r = StError then Some (r, ActClose)
      else if rd_state r = StClosed \<and> rd_next r \<le> now then Some (r, ActOpen)
      else if rd_state r = StOpening \<and> rd_next r \<le> now
      then if 0 < rd_step_suspend r \<and> rd_channel r \<and> suspended
           then Some (r\<lparr>rd_next := now + rd_step_suspend r\<rparr>, ActRearm)
           else if rd_channel r then Some (r, ActClose) else None
      else if rd_state r = StClosing \<and> rd_next r \<le> now
      then if rd_channel r then Some (r, ActClose) else None
      else Some (r, ActNone))"

section \<open>The mixin\<close>

text \<open>The channel itself, its reopen data and its timer.\<close>

record reopen_chan =
  rc_state :: tll_state
  rc_data :: reopen
  rc_timer :: timer

definition reopen_set :: "bool \<Rightarrow> tll_state \<Rightarrow> reopen_chan \<Rightarrow> reopen_chan" where
  "reopen_set channel child c = c\<lparr>rc_data := reopen_reset child ((rc_data c)\<lparr>rd_channel := channel\<rparr>)\<rparr>"

definition reopen_rearm :: "int \<Rightarrow> bool \<Rightarrow> int \<Rightarrow> reopen_chan \<Rightarrow> reopen_chan" where
  "reopen_rearm now ok ts c = c\<lparr>rc_timer := fst (timer_post now ok (TimerAbsolute 8 ts) (rc_timer c))\<rparr>"

definition reopen_cb :: "bool \<Rightarrow> tll_state \<Rightarrow> int \<Rightarrow> reopen_chan \<Rightarrow> reopen_chan option" where
  "reopen_cb ok s now c =
     map_option (\<lambda>r.
       let c = c\<lparr>rc_data := r\<rparr>
       in if rc_state c \<noteq> StActive \<and> rc_state c \<noteq> StOpening then c
          else if reopen_pending r then reopen_rearm now ok (rd_next r) c else c) (on_state s now (rc_data c))"

text \<open>The states the child reports while a call of it runs.\<close>

fun reopen_cbs :: "bool \<Rightarrow> (tll_state \<times> int) list \<Rightarrow> reopen_chan \<Rightarrow> reopen_chan option" where
  "reopen_cbs ok [] c = Some c"
| "reopen_cbs ok ((s, now) # ss) c = Option.bind (reopen_cb ok s now c) (reopen_cbs ok ss)"

text \<open>\<open>reports\<close> gives the states that the child reports when it is opened, and when it is closed.\<close>

definition reopen_timer_cb ::
  "bool \<Rightarrow> bool \<Rightarrow> int \<Rightarrow> (reopen_action \<Rightarrow> (tll_state \<times> int) list) \<Rightarrow> reopen_chan \<Rightarrow> (reopen_chan \<times> reopen_action) option" where
  "reopen_timer_cb ok suspended now reports c =
     (if \<not> rd_channel (rc_data c) then Some (c, ActNone)
      else Option.bind (on_timer suspended now (rc_data c)) (\<lambda>(r, act).
        let c = c\<lparr>rc_data := r\<rparr> in
        case act of
          ActOpen \<Rightarrow> map_option (\<lambda>c. (c, act)) (reopen_cbs ok (reports act) c)
        | ActClose \<Rightarrow> map_option (\<lambda>c. (c, act)) (reopen_cbs ok (reports act) c)
        | ActRearm \<Rightarrow> Some (if reopen_pending r then reopen_rearm now ok (rd_next r) c else c, act)
        | ActNone \<Rightarrow> Some (c, act)))"

text \<open>\<open>_process\<close> of the timer with this callback.\<close>

definition reopen_fire ::
  "bool \<Rightarrow> bool \<Rightarrow> int \<Rightarrow> (reopen_action \<Rightarrow> (tll_state \<times> int) list) \<Rightarrow> reopen_chan \<Rightarrow> (reopen_chan \<times> reopen_action option) option" where
  "reopen_fire ok suspended now reports c =
     (case timer_expire now True (rc_timer c) of
        (t, Some e) \<Rightarrow> Some (c\<lparr>rc_timer := t\<rparr>, None)
      | (t, None) \<Rightarrow>
          map_option (\<lambda>(c, act). (c\<lparr>rc_timer := timer_finish (rc_timer c)\<rparr>, Some act))
            (reopen_timer_cb ok suspended now reports (c\<lparr>rc_timer := t\<rparr>)))"

text \<open>\<open>_open\<close>: the timer, and the child if the class opens it; \<open>result\<close> is what its \<open>open\<close> returns.\<close>

definition reopen_open ::
  "bool \<Rightarrow> bool \<Rightarrow> (tll_state \<times> int) list \<Rightarrow> bool \<Rightarrow> int \<Rightarrow> reopen_chan \<Rightarrow> (reopen_chan \<times> errno option) option" where
  "reopen_open ok policy reports result now c =
     (let c = c\<lparr>rc_timer := fst (timer_open None None 0 True ok now (rc_timer c))\<rparr> in
      if policy \<and> rd_channel (rc_data c)
      then map_option (\<lambda>c. (c, if result then None else Some EINVAL)) (reopen_cbs ok reports c)
      else Some (c, None))"

definition reopen_close :: "bool \<Rightarrow> (tll_state \<times> int) list \<Rightarrow> reopen_chan \<Rightarrow> reopen_chan option" where
  "reopen_close ok reports c =
     (let c = c\<lparr>rc_timer := timer_close (rc_timer c)\<rparr>
      in if rd_channel (rc_data c) then reopen_cbs ok reports c else Some c)"

section \<open>Timeouts\<close>

lemma wrap64_id: "- (2 ^ 63) \<le> n \<Longrightarrow> n < 2 ^ 63 \<Longrightarrow> wrap64 n = n"
  by (simp add: wrap64_def)

lemma wrap64_nonneg: "0 \<le> n \<Longrightarrow> n < 2 ^ 63 \<Longrightarrow> wrap64 n = n" "0 \<le> n \<Longrightarrow> n \<le> 2 ^ 62 \<Longrightarrow> wrap64 n = n"
  by (simp_all add: wrap64_def)

definition params_ok :: "reopen \<Rightarrow> bool" where
  "params_ok r \<longleftrightarrow> 0 < rd_timeout_min r \<and> rd_timeout_min r < 2 ^ 63 \<and> 0 < rd_timeout_max r \<and> rd_timeout_max r \<le> 2 ^ 62"

text \<open>The count grows only while the timeout is below its maximum.\<close>

definition count_ok :: "reopen \<Rightarrow> bool" where
  "count_ok r \<longleftrightarrow> rd_count r \<le> 1 \<or> rd_timeout_min r * 2 ^ (rd_count r - 2) < rd_timeout_max r"

definition backoff :: "reopen \<Rightarrow> nat \<Rightarrow> int" where
  "backoff r k = (if k = 0 then 0 else min (rd_timeout_max r) (rd_timeout_min r * 2 ^ (k - 1)))"

lemma reopen_timeout_ok:
  assumes "params_ok r" "count_ok r"
  shows "reopen_timeout r = Some (backoff r (rd_count r))"
proof (cases "rd_count r \<le> 1")
  case True
  have "wrap64 (rd_timeout_min r * 1) = rd_timeout_min r" "wrap64 1 = 1"
    using assms(1) by (simp_all add: wrap64_id params_ok_def)
  then show ?thesis using True by (cases "rd_count r") (auto simp: reopen_timeout_def backoff_def)
next
  case False
  define c where "c = rd_count r - 2"
  have c: "rd_count r = c + 2" using False by (simp add: c_def)
  have b: "rd_timeout_min r * 2 ^ c < rd_timeout_max r" using assms(2) False by (simp add: count_ok_def c)
  have "1 * 2 ^ c \<le> rd_timeout_min r * 2 ^ c" using assms(1) by (intro mult_right_mono) (simp_all add: params_ok_def)
  then have "(2 :: int) ^ c < 2 ^ 62" using b assms(1) unfolding params_ok_def by linarith
  then have l: "c < 62" by (rule power_less_imp_less_exp [rotated]) simp
  then have "(2 :: int) ^ (c + 1) \<le> 2 ^ 62" by (intro power_increasing) simp_all
  moreover have "(0 :: int) \<le> 2 ^ (c + 1)" by simp
  ultimately have w: "wrap64 (2 ^ (c + 1)) = 2 ^ (c + 1)" by (intro wrap64_nonneg(2))
  have "rd_timeout_min r * 2 ^ (c + 1) = 2 * (rd_timeout_min r * 2 ^ c)" by simp
  also have "\<dots> < 2 * 2 ^ 62" using b assms(1) unfolding params_ok_def by linarith
  finally have "rd_timeout_min r * 2 ^ (c + 1) < 2 ^ 63" by simp
  moreover have "0 \<le> rd_timeout_min r * 2 ^ (c + 1)" using assms(1) by (simp add: params_ok_def)
  ultimately have "wrap64 (rd_timeout_min r * 2 ^ (c + 1)) = rd_timeout_min r * 2 ^ (c + 1)"
    by (intro wrap64_nonneg(1))
  then show ?thesis using l w by (simp add: reopen_timeout_def backoff_def c Let_def)
qed

text \<open>An attempt to open that fails: the times at which the channel reports Opening, Error, Closing and Closed.\<close>

type_synonym attempt = "int \<times> int \<times> int \<times> int"

definition failed_attempt :: "attempt \<Rightarrow> reopen \<Rightarrow> reopen option" where
  "failed_attempt a r =
     (case a of (t1, t2, t3, t4) \<Rightarrow>
        Option.bind (on_state StOpening t1 r) (\<lambda>r. Option.bind (on_state StError t2 r) (\<lambda>r.
        Option.bind (on_state StClosing t3 r) (on_state StClosed t4))))"

fun failed_attempts :: "attempt list \<Rightarrow> reopen \<Rightarrow> reopen option" where
  "failed_attempts [] r = Some r"
| "failed_attempts (a # as) r = Option.bind (failed_attempt a r) (failed_attempts as)"

definition count_next :: "reopen \<Rightarrow> nat" where
  "count_next r = (if backoff r (rd_count r) < rd_timeout_max r then rd_count r + 1 else rd_count r)"

lemma count_next_ok: "params_ok r \<Longrightarrow> count_ok r \<Longrightarrow> count_ok (r\<lparr>rd_count := count_next r\<rparr>)"
  by (cases "rd_count r") (auto simp: count_ok_def count_next_def backoff_def split: if_splits)

lemma on_state_opening:
  assumes "params_ok r" "count_ok r"
  shows "on_state StOpening now r =
    Some (r\<lparr>rd_next := if 0 < rd_timeout_open r then now + rd_timeout_open r else 0, rd_active_ts := 0, rd_count := count_next r,
      rd_state := StOpening\<rparr>)"
proof -
  have "reopen_timeout (r\<lparr>rd_next := 0, rd_active_ts := 0\<rparr>) = Some (backoff r (rd_count r))"
    using reopen_timeout_ok [of "r\<lparr>rd_next := 0, rd_active_ts := 0\<rparr>"] assms by (simp add: params_ok_def count_ok_def backoff_def)
  then show ?thesis by (simp add: on_state_def Let_def count_next_def)
qed

lemma on_state_closed:
  assumes "params_ok r" "count_ok r"
  shows "on_state StClosed now r =
    Some (if rd_wait r
          then r\<lparr>rd_next := now + backoff r (rd_count r), rd_wait := False, rd_closing_ts := 0, rd_state := StClosed\<rparr>
          else r\<lparr>rd_next := now, rd_count := 0, rd_closing_ts := 0, rd_state := StClosed\<rparr>)"
proof -
  have "reopen_timeout (r\<lparr>rd_next := 0\<rparr>) = Some (backoff r (rd_count r))"
    using reopen_timeout_ok [of "r\<lparr>rd_next := 0\<rparr>"] assms by (simp add: params_ok_def count_ok_def backoff_def)
  then show ?thesis by (simp add: on_state_def Let_def)
qed

lemma on_state_error:
  "on_state StError now r =
    Some (r\<lparr>rd_next := now, rd_wait := rd_wait r \<or> rd_state r = StOpening \<or> rd_state r = StActive \<and> now - rd_active_ts r < rd_timeout_tremble r,
      rd_state := StError\<rparr>)"
  by (simp add: on_state_def Let_def)

lemma on_state_closing:
  "on_state StClosing now r =
    (let ts = (if rd_closing_ts r = 0 then now else rd_closing_ts r) in
     Some (r\<lparr>rd_next := ts + rd_timeout_close r, rd_closing_ts := ts,
       rd_wait := rd_wait r \<or> rd_state r = StActive \<and> now - rd_active_ts r < rd_timeout_tremble r, rd_state := StClosing\<rparr>))"
  by (simp add: on_state_def Let_def)

lemma on_state_active: "on_state StActive now r = Some (r\<lparr>rd_next := 0, rd_active_ts := now, rd_state := StActive\<rparr>)"
  by (simp add: on_state_def Let_def)

lemma failed_attempt_ok:
  assumes "params_ok r" "count_ok r"
  shows "\<exists>r'. failed_attempt (t1, t2, t3, t4) r = Some r' \<and> rd_count r' = count_next r \<and> rd_state r' = StClosed \<and>
    rd_next r' = t4 + backoff r (count_next r) \<and> rd_timeout_min r' = rd_timeout_min r \<and> rd_timeout_max r' = rd_timeout_max r"
proof -
  define r3 where "r3 = the (Option.bind (on_state StOpening t1 r) (\<lambda>r. Option.bind (on_state StError t2 r) (on_state StClosing t3)))"
  have r3: "Option.bind (on_state StOpening t1 r) (\<lambda>r. Option.bind (on_state StError t2 r) (on_state StClosing t3)) = Some r3"
    "rd_count r3 = count_next r" "rd_wait r3" "rd_timeout_min r3 = rd_timeout_min r" "rd_timeout_max r3 = rd_timeout_max r"
    by (simp_all add: r3_def on_state_opening [OF assms] on_state_error on_state_closing Let_def)
  have "params_ok r3" "count_ok r3"
    using assms(1) count_next_ok [OF assms] r3(2,4,5) by (simp_all add: params_ok_def count_ok_def)
  moreover have "failed_attempt (t1, t2, t3, t4) r = on_state StClosed t4 r3"
    using r3(1) by (auto simp: failed_attempt_def bind_eq_Some_conv)
  ultimately show ?thesis using r3 by (simp add: on_state_closed backoff_def)
qed

text \<open>While attempts fail the count is their number, or the timeout has reached its maximum.\<close>

lemma backoff_step:
  assumes "params_ok r" "0 < k" "rd_count r \<le> k" "backoff r (rd_count r) = backoff r k"
  shows "backoff r (count_next r) = backoff r (Suc k)" "count_next r \<le> Suc k"
proof -
  obtain j where k: "k = Suc j" using assms(2) by (cases k) auto
  have m: "rd_timeout_min r * 2 ^ j \<le> rd_timeout_min r * 2 ^ Suc j" using assms(1) by (simp add: params_ok_def)
  show "count_next r \<le> Suc k" using assms(3) by (simp add: count_next_def)
  show "backoff r (count_next r) = backoff r (Suc k)"
  proof (cases "backoff r k < rd_timeout_max r")
    case True
    then have b: "rd_timeout_min r * 2 ^ j < rd_timeout_max r" "backoff r k = rd_timeout_min r * 2 ^ j" by (auto simp: backoff_def k)
    have "0 < backoff r k" unfolding b(2) using assms(1) by (simp add: params_ok_def)
    then have "0 < backoff r (rd_count r)" using assms(4) by simp
    then have "rd_count r \<noteq> 0" unfolding backoff_def by (metis less_irrefl)
    then obtain c where c: "rd_count r = Suc c" by (cases "rd_count r") auto
    then have "rd_timeout_min r * 2 ^ c = rd_timeout_min r * 2 ^ j" using assms(4) b by (auto simp: backoff_def min_def split: if_splits)
    then have "c = j" using assms(1) by (simp add: params_ok_def)
    then show ?thesis using True assms(4) c k by (simp add: count_next_def)
  next
    case False
    then show ?thesis using assms(4) m by (auto simp: count_next_def backoff_def k)
  qed
qed

lemma failed_attempts_ok:
  assumes "params_ok r" "count_ok r" "rd_count r \<le> k" "backoff r (rd_count r) = backoff r k" "0 < k \<or> rd_count r = 0" "as \<noteq> []"
  shows "\<exists>r'. failed_attempts as r = Some r' \<and> rd_state r' = StClosed \<and>
    rd_next r' = snd (snd (snd (last as))) + backoff r (k + length as)"
  using assms
proof (induction as arbitrary: r k)
  case (Cons a as)
  obtain t1 t2 t3 t4 where a: "a = (t1, t2, t3, t4)" by (cases a)
  obtain r' where r': "failed_attempt a r = Some r'" "rd_count r' = count_next r" "rd_state r' = StClosed"
    "rd_next r' = t4 + backoff r (count_next r)" "rd_timeout_min r' = rd_timeout_min r" "rd_timeout_max r' = rd_timeout_max r"
    using failed_attempt_ok [OF Cons.prems(1,2)] a by blast
  have b: "backoff r' j = backoff r j" for j using r'(5,6) by (simp add: backoff_def)
  have n: "backoff r (count_next r) = backoff r (Suc k)" "count_next r \<le> Suc k"
  proof (atomize (full), cases "k = 0")
    case True
    then show "backoff r (count_next r) = backoff r (Suc k) \<and> count_next r \<le> Suc k"
      using Cons.prems(1,3) by (simp add: count_next_def backoff_def params_ok_def)
  next
    case False
    then show "backoff r (count_next r) = backoff r (Suc k) \<and> count_next r \<le> Suc k"
      using backoff_step [OF Cons.prems(1) _ Cons.prems(3,4)] by simp
  qed
  show ?case
  proof (cases "as = []")
    case True
    then show ?thesis using r' n a by simp
  next
    case False
    have "params_ok r'" "count_ok r'"
      using Cons.prems(1) count_next_ok [OF Cons.prems(1,2)] r'(2,5,6) by (simp_all add: params_ok_def count_ok_def)
    then obtain r'' where "failed_attempts as r' = Some r''" "rd_state r'' = StClosed"
      "rd_next r'' = snd (snd (snd (last as))) + backoff r' (Suc k + length as)"
      using Cons.IH [of r' "Suc k"] False n b r'(2) by auto
    then show ?thesis using r'(1) b False by simp
  qed
qed simp



text \<open>With a zero minimal timeout the count never stops, and at the 65th failure in a row the shift is as wide as the type.\<close>

theorem reopen_zero_timeout:
  assumes "rd_timeout_min r = 0" "0 < rd_timeout_max r" "rd_count r = 0" "65 \<le> length as"
  shows "failed_attempts as r = None"
proof -
  have w: "wrap64 0 = 0" by (rule wrap64_id) simp_all
  have step: "failed_attempt a r = (if 64 < rd_count r + 1 then None else failed_attempt a r)"
    "failed_attempt a r = Some r' \<Longrightarrow> rd_timeout_min r' = 0 \<and> 0 < rd_timeout_max r' \<and> rd_count r' = rd_count r + 1"
    if "rd_timeout_min r = 0" "0 < rd_timeout_max r" for a r r'
    using that w by (auto simp: failed_attempt_def on_state_def reopen_timeout_def Let_def split: prod.splits if_splits)
  have "failed_attempts as r = None" if "rd_timeout_min r = 0" "0 < rd_timeout_max r" "65 \<le> rd_count r + length as" "as \<noteq> []" for as r
    using that
  proof (induction as arbitrary: r)
    case (Cons a as)
    show ?case
    proof (cases "failed_attempt a r")
      case (Some r')
      then have "rd_count r < 64" using step(1) [OF Cons.prems(1,2), of a] by (auto split: if_splits)
      then have "as \<noteq> []" using Cons.prems(3) by auto
      then show ?thesis using Some step(2) [OF Cons.prems(1,2) Some] Cons.IH [of r'] Cons.prems(3) by simp
    qed simp
  qed simp
  then show ?thesis using assms by (metis add_0 list.size(3) not_numeral_le_zero)
qed

lemma reopen_zero_timeout_witness:
  "failed_attempts (replicate 65 (1, 1, 1, 1)) (reopen_default\<lparr>rd_timeout_min := 0\<rparr>) = None"
  by (rule reopen_zero_timeout) (simp_all add: reopen_default_def)

section \<open>A running channel\<close>

text \<open>The channel is opening or active, and its timer uses the realtime clock and has no interval, as \<open>_init\<close> creates it.\<close>

definition reopen_params :: "reopen \<Rightarrow> bool" where
  "reopen_params r \<longleftrightarrow> params_ok r \<and> count_ok r \<and> rd_channel r \<and> 0 < rd_timeout_open r \<and> 0 \<le> rd_timeout_close r \<and> 0 \<le> rd_closing_ts r"

definition running :: "reopen_chan \<Rightarrow> bool" where
  "running c \<longleftrightarrow>
     (rc_state c = StActive \<or> rc_state c = StOpening) \<and> \<not> tm_monotonic (rc_timer c) \<and> tm_interval (rc_timer c) = 0 \<and> reopen_params (rc_data c)"

text \<open>What a child reports when it is opened or closed: at least one state, not that it is destroyed.\<close>

definition reports_ok :: "(tll_state \<times> int) list \<Rightarrow> bool" where
  "reports_ok ss \<longleftrightarrow> ss \<noteq> [] \<and> (\<forall>(s, t) \<in> set ss. s \<noteq> StDestroy \<and> 0 < t)"

inductive reopen_reach :: "reopen_chan \<Rightarrow> bool" where
  start: "running c \<Longrightarrow> reports_ok ss \<Longrightarrow> reopen_cbs True ss c = Some c' \<Longrightarrow> reopen_reach c'"
| report: "reopen_reach c \<Longrightarrow> s \<noteq> StDestroy \<Longrightarrow> 0 < now \<Longrightarrow> reopen_cb True s now c = Some c' \<Longrightarrow> reopen_reach c'"
| fire: "reopen_reach c \<Longrightarrow> 0 < now \<Longrightarrow> reports_ok (reports ActOpen) \<Longrightarrow> reports_ok (reports ActClose) \<Longrightarrow>
    reopen_fire True suspended now reports c = Some (c', act) \<Longrightarrow> reopen_reach c'"
| active: "reopen_reach c \<Longrightarrow> reopen_reach (c\<lparr>rc_state := StActive\<rparr>)"

text \<open>The timer is set for the next action, if there is one.\<close>

definition armed :: "reopen_chan \<Rightarrow> bool" where
  "armed c \<longleftrightarrow>
     (if rd_state (rc_data c) = StActive then True
      else rd_state (rc_data c) \<noteq> StDestroy \<and> 0 < rd_next (rc_data c) \<and> tm_next (rc_timer c) = rd_next (rc_data c))"

lemma backoff_nonneg: "params_ok r \<Longrightarrow> 0 \<le> backoff r k"
  by (auto simp: backoff_def params_ok_def)

lemma on_state_ok:
  assumes "reopen_params r" "s \<noteq> StDestroy" "0 < now"
  shows "\<exists>r'. on_state s now r = Some r' \<and> reopen_params r' \<and> rd_state r' = s \<and> (if s = StActive then rd_next r' = 0 else 0 < rd_next r')"
proof -
  have p: "params_ok r" "count_ok r" using assms(1) by (simp_all add: reopen_params_def)
  have c: "count_ok (r\<lparr>rd_count := count_next r\<rparr>)" using count_next_ok [OF p] .
  have b: "0 \<le> backoff r (rd_count r)" using backoff_nonneg [OF p(1)] .
  show ?thesis
  proof (cases s)
    case StClosed
    then show ?thesis
      using assms b by (auto simp: on_state_closed [OF p] reopen_params_def params_ok_def count_ok_def)
  next
    case StOpening
    then show ?thesis
      using assms c by (auto simp: on_state_opening [OF p] reopen_params_def params_ok_def count_ok_def)
  next
    case StActive
    then show ?thesis using assms by (auto simp: on_state_active reopen_params_def params_ok_def count_ok_def)
  next
    case StClosing
    then show ?thesis using assms by (auto simp: on_state_closing Let_def reopen_params_def params_ok_def count_ok_def)
  next
    case StError
    then show ?thesis using assms by (auto simp: on_state_error reopen_params_def params_ok_def count_ok_def)
  next
    case StDestroy
    then show ?thesis using assms by simp
  qed
qed

lemma timer_post_absolute:
  assumes "\<not> tm_monotonic t" "ts \<noteq> 0"
  shows "let t' = fst (timer_post now True (TimerAbsolute 8 ts) t) in tm_next t' = ts \<and> \<not> tm_monotonic t' \<and> tm_interval t' = 0"
  using assms by (simp add: timer_post_def rearm_abs_def timer_arm_def rearm_timerfd_def Let_def)

lemma reopen_cb_ok:
  assumes "running c" "s \<noteq> StDestroy" "0 < now"
  shows "\<exists>c'. reopen_cb True s now c = Some c' \<and> running c' \<and> armed c' \<and> rd_state (rc_data c') = s"
proof -
  obtain r where r: "on_state s now (rc_data c) = Some r" "reopen_params r" "rd_state r = s"
    "if s = StActive then rd_next r = 0 else 0 < rd_next r"
    using on_state_ok [of "rc_data c" s now] assms by (auto simp: running_def)
  show ?thesis
  proof (cases "s = StActive")
    case True
    then show ?thesis using r assms by (auto simp: reopen_cb_def running_def armed_def reopen_pending_def)
  next
    case False
    then show ?thesis
      using r assms timer_post_absolute [of "rc_timer c" "rd_next r" now]
      by (auto simp: reopen_cb_def running_def armed_def reopen_pending_def reopen_rearm_def Let_def)
  qed
qed

lemma reopen_cbs_ok:
  "running c \<Longrightarrow> reports_ok ss \<Longrightarrow> \<exists>c'. reopen_cbs True ss c = Some c' \<and> running c' \<and> armed c'"
proof (induction ss arbitrary: c)
  case (Cons a ss)
  obtain s t where a: "a = (s, t)" by (cases a)
  then have "s \<noteq> StDestroy" "0 < t" using Cons.prems(2) by (auto simp: reports_ok_def)
  then obtain c1 where c1: "reopen_cb True s t c = Some c1" "running c1" "armed c1"
    using reopen_cb_ok [OF Cons.prems(1)] by blast
  show ?case
  proof (cases "ss = []")
    case True
    then show ?thesis using c1 a by simp
  next
    case False
    then have "reports_ok ss" using Cons.prems(2) by (auto simp: reports_ok_def)
    then show ?thesis using Cons.IH [OF c1(2)] c1(1) a by simp
  qed
qed (simp add: reports_ok_def)

lemma timer_finish_keeps [simp]:
  "tm_next (timer_finish t) = tm_next t" "tm_monotonic (timer_finish t) = tm_monotonic t" "tm_interval (timer_finish t) = tm_interval t"
  by (simp_all add: timer_finish_def)

lemma finish_keeps: "running c \<Longrightarrow> running (c\<lparr>rc_timer := timer_finish (rc_timer c)\<rparr>)" "armed c \<Longrightarrow> armed (c\<lparr>rc_timer := timer_finish (rc_timer c)\<rparr>)"
  by (simp_all add: running_def armed_def)

lemma on_timer_due:
  assumes "reopen_params r" "rd_state r \<noteq> StActive" "rd_state r \<noteq> StDestroy" "rd_next r \<le> now"
  shows "(\<exists>act. on_timer suspended now r = Some (r, act) \<and> (act = ActOpen \<or> act = ActClose)) \<or>
    rd_state r = StOpening \<and> 0 < rd_step_suspend r \<and> on_timer suspended now r = Some (r\<lparr>rd_next := now + rd_step_suspend r\<rparr>, ActRearm)"
  using assms by (cases "rd_state r") (auto simp: on_timer_def reopen_params_def)

lemma reopen_timer_cb_ok:
  assumes "running c" "rd_state (rc_data c) \<noteq> StActive" "rd_state (rc_data c) \<noteq> StDestroy" "rd_next (rc_data c) \<le> now" "0 < now"
    and "reports_ok (reports ActOpen)" "reports_ok (reports ActClose)"
  shows "\<exists>c' act. reopen_timer_cb True suspended now reports c = Some (c', act) \<and> running c' \<and> armed c' \<and> act \<noteq> ActNone"
proof -
  have p: "reopen_params (rc_data c)" "rd_channel (rc_data c)" using assms(1) by (auto simp: running_def reopen_params_def)
  let ?r = "(rc_data c)\<lparr>rd_next := now + rd_step_suspend (rc_data c)\<rparr>"
  consider (call) act where "on_timer suspended now (rc_data c) = Some (rc_data c, act)" "act = ActOpen \<or> act = ActClose"
    | (rearm) "rd_state (rc_data c) = StOpening" "0 < rd_step_suspend (rc_data c)" "on_timer suspended now (rc_data c) = Some (?r, ActRearm)"
    using on_timer_due [OF p(1) assms(2,3,4), of suspended] by blast
  then show ?thesis
  proof cases
    case call
    then have "reports_ok (reports act)" using assms(6,7) by auto
    then obtain c' where "reopen_cbs True (reports act) c = Some c'" "running c'" "armed c'"
      using reopen_cbs_ok [OF assms(1)] by blast
    then show ?thesis using call p(2) by (auto simp: reopen_timer_cb_def)
  next
    case rearm
    have "reopen_params ?r" using p(1) by (simp add: reopen_params_def params_ok_def count_ok_def)
    then show ?thesis
      using rearm p(2) assms(1,5) timer_post_absolute [of "rc_timer c" "rd_next ?r" now]
      by (simp add: reopen_timer_cb_def reopen_pending_def reopen_rearm_def running_def armed_def Let_def)
  qed
qed

lemma reopen_fire_ok:
  assumes "running c" "armed c" "0 < now" "reports_ok (reports ActOpen)" "reports_ok (reports ActClose)"
  shows "\<exists>c' act. reopen_fire True suspended now reports c = Some (c', act) \<and> running c' \<and> armed c' \<and>
    (rd_state (rc_data c) \<noteq> StActive \<and> tm_next (rc_timer c) \<le> now \<longrightarrow> act \<noteq> None \<and> act \<noteq> Some ActNone)"
proof -
  let ?t = "rc_timer c"
  have i: "tm_interval ?t = 0" using assms(1) by (simp add: running_def)
  show ?thesis
  proof (cases "tm_next ?t = 0 \<or> now < tm_next ?t")
    case True
    then have "timer_expire now True ?t = (?t, Some EAGAIN)" by (auto simp: timer_expire_def)
    moreover have "\<not> (rd_state (rc_data c) \<noteq> StActive \<and> tm_next ?t \<le> now)" using True assms(2) by (auto simp: armed_def)
    ultimately show ?thesis using assms by (auto simp: reopen_fire_def)
  next
    case False
    define c1 where "c1 = c\<lparr>rc_timer := ?t\<lparr>tm_next := 0\<rparr>\<rparr>"
    have e: "timer_expire now True ?t = (?t\<lparr>tm_next := 0\<rparr>, None)" using False i by (simp add: timer_expire_def)
    have r1: "running c1" "rc_data c1 = rc_data c" using assms(1) by (simp_all add: c1_def running_def)
    have ch: "rd_channel (rc_data c)" using assms(1) by (simp add: running_def reopen_params_def)
    obtain c2 act where c2: "reopen_timer_cb True suspended now reports c1 = Some (c2, act)" "running c2" "armed c2"
      "rd_state (rc_data c) \<noteq> StActive \<longrightarrow> act \<noteq> ActNone"
    proof (cases "rd_state (rc_data c) = StActive")
      case True
      then have "reopen_timer_cb True suspended now reports c1 = Some (c1, ActNone)"
        using ch r1 by (simp add: reopen_timer_cb_def on_timer_def)
      then show ?thesis using that [of c1 ActNone] r1 True by (simp add: armed_def)
    next
      case active: False
      then have "rd_state (rc_data c1) \<noteq> StDestroy" "rd_next (rc_data c1) \<le> now" using assms(2) False r1 by (simp_all add: armed_def)
      then show ?thesis using reopen_timer_cb_ok [of c1 now reports suspended] that active r1 assms(3-5) by auto
    qed
    then have "reopen_fire True suspended now reports c = Some (c2\<lparr>rc_timer := timer_finish (rc_timer c2)\<rparr>, Some act)"
      using e by (simp add: reopen_fire_def c1_def)
    then show ?thesis using finish_keeps c2 by auto
  qed
qed

lemma reopen_reach_inv: "reopen_reach c \<Longrightarrow> running c \<and> armed c"
proof (induction rule: reopen_reach.induct)
  case (start c ss c')
  then show ?case using reopen_cbs_ok [of c ss] by auto
next
  case (report c s now c')
  then show ?case using reopen_cb_ok [of c s now] by auto
next
  case (fire c now reports suspended c' act)
  then show ?case using reopen_fire_ok [of c now reports suspended] by fastforce
next
  case (active c)
  then show ?case by (simp add: running_def armed_def)
qed



section \<open>Skipping old events\<close>


abbreviation late_timer :: "int \<Rightarrow> timer" where
  "late_timer interval \<equiv> \<lparr>tm_monotonic = True, tm_with_fd = False, tm_skip_old = True, tm_oneshot_init = False, tm_interval_init = interval,
     tm_interval = interval, tm_next = 1000, tm_dcaps = DCAPS_PROCESS, tm_fd = None\<rparr>"


text \<open>The number of missed events is kept in an unsigned int: with an interval of 100 ns, 10 minutes late, the next time is
  still in the past.\<close>

lemma timer_skip_truncated: "tm_next (fst (timer_expire 600000000000 True (late_timer 100))) < 600000000000"
  by (simp add: timer_expire_def Let_def)

end
