(* ===== verification/Processor.thy ===== *)
theory Processor
  imports Reopen
begin

text \<open>
  The processor, \<open>src/processor/processor.cc\<close> with the objects of \<open>src/processor/deps.h\<close>: channels with dependencies between them are
  opened when everything they depend on is active and closed when everything that depends on them is closed. Objects
  are numbered; the graph is fixed after \<open>_init\<close>. Messages to the workers are appended to \<open>pr_out\<close>, the time the timer was
  armed for is \<open>pr_timer\<close>. Names, statistics and reports of states are not modelled.
\<close>

section \<open>Depth of a dependency graph\<close>

text \<open>\<open>object_depth\<close>: \<open>deps\<close> maps a name to its dependencies, in the order of \<open>std::set\<close>, and \<open>known\<close> to a depth computed by an
  earlier call of \<open>init_depends\<close>. The local \<open>obj\<close> is a copy, so a depth found during the recursion is not kept. The
  result \<open>Inl\<close> is the failure, of a cycle or of a missing name.\<close>

datatype depth_error = DepCycle "string list" | DepMissing string

partial_function (option) depth_deps ::
  "(string \<rightharpoonup> string list) \<Rightarrow> (string \<rightharpoonup> nat) \<Rightarrow> string list \<Rightarrow> string list \<Rightarrow> nat \<Rightarrow> (depth_error + nat) option" where
  "depth_deps deps known path ds depth =
     (case ds of
        [] \<Rightarrow> Some (Inr depth)
      | d # ds \<Rightarrow>
          (case deps d of
             None \<Rightarrow> Some (Inl (DepMissing d))
           | Some list \<Rightarrow>
               Option.bind
                 (case known d of
                    Some n \<Rightarrow> Some (Inr n)
                  | None \<Rightarrow>
                      if d \<in> set path then Some (Inl (DepCycle (dropWhile (\<lambda>x. x \<noteq> d) path @ [d])))
                      else depth_deps deps known (path @ [d]) list 0)
                 (\<lambda>r. case r of
                        Inl e \<Rightarrow> Some (Inl e)
                      | Inr dd \<Rightarrow> depth_deps deps known path ds (max depth (dd + 1)))))"

definition object_depth :: "(string \<rightharpoonup> string list) \<Rightarrow> (string \<rightharpoonup> nat) \<Rightarrow> string list \<Rightarrow> string \<Rightarrow> (depth_error + nat) option" where
  "object_depth deps known path o1 =
     (case known o1 of
        Some n \<Rightarrow> Some (Inr n)
      | None \<Rightarrow>
          if o1 \<in> set path then Some (Inl (DepCycle (dropWhile (\<lambda>x. x \<noteq> o1) path @ [o1])))
          else depth_deps deps known (path @ [o1]) (the (deps o1)) 0)"

text \<open>The loop of \<open>init_depends\<close> over the objects, for one of the two kinds of dependencies.\<close>

fun all_depths :: "(string \<rightharpoonup> string list) \<Rightarrow> string list \<Rightarrow> (string \<rightharpoonup> nat) \<Rightarrow> (depth_error + (string \<rightharpoonup> nat)) option" where
  "all_depths deps [] known = Some (Inr known)"
| "all_depths deps (o1 # os) known =
     Option.bind (object_depth deps known [] o1) (\<lambda>r.
       case r of Inl e \<Rightarrow> Some (Inl e) | Inr n \<Rightarrow> all_depths deps os (known(o1 \<mapsto> n)))"

text \<open>The order of initialisation: by depth, then by name.\<close>

definition init_order :: "string list \<Rightarrow> (string \<rightharpoonup> nat) \<Rightarrow> string list" where
  "init_order names depth =
     concat (map (\<lambda>i. filter (\<lambda>n. depth n = Some i) names) [0..<Suc (foldl (\<lambda>m n. max m (the (depth n))) 0 names)])"

section \<open>Objects\<close>

record obj =
  ob_state :: tll_state
  ob_state_prev :: tll_state
  ob_decay :: bool
  ob_opening :: bool
  ob_closing :: bool
  ob_subtree_closed :: bool
  ob_reopen :: reopen

record graph =
  gr_objects :: "nat list"
  gr_depends :: "nat \<Rightarrow> nat list"
  gr_rdepends :: "nat \<Rightarrow> nat list"

datatype proc_msg = PmActivate nat | PmDeactivate nat | PmExit nat

record proc =
  pr_state :: tll_state
  pr_objs :: "nat \<Rightarrow> obj"
  pr_pending :: "(int \<times> nat) list"
  pr_timer :: int
  pr_workers :: "(nat \<times> tll_state) list"
  pr_exit_code :: int
  pr_out :: "proc_msg list"

definition obj_new :: "reopen \<Rightarrow> obj" where
  "obj_new r = \<lparr>ob_state = StClosed, ob_state_prev = StClosed, ob_decay = False, ob_opening = False, ob_closing = False,
     ob_subtree_closed = True, ob_reopen = r\<rparr>"

abbreviation ob :: "proc \<Rightarrow> nat \<Rightarrow> obj" where
  "ob p o1 \<equiv> pr_objs p o1"

definition set_ob :: "nat \<Rightarrow> (obj \<Rightarrow> obj) \<Rightarrow> proc \<Rightarrow> proc" where
  "set_ob o1 f p = p\<lparr>pr_objs := (pr_objs p)(o1 := f (ob p o1))\<rparr>"

definition ready_open :: "graph \<Rightarrow> proc \<Rightarrow> nat \<Rightarrow> bool" where
  "ready_open g p o1 \<longleftrightarrow>
     \<not> list_ex (\<lambda>d. ob_decay (ob p d)) (gr_depends g o1) \<and> list_all (\<lambda>d. ob_state (ob p d) = StActive) (gr_depends g o1)"

definition ready_restore :: "graph \<Rightarrow> proc \<Rightarrow> nat \<Rightarrow> bool" where
  "ready_restore g p o1 \<longleftrightarrow> list_all (\<lambda>d. ob_subtree_closed (ob p d) \<and> \<not> ob_decay (ob p d)) (gr_rdepends g o1)"

definition ready_close :: "graph \<Rightarrow> proc \<Rightarrow> nat \<Rightarrow> bool" where
  "ready_close g p o1 \<longleftrightarrow>
     \<not> (ob_state (ob p o1) = StClosed \<or> ob_state (ob p o1) = StClosing \<or> ob_closing (ob p o1) \<or> ob_opening (ob p o1)) \<and>
     list_all (\<lambda>d. ob_subtree_closed (ob p d)) (gr_rdepends g o1)"

text \<open>\<open>mark_subtree_open\<close> of every object of a list.\<close>

partial_function (option) open_all :: "graph \<Rightarrow> nat list \<Rightarrow> proc \<Rightarrow> proc option" where
  "open_all g xs p =
     (case xs of
        [] \<Rightarrow> Some p
      | o1 # os \<Rightarrow>
          if \<not> ob_subtree_closed (ob p o1) then open_all g os p
          else Option.bind (open_all g (gr_depends g o1) (set_ob o1 (\<lambda>x. x\<lparr>ob_subtree_closed := False\<rparr>) p)) (open_all g os))"

definition mark_subtree_open :: "graph \<Rightarrow> nat \<Rightarrow> proc \<Rightarrow> proc option" where
  "mark_subtree_open g o1 p = open_all g [o1] p"

section \<open>Pending actions\<close>

text \<open>\<open>_pending\<close> is a multimap, the list of its entries in order. The loops of \<open>pending_has\<close> and \<open>pending_del\<close> compare keys until one
  differs, without a check for the end: \<open>endkey\<close> is what a read of the end gives, \<open>None\<close> if that is not defined.\<close>

definition pending_rearm :: "int \<Rightarrow> proc \<Rightarrow> proc" where
  "pending_rearm ts p = p\<lparr>pr_timer := ts\<rparr>"

fun pending_insert :: "int \<Rightarrow> nat \<Rightarrow> (int \<times> nat) list \<Rightarrow> (int \<times> nat) list" where
  "pending_insert ts o1 [] = [(ts, o1)]"
| "pending_insert ts o1 ((k, x) # r) = (if k \<le> ts then (k, x) # pending_insert ts o1 r else (ts, o1) # (k, x) # r)"

fun has_loop :: "int option \<Rightarrow> int \<Rightarrow> nat \<Rightarrow> (int \<times> nat) list \<Rightarrow> bool option" where
  "has_loop endkey ts o1 [] = (case endkey of None \<Rightarrow> None | Some k \<Rightarrow> if k = ts then None else Some False)"
| "has_loop endkey ts o1 ((k, x) # r) = (if k = ts then if x = o1 then Some True else has_loop endkey ts o1 r else Some False)"

definition pending_find :: "int \<Rightarrow> (int \<times> nat) list \<Rightarrow> (int \<times> nat) list" where
  "pending_find ts = dropWhile (\<lambda>(k, _). k \<noteq> ts)"

definition pending_has :: "int option \<Rightarrow> int \<Rightarrow> nat \<Rightarrow> proc \<Rightarrow> bool option" where
  "pending_has endkey ts o1 p =
     (let r = pending_find ts (pr_pending p) in if r = [] then Some False else has_loop endkey ts o1 r)"

definition proc_pending_add :: "int option \<Rightarrow> int \<Rightarrow> nat \<Rightarrow> proc \<Rightarrow> proc option" where
  "proc_pending_add endkey ts o1 p =
     map_option (\<lambda>has.
       if has then p
       else let rearm = (pr_pending p = [] \<or> ts < fst (hd (pr_pending p)));
                p = p\<lparr>pr_pending := pending_insert ts o1 (pr_pending p)\<rparr>
            in if rearm then pending_rearm ts p else p) (pending_has endkey ts o1 p)"

fun del_loop :: "int option \<Rightarrow> int \<Rightarrow> nat \<Rightarrow> (int \<times> nat) list \<Rightarrow> (int \<times> nat) list option" where
  "del_loop endkey ts o1 [] = (case endkey of None \<Rightarrow> None | Some k \<Rightarrow> if k = ts then None else Some [])"
| "del_loop endkey ts o1 ((k, x) # r) =
     (if k = ts
      then if x = o1 then del_loop endkey ts o1 r else map_option (Cons (k, x)) (del_loop endkey ts o1 r)
      else Some ((k, x) # r))"

definition proc_pending_del :: "int option \<Rightarrow> int \<Rightarrow> nat \<Rightarrow> proc \<Rightarrow> proc option" where
  "proc_pending_del endkey ts o1 p =
     (let r = pending_find ts (pr_pending p) in
      if r = [] then Some p
      else map_option (\<lambda>r.
             let p = p\<lparr>pr_pending := takeWhile (\<lambda>(k, _). k \<noteq> ts) (pr_pending p) @ r\<rparr>
             in if pr_pending p = [] then pending_rearm 0 p
                else if ts < fst (hd (pr_pending p)) then pending_rearm (fst (hd (pr_pending p))) p
                else p) (del_loop endkey ts o1 r))"

section \<open>Opening and closing objects\<close>

definition proc_post :: "proc_msg \<Rightarrow> proc \<Rightarrow> proc" where
  "proc_post m p = p\<lparr>pr_out := pr_out p @ [m]\<rparr>"

definition activate :: "graph \<Rightarrow> nat \<Rightarrow> proc \<Rightarrow> proc option" where
  "activate g o1 p =
     map_option (proc_post (PmActivate o1))
       (mark_subtree_open g o1
          (set_ob o1 (\<lambda>x. x\<lparr>ob_decay := False, ob_opening := True, ob_reopen := (ob_reopen x)\<lparr>rd_next := 0\<rparr>\<rparr>) p))"

definition deactivate :: "bool \<Rightarrow> nat \<Rightarrow> proc \<Rightarrow> proc" where
  "deactivate failure o1 p =
     (if ob_closing (ob p o1) then p
      else proc_post (PmDeactivate o1)
             (set_ob o1 (\<lambda>x. x\<lparr>ob_reopen := if failure then ob_reopen x else (ob_reopen x)\<lparr>rd_active_ts := 0\<rparr>,
                                ob_closing := ob_closing x \<or> ob_state x \<noteq> StClosing\<rparr>) p))"

definition reactivate :: "graph \<Rightarrow> int option \<Rightarrow> int \<Rightarrow> nat \<Rightarrow> proc \<Rightarrow> proc option" where
  "reactivate g endkey now o1 p =
     (if pr_state p \<noteq> StActive then Some p
      else if ready_open g p o1
      then if now < rd_next (ob_reopen (ob p o1)) then proc_pending_add endkey (rd_next (ob_reopen (ob p o1))) o1 p
           else activate g o1 p
      else Some p)"

text \<open>\<open>decay\<close> of every object of a list.\<close>

partial_function (option) decay_all :: "graph \<Rightarrow> nat list \<Rightarrow> proc \<Rightarrow> proc option" where
  "decay_all g xs p =
     (case xs of
        [] \<Rightarrow> Some p
      | o1 # os \<Rightarrow>
          if ob_subtree_closed (ob p o1) then decay_all g os p
          else Option.bind (decay_all g (gr_rdepends g o1) (set_ob o1 (\<lambda>x. x\<lparr>ob_decay := True\<rparr>) p)) (\<lambda>p.
                 decay_all g os (if ready_close g p o1 then deactivate False o1 p else p)))"

definition decay :: "graph \<Rightarrow> nat \<Rightarrow> proc \<Rightarrow> proc option" where
  "decay g o1 p = decay_all g [o1] p"

text \<open>\<open>mark_subtree_closed\<close>: what the tests at its start decide. The subtree is known to be closed; something that depends on the
  object is not closed, or the object is opening; the object itself is not closed; or its subtree is closed now.\<close>

datatype subtree = SubKnown | SubOpen | SubRunning | SubClosed

definition subtree_test :: "graph \<Rightarrow> proc \<Rightarrow> nat \<Rightarrow> subtree" where
  "subtree_test g p o1 =
     (if ob_subtree_closed (ob p o1) then SubKnown
      else if \<not> list_all (\<lambda>d. ob_subtree_closed (ob p d)) (gr_rdepends g o1) then SubOpen
      else if ob_opening (ob p o1) then SubOpen
      else if ob_state (ob p o1) \<noteq> StClosed \<and> ob_state (ob p o1) \<noteq> StClosing then SubRunning
      else SubClosed)"

text \<open>\<open>if (ready_open()) activate(this)\<close>; \<open>act\<close> is the callback that reactivates an object, \<open>r\<close> says that one was activated.\<close>

definition activate_if_ready :: "graph \<Rightarrow> (nat \<Rightarrow> proc \<Rightarrow> proc option) \<Rightarrow> nat \<Rightarrow> bool \<Rightarrow> proc \<Rightarrow> (proc \<times> bool) option" where
  "activate_if_ready g act o1 r p = (if ready_open g p o1 then map_option (\<lambda>p. (p, True)) (act o1 p) else Some (p, r))"

text \<open>\<open>mark_subtree_closed\<close> of every object of a list.\<close>

partial_function (option) close_all ::
  "graph \<Rightarrow> (nat \<Rightarrow> proc \<Rightarrow> proc option) \<Rightarrow> nat list \<Rightarrow> bool \<Rightarrow> proc \<Rightarrow> (proc \<times> bool) option" where
  "close_all g act xs r p =
     (case xs of
        [] \<Rightarrow> Some (p, r)
      | o1 # os \<Rightarrow>
          (case subtree_test g p o1 of
             SubKnown \<Rightarrow> Option.bind (activate_if_ready g act o1 r p) (\<lambda>(p, r). close_all g act os r p)
           | SubOpen \<Rightarrow> close_all g act os r p
           | SubRunning \<Rightarrow> close_all g act os r (if ob_decay (ob p o1) then deactivate False o1 p else p)
           | SubClosed \<Rightarrow>
               Option.bind (close_all g act (gr_depends g o1) False (set_ob o1 (\<lambda>x. x\<lparr>ob_subtree_closed := True\<rparr>) p)) (\<lambda>(p, r1).
               Option.bind (activate_if_ready g act o1 (r1 \<or> r) p) (\<lambda>(p, r). close_all g act os r p))))"

definition mark_subtree_closed :: "graph \<Rightarrow> (nat \<Rightarrow> proc \<Rightarrow> proc option) \<Rightarrow> nat \<Rightarrow> proc \<Rightarrow> (proc \<times> bool) option" where
  "mark_subtree_closed g act o1 p = close_all g act [o1] False p"

text \<open>\<open>Object::on_state\<close>.\<close>

definition obj_on_state :: "graph \<Rightarrow> tll_state \<Rightarrow> int \<Rightarrow> nat \<Rightarrow> proc \<Rightarrow> proc option" where
  "obj_on_state g s now o1 p =
     Option.bind (on_state s now (ob_reopen (ob p o1))) (\<lambda>r.
       map_option
         (set_ob o1 (\<lambda>x. x\<lparr>ob_opening := ob_opening x \<and> s \<noteq> StOpening, ob_closing := ob_closing x \<and> s \<noteq> StClosing\<rparr>))
         (let p = set_ob o1 (\<lambda>x. x\<lparr>ob_reopen := r\<rparr>) p
          in if s \<noteq> StClosed then mark_subtree_open g o1 p else Some p))"

definition close_workers :: "graph \<Rightarrow> proc \<Rightarrow> proc" where
  "close_workers g p =
     (if list_all (\<lambda>(_, s). s = StClosed) (pr_workers p) then p
      else if list_all (\<lambda>o1. ob_state (ob p o1) = StClosed) (gr_objects g)
      then p\<lparr>pr_out := pr_out p @ map (\<lambda>(w, _). PmExit w) (pr_workers p)\<rparr>
      else p)"

fun activate_ready :: "graph \<Rightarrow> nat list \<Rightarrow> proc \<Rightarrow> proc option" where
  "activate_ready g [] p = Some p"
| "activate_ready g (d # ds) p = Option.bind (if ready_open g p d then activate g d p else Some p) (activate_ready g ds)"

fun deactivate_ready :: "graph \<Rightarrow> nat list \<Rightarrow> proc \<Rightarrow> proc" where
  "deactivate_ready g [] p = p"
| "deactivate_ready g (d # ds) p = deactivate_ready g ds (if ready_close g p d then deactivate False d p else p)"

definition pending_again :: "int option \<Rightarrow> nat \<Rightarrow> proc \<Rightarrow> proc option" where
  "pending_again endkey o1 p =
     (if reopen_pending (ob_reopen (ob p o1)) then proc_pending_add endkey (rd_next (ob_reopen (ob p o1))) o1 p else Some p)"

text \<open>The switch of \<open>update\<close>: the branch of a closed object, and all of it.\<close>

definition update_closed :: "graph \<Rightarrow> int option \<Rightarrow> int \<Rightarrow> nat \<Rightarrow> proc \<Rightarrow> proc option" where
  "update_closed g endkey now o1 p =
     Option.bind (mark_subtree_closed g (reactivate g endkey now) o1 p) (\<lambda>(p, r).
     map_option (\<lambda>p. if pr_state p = StClosing \<or> pr_state p = StClosed then close_workers g p else p)
       (if r \<and> pr_state p = StActive then Some p
        else map_option (deactivate_ready g (gr_depends g o1)) (decay g o1 p)))"

definition update_switch :: "graph \<Rightarrow> int option \<Rightarrow> int \<Rightarrow> nat \<Rightarrow> tll_state \<Rightarrow> proc \<Rightarrow> proc option" where
  "update_switch g endkey now o1 s p =
     (case s of
        StOpening \<Rightarrow> pending_again endkey o1 (if ob_decay (ob p o1) \<and> ready_close g p o1 then deactivate False o1 p else p)
      | StClosing \<Rightarrow> pending_again endkey o1 p
      | StActive \<Rightarrow> activate_ready g (gr_rdepends g o1) p
      | StError \<Rightarrow> Some (deactivate True o1 p)
      | StClosed \<Rightarrow> update_closed g endkey now o1 p
      | StDestroy \<Rightarrow> Some p)"

definition obj_set_state :: "nat \<Rightarrow> tll_state \<Rightarrow> proc \<Rightarrow> proc" where
  "obj_set_state o1 s p = set_ob o1 (\<lambda>x. x\<lparr>ob_state_prev := ob_state x, ob_state := s\<rparr>) p"

definition update :: "graph \<Rightarrow> int option \<Rightarrow> int \<Rightarrow> nat \<Rightarrow> tll_state \<Rightarrow> proc \<Rightarrow> proc option" where
  "update g endkey now o1 s p =
     (let p = obj_set_state o1 s p in
      Option.bind (if reopen_pending (ob_reopen (ob p o1)) then proc_pending_del endkey (rd_next (ob_reopen (ob p o1))) o1 p else Some p) (\<lambda>p.
      Option.bind (obj_on_state g s now o1 p) (update_switch g endkey now o1 s)))"

fun activate_leaves :: "graph \<Rightarrow> nat list \<Rightarrow> proc \<Rightarrow> proc option" where
  "activate_leaves g [] p = Some p"
| "activate_leaves g (o1 # os) p =
     Option.bind (if gr_depends g o1 \<noteq> [] then Some p else activate g o1 p) (activate_leaves g os)"

definition activate_start :: "graph \<Rightarrow> proc \<Rightarrow> proc option" where
  "activate_start g p = activate_leaves g (gr_objects g) (p\<lparr>pr_state := StActive\<rparr>)"

fun decay_objects :: "graph \<Rightarrow> nat list \<Rightarrow> proc \<Rightarrow> proc" where
  "decay_objects g [] p = p"
| "decay_objects g (o1 # os) p =
     decay_objects g os
       (let p = set_ob o1 (\<lambda>x. x\<lparr>ob_decay := True\<rparr>) p in if ready_close g p o1 then deactivate False o1 p else p)"

text \<open>\<open>close\<close> of the processor and the part of \<open>_close\<close> before the forced one.\<close>

definition proc_close :: "graph \<Rightarrow> proc \<Rightarrow> proc" where
  "proc_close g p = close_workers g (decay_objects g (gr_objects g) (p\<lparr>pr_state := StClosing\<rparr>))"

text \<open>The forced one, when all workers have finished: the channels, the workers, the timers and the loop are closed by calls of their own.\<close>

definition proc_close_force :: "graph \<Rightarrow> proc \<Rightarrow> proc" where
  "proc_close_force g p = (close_workers g (decay_objects g (gr_objects g) p))\<lparr>pr_state := StClosed\<rparr>"

section \<open>Handlers\<close>

definition pending_one :: "graph \<Rightarrow> int option \<Rightarrow> int \<Rightarrow> (nat \<Rightarrow> bool) \<Rightarrow> nat \<Rightarrow> proc \<Rightarrow> proc option" where
  "pending_one g endkey now suspended o1 p =
     Option.bind (on_timer (suspended o1) now (ob_reopen (ob p o1))) (\<lambda>(r, act).
       let p = set_ob o1 (\<lambda>x. x\<lparr>ob_reopen := r\<rparr>) p in
       case act of
         ActOpen \<Rightarrow>
           if \<not> ready_open g p o1 \<or> pr_state p \<noteq> StActive
           then Some (set_ob o1 (\<lambda>x. x\<lparr>ob_reopen := (ob_reopen x)\<lparr>rd_next := 0\<rparr>\<rparr>) p)
           else activate g o1 p
       | ActClose \<Rightarrow> Some (deactivate False o1 p)
       | ActRearm \<Rightarrow> if reopen_pending r then proc_pending_add endkey (rd_next r) o1 p else Some p
       | ActNone \<Rightarrow> Some p)"

text \<open>An entry is erased after its action; what the action inserts is behind it.\<close>

partial_function (option) pending_loop :: "graph \<Rightarrow> int option \<Rightarrow> int \<Rightarrow> (nat \<Rightarrow> bool) \<Rightarrow> proc \<Rightarrow> proc option" where
  "pending_loop g endkey now suspended p =
     (case pr_pending p of
        [] \<Rightarrow> Some p
      | (k, o1) # r \<Rightarrow>
          if k < now
          then Option.bind (pending_one g endkey now suspended o1 p) (\<lambda>p.
                 pending_loop g endkey now suspended (p\<lparr>pr_pending := remove1 (k, o1) (pr_pending p)\<rparr>))
          else Some p)"

definition pending_process :: "graph \<Rightarrow> int option \<Rightarrow> int \<Rightarrow> (nat \<Rightarrow> bool) \<Rightarrow> proc \<Rightarrow> proc option" where
  "pending_process g endkey now suspended p =
     map_option (\<lambda>p. if pr_pending p \<noteq> [] then pending_rearm (fst (hd (pr_pending p))) p else p)
       (pending_loop g endkey now suspended p)"

text \<open>The messages of \<open>cb\<close>: exit, state of a channel, state of a worker, and a request to close a channel.\<close>

datatype proc_event = EvExit int | EvState nat tll_state | EvWorker nat tll_state | EvChannelClose nat

definition worker_state :: "nat \<Rightarrow> tll_state \<Rightarrow> proc \<Rightarrow> proc" where
  "worker_state w s p = p\<lparr>pr_workers := map (\<lambda>(v, t). (v, if v = w then s else t)) (pr_workers p)\<rparr>"

definition proc_cb :: "graph \<Rightarrow> int option \<Rightarrow> int \<Rightarrow> proc_event \<Rightarrow> proc \<Rightarrow> (proc \<times> errno option) option" where
  "proc_cb g endkey now ev p =
     (case ev of
        EvExit code \<Rightarrow> Some (if pr_state p = StClosing then p else proc_close g (p\<lparr>pr_exit_code := code\<rparr>), None)
      | EvState o1 s \<Rightarrow>
          if o1 \<notin> set (gr_objects g) then Some (p, Some EINVAL)
          else map_option (\<lambda>p. (p, None)) (update g endkey now o1 s p)
      | EvWorker w s \<Rightarrow>
          (let p = worker_state w s p in
           if s = StClosed \<and> list_all (\<lambda>(_, t). t = StClosed) (pr_workers p) then Some (proc_close_force g p, None)
           else if s = StActive \<and> list_all (\<lambda>(_, t). t = StActive) (pr_workers p)
           then map_option (\<lambda>p. (p, None)) (activate_start g p)
           else Some (p, None))
      | EvChannelClose o1 \<Rightarrow>
          if o1 \<notin> set (gr_objects g) then Some (p, Some ENOENT)
          else Some (if ob_state (ob p o1) = StClosed then p else deactivate False o1 p, None))"

section \<open>Invariant of the graph\<close>

abbreviation closed :: "proc \<Rightarrow> nat \<Rightarrow> bool" where
  "closed p o1 \<equiv> ob_subtree_closed (ob p o1)"

text \<open>The two directions of the graph agree and it has no cycles: a rank grows from a dependency to what depends on it.\<close>

definition graph_ok :: "graph \<Rightarrow> bool" where
  "graph_ok g \<longleftrightarrow> (\<forall>o1 d. d \<in> set (gr_depends g o1) \<longleftrightarrow> o1 \<in> set (gr_rdepends g d)) \<and>
     (\<exists>rank :: nat \<Rightarrow> nat. \<exists>top. \<forall>o1. rank o1 \<le> top \<and> (\<forall>d \<in> set (gr_depends g o1). rank d < rank o1))"

text \<open>A closed subtree has no open one above it, except for the objects of \<open>T\<close> that are still to be visited.\<close>

definition inv1 :: "graph \<Rightarrow> proc \<Rightarrow> nat set \<Rightarrow> bool" where
  "inv1 g p T \<longleftrightarrow> (\<forall>d o1. o1 \<in> set (gr_rdepends g d) \<and> closed p d \<and> \<not> closed p o1 \<longrightarrow> d \<in> T)"

definition inv2 :: "proc \<Rightarrow> bool" where
  "inv2 p \<longleftrightarrow> (\<forall>o1. closed p o1 \<longrightarrow> \<not> ob_opening (ob p o1) \<and> (ob_state (ob p o1) = StClosed \<or> ob_state (ob p o1) = StClosing))"

text \<open>Everything but the marks.\<close>

definition erase :: "proc \<Rightarrow> proc" where
  "erase p = p\<lparr>pr_objs := (\<lambda>x. (ob p x)\<lparr>ob_subtree_closed := False\<rparr>)\<rparr>"

lemma set_ob_simps [simp]:
  "ob (set_ob o1 f p) x = (if x = o1 then f (ob p o1) else ob p x)"
  "pr_state (set_ob o1 f p) = pr_state p" "pr_out (set_ob o1 f p) = pr_out p" "pr_pending (set_ob o1 f p) = pr_pending p"
  "pr_timer (set_ob o1 f p) = pr_timer p" "pr_workers (set_ob o1 f p) = pr_workers p" "pr_exit_code (set_ob o1 f p) = pr_exit_code p"
  by (simp_all add: set_ob_def)

lemma erase_mark: "erase (set_ob o1 (\<lambda>x. x\<lparr>ob_subtree_closed := b\<rparr>) p) = erase p"
  by (simp add: erase_def set_ob_def fun_eq_iff)

lemma erase_eqD:
  assumes "erase p = erase q"
  shows "ob_state (ob p x) = ob_state (ob q x)" "ob_opening (ob p x) = ob_opening (ob q x)" "pr_out p = pr_out q" "pr_state p = pr_state q"
proof -
  have "(ob p x)\<lparr>ob_subtree_closed := False\<rparr> = (ob q x)\<lparr>ob_subtree_closed := False\<rparr>"
    using arg_cong [OF assms, of "\<lambda>r. ob r x"] by (simp add: erase_def)
  then show "ob_state (ob p x) = ob_state (ob q x)" "ob_opening (ob p x) = ob_opening (ob q x)"
    by (metis obj.update_convs(6) obj.select_convs obj.surjective)+
  show "pr_out p = pr_out q" "pr_state p = pr_state q"
    using arg_cong [OF assms, of pr_out] arg_cong [OF assms, of pr_state] by (simp_all add: erase_def)
qed

lemma open_all_ok:
  assumes "graph_ok g" "inv1 g p (T \<union> set xs)"
  shows "\<exists>p'. open_all g xs p = Some p' \<and> inv1 g p' T \<and> (\<forall>x \<in> set xs. \<not> closed p' x) \<and> (\<forall>x. closed p' x \<longrightarrow> closed p x) \<and> erase p' = erase p"
proof -
  obtain rank top where rank: "\<forall>o1. (rank :: nat \<Rightarrow> nat) o1 \<le> top \<and> (\<forall>d \<in> set (gr_depends g o1). rank d < rank o1)"
    and dual: "\<forall>o1 d. d \<in> set (gr_depends g o1) \<longleftrightarrow> o1 \<in> set (gr_rdepends g d)"
    using assms(1) unfolding graph_ok_def by blast
  have "\<exists>p'. open_all g xs p = Some p' \<and> inv1 g p' T \<and> (\<forall>x \<in> set xs. \<not> closed p' x) \<and> (\<forall>x. closed p' x \<longrightarrow> closed p x) \<and> erase p' = erase p"
    if "\<forall>x \<in> set xs. rank x < n" "inv1 g p (T \<union> set xs)" for n xs p T
    using that
  proof (induction n arbitrary: xs p T)
    case 0
    then show ?case by (cases xs) (auto simp: open_all.simps)
  next
    case (Suc n)
    from Suc.prems show ?case
    proof (induction xs arbitrary: p)
      case Nil
      then show ?case by (simp add: open_all.simps)
    next
      case (Cons o1 os)
      show ?case
      proof (cases "closed p o1")
        case False
        then have "inv1 g p (T \<union> set os)" using Cons.prems(2) by (auto simp: inv1_def)
        then obtain p' where p': "open_all g os p = Some p'" "inv1 g p' T" "\<forall>x \<in> set os. \<not> closed p' x"
          "\<forall>x. closed p' x \<longrightarrow> closed p x" "erase p' = erase p"
          using Cons.IH [of p] Cons.prems(1) by auto
        then show ?thesis using False by (auto simp: open_all.simps [of g "o1 # os"])
      next
        case True
        define q where "q = set_ob o1 (\<lambda>x. x\<lparr>ob_subtree_closed := False\<rparr>) p"
        have "inv1 g q ((T \<union> set os) \<union> set (gr_depends g o1))"
          using Cons.prems(2) dual by (auto simp: inv1_def q_def)
        moreover have "\<forall>x \<in> set (gr_depends g o1). rank x < n" using rank Cons.prems(1) by fastforce
        ultimately obtain q1 where q1: "open_all g (gr_depends g o1) q = Some q1" "inv1 g q1 (T \<union> set os)"
          "\<forall>x. closed q1 x \<longrightarrow> closed q x" "erase q1 = erase q"
          using Suc.IH [of "gr_depends g o1" q "T \<union> set os"] by blast
        then obtain p' where p': "open_all g os q1 = Some p'" "inv1 g p' T" "\<forall>x \<in> set os. \<not> closed p' x"
          "\<forall>x. closed p' x \<longrightarrow> closed q1 x" "erase p' = erase q1"
          using Cons.IH [of q1] Cons.prems(1) by auto
        have "open_all g (o1 # os) p = Some p'" using True q1(1) p'(1) by (simp add: open_all.simps [of g "o1 # os"] q_def [symmetric])
        moreover have "closed q x \<longrightarrow> closed p x" "\<not> closed q o1" for x by (auto simp: q_def True)
        moreover have "erase p' = erase p" using p'(5) q1(4) erase_mark by (simp add: q_def)
        ultimately show ?thesis using q1 p' by auto
      qed
    qed
  qed
  moreover have "\<forall>x \<in> set xs. rank x < Suc top" using rank by (auto simp: less_Suc_eq_le)
  ultimately show ?thesis using assms(2) by blast
qed

definition proc_inv :: "graph \<Rightarrow> proc \<Rightarrow> bool" where
  "proc_inv g p \<longleftrightarrow> inv1 g p {} \<and> inv2 p"

text \<open>What a handler may do: states stay, and an object is activated only if everything it depends on is active.\<close>

definition grows :: "graph \<Rightarrow> proc \<Rightarrow> proc \<Rightarrow> bool" where
  "grows g p p' \<longleftrightarrow> (\<forall>x. ob_state (ob p' x) = ob_state (ob p x)) \<and>
     (\<exists>new. pr_out p' = pr_out p @ new \<and> (\<forall>o1. PmActivate o1 \<in> set new \<longrightarrow> (\<forall>d \<in> set (gr_depends g o1). ob_state (ob p d) = StActive)))"

abbreviation keeps :: "graph \<Rightarrow> proc \<Rightarrow> proc \<Rightarrow> bool" where
  "keeps g p p' \<equiv> proc_inv g p \<longrightarrow> proc_inv g p' \<and> grows g p p'"

lemma grows_refl [simp]: "grows g p p"
  by (simp add: grows_def)

lemma grows_trans: "grows g p q \<Longrightarrow> grows g q r \<Longrightarrow> grows g p r"
  by (auto simp: grows_def)

lemma keeps_trans: "keeps g p q \<Longrightarrow> keeps g q r \<Longrightarrow> keeps g p r"
  using grows_trans by blast

lemma keeps_same:
  assumes "pr_objs q = pr_objs p" "pr_out q = pr_out p"
  shows "keeps g p q"
  using assms by (simp add: proc_inv_def inv1_def inv2_def grows_def)

lemma keeps_set_ob:
  assumes "\<And>x. ob_subtree_closed (f x) = ob_subtree_closed x" "\<And>x. ob_state (f x) = ob_state x" "\<And>x. ob_opening (f x) \<Longrightarrow> ob_opening x"
  shows "keeps g p (set_ob o1 f p)"
  using assms by (auto simp: proc_inv_def inv1_def inv2_def grows_def)

lemma keeps_post: "(\<forall>o1. m \<noteq> PmActivate o1) \<Longrightarrow> keeps g p (proc_post m p)"
  by (auto simp: proc_inv_def inv1_def inv2_def grows_def proc_post_def)

lemma activate_ok:
  assumes "graph_ok g" "proc_inv g p" "\<forall>d \<in> set (gr_depends g o1). ob_state (ob p d) = StActive"
  shows "\<exists>p'. activate g o1 p = Some p' \<and> proc_inv g p' \<and> grows g p p'"
proof -
  define q where "q = set_ob o1 (\<lambda>x. x\<lparr>ob_decay := False, ob_opening := True, ob_reopen := (ob_reopen x)\<lparr>rd_next := 0\<rparr>\<rparr>) p"
  have "inv1 g q ({} \<union> set [o1])" using assms(2) by (auto simp: proc_inv_def inv1_def q_def)
  from open_all_ok [OF assms(1) this] obtain r where r: "open_all g [o1] q = Some r" "inv1 g r {}" "\<not> closed r o1"
    "\<forall>x. closed r x \<longrightarrow> closed q x" "erase r = erase q" by auto
  have s: "ob_state (ob r x) = ob_state (ob p x)" "x \<noteq> o1 \<Longrightarrow> ob_opening (ob r x) = ob_opening (ob p x)" "pr_out r = pr_out p" for x
    using erase_eqD [OF r(5)] by (simp_all add: q_def)
  have "inv2 r" unfolding inv2_def
  proof (intro allI impI)
    fix x assume x: "closed r x"
    then have "x \<noteq> o1" "closed p x" using r(3,4) by (auto simp: q_def split: if_splits)
    then show "\<not> ob_opening (ob r x) \<and> (ob_state (ob r x) = StClosed \<or> ob_state (ob r x) = StClosing)"
      using assms(2) s by (auto simp: proc_inv_def inv2_def)
  qed
  then have "proc_inv g (proc_post (PmActivate o1) r)" using r(2) by (simp add: proc_inv_def inv1_def inv2_def proc_post_def)
  moreover have "grows g p (proc_post (PmActivate o1) r)" using s assms(3) by (auto simp: grows_def proc_post_def)
  ultimately show ?thesis using r(1) by (auto simp: activate_def mark_subtree_open_def q_def)
qed

lemma ready_openD: "ready_open g p o1 \<Longrightarrow> \<forall>d \<in> set (gr_depends g o1). ob_state (ob p d) = StActive"
  by (simp add: ready_open_def list_all_iff)

lemma activate_keeps: "graph_ok g \<Longrightarrow> ready_open g p o1 \<Longrightarrow> activate g o1 p = Some p' \<Longrightarrow> keeps g p p'"
  using activate_ok [of g p o1] ready_openD [of g p o1] by fastforce

lemma deactivate_keeps: "keeps g p (deactivate failure o1 p)"
proof (cases "ob_closing (ob p o1)")
  case False
  then show ?thesis
    unfolding deactivate_def if_not_P [OF False]
    by (intro keeps_trans [OF keeps_set_ob keeps_post]) simp_all
qed (simp add: deactivate_def)

lemma pending_add_same: "proc_pending_add ek ts o1 p = Some p' \<Longrightarrow> pr_objs p' = pr_objs p \<and> pr_out p' = pr_out p \<and> pr_state p' = pr_state p"
  by (auto simp: proc_pending_add_def pending_rearm_def Let_def split: if_splits)

lemma pending_del_same: "proc_pending_del ek ts o1 p = Some p' \<Longrightarrow> pr_objs p' = pr_objs p \<and> pr_out p' = pr_out p \<and> pr_state p' = pr_state p"
  by (auto simp: proc_pending_del_def pending_rearm_def Let_def split: if_splits)

lemma pending_add_keeps: "proc_pending_add ek ts o1 p = Some p' \<Longrightarrow> keeps g p p'"
  using pending_add_same keeps_same by blast

lemma reactivate_keeps: "graph_ok g \<Longrightarrow> reactivate g ek now o1 p = Some p' \<Longrightarrow> keeps g p p'"
  by (auto simp: reactivate_def split: if_splits dest: pending_add_keeps activate_keeps)

lemma decay_all_keeps:
  assumes "graph_ok g" "decay_all g xs p = Some p'"
  shows "keeps g p p'"
proof -
  obtain rank top where rank: "\<forall>o1. (rank :: nat \<Rightarrow> nat) o1 \<le> top \<and> (\<forall>d \<in> set (gr_depends g o1). rank d < rank o1)"
    and dual: "\<forall>o1 d. d \<in> set (gr_depends g o1) \<longleftrightarrow> o1 \<in> set (gr_rdepends g d)"
    using assms(1) unfolding graph_ok_def by blast
  have "keeps g p p'" if "\<forall>x \<in> set xs. top < n + rank x" "decay_all g xs p = Some p'" for n xs p p'
    using that
  proof (induction n arbitrary: xs p p')
    case 0
    then show ?case using rank by (cases xs) (auto simp: decay_all.simps not_less [symmetric])
  next
    case (Suc n)
    from Suc.prems show ?case
    proof (induction xs arbitrary: p)
      case Nil
      then show ?case by (simp add: decay_all.simps)
    next
      case (Cons o1 os)
      show ?case
      proof (cases "closed p o1")
        case True
        then show ?thesis using Cons by (simp add: decay_all.simps [of g "o1 # os"])
      next
        case False
        define q where "q = set_ob o1 (\<lambda>x. x\<lparr>ob_decay := True\<rparr>) p"
        obtain r where r: "decay_all g (gr_rdepends g o1) q = Some r"
          "decay_all g os (if ready_close g r o1 then deactivate False o1 r else r) = Some p'"
          using Cons.prems(2) False by (auto simp: decay_all.simps [of g "o1 # os"] q_def bind_eq_Some_conv)
        have "\<forall>x \<in> set (gr_rdepends g o1). top < n + rank x"
        proof
          fix x assume "x \<in> set (gr_rdepends g o1)"
          then have "rank o1 < rank x" using rank dual by blast
          then show "top < n + rank x" using Cons.prems(1) by auto
        qed
        then have 1: "keeps g q r" using Suc.IH r(1) by blast
        have 2: "keeps g p q" unfolding q_def by (rule keeps_set_ob) simp_all
        have 3: "keeps g r (if ready_close g r o1 then deactivate False o1 r else r)" using deactivate_keeps by simp
        have 4: "keeps g (if ready_close g r o1 then deactivate False o1 r else r) p'" using Cons.IH [OF _ r(2)] Cons.prems(1) by simp
        show ?thesis using keeps_trans [OF keeps_trans [OF 2 1] keeps_trans [OF 3 4]] .
      qed
    qed
  qed
  moreover have "\<forall>x \<in> set xs. top < Suc top + rank x" by simp
  ultimately show ?thesis using assms(2) by blast
qed

lemma keeps_mark_closed:
  assumes "subtree_test g p o1 = SubClosed"
  shows "keeps g p (set_ob o1 (\<lambda>x. x\<lparr>ob_subtree_closed := True\<rparr>) p)"
  using assms by (auto simp: subtree_test_def proc_inv_def inv1_def inv2_def grows_def list_all_iff split: if_splits)

lemma activate_if_ready_keeps:
  "(\<And>p p'. act o1 p = Some p' \<Longrightarrow> keeps g p p') \<Longrightarrow> activate_if_ready g act o1 r p = Some (p', r') \<Longrightarrow> keeps g p p'"
  by (auto simp: activate_if_ready_def split: if_splits)

lemma close_all_keeps:
  assumes "graph_ok g" "\<And>o1 p p'. act o1 p = Some p' \<Longrightarrow> keeps g p p'" "close_all g act xs r p = Some (p', r')"
  shows "keeps g p p'"
proof -
  obtain rank top where rank: "\<forall>o1. (rank :: nat \<Rightarrow> nat) o1 \<le> top \<and> (\<forall>d \<in> set (gr_depends g o1). rank d < rank o1)"
    using assms(1) unfolding graph_ok_def by blast
  have air: "activate_if_ready g act o1 r p = Some (p', r') \<Longrightarrow> keeps g p p'" for o1 r p p' r'
    by (erule activate_if_ready_keeps [rotated]) (rule assms(2))
  have "keeps g p p'" if "\<forall>x \<in> set xs. rank x < n" "close_all g act xs r p = Some (p', r')" for n xs r p p' r'
    using that
  proof (induction n arbitrary: xs r p p' r')
    case 0
    then show ?case by (cases xs) (auto simp: close_all.simps)
  next
    case (Suc n)
    from Suc.prems show ?case
    proof (induction xs arbitrary: r p)
      case Nil
      then show ?case by (simp add: close_all.simps)
    next
      case (Cons o1 os)
      have rest: "close_all g act os r q = Some (p', r') \<Longrightarrow> keeps g q p'" for q r
        using Cons.IH Cons.prems(1) by simp
      show ?case
      proof (cases "subtree_test g p o1")
        case SubKnown
        then obtain q r1 where "activate_if_ready g act o1 r p = Some (q, r1)" "close_all g act os r1 q = Some (p', r')"
          using Cons.prems(2) by (auto simp: close_all.simps [of g act "o1 # os"] bind_eq_Some_conv)
        then have "keeps g p q" "keeps g q p'" using air rest by blast+
        then show ?thesis by (rule keeps_trans)
      next
        case SubOpen
        then show ?thesis using Cons.prems(2) rest by (simp add: close_all.simps [of g act "o1 # os"])
      next
        case SubRunning
        define q where "q = (if ob_decay (ob p o1) then deactivate False o1 p else p)"
        have "keeps g p q" unfolding q_def using deactivate_keeps by simp
        moreover have "close_all g act os r q = Some (p', r')"
          using SubRunning Cons.prems(2) by (simp add: close_all.simps [of g act "o1 # os"] q_def)
        ultimately show ?thesis using rest keeps_trans by metis
      next
        case SubClosed
        define q where "q = set_ob o1 (\<lambda>x. x\<lparr>ob_subtree_closed := True\<rparr>) p"
        obtain q1 r1 q2 r2 where q: "close_all g act (gr_depends g o1) False q = Some (q1, r1)"
          "activate_if_ready g act o1 (r1 \<or> r) q1 = Some (q2, r2)" "close_all g act os r2 q2 = Some (p', r')"
          using Cons.prems(2) SubClosed by (auto simp: close_all.simps [of g act "o1 # os"] q_def bind_eq_Some_conv)
        have "\<forall>x \<in> set (gr_depends g o1). rank x < n" using rank Cons.prems(1) by fastforce
        then have "keeps g q q1" using Suc.IH q(1) by blast
        moreover have "keeps g p q" unfolding q_def by (rule keeps_mark_closed [OF SubClosed])
        moreover have "keeps g q1 q2" using air [OF q(2)] .
        moreover have "keeps g q2 p'" using rest [OF q(3)] .
        ultimately show ?thesis using keeps_trans by metis
      qed
    qed
  qed
  moreover have "\<forall>x \<in> set xs. rank x < Suc top" using rank by (auto simp: less_Suc_eq_le)
  ultimately show ?thesis using assms(3) by blast
qed

lemma deactivate_ready_keeps: "keeps g p (deactivate_ready g ds p)"
proof (induction ds arbitrary: p)
  case (Cons d ds)
  have "keeps g p (if ready_close g p d then deactivate False d p else p)" using deactivate_keeps by simp
  then show ?case using Cons keeps_trans by (metis (no_types, lifting) deactivate_ready.simps(2))
qed simp

lemma activate_ready_keeps: "graph_ok g \<Longrightarrow> activate_ready g ds p = Some p' \<Longrightarrow> keeps g p p'"
proof (induction ds arbitrary: p)
  case (Cons d ds)
  then obtain q where "(if ready_open g p d then activate g d p else Some p) = Some q" "activate_ready g ds q = Some p'"
    by (auto simp: bind_eq_Some_conv)
  then show ?case using Cons activate_keeps [of g p d q] keeps_trans [of g p q p'] by (auto split: if_splits)
qed simp

lemma close_workers_keeps: "keeps g p (close_workers g p)"
  by (auto simp: close_workers_def proc_inv_def inv1_def inv2_def grows_def)

lemma decay_objects_keeps: "keeps g p (decay_objects g xs p)"
proof (induction xs arbitrary: p)
  case (Cons o1 os)
  define q where "q = set_ob o1 (\<lambda>x. x\<lparr>ob_decay := True\<rparr>) p"
  have 1: "keeps g p q" unfolding q_def by (rule keeps_set_ob) simp_all
  have 2: "keeps g q (if ready_close g q o1 then deactivate False o1 q else q)" using deactivate_keeps by simp
  have "decay_objects g (o1 # os) p = decay_objects g os (if ready_close g q o1 then deactivate False o1 q else q)"
    by (simp add: q_def Let_def)
  then show ?case using keeps_trans [OF keeps_trans [OF 1 2] Cons] by simp
qed simp

text \<open>The start of \<open>update\<close>: the state of one object changes and the marks follow.\<close>

lemma obj_on_state_ok:
  assumes "graph_ok g" "proc_inv g p0" "obj_on_state g s now o1 q = Some p'"
    and "pr_objs q = (pr_objs p0)(o1 := (ob p0 o1)\<lparr>ob_state_prev := v, ob_state := s\<rparr>)"
  shows "proc_inv g p' \<and> pr_out p' = pr_out q \<and> (\<forall>x. ob_state (ob p' x) = ob_state (ob q x))"
proof -
  obtain r where r: "on_state s now (ob_reopen (ob q o1)) = Some r"
    using assms(3) by (auto simp: obj_on_state_def bind_eq_Some_conv)
  define q1 where "q1 = set_ob o1 (\<lambda>x. x\<lparr>ob_reopen := r\<rparr>) q"
  let ?f = "\<lambda>x. x\<lparr>ob_opening := ob_opening x \<and> s \<noteq> StOpening, ob_closing := ob_closing x \<and> s \<noteq> StClosing\<rparr>"
  have "map_option (set_ob o1 ?f) (if s \<noteq> StClosed then mark_subtree_open g o1 q1 else Some q1) = Some p'"
    using assms(3) unfolding obj_on_state_def r q1_def Let_def by (simp only: bind.simps)
  then obtain q2 where q2: "(if s \<noteq> StClosed then mark_subtree_open g o1 q1 else Some q1) = Some q2" "p' = set_ob o1 ?f q2"
    unfolding map_option_eq_Some by blast
  have i1: "inv1 g q1 {}" using assms(2,4) by (auto simp: proc_inv_def inv1_def q1_def)
  have other: "ob_state (ob q1 x) = ob_state (ob p0 x)" "ob_opening (ob q1 x) = ob_opening (ob p0 x)" "closed q1 x = closed p0 x" if "x \<noteq> o1" for x
    using that assms(4) by (simp_all add: q1_def)
  have 2: "proc_inv g q2 \<and> pr_out q2 = pr_out q \<and> (\<forall>x. ob_state (ob q2 x) = ob_state (ob q x))"
  proof (cases "s = StClosed")
    case True
    then have "inv2 q1" using assms(2,4) by (auto simp: proc_inv_def inv2_def q1_def)
    moreover have "q2 = q1" using True q2(1) by simp
    ultimately show ?thesis using i1 by (simp add: proc_inv_def) (simp add: q1_def)
  next
    case False
    have "inv1 g q1 ({} \<union> set [o1])" using i1 by (auto simp: inv1_def)
    then have o2: "inv1 g q2 {}" "\<not> closed q2 o1" "\<forall>x. closed q2 x \<longrightarrow> closed q1 x" "erase q2 = erase q1"
      using open_all_ok [OF assms(1), of q1 "{}" "[o1]"] q2(1) False by (auto simp: mark_subtree_open_def)
    have "inv2 q2" unfolding inv2_def
    proof (intro allI impI)
      fix x assume "closed q2 x"
      then have "x \<noteq> o1" "closed q1 x" using o2 by auto
      then show "\<not> ob_opening (ob q2 x) \<and> (ob_state (ob q2 x) = StClosed \<or> ob_state (ob q2 x) = StClosing)"
        using assms(2) other [of x] erase_eqD [OF o2(4)] by (auto simp: proc_inv_def inv2_def)
    qed
    then show ?thesis using o2(1) erase_eqD [OF o2(4)] by (simp add: proc_inv_def q1_def)
  qed
  moreover have "keeps g q2 p'" unfolding q2(2) by (rule keeps_set_ob) auto
  ultimately show ?thesis using q2(2) by simp
qed

lemma pending_again_keeps: "pending_again ek o1 p = Some p' \<Longrightarrow> keeps g p p'"
  using pending_add_keeps by (auto simp: pending_again_def split: if_splits)

lemma update_closed_keeps:
  assumes "graph_ok g" "update_closed g ek now o1 p = Some p'"
  shows "keeps g p p'"
proof -
  obtain q r where q: "mark_subtree_closed g (reactivate g ek now) o1 p = Some (q, r)" and
    q': "map_option (\<lambda>p. if pr_state p = StClosing \<or> pr_state p = StClosed then close_workers g p else p)
            (if r \<and> pr_state q = StActive then Some q
             else map_option (deactivate_ready g (gr_depends g o1)) (decay g o1 q)) = Some p'"
    using assms(2) by (auto simp: update_closed_def bind_eq_Some_conv)
  have 1: "keeps g p q"
    using close_all_keeps [OF assms(1) reactivate_keeps [OF assms(1)] q [unfolded mark_subtree_closed_def]] .
  obtain q1 where q1: "(if r \<and> pr_state q = StActive then Some q else map_option (deactivate_ready g (gr_depends g o1)) (decay g o1 q)) = Some q1"
    "p' = (if pr_state q1 = StClosing \<or> pr_state q1 = StClosed then close_workers g q1 else q1)"
    using q' unfolding map_option_eq_Some by blast
  have 2: "keeps g q q1"
  proof (cases "r \<and> pr_state q = StActive")
    case False
    then obtain q0 where q0: "decay g o1 q = Some q0" "q1 = deactivate_ready g (gr_depends g o1) q0" using q1(1) by auto
    have "keeps g q q0" using decay_all_keeps [OF assms(1)] q0(1) unfolding decay_def .
    moreover have "keeps g q0 q1" using deactivate_ready_keeps q0(2) by simp
    ultimately show ?thesis by (rule keeps_trans)
  qed (use q1(1) in simp)
  have 3: "keeps g q1 p'" using q1(2) close_workers_keeps by simp
  show ?thesis using keeps_trans [OF keeps_trans [OF 1 2] 3] .
qed

lemma update_switch_keeps:
  assumes "graph_ok g" "update_switch g ek now o1 s p = Some p'"
  shows "keeps g p p'"
proof (cases s)
  case StOpening
  define q where "q = (if ob_decay (ob p o1) \<and> ready_close g p o1 then deactivate False o1 p else p)"
  have "keeps g p q" unfolding q_def using deactivate_keeps by simp
  moreover have "keeps g q p'" using pending_again_keeps assms(2) StOpening unfolding update_switch_def q_def by simp
  ultimately show ?thesis by (rule keeps_trans)
qed (use assms update_closed_keeps activate_ready_keeps pending_again_keeps deactivate_keeps in \<open>auto simp: update_switch_def\<close>)

lemma update_keeps:
  assumes "graph_ok g" "proc_inv g p" "update g ek now o1 s p = Some p'"
  shows "proc_inv g p' \<and> grows g (obj_set_state o1 s p) p'"
proof -
  let ?p = "obj_set_state o1 s p"
  obtain p2 p3 where
    p2: "(if reopen_pending (ob_reopen (ob ?p o1)) then proc_pending_del ek (rd_next (ob_reopen (ob ?p o1))) o1 ?p else Some ?p) = Some p2" and
    p3: "obj_on_state g s now o1 p2 = Some p3" and p': "update_switch g ek now o1 s p3 = Some p'"
    using assms(3) unfolding update_def Let_def by (auto simp: bind_eq_Some_conv)
  have s2: "pr_objs p2 = pr_objs ?p" "pr_out p2 = pr_out ?p" using p2 pending_del_same by (auto split: if_splits)
  have "proc_inv g p3 \<and> pr_out p3 = pr_out p2 \<and> (\<forall>x. ob_state (ob p3 x) = ob_state (ob p2 x))"
    using obj_on_state_ok [OF assms(1,2) p3, of "ob_state (ob p o1)"] s2(1) by (simp add: obj_set_state_def set_ob_def)
  then have "proc_inv g p3" "grows g ?p p3" using s2 by (simp_all add: grows_def)
  then show ?thesis using update_switch_keeps [OF assms(1) p'] grows_trans by blast
qed

lemma activate_leaves_keeps: "graph_ok g \<Longrightarrow> activate_leaves g os p = Some p' \<Longrightarrow> keeps g p p'"
proof (induction os arbitrary: p)
  case (Cons o1 os)
  then obtain q where q: "(if gr_depends g o1 \<noteq> [] then Some p else activate g o1 p) = Some q" "activate_leaves g os q = Some p'"
    by (auto simp: bind_eq_Some_conv)
  have "keeps g p q" using q(1) activate_ok [OF Cons.prems(1), of p o1] by (auto split: if_splits)
  then show ?case using Cons.IH [OF Cons.prems(1) q(2)] keeps_trans by blast
qed simp

lemma pending_one_keeps:
  assumes "graph_ok g" "pending_one g ek now susp o1 p = Some p'"
  shows "keeps g p p'"
proof -
  obtain r act where ra: "on_timer (susp o1) now (ob_reopen (ob p o1)) = Some (r, act)"
    using assms(2) by (auto simp: pending_one_def bind_eq_Some_conv)
  define q where "q = set_ob o1 (\<lambda>x. x\<lparr>ob_reopen := r\<rparr>) p"
  have 1: "keeps g p q" unfolding q_def by (rule keeps_set_ob) simp_all
  have s: "keeps g q (set_ob o1 (\<lambda>x. x\<lparr>ob_reopen := (ob_reopen x)\<lparr>rd_next := 0\<rparr>\<rparr>) q)" by (rule keeps_set_ob) simp_all
  have "keeps g q p'"
    using assms(2) ra s deactivate_keeps activate_keeps [OF assms(1)] pending_add_keeps
    by (cases act) (auto simp: pending_one_def q_def [symmetric] split: if_splits)
  from keeps_trans [OF 1 this] show ?thesis .
qed

lemma pending_loop_keeps:
  assumes "graph_ok g" "pending_loop g ek now susp p = Some p'"
  shows "keeps g p p'"
proof -
  have "graph_ok g \<longrightarrow> keeps g p p'"
    using assms(2)
  proof (rule pending_loop.raw_induct [where P = "\<lambda>g ek now susp p p'. graph_ok g \<longrightarrow> keeps g p p'", rotated])
    fix pl g ek now susp p p'
    assume IH: "\<And>g ek now susp p p'. pl g ek now susp p = Some p' \<Longrightarrow> graph_ok g \<longrightarrow> keeps g p p'"
      and eq: "(case pr_pending p of
          [] \<Rightarrow> Some p
        | (k, o1) # r \<Rightarrow>
            if k < now
            then Option.bind (pending_one g ek now susp o1 p) (\<lambda>p. pl g ek now susp (p\<lparr>pr_pending := remove1 (k, o1) (pr_pending p)\<rparr>))
            else Some p) = Some p'"
    show "graph_ok g \<longrightarrow> keeps g p p'"
    proof (cases "pr_pending p = [] \<or> \<not> fst (hd (pr_pending p)) < now")
      case True
      then show ?thesis using eq by (auto split: list.splits)
    next
      case False
      then obtain k o1 r where k: "pr_pending p = (k, o1) # r" "k < now" by (cases "pr_pending p") auto
      then obtain q where q: "pending_one g ek now susp o1 p = Some q"
        "pl g ek now susp (q\<lparr>pr_pending := remove1 (k, o1) (pr_pending q)\<rparr>) = Some p'"
        using eq by (auto simp: bind_eq_Some_conv)
      have "keeps g q (q\<lparr>pr_pending := remove1 (k, o1) (pr_pending q)\<rparr>)" by (rule keeps_same) simp_all
      then show ?thesis using IH [OF q(2)] pending_one_keeps [OF _ q(1)] keeps_trans by metis
    qed
  qed
  then show ?thesis using assms(1) by blast
qed

lemma proc_cb_keeps:
  assumes "graph_ok g" "proc_inv g p" "proc_cb g ek now ev p = Some (p', e)"
  shows "proc_inv g p'" and "case ev of EvState o1 s \<Rightarrow> e = None \<longrightarrow> grows g (obj_set_state o1 s p) p' | _ \<Rightarrow> grows g p p'"
proof -
  have close: "keeps g p (proc_close g (p\<lparr>pr_exit_code := c\<rparr>))" for c
  proof -
    define q where "q = p\<lparr>pr_exit_code := c, pr_state := StClosing\<rparr>"
    have 1: "keeps g p q" unfolding q_def by (rule keeps_same) simp_all
    have 2: "keeps g q (close_workers g (decay_objects g (gr_objects g) q))"
      using keeps_trans [OF decay_objects_keeps close_workers_keeps] .
    show ?thesis using keeps_trans [OF 1 2] by (simp add: proc_close_def q_def)
  qed
  have force: "keeps g p (proc_close_force g (worker_state w s p))" for w s
  proof -
    define q where "q = close_workers g (decay_objects g (gr_objects g) (worker_state w s p))"
    have 1: "keeps g p (worker_state w s p)" by (rule keeps_same) (simp_all add: worker_state_def)
    have 2: "keeps g (worker_state w s p) q" unfolding q_def using keeps_trans [OF decay_objects_keeps close_workers_keeps] .
    have 3: "keeps g q (q\<lparr>pr_state := StClosed\<rparr>)" by (rule keeps_same) simp_all
    show ?thesis using keeps_trans [OF keeps_trans [OF 1 2] 3] by (simp add: proc_close_force_def q_def)
  qed
  have start: "keeps g p q" if "activate_start g (worker_state w s p) = Some q" for w s q
  proof -
    have "keeps g p ((worker_state w s p)\<lparr>pr_state := StActive\<rparr>)" by (rule keeps_same) (simp_all add: worker_state_def)
    then show ?thesis using activate_leaves_keeps [OF assms(1)] that keeps_trans unfolding activate_start_def by metis
  qed
  have worker: "keeps g p (worker_state w s p)" for w s by (rule keeps_same) (simp_all add: worker_state_def)
  have up: "proc_inv g q \<and> grows g (obj_set_state o1 s p) q" if "update g ek now o1 s p = Some q" for o1 s q
    using update_keeps [OF assms(1,2) that] .
  show "proc_inv g p'" "case ev of EvState o1 s \<Rightarrow> e = None \<longrightarrow> grows g (obj_set_state o1 s p) p' | _ \<Rightarrow> grows g p p'"
    using assms(2,3) close force start worker up deactivate_keeps [of g p False]
    by (auto simp: proc_cb_def Let_def split: proc_event.splits if_splits)
qed

inductive proc_step :: "graph \<Rightarrow> proc \<Rightarrow> proc \<Rightarrow> bool" for g where
  message: "proc_cb g ek now ev p = Some (p', e) \<Longrightarrow> proc_step g p p'"
| timer: "pending_process g ek now susp p = Some p' \<Longrightarrow> proc_step g p p'"

definition proc_init :: "proc \<Rightarrow> bool" where
  "proc_init p \<longleftrightarrow> pr_out p = [] \<and> (\<forall>x. \<exists>r. ob p x = obj_new r)"

inductive proc_reach :: "graph \<Rightarrow> proc \<Rightarrow> bool" for g where
  init: "proc_init p \<Longrightarrow> proc_reach g p"
| step: "proc_reach g p \<Longrightarrow> proc_step g p p' \<Longrightarrow> proc_reach g p'"

lemma pending_process_keeps:
  assumes "graph_ok g" "pending_process g ek now susp p = Some p'"
  shows "keeps g p p'"
proof -
  obtain q where q: "pending_loop g ek now susp p = Some q" "p' = (if pr_pending q \<noteq> [] then pending_rearm (fst (hd (pr_pending q))) q else q)"
    using assms(2) by (auto simp: pending_process_def)
  have "keeps g q p'" unfolding q(2) by (rule keeps_same) (simp_all add: pending_rearm_def)
  with pending_loop_keeps [OF assms(1) q(1)] show ?thesis by (rule keeps_trans)
qed

lemma proc_reach_inv:
  assumes "graph_ok g" "proc_reach g p"
  shows "proc_inv g p"
  using assms(2)
proof induction
  case (init p)
  then have "\<forall>x. closed p x \<and> \<not> ob_opening (ob p x) \<and> ob_state (ob p x) = StClosed" unfolding proc_init_def by (metis obj_new_def obj.select_convs)
  then show ?case by (simp add: proc_inv_def inv1_def inv2_def)
next
  case (step p p')
  from step(2,3) show ?case
    by cases (use proc_cb_keeps(1) [OF assms(1)] pending_process_keeps [OF assms(1)] in blast)+
qed

section \<open>Properties\<close>

definition depends_rel :: "graph \<Rightarrow> (nat \<times> nat) set" where
  "depends_rel g = {(d, o1). o1 \<in> set (gr_rdepends g d)}"


text \<open>C19: an object is activated only when everything it depends on is active: the messages a step of the processor posts are
  appended, and each activation among them is of such an object.\<close>

theorem proc_activate_order:
  assumes "graph_ok g" "proc_reach g p" "proc_step g p p'"
  shows "\<exists>new. pr_out p' = pr_out p @ new \<and>
    (\<forall>o1. PmActivate o1 \<in> set new \<longrightarrow> (\<forall>d \<in> set (gr_depends g o1). ob_state (ob p' d) = StActive))"
proof -
  have inv: "proc_inv g p" using proc_reach_inv [OF assms(1,2)] .
  have G: "\<exists>new. pr_out p' = pr_out p @ new \<and>
      (\<forall>o1. PmActivate o1 \<in> set new \<longrightarrow> (\<forall>d \<in> set (gr_depends g o1). ob_state (ob p' d) = StActive))"
    if "grows g q p'" "pr_out q = pr_out p" for q using that by (auto simp: grows_def)
  from assms(3) show ?thesis
  proof cases
    case (message ek now ev e)
    show ?thesis
    proof (cases "p' = p")
      case False
      then have "grows g p p' \<or> (\<exists>o1 s. grows g (obj_set_state o1 s p) p')"
        using proc_cb_keeps(2) [OF assms(1) inv message] message by (cases ev) (auto simp: proc_cb_def split: if_splits)
      then show ?thesis using G [of p] G [of "obj_set_state _ _ p"] by (auto simp: obj_set_state_def)
    qed simp
  next
    case (timer ek now susp)
    then show ?thesis using pending_process_keeps [OF assms(1)] inv G by blast
  qed
qed

text \<open>Two independent objects and one that depends on both.\<close>

abbreviation wgraph :: graph where
  "wgraph \<equiv> \<lparr>gr_objects = [0, 1, 2], gr_depends = (\<lambda>x. if x = 1 then [0, 2] else []), gr_rdepends = (\<lambda>x. if x = 0 \<or> x = 2 then [1] else [])\<rparr>"

abbreviation wproc :: proc where
  "wproc \<equiv> \<lparr>pr_state = StActive, pr_objs = (\<lambda>_. obj_new reopen_default), pr_pending = [], pr_timer = 0, pr_workers = [], pr_exit_code = 0, pr_out = []\<rparr>"

lemma wgraph_ok: "graph_ok wgraph"
proof -
  have "\<forall>o1. (if o1 = 1 then 1 else 0 :: nat) \<le> 1 \<and> (\<forall>d \<in> set (gr_depends wgraph o1). (if d = 1 then 1 else 0) < (if o1 = 1 then 1 else 0 :: nat))"
    by auto
  then show ?thesis unfolding graph_ok_def
    by (intro conjI) (auto intro!: exI [of _ "\<lambda>x. if x = 1 then 1 else 0"] exI [of _ "1 :: nat"])
qed

lemma wproc_active: "\<exists>p. proc_cb wgraph None 5 (EvState 0 StActive) wproc = Some (p, None) \<and> ready_close wgraph p 0"
  by (simp add: proc_cb_def update_def update_switch_def obj_on_state_def obj_set_state_def mark_subtree_open_def open_all.simps obj_new_def
      reopen_default_def reopen_pending_def on_state_active ready_open_def ready_close_def Let_def)

lemma wproc_reach: "\<exists>p. proc_reach wgraph p \<and> ready_close wgraph p 0"
proof -
  have "proc_init wproc" by (auto simp: proc_init_def)
  then have i: "proc_reach wgraph wproc" by (rule proc_reach.init)
  obtain p where p: "proc_cb wgraph None 5 (EvState 0 StActive) wproc = Some (p, None)" "ready_close wgraph p 0" using wproc_active by blast
  have "proc_step wgraph wproc p" by (rule proc_step.message [OF p(1)])
  with i have "proc_reach wgraph p" by (rule proc_reach.step)
  then show ?thesis using p(2) by blast
qed


lemma proc_activate_order_witness:
  "\<exists>p p' new. proc_step wgraph p p' \<and> pr_out p' = pr_out p @ new \<and>
    (\<forall>o1. PmActivate o1 \<in> set new \<longrightarrow> (\<forall>d \<in> set (gr_depends wgraph o1). ob_state (ob p' d) = StActive))"
proof -
  have r: "proc_reach wgraph wproc" by (rule proc_reach.init) (auto simp: proc_init_def)
  obtain p where "proc_cb wgraph None 5 (EvState 0 StActive) wproc = Some (p, None)" using wproc_active by blast
  then have s: "proc_step wgraph wproc p" by (rule proc_step.message)
  show ?thesis using proc_activate_order [OF wgraph_ok r s] s by blast
qed

text \<open>Without cycles the walks over the graph return: the marking of open subtrees, and the decay of an object and what
  depends on it.\<close>

lemma decay_all_returns:
  assumes "graph_ok g"
  shows "\<exists>p'. decay_all g xs p = Some p'"
proof -
  obtain rank top where rank: "\<forall>o1. (rank :: nat \<Rightarrow> nat) o1 \<le> top \<and> (\<forall>d \<in> set (gr_depends g o1). rank d < rank o1)"
    and dual: "\<forall>o1 d. d \<in> set (gr_depends g o1) \<longleftrightarrow> o1 \<in> set (gr_rdepends g d)"
    using assms(1) unfolding graph_ok_def by blast
  have "\<exists>p'. decay_all g xs p = Some p'" if "\<forall>x \<in> set xs. top < n + rank x" for n xs p
    using that
  proof (induction n arbitrary: xs p)
    case 0
    then show ?case using rank by (cases xs) (auto simp: decay_all.simps not_less [symmetric])
  next
    case (Suc n)
    from Suc.prems show ?case
    proof (induction xs arbitrary: p)
      case Nil
      then show ?case by (simp add: decay_all.simps)
    next
      case (Cons o1 os)
      have "\<forall>x \<in> set (gr_rdepends g o1). top < n + rank x"
      proof
        fix x assume "x \<in> set (gr_rdepends g o1)"
        then have "rank o1 < rank x" using rank dual by blast
        then show "top < n + rank x" using Cons.prems(1) by auto
      qed
      then obtain q where "decay_all g (gr_rdepends g o1) (set_ob o1 (\<lambda>x. x\<lparr>ob_decay := True\<rparr>) p) = Some q"
        using Suc.IH by blast
      then show ?case using Cons by (simp add: decay_all.simps [of g "o1 # os"])
    qed
  qed
  moreover have "\<forall>x \<in> set xs. top < Suc top + rank x" by simp
  ultimately show ?thesis by blast
qed

section \<open>Pending list\<close>

lemma del_loop_end: "del_loop None ts o1 xs = None \<longleftrightarrow> (\<forall>k \<in> fst ` set xs. k = ts)"
proof (induction xs)
  case (Cons a xs)
  then show ?case by (cases a; cases "fst a = ts") auto
qed simp

lemma pending_find_last:
  "sorted (map fst xs) \<Longrightarrow> ts \<in> fst ` set xs \<Longrightarrow>
   pending_find ts xs \<noteq> [] \<and> ((\<forall>k \<in> fst ` set (pending_find ts xs). k = ts) \<longleftrightarrow> (\<forall>k \<in> fst ` set xs. k \<le> ts))"
proof (induction xs)
  case (Cons a xs)
  show ?case
  proof (cases "fst a = ts")
    case True
    have "\<forall>k \<in> fst ` set xs. ts \<le> k" using Cons.prems(1) True by simp
    then have "(\<forall>k \<in> fst ` set xs. k = ts) \<longleftrightarrow> (\<forall>k \<in> fst ` set xs. k \<le> ts)" by force
    then show ?thesis using True by (simp add: pending_find_def case_prod_unfold)
  next
    case False
    then have "ts \<in> fst ` set xs" "fst a \<le> ts" using Cons.prems by auto
    then show ?thesis using Cons False by (auto simp: pending_find_def case_prod_unfold)
  qed
qed simp

text \<open>\<open>pending_del\<close> reads the entry behind the last one exactly when the entries it removes from have the greatest key: with one
  pending object, or one time for all, every removal does.\<close>

theorem pending_del_past_end:
  assumes "sorted (map fst (pr_pending p))" "ts \<in> fst ` set (pr_pending p)"
  shows "proc_pending_del None ts o1 p = None \<longleftrightarrow> (\<forall>k \<in> fst ` set (pr_pending p). k \<le> ts)"
  using pending_find_last [OF assms] by (simp add: proc_pending_del_def Let_def del_loop_end)

lemma pending_del_past_end_witness: "proc_pending_del None 7 0 (wproc\<lparr>pr_pending := [(3, 1), (7, 0)]\<rparr>) = None"
  using pending_del_past_end [of "wproc\<lparr>pr_pending := [(3, 1), (7, 0)]\<rparr>" 7 0] by simp

text \<open>The list stays sorted.\<close>

lemma pending_insert_sorted: "sorted (map fst xs) \<Longrightarrow> sorted (map fst (pending_insert ts o1 xs))"
proof (induction xs)
  case (Cons a xs)
  have "fst ` set (pending_insert ts o1 xs) = insert ts (fst ` set xs)" for xs
    by (induction ts o1 xs rule: pending_insert.induct) auto
  then show ?case using Cons by (cases a) auto
qed simp

section \<open>Order of initialisation\<close>

abbreviation max_depth :: "nat \<Rightarrow> nat list \<Rightarrow> nat" where
  "max_depth \<equiv> foldl (\<lambda>m k. max m (k + 1))"

text \<open>The depth of a name: 0 without dependencies, one more than the deepest of them otherwise.\<close>

inductive has_depth :: "(string \<rightharpoonup> string list) \<Rightarrow> string \<Rightarrow> nat \<Rightarrow> bool" for deps where
  "deps o1 = Some ds \<Longrightarrow> list_all2 (has_depth deps) ds ns \<Longrightarrow> has_depth deps o1 (max_depth 0 ns)"

lemma max_depth_ge: "m \<le> max_depth m ns" "k \<in> set ns \<Longrightarrow> k < max_depth m ns"
proof -
  show le: "m \<le> max_depth m ns" for m ns
  proof (induction ns arbitrary: m)
    case (Cons a ns)
    have "m \<le> max m (a + 1)" by simp
    also have "\<dots> \<le> max_depth (max m (a + 1)) ns" by (rule Cons.IH)
    finally show ?case by simp
  qed simp
  show "k \<in> set ns \<Longrightarrow> k < max_depth m ns"
  proof (induction ns arbitrary: m)
    case (Cons a ns)
    then show ?case using le [of "max m (a + 1)" ns] by (auto simp: less_le_trans)
  qed simp
qed

lemma has_depth_unique: "has_depth deps o1 m \<Longrightarrow> has_depth deps o1 n \<Longrightarrow> m = n"
proof (induction arbitrary: n rule: has_depth.induct)
  case (1 o1 ds ns)
  from 1(3) obtain ks where ks: "list_all2 (has_depth deps) ds ks" "n = max_depth 0 ks" using 1(1) by (auto elim: has_depth.cases)
  have "ns = ks"
    using 1(2) ks(1) by (auto simp: list_all2_conv_all_nth intro!: nth_equalityI)
  then show ?case using ks by simp
qed

lemma has_depth_less: "has_depth deps o1 n \<Longrightarrow> deps o1 = Some ds \<Longrightarrow> d \<in> set ds \<Longrightarrow> \<exists>m. has_depth deps d m \<and> m < n"
proof (erule has_depth.cases)
  fix o2 ds' ns
  assume *: "o1 = o2" "n = max_depth 0 ns" "deps o2 = Some ds'" "list_all2 (has_depth deps) ds' ns" "deps o1 = Some ds" "d \<in> set ds"
  then obtain i where "i < length ns" "d = ds ! i" "has_depth deps d (ns ! i)" by (auto simp: list_all2_conv_all_nth in_set_conv_nth)
  then show ?thesis using max_depth_ge(2) [of "ns ! i" ns 0] *(2) by auto
qed

definition known_ok :: "(string \<rightharpoonup> string list) \<Rightarrow> (string \<rightharpoonup> nat) \<Rightarrow> bool" where
  "known_ok deps known \<longleftrightarrow> (\<forall>o1 n. known o1 = Some n \<longrightarrow> has_depth deps o1 n)"

definition depth_dep :: "(string \<rightharpoonup> string list) \<Rightarrow> (string \<rightharpoonup> nat) \<Rightarrow> string list \<Rightarrow> string \<Rightarrow> string list \<Rightarrow> (depth_error + nat) option" where
  "depth_dep deps known path d list =
     (case known d of
        Some n \<Rightarrow> Some (Inr n)
      | None \<Rightarrow> if d \<in> set path then Some (Inl (DepCycle (dropWhile (\<lambda>x. x \<noteq> d) path @ [d])))
                else depth_deps deps known (path @ [d]) list 0)"

lemma depth_deps_Nil: "depth_deps deps known path [] depth = Some (Inr depth)"
  by (simp add: depth_deps.simps)

lemma depth_deps_Cons:
  "depth_deps deps known path (d # ds) depth =
     (case deps d of
        None \<Rightarrow> Some (Inl (DepMissing d))
      | Some list \<Rightarrow> Option.bind (depth_dep deps known path d list)
          (\<lambda>r. case r of Inl e \<Rightarrow> Some (Inl e) | Inr dd \<Rightarrow> depth_deps deps known path ds (max depth (dd + 1))))"
  by (subst depth_deps.simps) (simp add: depth_dep_def cong: option.case_cong)

definition edge :: "(string \<rightharpoonup> string list) \<Rightarrow> string \<Rightarrow> string \<Rightarrow> bool" where
  "edge deps a b \<longleftrightarrow> (\<exists>ds. deps a = Some ds \<and> b \<in> set ds)"

definition depth_error_ok :: "(string \<rightharpoonup> string list) \<Rightarrow> depth_error \<Rightarrow> bool" where
  "depth_error_ok deps e =
     (case e of
        DepMissing d \<Rightarrow> deps d = None \<and> (\<exists>o1. edge deps o1 d)
      | DepCycle c \<Rightarrow> 2 \<le> length c \<and> hd c = last c \<and> successively (edge deps) c)"

text \<open>What a call returns, for a path of dependencies that has led to it.\<close>

definition depth_result :: "(string \<rightharpoonup> string list) \<Rightarrow> string list \<Rightarrow> nat \<Rightarrow> depth_error + nat \<Rightarrow> bool" where
  "depth_result deps ds depth r =
     (case r of
        Inl e \<Rightarrow> depth_error_ok deps e
      | Inr n \<Rightarrow> \<exists>ns. list_all2 (has_depth deps) ds ns \<and> n = max_depth depth ns)"

lemma depth_result_Cons:
  assumes "has_depth deps d n" "depth_result deps ds (max depth (n + 1)) r"
  shows "depth_result deps (d # ds) depth r"
proof (cases r)
  case (Inr k)
  then obtain ns where "list_all2 (has_depth deps) ds ns" "k = max_depth (max depth (n + 1)) ns" using assms(2) by (auto simp: depth_result_def)
  then have "list_all2 (has_depth deps) (d # ds) (n # ns) \<and> k = max_depth depth (n # ns)" using assms(1) by simp
  then show ?thesis unfolding depth_result_def Inr sum.case by blast
qed (use assms in \<open>simp add: depth_result_def\<close>)

lemma cycle_found:
  assumes "successively (edge deps) path" "path \<noteq> []" "edge deps (last path) d" "d \<in> set path"
  shows "depth_error_ok deps (DepCycle (dropWhile (\<lambda>x. x \<noteq> d) path @ [d]))"
proof -
  obtain us vs where p: "path = us @ d # vs" "d \<notin> set us" using split_list_first [OF assms(4)] by blast
  then have "dropWhile (\<lambda>x. x \<noteq> d) path = d # vs" by (auto simp: dropWhile_append)
  moreover have "successively (edge deps) ((d # vs) @ [d])"
    unfolding successively_append_iff using assms(1,3) p(1) by (auto simp: successively_append_iff)
  ultimately show ?thesis by (simp add: depth_error_ok_def)
qed

lemma depth_deps_returns:
  assumes "finite (dom deps)" "known_ok deps known"
  shows "distinct path \<Longrightarrow> set path \<subseteq> dom deps \<Longrightarrow> path \<noteq> [] \<Longrightarrow> successively (edge deps) path \<Longrightarrow> \<forall>d \<in> set ds. edge deps (last path) d \<Longrightarrow>
    \<exists>r. depth_deps deps known path ds depth = Some r \<and> depth_result deps ds depth r"
proof (induction "card (dom deps - set path)" arbitrary: path ds depth rule: less_induct)
  case less
  from less.prems(5) show ?case
  proof (induction ds arbitrary: depth)
    case Nil
    then show ?case by (simp add: depth_deps_Nil depth_result_def)
  next
    case (Cons d ds)
    have e: "edge deps (last path) d" using Cons.prems by simp
    show ?case
    proof (cases "deps d")
      case None
      then show ?thesis using e by (auto simp: depth_deps_Cons depth_result_def depth_error_ok_def)
    next
      case (Some list)
      obtain r where r: "depth_dep deps known path d list = Some r" "case r of Inl e \<Rightarrow> depth_error_ok deps e | Inr n \<Rightarrow> has_depth deps d n"
      proof (cases "known d")
        case k: (Some n)
        then show ?thesis using that [of "Inr n"] assms(2) by (simp add: depth_dep_def known_ok_def)
      next
        case k: None
        show ?thesis
        proof (cases "d \<in> set path")
          case True
          then show ?thesis
            using that [of "Inl (DepCycle (dropWhile (\<lambda>x. x \<noteq> d) path @ [d]))"] k cycle_found [OF less.prems(4,3) e] by (simp add: depth_dep_def)
        next
          case False
          have "d \<in> dom deps" using Some by auto
          then have "card (dom deps - set (path @ [d])) < card (dom deps - set path)"
            using assms(1) False by (intro psubset_card_mono) auto
          moreover have "successively (edge deps) (path @ [d])" using less.prems(3,4) e by (simp add: successively_append_iff)
          ultimately obtain r where "depth_deps deps known (path @ [d]) list 0 = Some r" "depth_result deps list 0 r"
            using less.hyps [of "path @ [d]" list 0] less.prems(1,2) False Some by (auto simp: edge_def)
          moreover from this have "case r of Inl e \<Rightarrow> depth_error_ok deps e | Inr n \<Rightarrow> has_depth deps d n"
            using has_depth.intros [of deps d list] Some by (auto simp: depth_result_def split: sum.splits)
          ultimately show ?thesis using that k False by (simp add: depth_dep_def)
        qed
      qed
      show ?thesis
      proof (cases r)
        case (Inl e)
        then show ?thesis using r Some by (simp add: depth_deps_Cons depth_result_def)
      next
        case (Inr n)
        obtain r' where "depth_deps deps known path ds (max depth (n + 1)) = Some r'" "depth_result deps ds (max depth (n + 1)) r'"
          using Cons.IH [of "max depth (n + 1)"] Cons.prems by auto
        moreover have "depth_result deps ds (max depth (n + 1)) r' \<Longrightarrow> depth_result deps (d # ds) depth r'"
          by (rule depth_result_Cons [of _ _ n]) (use r(2) Inr in simp)
        ultimately show ?thesis using r Some Inr by (simp add: depth_deps_Cons)
      qed
    qed
  qed
qed

lemma object_depth_returns:
  assumes "finite (dom deps)" "known_ok deps known" "o1 \<in> dom deps"
  shows "\<exists>r. object_depth deps known [] o1 = Some r \<and> (case r of Inl e \<Rightarrow> depth_error_ok deps e | Inr n \<Rightarrow> has_depth deps o1 n)"
proof (cases "known o1")
  case None
  obtain ds where ds: "deps o1 = Some ds" using assms(3) by blast
  obtain r where r: "depth_deps deps known [o1] ds 0 = Some r" "depth_result deps ds 0 r"
    using depth_deps_returns [OF assms(1,2), of "[o1]" ds 0] ds by (auto simp: edge_def)
  then have "case r of Inl e \<Rightarrow> depth_error_ok deps e | Inr n \<Rightarrow> has_depth deps o1 n"
    using has_depth.intros [of deps o1 ds] ds by (auto simp: depth_result_def split: sum.splits)
  then show ?thesis using None r ds by (simp add: object_depth_def)
qed (use assms in \<open>simp add: object_depth_def known_ok_def\<close>)

lemma all_depths_returns:
  assumes "finite (dom deps)"
  shows "known_ok deps known \<Longrightarrow> set names \<subseteq> dom deps \<Longrightarrow>
    \<exists>r. all_depths deps names known = Some r \<and>
      (case r of Inl e \<Rightarrow> depth_error_ok deps e | Inr depth \<Rightarrow> known_ok deps depth \<and> dom depth = dom known \<union> set names)"
proof (induction names arbitrary: known)
  case (Cons o1 os)
  obtain r where r: "object_depth deps known [] o1 = Some r" "case r of Inl e \<Rightarrow> depth_error_ok deps e | Inr n \<Rightarrow> has_depth deps o1 n"
    using object_depth_returns [OF assms Cons.prems(1)] Cons.prems(2) by auto
  show ?case
  proof (cases r)
    case (Inr n)
    then have "known_ok deps (known(o1 \<mapsto> n))" using r Cons.prems by (simp add: known_ok_def)
    then obtain r' where "all_depths deps os (known(o1 \<mapsto> n)) = Some r'"
      "case r' of Inl e \<Rightarrow> depth_error_ok deps e | Inr depth \<Rightarrow> known_ok deps depth \<and> dom depth = dom (known(o1 \<mapsto> n)) \<union> set os"
      using Cons.IH [of "known(o1 \<mapsto> n)"] Cons.prems unfolding set_simps by blast
    then show ?thesis using r Inr by (auto split: sum.splits)
  qed (use r in simp)
qed simp

lemma concat_split:
  assumes "i < j" "j < n" "a \<in> set (f i)" "b \<in> set (f j)"
  shows "\<exists>xs ys zs. concat (map f [0..<n]) = xs @ a # ys @ b # zs"
proof -
  have "[0..<n] = [0..<i] @ i # [Suc i..<j] @ j # [Suc j..<n]"
    using assms(1,2) by (metis Suc_leI less_imp_le_nat upt_add_eq_append upt_conv_Cons le_add_diff_inverse less_trans zero_le)
  then have c: "concat (map f [0..<n]) = concat (map f [0..<i]) @ f i @ concat (map f [Suc i..<j]) @ f j @ concat (map f [Suc j..<n])" by simp
  obtain p q where "f i = p @ a # q" using split_list [OF assms(3)] by blast
  moreover obtain u v where "f j = u @ b # v" using split_list [OF assms(4)] by blast
  ultimately have "concat (map f [0..<n]) = (concat (map f [0..<i]) @ p) @ a # (q @ concat (map f [Suc i..<j]) @ u) @ b # (v @ concat (map f [Suc j..<n]))"
    using c by simp
  then show ?thesis by blast
qed

lemma foldl_max_ge: "(m::nat) \<le> foldl (\<lambda>m n. max m (g n)) m names" "x \<in> set names \<Longrightarrow> g x \<le> foldl (\<lambda>m n. max m (g n)) m names"
proof -
  show le: "m \<le> foldl (\<lambda>m n. max m (g n)) m names" for m names
  proof (induction names arbitrary: m)
    case (Cons a names)
    have "m \<le> max m (g a)" by simp
    also have "\<dots> \<le> foldl (\<lambda>m n. max m (g n)) (max m (g a)) names" by (rule Cons.IH)
    finally show ?case by simp
  qed simp
  show "x \<in> set names \<Longrightarrow> g x \<le> foldl (\<lambda>m n. max m (g n)) m names"
  proof (induction names arbitrary: m)
    case (Cons a names)
    then show ?case using le [of "max m (g a)" names] foldl.simps by (auto intro: order_trans)
  qed simp
qed

lemma init_order_less:
  assumes "a \<in> set names" "b \<in> set names" "depth a = Some i" "depth b = Some j" "i < j"
  shows "\<exists>xs ys zs. init_order names depth = xs @ a # ys @ b # zs"
  unfolding init_order_def
  by (rule concat_split [of i j]) (use assms foldl_max_ge(2) [of b names "\<lambda>n. the (depth n)" 0] in auto)

text \<open>C21: the order of initialisation. The computation of the depths always returns, cycles included, whatever the dependencies are; when it
  succeeds, every dependency of an object stands before the object in the order of initialisation, and when it fails, it names a
  dependency that does not exist or a real cycle of dependencies.\<close>

theorem init_depends_correct:
  assumes "finite (dom deps)" "set names = dom deps"
  shows "\<exists>r. all_depths deps names Map.empty = Some r \<and>
    (case r of
       Inl (DepMissing d) \<Rightarrow> deps d = None \<and> (\<exists>o1 ds. deps o1 = Some ds \<and> d \<in> set ds)
     | Inl (DepCycle c) \<Rightarrow> 2 \<le> length c \<and> hd c = last c \<and> successively (\<lambda>a b. \<exists>ds. deps a = Some ds \<and> b \<in> set ds) c
     | Inr depth \<Rightarrow>
         set (init_order names depth) = dom deps \<and>
         (\<forall>o1 ds d. deps o1 = Some ds \<longrightarrow> d \<in> set ds \<longrightarrow> (\<exists>xs ys zs. init_order names depth = xs @ d # ys @ o1 # zs)))"
proof -
  obtain r where r: "all_depths deps names Map.empty = Some r"
    "case r of Inl e \<Rightarrow> depth_error_ok deps e | Inr depth \<Rightarrow> known_ok deps depth \<and> dom depth = set names"
    using all_depths_returns [OF assms(1), of Map.empty names] assms(2) unfolding known_ok_def dom_empty Un_empty_left by auto
  show ?thesis
  proof (cases r)
    case (Inl e)
    then show ?thesis using r by (cases e) (auto simp: depth_error_ok_def edge_def [abs_def])
  next
    case (Inr depth)
    have k: "known_ok deps depth" "dom depth = dom deps" using r Inr assms(2) by auto
    have "\<exists>xs ys zs. init_order names depth = xs @ d # ys @ o1 # zs" if e: "deps o1 = Some ds" "d \<in> set ds" for o1 ds d
    proof -
      have "o1 \<in> dom depth" using k(2) e(1) by (simp add: domI)
      then obtain n where n: "depth o1 = Some n" "has_depth deps o1 n" using k(1) unfolding known_ok_def by blast
      obtain m where m: "has_depth deps d m" "m < n" using has_depth_less [OF n(2) e] by blast
      have "d \<in> dom deps" using m(1) by (auto elim: has_depth.cases)
      then have "d \<in> dom depth" using k(2) by simp
      then obtain m' where m': "depth d = Some m'" "has_depth deps d m'" using k(1) unfolding known_ok_def by blast
      then have "m' = m" using has_depth_unique m(1) by blast
      then show ?thesis using init_order_less [of d names o1 depth m n] m' n(1) m(2) assms(2) \<open>d \<in> dom deps\<close> e(1) by auto
    qed
    moreover have "set (init_order names depth) = dom deps"
    proof -
      have "\<exists>i < Suc (foldl (\<lambda>m n. max m (the (depth n))) 0 names). depth x = Some i" if "x \<in> set names" for x
      proof -
        have "x \<in> dom depth" using k(2) that assms(2) by simp
        then obtain i where "depth x = Some i" by blast
        then show ?thesis using foldl_max_ge(2) [OF that, of "\<lambda>n. the (depth n)" 0] by simp
      qed
      then have "(\<Union>i < Suc (foldl (\<lambda>m n. max m (the (depth n))) 0 names). {n \<in> set names. depth n = Some i}) = set names" by blast
      then show ?thesis using assms(2) by (simp add: init_order_def atLeast0LessThan del: upt_Suc)
    qed
    ultimately show ?thesis using r Inr by simp
  qed
qed

theorem init_depends_correct_witness:
  "\<exists>depth. all_depths [''a'' \<mapsto> [''b''], ''b'' \<mapsto> []] [''a'', ''b''] Map.empty = Some (Inr depth) \<and>
     init_order [''a'', ''b''] depth = [''b'', ''a''] \<and>
     (\<exists>xs ys zs. init_order [''a'', ''b''] depth = xs @ ''b'' # ys @ ''a'' # zs)"
  using init_depends_correct [of "[''a'' \<mapsto> [''b''], ''b'' \<mapsto> []]" "[''a'', ''b'']"]
  by (simp add: object_depth_def depth_deps.simps init_order_def insert_commute)

end
