(* ===== verification/File.thy ===== *)
theory File
  imports Channel
begin

text \<open>
  File storage: \<open>src/channel/file.cc\<close> and \<open>src/channel/file.h\<close> over \<open>IOPosix\<close>, without compression. A file is a list of bytes, cut into
  blocks of a fixed size. Block 0 starts with a frame of metadata, every other one with an empty frame of five bytes; a
  message is one frame and never crosses a block. The rest of a block is left with a frame of size -1, or without one if no frame
  could fit there.

  The operations of the reader and of the writer work on separate states over the same bytes. Offsets are natural numbers;
  a negative frame is added modulo \<open>2 ^ 64\<close> as in the source. A write stores all of its bytes.
\<close>

section \<open>Bytes of a file\<close>

type_synonym disk = "byte list"

definition le64 :: "64 word \<Rightarrow> byte list" where
  "le64 w = le32 (ucast w) @ le32 (ucast (drop_bit 32 w))"

definition un_le64 :: "byte list \<Rightarrow> 64 word" where
  "un_le64 bs = ucast (un_le32 (take 4 bs)) OR push_bit 32 (ucast (un_le32 (drop 4 bs)))"

definition disk_write :: "disk \<Rightarrow> nat \<Rightarrow> byte list \<Rightarrow> disk" where
  "disk_write d off bs = take off (d @ replicate (off - length d) 0) @ bs @ drop (off + length bs) d"

definition disk_truncate :: "disk \<Rightarrow> nat \<Rightarrow> disk" where
  "disk_truncate d n = take n d @ replicate (n - length d) 0"

text \<open>\<open>IOPosix::read\<close>: a short read is \<open>EAGAIN\<close>, a size above \<open>SSIZE_MAX\<close> is refused by the system.\<close>

definition io_read :: "disk \<Rightarrow> nat \<Rightarrow> nat \<Rightarrow> errno + byte list" where
  "io_read d off n =
     (if 2 ^ 63 \<le> n then Inl EINVAL
      else if off + n \<le> length d then Inr (take n (drop off d)) else Inl EAGAIN)"

section \<open>State\<close>

datatype eod = EodOnce | EodBeforeClose | EodMany

record fmsg =
  fm_msgid :: i32
  fm_seq :: int
  fm_data :: "byte list"

record file_t =
  f_offset :: nat
  f_block_end :: nat
  f_block_size :: nat
  f_seq :: int
  f_seq_begin :: int
  f_seq_eod :: int
  f_marker :: bool
  f_size_cache :: nat
  f_tail_extra_blocks :: nat
  f_autoclose :: bool
  f_end_of_data :: eod
  f_exact_last_seq :: bool
  f_pending :: bool
  f_autoseq :: "int option"

definition size_marker :: "file_t \<Rightarrow> u32" where
  "size_marker f = (if f_marker f then 0x80000000 else 0)"

definition io_block :: "nat \<Rightarrow> file_t \<Rightarrow> file_t" where
  "io_block start f = f\<lparr>f_offset := start, f_block_end := start + f_block_size f\<rparr>"

text \<open>\<open>_io.shift\<close> and \<open>_shift\<close> of a frame.\<close>

definition io_shift :: "int \<Rightarrow> file_t \<Rightarrow> file_t" where
  "io_shift n f = f\<lparr>f_offset := if 0 \<le> n then f_offset f + nat n else nat ((int (f_offset f) + n) mod 2 ^ 64)\<rparr>"

definition shift_skip :: "file_t \<Rightarrow> file_t" where
  "shift_skip f = f\<lparr>f_offset := f_block_end f\<rparr>"

section \<open>Reading of frames\<close>

definition check_frame :: "file_t \<Rightarrow> int \<Rightarrow> errno + int" where
  "check_frame f frame =
     (if 4 < frame then if int (f_offset f) + frame > int (f_block_end f) then Inl EMSGSIZE else Inr frame
      else if frame = 0 then Inl EAGAIN
      else if frame < 0 then Inr frame
      else Inl EMSGSIZE)"

definition read_frame_nocheck :: "disk \<Rightarrow> file_t \<Rightarrow> errno + int" where
  "read_frame_nocheck d f =
     (case io_read d (f_offset f) 4 of
        Inl e \<Rightarrow> Inl (if e = EAGAIN then EAGAIN else EINVAL)
      | Inr bs \<Rightarrow>
          let w = un_le32 bs in
          if f_marker f \<and> f_offset f \<noteq> 0
          then if (bs ! 3) AND 0x80 = 0 then Inl EAGAIN
               else check_frame f (sint (if w \<noteq> - 1 then w AND 0x7fffffff else w))
          else check_frame f (sint w))"

definition shift_block :: "disk \<Rightarrow> nat \<Rightarrow> file_t \<Rightarrow> file_t \<times> errno option" where
  "shift_block d offset f =
     (let f = io_block offset f in
      case read_frame_nocheck d f of
        Inl e \<Rightarrow> (f, Some e)
      | Inr frame \<Rightarrow> if frame = - 1 then (f, Some EINVAL) else (io_shift frame f, None))"

definition read_frame :: "disk \<Rightarrow> file_t \<Rightarrow> file_t \<times> (errno + int)" where
  "read_frame d f =
     (if f_offset f + 16 + 1 > f_block_end f
      then case shift_block d (f_block_end f) f of
             (f, Some e) \<Rightarrow> (f, Inl e)
           | (f, None) \<Rightarrow> (f, read_frame_nocheck d f)
      else (f, read_frame_nocheck d f))"

definition data_size :: "int \<Rightarrow> nat" where
  "data_size frame = nat ((frame - 4 - 1) mod 2 ^ 64)"

definition read_data :: "disk \<Rightarrow> file_t \<Rightarrow> nat \<Rightarrow> errno + fmsg" where
  "read_data d f n =
     (case io_read d (f_offset f + 4) ((n + 1) mod 2 ^ 64) of
        Inl e \<Rightarrow> Inl (if e = EAGAIN then EAGAIN else EINVAL)
      | Inr bs \<Rightarrow>
          if (bs ! n) AND 0x80 = 0 then Inl EAGAIN
          else if n < 12 then Inl EINVAL
          else Inr \<lparr>fm_msgid = un_le32 (take 4 bs), fm_seq = sint (un_le64 (take 8 (drop 4 bs))), fm_data = take (n - 12) (drop 12 bs)\<rparr>)"

text \<open>\<open>_read_seq\<close> of a frame that was read, and of the frame at the offset.\<close>

definition read_seq_frame :: "disk \<Rightarrow> file_t \<Rightarrow> int \<Rightarrow> errno + fmsg" where
  "read_seq_frame d f frame = (if data_size frame < 4 then Inl EINVAL else read_data d f (data_size frame))"

definition read_seq :: "disk \<Rightarrow> file_t \<Rightarrow> file_t \<times> (errno + fmsg)" where
  "read_seq d f =
     (case read_frame d f of
        (f, Inl e) \<Rightarrow> (f, Inl e)
      | (f, Inr frame) \<Rightarrow> (f, read_seq_frame d f frame))"

text \<open>\<open>_block_seq\<close>: \<open>skip\<close> is the call for a skip frame, which is made only for the first block.\<close>

definition block_seq_with :: "(file_t \<Rightarrow> file_t \<times> (errno + fmsg)) \<Rightarrow> disk \<Rightarrow> nat \<Rightarrow> file_t \<Rightarrow> file_t \<times> (errno + fmsg)" where
  "block_seq_with skip d block f =
     (case read_frame d (io_block (block * f_block_size f) f) of
        (f, Inl e) \<Rightarrow> (f, Inl e)
      | (f, Inr frame) \<Rightarrow>
          if frame = - 1 then if f_block_end f \<noteq> f_block_size f then (f, Inl EAGAIN) else skip f
          else let f = io_shift frame f in
               if f_offset f + 4 > f_size_cache f then (f, Inl EAGAIN) else read_seq d f)"

definition block_seq :: "disk \<Rightarrow> nat \<Rightarrow> file_t \<Rightarrow> file_t \<times> (errno + fmsg)" where
  "block_seq d block f = block_seq_with (block_seq_with (\<lambda>f. (f, Inl EAGAIN)) d 1) d block f"

definition file_size :: "disk \<Rightarrow> file_t \<Rightarrow> file_t \<times> nat" where
  "file_size d f = (f\<lparr>f_size_cache := length d\<rparr>, length d)"

definition last_block :: "nat \<Rightarrow> file_t \<Rightarrow> nat" where
  "last_block n f = (n + f_block_size f - 1) div f_block_size f - 1"


section \<open>Bounds of the file\<close>

text \<open>The loop from the last block down to one with a message. The counter is unsigned: below block 0 it would wrap (\<open>None\<close>).\<close>

fun bounds_last :: "disk \<Rightarrow> nat \<Rightarrow> file_t \<Rightarrow> (file_t \<times> (errno + fmsg)) option" where
  "bounds_last d lst f =
     (case block_seq d lst f of
        (f, Inr m) \<Rightarrow> Some (f, Inr m)
      | (f, Inl e) \<Rightarrow>
          if e \<noteq> EAGAIN then Some (f, Inl EINVAL)
          else case lst of 0 \<Rightarrow> None | Suc k \<Rightarrow> bounds_last d k f)"

text \<open>The loop from the first message of that block to the end of data; the seq of the last message is kept.\<close>

partial_function (option) bounds_loop :: "disk \<Rightarrow> nat \<Rightarrow> file_t \<Rightarrow> (file_t \<times> errno option) option" where
  "bounds_loop d block_prev f =
     (if \<not> f_exact_last_seq f \<and> f_block_end f \<noteq> block_prev then Some (f, None)
      else case read_frame d f of
        (f, Inl e) \<Rightarrow> Some (f, if e = EAGAIN then None else Some e)
      | (f, Inr frame) \<Rightarrow>
          if frame = - 1 then bounds_loop d block_prev (shift_skip f)
          else case read_seq_frame d f frame of
                 Inl e \<Rightarrow> Some (f, if e = EAGAIN then None else Some e)
               | Inr m \<Rightarrow> bounds_loop d block_prev (io_shift frame (f\<lparr>f_seq := fm_seq m\<rparr>)))"

definition file_bounds :: "disk \<Rightarrow> file_t \<Rightarrow> (file_t \<times> errno option) option" where
  "file_bounds d f =
     (let (f, n) = file_size d f in
      if n = 0 then Some (f, Some EINVAL)
      else case block_seq d 0 f of
        (f, Inl e) \<Rightarrow> Some (f, Some (if e = EAGAIN then EAGAIN else EINVAL))
      | (f, Inr m) \<Rightarrow>
          (let f = f\<lparr>f_seq_begin := fm_seq m\<rparr> in
           case bounds_last d (last_block n f) f of
             None \<Rightarrow> None
           | Some (f, Inl e) \<Rightarrow> Some (f, Some e)
           | Some (f, Inr m) \<Rightarrow> bounds_loop d (f_block_end f) (f\<lparr>f_seq := fm_seq m\<rparr>)))"

section \<open>Seek\<close>

definition seek_start :: "disk \<Rightarrow> file_t \<Rightarrow> file_t \<times> errno option" where
  "seek_start d f = (case shift_block d 0 f of (f, Some e) \<Rightarrow> (f, Some EINVAL) | (f, None) \<Rightarrow> (f, None))"

fun seek_last :: "disk \<Rightarrow> nat \<Rightarrow> file_t \<Rightarrow> file_t \<times> (errno + nat)" where
  "seek_last d 0 f = (f, Inr 0)"
| "seek_last d (Suc k) f =
     (case block_seq d (Suc k) f of
        (f, Inr m) \<Rightarrow> (f, Inr (Suc k))
      | (f, Inl e) \<Rightarrow> if e \<noteq> EAGAIN then (f, Inl EINVAL) else seek_last d k f)"

text \<open>The bisection of blocks: \<open>Inr None\<close> if the message that was looked for is the first of a block, \<open>Inr (Some first)\<close> for the block
  to search.\<close>

function seek_bisect :: "disk \<Rightarrow> int \<Rightarrow> nat \<Rightarrow> nat \<Rightarrow> file_t \<Rightarrow> file_t \<times> (errno + nat option)" where
  "seek_bisect d seq first lst f =
     (if first + 1 < lst
      then let mid = (first + lst) div 2 in
           case block_seq d mid f of
             (f, Inl e) \<Rightarrow> if e = EAGAIN then seek_bisect d seq first mid f else (f, Inl e)
           | (f, Inr m) \<Rightarrow>
               if fm_seq m = seq then (f, Inr None)
               else if fm_seq m > seq then seek_bisect d seq first mid f
               else seek_bisect d seq mid lst f
      else (f, Inr (Some first)))"
  by pat_completeness auto

termination by (relation "measure (\<lambda>(d, seq, first, lst, f). lst - first)") auto

text \<open>The scan of messages. At the start of a block the next one is prepared.\<close>

definition seek_next :: "disk \<Rightarrow> file_t \<Rightarrow> file_t \<times> errno option" where
  "seek_next d f = (if f_offset f + f_block_size f = f_block_end f then shift_block d (f_block_end f) f else (f, None))"

partial_function (option) seek_loop :: "disk \<Rightarrow> int \<Rightarrow> file_t \<Rightarrow> (file_t \<times> errno option) option" where
  "seek_loop d seq f =
     (case seek_next d f of
        (f, Some e) \<Rightarrow> Some (f, Some e)
      | (f, None) \<Rightarrow>
          (case read_frame d f of
             (f, Inl e) \<Rightarrow> Some (f, Some e)
           | (f, Inr frame) \<Rightarrow>
               if frame = - 1 then seek_loop d seq (shift_skip f)
               else case read_seq_frame d f frame of
                      Inl e \<Rightarrow> Some (f, Some e)
                    | Inr m \<Rightarrow> if fm_seq m \<ge> seq then Some (f, None) else seek_loop d seq (io_shift frame f)))"

definition seek_block :: "disk \<Rightarrow> int \<Rightarrow> nat \<Rightarrow> file_t \<Rightarrow> (file_t \<times> errno option) option" where
  "seek_block d seq first f =
     (case shift_block d (first * f_block_size f) f of
        (f, Some e) \<Rightarrow> Some (f, Some EINVAL)
      | (f, None) \<Rightarrow> seek_loop d seq f)"

definition file_seek :: "disk \<Rightarrow> int \<Rightarrow> file_t \<Rightarrow> (file_t \<times> errno option) option" where
  "file_seek d seq f =
     (let (f, n) = file_size d f in
      case seek_last d (last_block n f) f of
        (f, Inl e) \<Rightarrow> Some (f, Some e)
      | (f, Inr lst) \<Rightarrow>
          (case block_seq d 0 f of
             (f, Inl e) \<Rightarrow> Some (f, Some e)
           | (f, Inr m) \<Rightarrow>
               (case seek_bisect d seq (f_block_end f div f_block_size f - 1) (lst + 1) f of
                  (f, Inl e) \<Rightarrow> Some (f, Some e)
                | (f, Inr None) \<Rightarrow> Some (f, None)
                | (f, Inr (Some first)) \<Rightarrow> seek_block d seq first f)))"

section \<open>Writing\<close>

definition f_truncate :: "nat \<Rightarrow> disk \<times> file_t \<Rightarrow> disk \<times> file_t" where
  "f_truncate n = (\<lambda>(d, f). (disk_truncate d n, f\<lparr>f_size_cache := n\<rparr>))"

text \<open>\<open>writev\<close> of a frame at the offset.\<close>

definition io_writev :: "u32 \<Rightarrow> byte list \<Rightarrow> disk \<times> file_t \<Rightarrow> disk \<times> file_t" where
  "io_writev frame bs = (\<lambda>(d, f). (disk_write d (f_offset f) (le32 frame @ bs), f))"

definition write_block :: "nat \<Rightarrow> disk \<times> file_t \<Rightarrow> disk \<times> file_t" where
  "write_block offset = (\<lambda>(d, f).
     let f = io_block offset f;
         (d, f) = io_writev (5 OR size_marker f) [0x80] (d, f);
         f = io_shift 5 f
     in if f_tail_extra_blocks f \<noteq> 0 \<and> f_size_cache f \<le> f_block_end f
        then f_truncate (f_block_end f + f_tail_extra_blocks f * f_block_size f) (d, f)
        else (d, f))"

text \<open>The end of a block: a skip frame, if there is space for one and more.\<close>

definition end_block :: "disk \<times> file_t \<Rightarrow> disk \<times> file_t" where
  "end_block = (\<lambda>(d, f).
     let (d, f) = (if f_offset f + 4 < f_block_end f then io_writev (- 1) [] (d, f) else (d, f))
     in (d, io_block (f_block_end f) f))"

definition write_data :: "fmsg \<Rightarrow> disk \<times> file_t \<Rightarrow> disk \<times> file_t \<times> errno option" where
  "write_data m = (\<lambda>(d, f).
     let body = le32 (fm_msgid m) @ le64 (word_of_int (fm_seq m)) @ fm_data m;
         n = length body + 4 + 1
     in if n > f_block_size f then (d, f, Some EMSGSIZE)
        else let (d, f) = (if f_offset f + n > f_block_end f then end_block (d, f) else (d, f));
                 (d, f) = (if f_offset f + f_block_size f = f_block_end f then write_block (f_offset f) (d, f) else (d, f));
                 (d, f) = io_writev (word_of_nat n OR size_marker f) (body @ [0x80]) (d, f)
             in (d, io_shift (int n) f, None))"

definition autoseq_update :: "fmsg \<Rightarrow> file_t \<Rightarrow> fmsg \<times> file_t" where
  "autoseq_update m f =
     (case f_autoseq f of
        None \<Rightarrow> (m, f)
      | Some s \<Rightarrow> (m\<lparr>fm_seq := s + 1\<rparr>, f\<lparr>f_autoseq := Some (s + 1)\<rparr>))"

text \<open>\<open>_post\<close> of a data message to a file that is written.\<close>

definition post_data :: "fmsg \<Rightarrow> disk \<times> file_t \<Rightarrow> disk \<times> file_t \<times> errno option" where
  "post_data m = (\<lambda>(d, f).
     let (m, f) = autoseq_update m f in
     if fm_seq m \<le> f_seq f then (d, f, Some EINVAL)
     else if 16 + length (fm_data m) > f_block_size f then (d, f, Some EMSGSIZE)
     else case write_data m (d, f) of
            (d, f, Some e) \<Rightarrow> (d, f, Some e)
          | (d, f, None) \<Rightarrow>
              (d, f\<lparr>f_seq := fm_seq m, f_seq_begin := if f_seq_begin f = - 1 then fm_seq m else f_seq_begin f\<rparr>, None))"

definition control_seek_msgid :: i32 where
  "control_seek_msgid = 10"

definition post_control :: "fmsg \<Rightarrow> disk \<times> file_t \<Rightarrow> (disk \<times> file_t \<times> errno option) option" where
  "post_control m = (\<lambda>(d, f).
     if fm_msgid m = control_seek_msgid then map_option (\<lambda>(f, r). (d, f, r)) (file_seek d (fm_seq m) f) else Some (d, f, None))"

definition file_post :: "bool \<Rightarrow> msg_type \<Rightarrow> fmsg \<Rightarrow> disk \<times> file_t \<Rightarrow> (disk \<times> file_t \<times> errno option) option" where
  "file_post input ty m = (\<lambda>(d, f).
     if input then if ty = MsgControl then post_control m (d, f) else Some (d, f, Some ENOSYS)
     else if ty \<noteq> MsgData then Some (d, f, None)
     else Some (post_data m (d, f)))"

section \<open>Processing\<close>

datatype file_event = FvData fmsg | FvEod | FvClose

text \<open>The end of data; \<open>changed\<close> says that the callback has changed the state of the channel.\<close>

definition llong_min :: int where
  "llong_min = - (2 ^ 63)"

definition process_end :: "bool \<Rightarrow> file_t \<Rightarrow> file_t \<times> errno option \<times> file_event list" where
  "process_end changed f =
     (if f_seq_eod f \<noteq> f_seq f
      then let eod = (\<not> f_autoclose f \<or> f_end_of_data f = EodBeforeClose) \<and> (f_end_of_data f = EodMany \<or> f_seq_eod f = llong_min);
               ev = (if eod then [FvEod] else [])
           in if eod \<and> changed then (f, Some EAGAIN, ev)
              else let f = f\<lparr>f_seq_eod := f_seq f\<rparr>
                   in if f_autoclose f then (f, Some EAGAIN, ev @ [FvClose])
                      else (f\<lparr>f_pending := False\<rparr>, Some EAGAIN, ev)
      else (f\<lparr>f_pending := False\<rparr>, Some EAGAIN, []))"

definition process_data :: "disk \<Rightarrow> int \<Rightarrow> file_t \<Rightarrow> file_t \<times> errno option \<times> file_event list" where
  "process_data d frame f =
     (if data_size frame < 4 then (f, Some EINVAL, [])
      else case read_data d f (data_size frame) of
             Inl e \<Rightarrow> (if e = EAGAIN then f\<lparr>f_pending := False\<rparr> else f, Some e, [])
           | Inr m \<Rightarrow> ((io_shift frame f)\<lparr>f_pending := True, f_seq := fm_seq m\<rparr>, None, [FvData m]))"

text \<open>A reader that waits at the start of a block reads its first frame.\<close>

definition process_start :: "disk \<Rightarrow> file_t \<Rightarrow> file_t \<times> errno option" where
  "process_start d f =
     (if f_offset f + f_block_size f = f_block_end f
      then case read_frame_nocheck d f of
             Inl e \<Rightarrow> (f, Some e)
           | Inr frame \<Rightarrow> if frame = - 1 then (f, Some EINVAL) else (io_shift frame f, None)
      else (f, None))"

partial_function (option) file_process :: "disk \<Rightarrow> bool \<Rightarrow> file_t \<Rightarrow> (file_t \<times> errno option \<times> file_event list) option" where
  "file_process d changed f =
     (case process_start d f of
        (f, Some e) \<Rightarrow> Some (f, Some e, [])
      | (f, None) \<Rightarrow>
          (case read_frame d f of
             (f, Inl e) \<Rightarrow> Some (if e \<noteq> EAGAIN then (f, Some e, []) else process_end changed f)
           | (f, Inr frame) \<Rightarrow>
               if frame = - 1 then file_process d changed (shift_skip f)
               else Some (process_data d frame f)))"

section \<open>Metadata\<close>

definition meta_id :: i32 where
  "meta_id = 1635018061"

text \<open>The frame of metadata: \<open>scheme\<close> is the offset pointer of the scheme and its text, zeros and nothing without a scheme.\<close>

definition meta_bytes :: "byte \<Rightarrow> u32 \<Rightarrow> byte list \<times> byte list \<Rightarrow> byte list" where
  "meta_bytes version block scheme =
     le32 (word_of_nat (49 + length (snd scheme))) @ le32 meta_id @ le64 0 @
     [32, 0, version, 0] @ le32 block @ fst scheme @ replicate 16 0 @ snd scheme @ [0x80]"

definition write_meta :: "byte \<Rightarrow> byte list \<times> byte list \<Rightarrow> disk \<times> file_t \<Rightarrow> disk \<times> file_t" where
  "write_meta version scheme = (\<lambda>(d, f).
     let bs = meta_bytes version (word_of_nat (f_block_size f)) scheme
     in (disk_write d 0 bs, f\<lparr>f_offset := length bs\<rparr>))"

text \<open>\<open>_read_meta\<close>: version, compression and block size. Loading of the scheme is left to the context.\<close>

definition read_meta :: "disk \<Rightarrow> errno + byte \<times> byte \<times> u32" where
  "read_meta d =
     (if length d < 16 then Inl EINVAL
      else let n = sint (un_le32 (take 4 d)) in
           if un_le32 (take 4 (drop 4 d)) \<noteq> meta_id then Inl EINVAL
           else if n < 17 then Inl EINVAL
           else if n > 4 * 1024 * 1024 then Inl EINVAL
           else let buf = take (nat n - 16) (drop 16 d) in
                if length buf < nat n - 16 then Inl EINVAL
                else if (last buf) AND 0x80 = 0 then Inl EINVAL
                else if length buf - 1 < 32 then Inl EINVAL
                else if buf ! 2 \<ge> 2 then Inl EINVAL
                else if buf ! 3 > 1 then Inl EINVAL
                else Inr (buf ! 2, buf ! 3, un_le32 (take 4 (drop 4 buf))))"

section \<open>Opening\<close>

definition open_reset :: "nat \<Rightarrow> file_t \<Rightarrow> file_t" where
  "open_reset block f =
     f\<lparr>f_offset := 0, f_block_end := 0, f_block_size := block, f_size_cache := 0, f_seq := - 1, f_seq_begin := - 1, f_seq_eod := llong_min\<rparr>"

definition use_meta :: "byte \<times> byte \<times> u32 \<Rightarrow> file_t \<Rightarrow> file_t" where
  "use_meta = (\<lambda>(version, _, block) f. f\<lparr>f_marker := (version \<ge> 1), f_block_size := unat block\<rparr>)"

datatype open_mode = ModeSeq "int option" | ModeLast | ModeEnd

definition open_position :: "disk \<Rightarrow> open_mode \<Rightarrow> file_t \<Rightarrow> (file_t \<times> errno option) option" where
  "open_position d mode f =
     (case mode of
        ModeEnd \<Rightarrow> Some (f, None)
      | ModeLast \<Rightarrow> file_seek d (f_seq f) f
      | ModeSeq (Some seq) \<Rightarrow> file_seek d seq f
      | ModeSeq None \<Rightarrow> Some (seek_start d f))"

text \<open>\<open>_open\<close> for reading. A file with compression is outside of the model (\<open>None\<close>).\<close>

definition open_read :: "disk \<Rightarrow> nat \<Rightarrow> open_mode \<Rightarrow> file_t \<Rightarrow> (file_t \<times> errno option) option" where
  "open_read d block mode f =
     (let f = open_reset block f in
      case read_meta d of
        Inl e \<Rightarrow> Some (f, Some EINVAL)
      | Inr meta \<Rightarrow>
          if fst (snd meta) \<noteq> 0 then None
          else Option.bind (file_bounds d (use_meta meta f)) (\<lambda>(f, r).
            if r \<noteq> None \<and> r \<noteq> Some EAGAIN then Some (f, Some EINVAL)
            else map_option (\<lambda>(f, r).
                   if r \<noteq> None \<and> (r \<noteq> Some EAGAIN \<or> mode = ModeSeq None) then (f, Some EINVAL)
                   else (f\<lparr>f_pending := True\<rparr>, None)) (open_position d mode f)))"

definition tail_extra :: "nat \<Rightarrow> file_t \<Rightarrow> file_t" where
  "tail_extra extra f = f\<lparr>f_tail_extra_blocks := if extra = 0 then 0 else (extra + f_block_size f - 1) div f_block_size f\<rparr>"

definition open_tail :: "disk \<times> file_t \<Rightarrow> disk \<times> file_t" where
  "open_tail = (\<lambda>(d, f).
     let (d, f) = (if length d \<noteq> f_offset f \<and> f_offset f + 4 \<le> length d then f_truncate (f_offset f) (d, f) else (d, f))
     in if f_tail_extra_blocks f \<noteq> 0 then f_truncate (f_block_end f + f_block_size f * f_tail_extra_blocks f) (d, f) else (d, f))"

text \<open>\<open>_open\<close> for writing: an absent or empty file, or \<open>overwrite\<close>, starts a new one.\<close>

definition open_write :: "disk \<Rightarrow> bool \<Rightarrow> byte \<Rightarrow> nat \<Rightarrow> nat \<Rightarrow> byte list \<times> byte list \<Rightarrow> file_t \<Rightarrow> (disk \<times> file_t \<times> errno option) option" where
  "open_write d overwrite version block extra scheme f =
     (let f = open_reset block f;
          (d, f, r) = (if d = [] \<or> overwrite
                       then let (d, f) = write_meta version scheme ([], f\<lparr>f_marker := (version \<ge> 1)\<rparr>) in (d, f, Some None)
                       else case read_meta d of
                              Inl e \<Rightarrow> (d, f, Some (Some EINVAL))
                            | Inr meta \<Rightarrow> (d, use_meta meta f, if fst (snd meta) \<noteq> 0 then None else Some None))
      in case r of
           None \<Rightarrow> None
         | Some (Some e) \<Rightarrow> Some (d, f, Some e)
         | Some None \<Rightarrow>
             map_option (\<lambda>(f, r).
               if r \<noteq> None \<and> r \<noteq> Some EAGAIN then (d, f, Some EINVAL)
               else let f = f\<lparr>f_autoseq := map_option (\<lambda>_. f_seq f) (f_autoseq f)\<rparr>;
                        (d, f) = open_tail (d, f)
                    in (d, f, None)) (file_bounds d (tail_extra extra f)))"

section \<open>Frames\<close>

lemma un_le64_le64 [simp]: "un_le64 (le64 w) = w"
proof (rule bit_word_eqI)
  fix n assume "n < LENGTH(64)"
  then have "bit (un_le64 (le64 w)) n \<longleftrightarrow> (if n < 32 then bit w n else bit w (32 + (n - 32)))"
    by (auto simp: un_le64_def le64_def bit_simps)
  then show "bit (un_le64 (le64 w)) n \<longleftrightarrow> bit w n" by simp
qed

lemma length_le64 [simp]: "length (le64 w) = 8"
  by (simp add: le64_def)

lemma le32_marker: "((le32 w ! 3) AND 0x80 = 0) \<longleftrightarrow> \<not> bit w 31"
proof -
  have "((le32 w ! 3) AND 0x80 = 0) \<longleftrightarrow> \<not> bit (le32 w ! 3) 7"
  proof -
    have "(0x80 :: byte) = push_bit 7 1" by simp
    then show ?thesis by (metis (no_types, opaque_lifting) and_exp_eq_0_iff_not_bit push_bit_of_1)
  qed
  then show ?thesis by (simp add: le32_def bit_simps)
qed

lemma small_bits:
  assumes "n < 2 ^ 30" "30 \<le> k"
  shows "\<not> bit (word_of_nat n :: 32 word) k"
proof -
  have "\<not> bit n k"
    using assms by (metis (no_types, opaque_lifting) bit_take_bit_iff linorder_not_less take_bit_nat_eq_self_iff)
  then show ?thesis by (simp add: bit_simps)
qed

definition frame_word :: "bool \<Rightarrow> nat \<Rightarrow> u32" where
  "frame_word mk n = word_of_nat n OR (if mk then 0x80000000 else 0)"

lemma bit_marker: "bit (0x80000000 :: 32 word) k \<longleftrightarrow> k = 31"
proof -
  have "(0x80000000 :: 32 word) = 2 ^ 31" by simp
  then show ?thesis by (simp only: bit_exp_iff) (auto dest: bit_imp_le_length)
qed

lemma frame_word_bit: "bit (frame_word mk n) k \<longleftrightarrow> bit (word_of_nat n :: 32 word) k \<or> mk \<and> k = 31"
  by (cases mk) (simp_all only: frame_word_def bit_or_iff bit_marker if_True if_False bit_0_eq bot_apply bot_bool_def simp_thms)

lemma frame_word_bit31: "n < 2 ^ 30 \<Longrightarrow> bit (frame_word mk n) 31 \<longleftrightarrow> mk"
  using small_bits [of n 31] by (simp add: frame_word_bit)

lemma frame_word_not_skip: "n < 2 ^ 30 \<Longrightarrow> frame_word mk n \<noteq> - 1"
  using small_bits [of n 30] frame_word_bit [of mk n 30] by (auto simp: bit_simps)

lemma frame_word_mask: "n < 2 ^ 30 \<Longrightarrow> frame_word mk n AND 0x7fffffff = word_of_nat n"
proof (rule bit_word_eqI)
  fix k assume n: "n < 2 ^ 30" and k: "k < LENGTH(32)"
  have b: "(0x7fffffff :: 32 word) = mask 31" by (simp add: mask_eq_exp_minus_1)
  have "\<not> bit (word_of_nat n :: 32 word) 31" using n by (rule small_bits) simp
  then show "bit (frame_word mk n AND 0x7fffffff) k \<longleftrightarrow> bit (word_of_nat n :: 32 word) k"
    using k unfolding b bit_and_iff frame_word_bit bit_mask_iff by (cases "k = 31") auto
qed

lemma sint_frame: "n < 2 ^ 30 \<Longrightarrow> sint (word_of_nat n :: 32 word) = int n"
  by (subst sint_small32) (simp_all add: unat_of_nat)

text \<open>The bytes of the file at an offset.\<close>

definition holds :: "disk \<Rightarrow> nat \<Rightarrow> byte list \<Rightarrow> bool" where
  "holds d off bs \<longleftrightarrow> off + length bs \<le> length d \<and> take (length bs) (drop off d) = bs"

lemma holds_io_read: "holds d off bs \<Longrightarrow> length bs < 2 ^ 63 \<Longrightarrow> io_read d off (length bs) = Inr bs"
  by (simp add: holds_def io_read_def)

lemma holds_nth: "holds d off bs \<longleftrightarrow> off + length bs \<le> length d \<and> (\<forall>i < length bs. d ! (off + i) = bs ! i)"
  by (auto simp: holds_def list_eq_iff_nth_eq)

lemma holds_append: "holds d off (xs @ ys) \<longleftrightarrow> holds d off xs \<and> holds d (off + length xs) ys"
proof -
  have "(\<forall>i < length xs + length ys. d ! (off + i) = (xs @ ys) ! i) \<longleftrightarrow>
      (\<forall>i < length xs. d ! (off + i) = xs ! i) \<and> (\<forall>i < length ys. d ! (off + length xs + i) = ys ! i)" (is "?l \<longleftrightarrow> ?r")
  proof
    assume l: ?l
    show ?r
    proof (intro conjI allI impI)
      fix i assume "i < length xs" then show "d ! (off + i) = xs ! i" using l [rule_format, of i] by (simp add: nth_append)
    next
      fix i assume "i < length ys" then show "d ! (off + length xs + i) = ys ! i"
        using l [rule_format, of "length xs + i"] by (simp add: nth_append add.assoc)
    qed
  next
    assume r: ?r
    show ?l
    proof (intro allI impI)
      fix i assume i: "i < length xs + length ys"
      show "d ! (off + i) = (xs @ ys) ! i"
      proof (cases "i < length xs")
        case False
        then show ?thesis using r [THEN conjunct2, rule_format, of "i - length xs"] i by (simp add: nth_append add.assoc)
      qed (use r in \<open>simp add: nth_append\<close>)
    qed
  qed
  then show ?thesis by (auto simp: holds_nth)
qed

lemma holds_cong: "holds d off bs \<Longrightarrow> length d \<le> length d' \<or> off + length bs \<le> length d' \<Longrightarrow> (\<And>i. off \<le> i \<Longrightarrow> i < off + length bs \<Longrightarrow> d' ! i = d ! i) \<Longrightarrow> holds d' off bs"
  by (auto simp: holds_nth)

definition body_bytes :: "fmsg \<Rightarrow> byte list" where
  "body_bytes m = le32 (fm_msgid m) @ le64 (word_of_int (fm_seq m)) @ fm_data m"

definition msg_len :: "fmsg \<Rightarrow> nat" where
  "msg_len m = length (fm_data m) + 17"

definition enc :: "bool \<Rightarrow> fmsg \<Rightarrow> byte list" where
  "enc mk m = le32 (frame_word mk (msg_len m)) @ body_bytes m @ [0x80]"

definition header :: "bool \<Rightarrow> byte list" where
  "header mk = le32 (frame_word mk 5) @ [0x80]"

definition msg_ok :: "fmsg \<Rightarrow> bool" where
  "msg_ok m \<longleftrightarrow> - (2 ^ 63) \<le> fm_seq m \<and> fm_seq m < 2 ^ 63"

lemma length_enc [simp]: "length (enc mk m) = msg_len m"
  by (simp add: enc_def body_bytes_def msg_len_def)

lemma length_header [simp]: "length (header mk) = 5"
  by (simp add: header_def)

lemma read_frame_word:
  assumes "holds d (f_offset f) (le32 (frame_word (f_marker f) n))" "n < 2 ^ 30" "5 \<le> n" "f_offset f + n \<le> f_block_end f"
    "f_offset f \<noteq> 0 \<or> \<not> f_marker f"
  shows "read_frame_nocheck d f = Inr (int n)"
proof -
  have r: "io_read d (f_offset f) 4 = Inr (le32 (frame_word (f_marker f) n))" using holds_io_read [OF assms(1)] by simp
  have "check_frame f (int n) = Inr (int n)" using assms(3,4) by (simp add: check_frame_def)
  then show ?thesis
    using assms(5) frame_word_bit31 [OF assms(2)] frame_word_not_skip [OF assms(2)] frame_word_mask [OF assms(2)] sint_frame [OF assms(2)]
    by (cases "f_marker f") (simp_all add: read_frame_nocheck_def r le32_marker Let_def frame_word_def [of False])
qed

lemma read_frame_skip:
  assumes "holds d (f_offset f) (le32 (- 1))"
  shows "read_frame_nocheck d f = Inr (- 1)"
proof -
  have r: "io_read d (f_offset f) 4 = Inr (le32 (- 1))" using holds_io_read [OF assms(1)] by simp
  have "bit (- 1 :: 32 word) 31" by (simp add: bit_simps)
  then show ?thesis by (simp add: read_frame_nocheck_def r le32_marker check_frame_def Let_def)
qed

lemma read_data_enc:
  assumes "holds d (f_offset f) (enc (f_marker f) m)" "msg_ok m" "msg_len m < 2 ^ 30"
  shows "read_seq_frame d f (int (msg_len m)) = Inr m" "data_size (int (msg_len m)) = msg_len m - 5"
    "read_data d f (msg_len m - 5) = Inr m"
proof -
  let ?n = "msg_len m"
  have h: "holds d (f_offset f + 4) (body_bytes m @ [0x80])" using assms(1) by (simp add: enc_def holds_append)
  have l: "length (body_bytes m @ [0x80]) = ?n - 4" by (simp add: body_bytes_def msg_len_def)
  have r: "io_read d (f_offset f + 4) (?n - 4) = Inr (body_bytes m @ [0x80])"
    using holds_io_read [OF h] assms(3) l by simp
  have "(int ?n - 4 - 1) mod 2 ^ 64 = int ?n - 5" using assms(3) by (intro mod_pos_pos_trivial [THEN trans]) (simp_all add: msg_len_def)
  then show s: "data_size (int ?n) = ?n - 5" by (simp add: data_size_def nat_diff_distrib')
  have s1: "(?n - 5 + 1) mod 2 ^ 64 = ?n - 4" using assms(3) by (simp add: msg_len_def)
  have seq: "sint (word_of_int (fm_seq m) :: 64 word) = fm_seq m"
    using assms(2) by (simp add: signed_of_int signed_take_bit_int_eq_self msg_ok_def)
  have "(body_bytes m @ [0x80]) ! (?n - 5) = 0x80" using l by (simp add: nth_append body_bytes_def msg_len_def)
  then show d: "read_data d f (?n - 5) = Inr m"
    unfolding read_data_def s1 r using seq by (simp add: body_bytes_def msg_len_def)
  show "read_seq_frame d f (int ?n) = Inr m"
    unfolding read_seq_frame_def s using d by (simp add: msg_len_def)
qed

section \<open>Layout\<close>

text \<open>A position is an offset and the end of its block, behind the first frame of the block.\<close>

definition pos_ok :: "nat \<Rightarrow> nat \<times> nat \<Rightarrow> bool" where
  "pos_ok bs p \<longleftrightarrow> 0 < fst p \<and> fst p \<le> snd p \<and> snd p < fst p + bs \<and> bs dvd snd p"

definition fmsg_ok :: "nat \<Rightarrow> fmsg \<Rightarrow> bool" where
  "fmsg_ok bs m \<longleftrightarrow> msg_ok m \<and> msg_len m < 2 ^ 30 \<and> msg_len m + 5 \<le> bs"

text \<open>Messages between two positions.\<close>

inductive path :: "bool \<Rightarrow> nat \<Rightarrow> disk \<Rightarrow> nat \<times> nat \<Rightarrow> fmsg list \<Rightarrow> nat \<times> nat \<Rightarrow> bool" for mk bs d where
  path_nil: "path mk bs d p [] p"
| path_msg: "holds d off (enc mk m) \<Longrightarrow> off + msg_len m \<le> b \<Longrightarrow> fmsg_ok bs m \<Longrightarrow> path mk bs d (off + msg_len m, b) ms q \<Longrightarrow>
    path mk bs d (off, b) (m # ms) q"
| path_next: "off + 17 > b \<or> holds d off (le32 (- 1)) \<Longrightarrow> holds d b (header mk) \<Longrightarrow> holds d (b + 5) (enc mk m) \<Longrightarrow> fmsg_ok bs m \<Longrightarrow>
    path mk bs d (b + 5 + msg_len m, b + bs) ms q \<Longrightarrow> path mk bs d (off, b) (m # ms) q"

inductive_cases path_ConsE: "path mk bs d p (m # ms) q"
inductive_cases path_NilE: "path mk bs d p [] q"

text \<open>A reader or a writer is at a position, or at the start of the next block if no frame fits behind the position.\<close>

definition geom :: "bool \<Rightarrow> nat \<Rightarrow> file_t \<Rightarrow> bool" where
  "geom mk bs f \<longleftrightarrow> f_marker f = mk \<and> f_block_size f = bs"

definition at_pos :: "bool \<Rightarrow> nat \<Rightarrow> file_t \<Rightarrow> nat \<times> nat \<Rightarrow> bool" where
  "at_pos mk bs f p \<longleftrightarrow> geom mk bs f \<and>
     (f_offset f = fst p \<and> f_block_end f = snd p \<or> fst p + 17 > snd p \<and> f_offset f = snd p \<and> f_block_end f = snd p + bs)"

text \<open>Positioned at a message.\<close>

definition at_msg :: "bool \<Rightarrow> nat \<Rightarrow> disk \<Rightarrow> file_t \<Rightarrow> fmsg \<Rightarrow> fmsg list \<Rightarrow> nat \<times> nat \<Rightarrow> bool" where
  "at_msg mk bs d f m ms q \<longleftrightarrow> geom mk bs f \<and> holds d (f_offset f) (enc mk m) \<and> f_offset f + msg_len m \<le> f_block_end f \<and> fmsg_ok bs m \<and>
     pos_ok bs (f_offset f, f_block_end f) \<and> path mk bs d (f_offset f + msg_len m, f_block_end f) ms q"

lemma pos_ok_next: "pos_ok bs (off, b) \<Longrightarrow> n + 5 \<le> bs \<Longrightarrow> pos_ok bs (b + 5 + n, b + bs)"
  by (auto simp: pos_ok_def)

lemma pos_ok_msg: "pos_ok bs (off, b) \<Longrightarrow> off + n \<le> b \<Longrightarrow> pos_ok bs (off + n, b)"
  by (auto simp: pos_ok_def)

lemma msg_len_ge: "17 \<le> msg_len m"
  by (simp add: msg_len_def)

lemma at_msg_frame:
  assumes "at_msg mk bs d f m ms q"
  shows "read_frame_nocheck d f = Inr (int (msg_len m))" "read_frame d f = (f, Inr (int (msg_len m)))"
    "read_seq_frame d f (int (msg_len m)) = Inr m" "data_size (int (msg_len m)) = msg_len m - 5" "read_data d f (msg_len m - 5) = Inr m"
proof -
  have h: "f_marker f = mk" "holds d (f_offset f) (enc mk m)" "f_offset f + msg_len m \<le> f_block_end f" "fmsg_ok bs m" "f_offset f \<noteq> 0"
    using assms by (auto simp: at_msg_def geom_def pos_ok_def)
  have w: "holds d (f_offset f) (le32 (frame_word mk (msg_len m)))" using h(2) by (simp add: enc_def holds_append)
  show n: "read_frame_nocheck d f = Inr (int (msg_len m))"
    by (rule read_frame_word) (use h w msg_len_ge [of m] in \<open>auto simp: fmsg_ok_def\<close>)
  show "read_frame d f = (f, Inr (int (msg_len m)))" using n h(3) msg_len_ge [of m] by (simp add: read_frame_def)
  show "read_seq_frame d f (int (msg_len m)) = Inr m" "data_size (int (msg_len m)) = msg_len m - 5" "read_data d f (msg_len m - 5) = Inr m"
    using read_data_enc [of d f m] h by (auto simp: fmsg_ok_def)
qed

lemma io_shift_nat [simp]: "io_shift (int n) f = f\<lparr>f_offset := f_offset f + n\<rparr>"
  by (simp add: io_shift_def)

lemma io_shift_numeral [simp]: "io_shift (numeral k) f = f\<lparr>f_offset := f_offset f + numeral k\<rparr>"
  by (simp add: io_shift_def)

lemma at_msg_shift:
  assumes "at_msg mk bs d f m ms q"
  shows "at_pos mk bs (io_shift (int (msg_len m)) f) (f_offset f + msg_len m, f_block_end f)"
    "pos_ok bs (f_offset f + msg_len m, f_block_end f)" "path mk bs d (f_offset f + msg_len m, f_block_end f) ms q"
  using assms pos_ok_msg by (auto simp: at_msg_def at_pos_def geom_def)

text \<open>The first frame of a block.\<close>

lemma shift_block_header:
  assumes "geom mk bs f" "holds d b (header mk)" "5 \<le> bs" "0 < b"
  shows "shift_block d b f = (f\<lparr>f_offset := b + 5, f_block_end := b + bs\<rparr>, None)"
    "read_frame_nocheck d (f\<lparr>f_offset := b, f_block_end := b + bs\<rparr>) = Inr 5"
proof -
  let ?f = "f\<lparr>f_offset := b, f_block_end := b + bs\<rparr>"
  show r: "read_frame_nocheck d ?f = Inr 5"
    using read_frame_word [of d ?f 5] assms by (simp add: geom_def header_def holds_append)
  show "shift_block d b f = (f\<lparr>f_offset := b + 5, f_block_end := b + bs\<rparr>, None)"
    using r assms(1) by (simp add: shift_block_def io_block_def geom_def Let_def)
qed

lemma next_at_msg:
  assumes "geom mk bs f" "pos_ok bs (off, b)" "holds d (b + 5) (enc mk m)" "fmsg_ok bs m" "path mk bs d (b + 5 + msg_len m, b + bs) ms q"
  shows "at_msg mk bs d (f\<lparr>f_offset := b + 5, f_block_end := b + bs\<rparr>) m ms q"
  using assms by (auto simp: at_msg_def geom_def fmsg_ok_def pos_ok_def)

lemma read_frame_next:
  assumes "geom mk bs f" "f_offset f + 17 > f_block_end f" "pos_ok bs (off, f_block_end f)" "holds d (f_block_end f) (header mk)"
    "holds d (f_block_end f + 5) (enc mk m)" "fmsg_ok bs m" "path mk bs d (f_block_end f + 5 + msg_len m, f_block_end f + bs) ms q"
  shows "\<exists>f'. read_frame d f = (f', Inr (int (msg_len m))) \<and> at_msg mk bs d f' m ms q \<and> (\<exists>a b. f' = f\<lparr>f_offset := a, f_block_end := b\<rparr>)"
proof -
  let ?b = "f_block_end f"
  let ?f = "f\<lparr>f_offset := ?b + 5, f_block_end := ?b + bs\<rparr>"
  have m: "at_msg mk bs d ?f m ms q" using next_at_msg [OF assms(1,3,5,6,7)] .
  have "shift_block d ?b f = (?f, None)"
    using shift_block_header(1) [OF assms(1,4)] assms(3,6) by (auto simp: fmsg_ok_def pos_ok_def)
  then have "read_frame d f = (?f, Inr (int (msg_len m)))"
    using assms(2) at_msg_frame(1) [OF m] by (simp add: read_frame_def)
  then show ?thesis using m by blast
qed

text \<open>One or two calls of \<open>_read_frame\<close> find the next message.\<close>

lemma read_frame_path:
  assumes "path mk bs d (off, b) (m # ms) q" "pos_ok bs (off, b)" "geom mk bs f" "f_offset f = off" "f_block_end f = b"
  shows "(\<exists>f'. read_frame d f = (f', Inr (int (msg_len m))) \<and> at_msg mk bs d f' m ms q \<and> (\<exists>a b. f' = f\<lparr>f_offset := a, f_block_end := b\<rparr>)) \<or>
    read_frame d f = (f, Inr (- 1)) \<and>
    (\<exists>f'. read_frame d (shift_skip f) = (f', Inr (int (msg_len m))) \<and> at_msg mk bs d f' m ms q \<and> (\<exists>a b. f' = f\<lparr>f_offset := a, f_block_end := b\<rparr>))"
  using assms(1)
proof (rule path_ConsE)
  fix off1 b1
  assume *: "(off, b) = (off1, b1)" "holds d off1 (enc mk m)" "off1 + msg_len m \<le> b1" "fmsg_ok bs m" "path mk bs d (off1 + msg_len m, b1) ms q"
  then have "at_msg mk bs d f m ms q" using assms by (auto simp: at_msg_def)
  then have "read_frame d f = (f, Inr (int (msg_len m))) \<and> at_msg mk bs d f m ms q \<and> f = f\<lparr>f_offset := f_offset f, f_block_end := f_block_end f\<rparr>"
    using at_msg_frame(2) by simp
  then show ?thesis by blast
next
  fix b1 off1
  assume *: "(off, b) = (off1, b1)" "b1 < off1 + 17 \<or> holds d off1 (le32 (- 1))" "holds d b1 (header mk)" "holds d (b1 + 5) (enc mk m)"
    "fmsg_ok bs m" "path mk bs d (b1 + 5 + msg_len m, b1 + bs) ms q"
  show ?thesis
  proof (cases "b < off + 17")
    case True
    then show ?thesis using read_frame_next [of mk bs f off d m ms q] assms * by auto
  next
    case False
    then have "read_frame d f = (f, Inr (- 1))" using * assms read_frame_skip [of d f] by (simp add: read_frame_def)
    moreover have "\<exists>f'. read_frame d (shift_skip f) = (f', Inr (int (msg_len m))) \<and> at_msg mk bs d f' m ms q \<and>
        (\<exists>a b. f' = (shift_skip f)\<lparr>f_offset := a, f_block_end := b\<rparr>)"
      using read_frame_next [of mk bs "shift_skip f" off d m ms q] assms * by (auto simp: shift_skip_def geom_def)
    ultimately show ?thesis by (simp add: shift_skip_def)
  qed
qed

definition zero_from :: "disk \<Rightarrow> nat \<Rightarrow> bool" where
  "zero_from d off \<longleftrightarrow> (\<forall>i \<ge> off. i < length d \<longrightarrow> d ! i = 0)"

lemma read_zero:
  assumes "zero_from d off" "off \<le> f_offset f"
  shows "read_frame_nocheck d f = Inl EAGAIN"
proof (cases "f_offset f + 4 \<le> length d")
  case True
  have "take 4 (drop (f_offset f) d) = replicate 4 0"
    using True assms by (auto simp: list_eq_iff_nth_eq zero_from_def)
  moreover have "replicate 4 (0 :: byte) = [0, 0, 0, 0]" by (simp add: eval_nat_numeral)
  ultimately have "io_read d (f_offset f) 4 = Inr [0, 0, 0, 0]" using True by (simp add: io_read_def)
  then show ?thesis by (simp add: read_frame_nocheck_def check_frame_def Let_def)
next
  case False
  then show ?thesis by (simp add: read_frame_nocheck_def io_read_def)
qed

lemma read_frame_zero:
  assumes "zero_from d off" "off \<le> f_offset f" "off \<le> f_block_end f"
  shows "read_frame d f = (if f_offset f + 17 > f_block_end f then (io_block (f_block_end f) f, Inl EAGAIN) else (f, Inl EAGAIN))"
  using assms read_zero [of d off f] read_zero [of d off "io_block (f_block_end f) f"]
  by (simp add: read_frame_def shift_block_def Let_def io_block_def)

section \<open>Reading\<close>

lemma process_at_msg:
  assumes "at_msg mk bs d f' m ms q" "read_frame d f = (f', Inr (int (msg_len m)))" "process_start d f0 = (f, None)"
  shows "\<exists>g p. file_process d ch f0 = Some (g, None, [FvData m]) \<and> at_pos mk bs g p \<and> pos_ok bs p \<and> path mk bs d p ms q \<and> f_seq g = fm_seq m"
proof -
  let ?g = "(io_shift (int (msg_len m)) f')\<lparr>f_pending := True, f_seq := fm_seq m\<rparr>"
  have "process_data d (int (msg_len m)) f' = (?g, None, [FvData m])"
    using at_msg_frame(4,5) [OF assms(1)] msg_len_ge [of m] by (simp add: process_data_def)
  then have "file_process d ch f0 = Some (?g, None, [FvData m])"
    using assms(2,3) by (simp add: file_process.simps [of d ch f0])
  moreover have "at_pos mk bs ?g (f_offset f' + msg_len m, f_block_end f')"
    using at_msg_shift(1) [OF assms(1)] by (simp add: at_pos_def geom_def)
  ultimately show ?thesis using at_msg_shift(2,3) [OF assms(1)] by (intro exI conjI) (auto simp: at_pos_def)
qed

lemma path_at_end:
  "path mk bs d (off, b) (m # ms) q \<Longrightarrow> b < off + 17 \<Longrightarrow>
    holds d b (header mk) \<and> holds d (b + 5) (enc mk m) \<and> fmsg_ok bs m \<and> path mk bs d (b + 5 + msg_len m, b + bs) ms q"
  using msg_len_ge [of m] by (elim path_ConsE) simp_all

lemma process_next:
  assumes "at_pos mk bs f p" "pos_ok bs p" "path mk bs d p (m # ms) q"
  shows "\<exists>g p. file_process d ch f = Some (g, None, [FvData m]) \<and> at_pos mk bs g p \<and> pos_ok bs p \<and> path mk bs d p ms q \<and> f_seq g = fm_seq m"
proof -
  obtain off b where p: "p = (off, b)" by (cases p)
  have g: "geom mk bs f" using assms(1) by (simp add: at_pos_def)
  show ?thesis
  proof (cases "f_offset f = off \<and> f_block_end f = b")
    case True
    have s: "process_start d f = (f, None)" "process_start d (shift_skip f) = (shift_skip f, None)"
      using True assms(2) p g by (auto simp: process_start_def pos_ok_def geom_def shift_skip_def)
    from read_frame_path [OF assms(3) [unfolded p] assms(2) [unfolded p] g] True consider
      f' where "read_frame d f = (f', Inr (int (msg_len m)))" "at_msg mk bs d f' m ms q"
    | f' where "read_frame d f = (f, Inr (- 1))" "read_frame d (shift_skip f) = (f', Inr (int (msg_len m)))" "at_msg mk bs d f' m ms q" by blast
    then show ?thesis
    proof cases
      case 1
      then show ?thesis using process_at_msg s(1) by blast
    next
      case 2
      have "file_process d ch f = file_process d ch (shift_skip f)" using s(1) 2(1) by (simp add: file_process.simps [of d ch f])
      then show ?thesis using process_at_msg [OF 2(3,2) s(2)] by simp
    qed
  next
    case False
    then have b: "off + 17 > b" "f_offset f = b" "f_block_end f = b + bs" using assms(1) p by (auto simp: at_pos_def)
    from path_at_end [OF assms(3) [unfolded p] b(1)]
    have n: "holds d b (header mk)" "holds d (b + 5) (enc mk m)" "fmsg_ok bs m" "path mk bs d (b + 5 + msg_len m, b + bs) ms q" by auto
    let ?f = "f\<lparr>f_offset := b + 5, f_block_end := b + bs\<rparr>"
    have e: "f\<lparr>f_offset := b, f_block_end := b + bs\<rparr> = f" using b by simp
    have m: "at_msg mk bs d ?f m ms q" using next_at_msg [OF g assms(2) [unfolded p] n(2,3,4)] .
    have "read_frame_nocheck d f = Inr 5"
      using shift_block_header(2) [OF g n(1)] n(3) assms(2) p unfolding e by (auto simp: fmsg_ok_def pos_ok_def)
    then have "process_start d f = (?f, None)" using b g by (simp add: process_start_def geom_def)
    then show ?thesis using process_at_msg [OF m at_msg_frame(2) [OF m]] by blast
  qed
qed

text \<open>At the end of data the position stays, and the next call finds what was written meanwhile.\<close>

lemma process_end_keeps:
  "process_end ch f = (g, r, ev) \<Longrightarrow> r = Some EAGAIN \<and> FvData m \<notin> set ev \<and> f_offset g = f_offset f \<and> f_block_end g = f_block_end f \<and>
    f_marker g = f_marker f \<and> f_block_size g = f_block_size f"
  unfolding process_end_def Let_def by (auto split: if_split_asm simp del: de_Morgan_disj de_Morgan_conj)

lemma process_end_pos: "process_end ch f = (g, r, ev) \<Longrightarrow> r = Some EAGAIN \<and> FvData m \<notin> set ev \<and> (at_pos mk bs g p \<longleftrightarrow> at_pos mk bs f p)"
  using process_end_keeps [of ch f g r ev m] by (simp add: at_pos_def geom_def)

lemma process_wait:
  assumes "at_pos mk bs f p" "pos_ok bs p" "zero_from d (fst p)"
  shows "\<exists>g ev. file_process d ch f = Some (g, Some EAGAIN, ev) \<and> at_pos mk bs g p \<and> (\<forall>m. FvData m \<notin> set ev)"
proof (cases "f_offset f + bs = f_block_end f")
  case True
  have "fst p \<le> f_offset f" using assms by (auto simp: at_pos_def pos_ok_def)
  then have "read_frame_nocheck d f = Inl EAGAIN" by (rule read_zero [OF assms(3)])
  then have "file_process d ch f = Some (f, Some EAGAIN, [])"
    using True assms(1) by (simp add: file_process.simps [of d ch f] process_start_def at_pos_def geom_def)
  then show ?thesis using assms(1) by auto
next
  case False
  then have e: "f_offset f = fst p" "f_block_end f = snd p" using assms(1) by (auto simp: at_pos_def)
  obtain f' where f': "read_frame d f = (f', Inl EAGAIN)" "at_pos mk bs f' p"
    using read_frame_zero [OF assms(3), of f] e assms(1,2) by (auto simp: pos_ok_def at_pos_def geom_def io_block_def split: if_splits)
  obtain g r ev where pe: "process_end ch f' = (g, r, ev)" by (cases "process_end ch f'")
  have "file_process d ch f = Some (g, r, ev)"
    using False f'(1) pe assms(1) by (simp add: file_process.simps [of d ch f] process_start_def at_pos_def geom_def)
  then show ?thesis using process_end_pos [OF pe] f'(2) by blast
qed

section \<open>Writing\<close>

lemma length_disk_write [simp]: "length (disk_write d off bs) = max (length d) (off + length bs)"
  by (auto simp: disk_write_def)

lemma nth_disk_write:
  "i < length (disk_write d off bs) \<Longrightarrow>
    disk_write d off bs ! i = (if i < off then if i < length d then d ! i else 0 else if i < off + length bs then bs ! (i - off) else d ! i)"
  by (auto simp: disk_write_def nth_append min_def)

lemma length_disk_truncate [simp]: "length (disk_truncate d n) = n"
  by (simp add: disk_truncate_def)

lemma nth_disk_truncate: "i < n \<Longrightarrow> disk_truncate d n ! i = (if i < length d then d ! i else 0)"
  by (auto simp: disk_truncate_def nth_append)

text \<open>What is stored below an offset stays.\<close>

definition keeps_below :: "nat \<Rightarrow> disk \<Rightarrow> disk \<Rightarrow> bool" where
  "keeps_below z d d' \<longleftrightarrow> min z (length d) \<le> length d' \<and> (\<forall>i < z. i < length d \<longrightarrow> d' ! i = d ! i)"

lemma keeps_below_trans: "keeps_below z d d' \<Longrightarrow> keeps_below z' d' d'' \<Longrightarrow> z \<le> z' \<Longrightarrow> keeps_below z d d''"
  by (auto simp: keeps_below_def)

lemma keeps_below_refl [simp]: "keeps_below z d d"
  by (simp add: keeps_below_def)

lemma holds_keeps: "holds d off bs \<Longrightarrow> keeps_below z d d' \<Longrightarrow> off + length bs \<le> z \<Longrightarrow> holds d' off bs"
  by (auto simp: holds_nth keeps_below_def)

lemma keeps_write: "z \<le> off \<Longrightarrow> keeps_below z d (disk_write d off bs)"
  by (auto simp: keeps_below_def nth_disk_write)

lemma keeps_truncate: "z \<le> n \<Longrightarrow> keeps_below z d (disk_truncate d n)"
  by (auto simp: keeps_below_def nth_disk_truncate)

lemma holds_write: "holds (disk_write d off bs) off bs"
  by (auto simp: holds_nth nth_disk_write)

lemma zero_write: "zero_from d z \<Longrightarrow> z \<le> off + length bs \<Longrightarrow> zero_from (disk_write d off bs) (off + length bs)"
  by (auto simp: zero_from_def nth_disk_write)

lemma zero_truncate: "zero_from d z \<Longrightarrow> zero_from (disk_truncate d n) z"
  by (auto simp: zero_from_def nth_disk_truncate)

lemma zero_from_mono: "zero_from d z \<Longrightarrow> z \<le> z' \<Longrightarrow> zero_from d z'"
  by (auto simp: zero_from_def)

lemma path_mono: "path mk bs d p ms q \<Longrightarrow> pos_ok bs p \<Longrightarrow> pos_ok bs q \<and> fst p \<le> fst q \<and> snd p \<le> snd q"
proof (induction rule: path.induct)
  case (path_msg off m b ms q)
  then show ?case using pos_ok_msg [of bs off b "msg_len m"] by simp
next
  case (path_next off b m ms q)
  then have "pos_ok bs (b + 5 + msg_len m, b + bs)" using pos_ok_next [of bs off b "msg_len m"] by (simp add: fmsg_ok_def)
  moreover have "off \<le> b" using path_next.prems by (simp add: pos_ok_def)
  ultimately show ?case using path_next.IH by simp
qed simp

lemma path_keeps: "path mk bs d p ms q \<Longrightarrow> pos_ok bs p \<Longrightarrow> keeps_below z d d' \<Longrightarrow> fst q \<le> z \<Longrightarrow> path mk bs d' p ms q"
proof (induction rule: path.induct)
  case (path_nil p)
  then show ?case by (simp add: path.path_nil)
next
  case (path_msg off m b ms q)
  have p: "pos_ok bs (off + msg_len m, b)" using path_msg pos_ok_msg by blast
  then have "off + msg_len m \<le> fst q" using path_mono [OF path_msg.hyps(4)] by simp
  then have "holds d' off (enc mk m)" using holds_keeps [OF path_msg.hyps(1) path_msg.prems(2)] path_msg.prems(3) by simp
  then show ?case using path_msg p by (intro path.path_msg) auto
next
  case (path_next off b m ms q)
  have p: "pos_ok bs (b + 5 + msg_len m, b + bs)" using path_next pos_ok_next by (auto simp: fmsg_ok_def)
  then have l: "b + 5 + msg_len m \<le> fst q" using path_mono [OF path_next.hyps(5)] by simp
  have "holds d' b (header mk)" "holds d' (b + 5) (enc mk m)"
    using holds_keeps [OF path_next.hyps(2) path_next.prems(2)] holds_keeps [OF path_next.hyps(3) path_next.prems(2)] l path_next.prems(3) by simp_all
  moreover have "off + 17 > b \<or> holds d' off (le32 (- 1))"
    using path_next.hyps(1) holds_keeps [OF _ path_next.prems(2), of off "le32 (- 1)"] l path_next.prems(3) by fastforce
  ultimately show ?case using path_next p by (intro path.path_next) auto
qed

lemma path_append: "path mk bs d p ms q \<Longrightarrow> path mk bs d q ms' r \<Longrightarrow> path mk bs d p (ms @ ms') r"
  by (induction rule: path.induct) (auto intro: path.intros)

text \<open>\<open>_write_block\<close> at the start of a block.\<close>

lemma write_block_ok:
  assumes "geom mk bs f" "zero_from d z" "z \<le> b" "5 \<le> bs"
  shows "\<exists>d' f'. write_block b (d, f) = (d', f') \<and> geom mk bs f' \<and> f_offset f' = b + 5 \<and> f_block_end f' = b + bs \<and>
    holds d' b (header mk) \<and> keeps_below b d d' \<and> zero_from d' (b + 5) \<and> f_seq f' = f_seq f \<and> f_autoseq f' = f_autoseq f"
proof -
  let ?d = "disk_write d b (header mk)"
  let ?f = "f\<lparr>f_offset := b + 5, f_block_end := b + bs\<rparr>"
  have w: "holds ?d b (header mk)" "keeps_below b d ?d" "zero_from ?d (b + 5)"
    using holds_write keeps_write [of b b] zero_write [OF assms(2), of b "header mk"] assms(3) by auto
  have h: "le32 (5 OR size_marker f) @ [0x80] = header mk" using assms(1) by (simp add: header_def frame_word_def size_marker_def geom_def)
  have m: "size_marker (f\<lparr>f_offset := b, f_block_end := e\<rparr>) = size_marker f" for e by (simp add: size_marker_def)
  show ?thesis
  proof (cases "f_tail_extra_blocks f \<noteq> 0 \<and> f_size_cache f \<le> b + bs")
    case True
    let ?n = "b + bs + f_tail_extra_blocks f * bs"
    have n: "b + 5 \<le> ?n" using assms(4) by simp
    let ?t = "disk_truncate ?d ?n"
    have k: "keeps_below (b + 5) ?d ?t" using keeps_truncate n by blast
    have "holds ?t b (header mk)" using holds_keeps [OF w(1) k] by simp
    moreover have "keeps_below b d ?t" using keeps_below_trans [OF w(2) k] by simp
    moreover have "zero_from ?t (b + 5)" using zero_truncate [OF w(3)] .
    moreover have "write_block b (d, f) = (disk_truncate ?d ?n, ?f\<lparr>f_size_cache := ?n\<rparr>)"
      using True assms(1) h by (simp add: write_block_def io_block_def io_writev_def f_truncate_def Let_def geom_def m)
    ultimately show ?thesis using assms(1) by (simp add: geom_def)
  next
    case False
    then have eq: "write_block b (d, f) = (?d, ?f)"
      using assms(1) h by (auto simp: write_block_def io_block_def io_writev_def f_truncate_def Let_def geom_def m)
    then show ?thesis using w assms(1) by (simp add: geom_def)
  qed
qed

lemma io_writev_msg:
  assumes "geom mk bs f" "msg_len m = n"
  shows "io_writev (word_of_nat n OR size_marker f) (body_bytes m @ [0x80]) (d, f) = (disk_write d (f_offset f) (enc mk m), f)"
  using assms by (simp add: io_writev_def enc_def frame_word_def size_marker_def geom_def)

text \<open>What one write adds.\<close>

definition written :: "bool \<Rightarrow> nat \<Rightarrow> disk \<Rightarrow> nat \<times> nat \<Rightarrow> fmsg \<Rightarrow> disk \<Rightarrow> file_t \<Rightarrow> bool" where
  "written mk bs d q m d' f' \<longleftrightarrow> (\<exists>q'. path mk bs d' q [m] q' \<and> at_pos mk bs f' q' \<and> pos_ok bs q' \<and> zero_from d' (fst q')) \<and> keeps_below (fst q) d d'"

lemma written_at:
  assumes "geom mk bs f" "pos_ok bs (off, b)" "f_offset f = off" "f_block_end f = b" "off + msg_len m \<le> b" "fmsg_ok bs m" "zero_from d off"
  shows "written mk bs d (off, b) m (disk_write d off (enc mk m)) (io_shift (int (msg_len m)) f)"
proof -
  let ?d = "disk_write d off (enc mk m)"
  have "path mk bs ?d (off, b) [m] (off + msg_len m, b)" using holds_write assms by (intro path.path_msg path.path_nil) auto
  moreover have "zero_from ?d (off + msg_len m)" using zero_write [OF assms(7), of off "enc mk m"] by simp
  moreover have "at_pos mk bs (io_shift (int (msg_len m)) f) (off + msg_len m, b)" using assms by (simp add: at_pos_def geom_def)
  moreover have "keeps_below off d ?d" using keeps_write by simp
  ultimately show ?thesis unfolding written_def using pos_ok_msg [OF assms(2,5)] by auto
qed

lemma written_block:
  assumes "geom mk bs f" "pos_ok bs (off, b)" "off + 17 > b \<or> holds d off (le32 (- 1))" "fmsg_ok bs m" "zero_from d b" "write_block b (d, f) = (d1, f1)"
  shows "f_offset f1 = b + 5 \<and> geom mk bs f1 \<and> f_block_end f1 = b + bs \<and> f_seq f1 = f_seq f \<and> f_autoseq f1 = f_autoseq f \<and>
    written mk bs d (off, b) m (disk_write d1 (b + 5) (enc mk m)) (io_shift (int (msg_len m)) f1)"
proof -
  let ?d = "disk_write d1 (b + 5) (enc mk m)"
  have n: "msg_len m + 5 \<le> bs" "17 \<le> msg_len m" using assms(4) by (auto simp: fmsg_ok_def msg_len_def)
  have w: "geom mk bs f1" "f_offset f1 = b + 5" "f_block_end f1 = b + bs" "holds d1 b (header mk)" "keeps_below b d d1" "zero_from d1 (b + 5)"
    "f_seq f1 = f_seq f" "f_autoseq f1 = f_autoseq f"
    using write_block_ok [OF assms(1,5) order_refl] n assms(6) by auto
  have ob: "off \<le> b" using assms(2) by (simp add: pos_ok_def)
  have k: "keeps_below (b + 5) d1 ?d" using keeps_write by simp
  have kb: "keeps_below b d ?d" using keeps_below_trans [OF w(5) k] by simp
  have "holds ?d b (header mk)" using holds_keeps [OF w(4) k] by simp
  moreover have "off + 17 > b \<or> holds ?d off (le32 (- 1))"
    using assms(3) holds_keeps [OF _ kb, of off "le32 (- 1)"] by fastforce
  ultimately have "path mk bs ?d (off, b) [m] (b + 5 + msg_len m, b + bs)"
    using holds_write assms(4) by (intro path.path_next path.path_nil) auto
  moreover have "zero_from ?d (b + 5 + msg_len m)" using zero_write [OF w(6), of "b + 5" "enc mk m"] by simp
  moreover have "at_pos mk bs (io_shift (int (msg_len m)) f1) (b + 5 + msg_len m, b + bs)" using w by (simp add: at_pos_def geom_def)
  moreover have "keeps_below off d ?d" using kb ob by (auto simp: keeps_below_def)
  ultimately show ?thesis unfolding written_def using w pos_ok_next [OF assms(2) n(1)] by auto
qed

lemma write_data_next:
  assumes "at_pos mk bs f (off, b)" "pos_ok bs (off, b)" "zero_from d off" "msg_len m \<le> bs" "off + msg_len m > b" "5 \<le> bs"
  shows "\<exists>d0 f0 d1 f1. geom mk bs f0 \<and> zero_from d0 b \<and> keeps_below off d d0 \<and> (off + 17 > b \<or> holds d0 off (le32 (- 1))) \<and> f_autoseq f0 = f_autoseq f \<and>
    write_block b (d0, f0) = (d1, f1) \<and> write_data m (d, f) = (disk_write d1 (b + 5) (enc mk m), io_shift (int (msg_len m)) f1, None)"
proof -
  let ?n = "length (body_bytes m) + 4 + 1"
  have n: "?n = msg_len m" by (simp add: body_bytes_def msg_len_def)
  have g: "geom mk bs f" and ob: "off \<le> b" "b < off + bs" using assms by (auto simp: at_pos_def pos_ok_def)
  have bsz: "f_block_size f = bs" using g by (simp add: geom_def)
  note unf = write_data_def Let_def split_conv body_bytes_def [symmetric] n
  define d0 f0 where "d0 = (if f_offset f = off \<and> f_block_end f = b \<and> off + 4 < b then disk_write d off (le32 (- 1)) else d)"
    and "f0 = f\<lparr>f_offset := b, f_block_end := b + bs\<rparr>"
  have g0: "geom mk bs f0" "f_autoseq f0 = f_autoseq f" using g by (simp_all add: geom_def f0_def)
  have z0: "zero_from d0 b"
    using zero_write [OF assms(3), of off "le32 (- 1)"] ob assms(3) by (auto simp: d0_def intro: zero_from_mono)
  have k0: "keeps_below off d d0" using keeps_write by (simp add: d0_def)
  have h0: "off + 17 > b \<or> holds d0 off (le32 (- 1))"
    using holds_write [of d off "le32 (- 1)"] assms(1) by (auto simp: d0_def at_pos_def)
  obtain d1 f1 where w1: "write_block b (d0, f0) = (d1, f1)" by (cases "write_block b (d0, f0)")
  have w: "geom mk bs f1" "f_offset f1 = b + 5" using write_block_ok [OF g0(1) z0 order_refl assms(6)] w1 by auto
  have "write_data m (d, f) = (disk_write d1 (b + 5) (enc mk m), io_shift (int (msg_len m)) f1, None)"
  proof (cases "f_offset f = off \<and> f_block_end f = b")
    case True
    then have "end_block (d, f) = (d0, f0)" using bsz by (simp add: end_block_def io_writev_def io_block_def d0_def f0_def)
    moreover have "f_offset f0 + f_block_size f = f_block_end f0" "f_block_size f0 = bs" "f_offset f0 = b" using bsz by (simp_all add: f0_def)
    ultimately show ?thesis using True assms(4,5) w1 w io_writev_msg [of mk bs f1 m "msg_len m" d1] unfolding unf by (simp add: bsz del: io_shift_nat)
  next
    case F: False
    then have e: "f_offset f = b" "f_block_end f = b + bs" using assms(1) by (auto simp: at_pos_def)
    then have "f0 = f" "d0 = d" using F by (auto simp: f0_def d0_def)
    then show ?thesis using e w1 w assms(4) io_writev_msg [of mk bs f1 m "msg_len m" d1] unfolding unf by (simp add: bsz del: io_shift_nat)
  qed
  then show ?thesis using g0 z0 k0 h0 w1 by blast
qed

lemma write_data_ok:
  assumes "at_pos mk bs f q" "pos_ok bs q" "zero_from d (fst q)" "fmsg_ok bs m"
  shows "\<exists>d' f'. write_data m (d, f) = (d', f', None) \<and> written mk bs d q m d' f' \<and> f_autoseq f' = f_autoseq f \<and>
    (fst q + msg_len m \<le> snd q \<longrightarrow> holds d' (fst q) (enc mk m))"
proof -
  obtain off b where q: "q = (off, b)" by (cases q)
  let ?n = "length (body_bytes m) + 4 + 1"
  have n: "?n = msg_len m" by (simp add: body_bytes_def msg_len_def)
  have g: "geom mk bs f" and l: "msg_len m \<le> bs" "17 \<le> msg_len m" "msg_len m + 5 \<le> bs" and ob: "0 < off" "off \<le> b" "b < off + bs"
    using assms q by (auto simp: at_pos_def fmsg_ok_def msg_len_def pos_ok_def)
  have bsz: "f_block_size f = bs" using g by (simp add: geom_def)
  note unf = write_data_def Let_def split_conv body_bytes_def [symmetric] n
  show ?thesis
  proof (cases "off + msg_len m \<le> b")
    case True
    then have e: "f_offset f = off" "f_block_end f = b" using assms(1) q l(2) by (auto simp: at_pos_def)
    then have "write_data m (d, f) = (disk_write d off (enc mk m), io_shift (int (msg_len m)) f, None)"
      using True io_writev_msg [OF g refl, of m d] ob l unfolding unf by (simp add: bsz del: io_shift_nat)
    then show ?thesis using written_at [OF g, of off b m d] assms True e q holds_write by simp
  next
    case False
    have "off + msg_len m > b" "5 \<le> bs" using False l by simp_all
    then obtain d0 f0 d1 f1 where w: "geom mk bs f0" "zero_from d0 b" "keeps_below off d d0" "off + 17 > b \<or> holds d0 off (le32 (- 1))"
      "f_autoseq f0 = f_autoseq f" "write_block b (d0, f0) = (d1, f1)"
      "write_data m (d, f) = (disk_write d1 (b + 5) (enc mk m), io_shift (int (msg_len m)) f1, None)"
      using write_data_next [OF assms(1,2,3) [unfolded q fst_conv] l(1)] by blast
    note wb = written_block [OF w(1) assms(2) [unfolded q] w(4) assms(4) w(2) w(6)]
    have "written mk bs d q m (disk_write d1 (b + 5) (enc mk m)) (io_shift (int (msg_len m)) f1)"
      using wb keeps_below_trans [OF w(3), of off] unfolding written_def q fst_conv by blast
    then show ?thesis using False w(5,7) wb q by auto
  qed
qed

end
