(* ===== verification/FileLog.thy ===== *)
theory FileLog
  imports File
begin

text \<open>
  The file as a log of messages: what a search, an opening and a run of a writer and a reader do with a file whose layout is that of \<open>File\<close>.
  Messages are delivered in the order they were accepted, over any number of runs of the writer; a search finds the first
  message that is not before the requested seq. Two sizes of messages break the file.
\<close>

section \<open>Blocks\<close>

text \<open>A file with messages \<open>ms\<close>: the frame of metadata has \<open>n0\<close> bytes, \<open>q\<close> is the end of data and zeros may follow. The first message
  stands behind the metadata, unless no frame fits there.\<close>

definition file_log :: "bool \<Rightarrow> nat \<Rightarrow> nat \<Rightarrow> disk \<Rightarrow> fmsg list \<Rightarrow> nat \<times> nat \<Rightarrow> bool" where
  "file_log mk bs n0 d ms q \<longleftrightarrow> 17 \<le> n0 \<and> n0 \<le> bs \<and> bs < 2 ^ 30 \<and> n0 \<le> length d \<and> holds d 0 (le32 (word_of_nat n0)) \<and>
     path mk bs d (n0, bs) ms q \<and> zero_from d (fst q) \<and> fst q \<le> length d"

definition first_fits :: "bool \<Rightarrow> nat \<Rightarrow> nat \<Rightarrow> disk \<Rightarrow> fmsg list \<Rightarrow> bool" where
  "first_fits mk bs n0 d ms \<longleftrightarrow> ms = [] \<or> n0 + 17 > bs \<or> holds d n0 (enc mk (hd ms)) \<and> n0 + msg_len (hd ms) \<le> bs"

lemma file_update_comm [simp]: "f\<lparr>f_block_end := b, f_offset := a\<rparr> = f\<lparr>f_offset := a, f_block_end := b\<rparr>"
  by simp

lemma file_log_pos: "file_log mk bs n0 d ms q \<Longrightarrow> pos_ok bs (n0, bs)"
  by (auto simp: file_log_def pos_ok_def)

lemma file_log_end: "file_log mk bs n0 d ms q \<Longrightarrow> pos_ok bs q"
  using path_mono [of mk bs d "(n0, bs)" ms q] file_log_pos [of mk bs n0 d ms q] unfolding file_log_def by blast

lemma path_last: "path mk bs d p ms q \<Longrightarrow> pos_ok bs p \<Longrightarrow> ms \<noteq> [] \<Longrightarrow> fst p < fst q"
proof (induction rule: path.induct)
  case (path_msg off m b ms q)
  then show ?case using path_mono [OF path_msg.hyps(4) pos_ok_msg [OF path_msg.prems(1) path_msg.hyps(2)]] msg_len_ge [of m] by simp
next
  case (path_next off b m ms q)
  have "pos_ok bs (b + 5 + msg_len m, b + bs)" using path_next pos_ok_next by (auto simp: fmsg_ok_def)
  then show ?case using path_mono [OF path_next.hyps(5)] path_next.prems(1) by (auto simp: pos_ok_def)
qed simp

text \<open>Positioned at the first message of a block, from the block's start.\<close>

definition in_block :: "nat \<Rightarrow> nat \<Rightarrow> file_t \<Rightarrow> file_t \<Rightarrow> bool" where
  "in_block bs k f f' \<longleftrightarrow> (\<exists>off. f' = f\<lparr>f_offset := off, f_block_end := k * bs + bs\<rparr>)"

definition starts_block :: "bool \<Rightarrow> nat \<Rightarrow> disk \<Rightarrow> nat \<Rightarrow> fmsg \<Rightarrow> fmsg list \<Rightarrow> nat \<times> nat \<Rightarrow> bool" where
  "starts_block mk bs d k m ms q \<longleftrightarrow> (\<forall>f. geom mk bs f \<longrightarrow> f_size_cache f = length d \<longrightarrow>
     (\<exists>f'. block_seq d k f = (f', Inr m) \<and> at_msg mk bs d f' m ms q \<and> in_block bs k f f') \<and>
     (\<exists>f'. shift_block d (k * bs) f = (f', None) \<and> at_msg mk bs d f' m ms q \<and> in_block bs k f f'))"

lemma block_header:
  assumes "holds d (k * bs) (header mk)" "holds d (k * bs + 5) (enc mk m)" "fmsg_ok bs m" "path mk bs d (k * bs + 5 + msg_len m, k * bs + bs) ms q" "0 < k"
  shows "starts_block mk bs d k m ms q"
  unfolding starts_block_def
proof (intro allI impI)
  fix f :: file_t assume g: "geom mk bs f" and c: "f_size_cache f = length d"
  let ?f = "f\<lparr>f_offset := k * bs + 5, f_block_end := k * bs + bs\<rparr>"
  have b: "22 \<le> bs" "0 < k * bs" using assms(3,5) msg_len_ge [of m] by (auto simp: fmsg_ok_def)
  have "pos_ok bs (k * bs, k * bs)" using b by (simp add: pos_ok_def)
  then have m: "at_msg mk bs d ?f m ms q" using next_at_msg [OF g _ assms(2,3,4)] by blast
  have s: "shift_block d (k * bs) f = (?f, None)" "read_frame_nocheck d (f\<lparr>f_offset := k * bs, f_block_end := k * bs + bs\<rparr>) = Inr 5"
    using shift_block_header [OF g assms(1)] b by auto
  have r: "read_frame d (io_block (k * f_block_size f) f) = (f\<lparr>f_offset := k * bs, f_block_end := k * bs + bs\<rparr>, Inr 5)"
    using s(2) b g by (simp add: read_frame_def io_block_def geom_def)
  have "k * bs + 5 + 4 \<le> length d" using assms(2) msg_len_ge [of m] by (auto simp: holds_def)
  then have "block_seq d k f = (?f, Inr m)"
    using r c at_msg_frame(2,3) [OF m] by (simp add: block_seq_def block_seq_with_def read_seq_def Let_def)
  then show "(\<exists>f'. block_seq d k f = (f', Inr m) \<and> at_msg mk bs d f' m ms q \<and> in_block bs k f f') \<and>
     (\<exists>f'. shift_block d (k * bs) f = (f', None) \<and> at_msg mk bs d f' m ms q \<and> in_block bs k f f')"
    using m s(1) unfolding in_block_def by blast
qed

lemma path_blocks:
  assumes "path mk bs d p ms q" "pos_ok bs p" "snd p \<le> k * bs" "k * bs < snd q"
  shows "\<exists>us m vs. ms = us @ m # vs \<and> starts_block mk bs d k m vs q"
  using assms
proof (induction rule: path.induct)
  case (path_msg off m b ms q)
  then obtain us m' vs where "ms = us @ m' # vs" "starts_block mk bs d k m' vs q" using pos_ok_msg [of bs off b] by auto
  then show ?case by (metis append_Cons)
next
  case (path_next off b m ms q)
  have p: "pos_ok bs (b + 5 + msg_len m, b + bs)" using path_next pos_ok_next by (auto simp: fmsg_ok_def)
  have b: "0 < b" "bs dvd b" using path_next.prems(1) by (auto simp: pos_ok_def)
  show ?case
  proof (cases "b = k * bs")
    case True
    then have "starts_block mk bs d k m ms q" using block_header [of d k bs mk m ms q] path_next b(1) by auto
    then show ?thesis by blast
  next
    case False
    then have "b < k * bs" using path_next.prems(2) by simp
    obtain j where "b = j * bs" using b(2) by (metis dvdE mult.commute)
    then have "b + bs \<le> k * bs" using \<open>b < k * bs\<close> by (metis Suc_leI add.commute mult_Suc mult_less_cancel2 mult_le_mono1)
    then obtain us m' vs where "ms = us @ m' # vs" "starts_block mk bs d k m' vs q" using path_next.IH p path_next.prems(3) by auto
    then show ?thesis by (metis append_Cons)
  qed
qed simp

lemma read_first:
  assumes "file_log mk bs n0 d ms q" "geom mk bs f"
  shows "read_frame_nocheck d (io_block 0 f) = Inr (int n0)" "read_frame d (io_block 0 f) = (io_block 0 f, Inr (int n0))"
    "shift_block d 0 f = (f\<lparr>f_offset := n0, f_block_end := bs\<rparr>, None)"
proof -
  have h: "17 \<le> n0" "n0 \<le> bs" "bs < 2 ^ 30" "holds d 0 (le32 (word_of_nat n0))" using assms(1) by (auto simp: file_log_def)
  have r: "io_read d 0 4 = Inr (le32 (word_of_nat n0))" using holds_io_read [OF h(4)] by simp
  show n: "read_frame_nocheck d (io_block 0 f) = Inr (int n0)"
    using sint_frame [of n0] h assms(2) by (simp add: read_frame_nocheck_def r io_block_def check_frame_def geom_def Let_def)
  then show "read_frame d (io_block 0 f) = (io_block 0 f, Inr (int n0))"
    using h assms(2) by (simp add: read_frame_def io_block_def geom_def)
  show "shift_block d 0 f = (f\<lparr>f_offset := n0, f_block_end := bs\<rparr>, None)"
    using n assms(2) by (simp add: shift_block_def io_block_def geom_def Let_def)
qed

text \<open>\<open>_block_seq(0)\<close> finds the first message, in the first block or, if metadata fills it, in the second one.\<close>

lemma block_seq_first:
  assumes "file_log mk bs n0 d ms q" "geom mk bs f" "f_size_cache f = length d"
  shows "block_seq d 0 f = (let f = f\<lparr>f_offset := n0, f_block_end := bs\<rparr> in if n0 + 4 > length d then (f, Inl EAGAIN) else read_seq d f)"
  using read_first(2) [OF assms(1,2)] assms(2,3) by (simp add: block_seq_def block_seq_with_def io_block_def geom_def Let_def)

lemma block_seq_empty:
  assumes "file_log mk bs n0 d [] q" "geom mk bs f" "f_size_cache f = length d"
  shows "\<exists>f' off b. block_seq d 0 f = (f', Inl EAGAIN) \<and> at_pos mk bs f' q \<and> f' = f\<lparr>f_offset := off, f_block_end := b\<rparr>"
proof -
  let ?f = "f\<lparr>f_offset := n0, f_block_end := bs\<rparr>"
  have q: "q = (n0, bs)" using assms(1) by (auto simp: file_log_def elim: path_NilE)
  have z: "zero_from d n0" "n0 \<le> bs" using assms(1) q by (auto simp: file_log_def)
  show ?thesis
  proof (cases "n0 + 4 > length d")
    case True
    then show ?thesis using block_seq_first [OF assms] assms(2) q by (auto simp: at_pos_def geom_def Let_def)
  next
    case False
    then show ?thesis
      using block_seq_first [OF assms] read_frame_zero [OF z(1), of ?f] z(2) assms(2) q
      by (auto simp: read_seq_def at_pos_def geom_def io_block_def Let_def)
  qed
qed

text \<open>The block of the first message.\<close>

definition first_block :: "nat \<Rightarrow> nat \<Rightarrow> nat" where
  "first_block bs n0 = (if n0 + 17 > bs then 1 else 0)"

lemma first_at_msg:
  assumes "file_log mk bs n0 d (m # ms) q" "first_fits mk bs n0 d (m # ms)" "\<not> n0 + 17 > bs" "geom mk bs f"
  shows "at_msg mk bs d (f\<lparr>f_offset := n0, f_block_end := bs\<rparr>) m ms q"
proof -
  have h: "holds d n0 (enc mk m)" "n0 + msg_len m \<le> bs" using assms(2,3) by (auto simp: first_fits_def)
  have p: "path mk bs d (n0, bs) (m # ms) q" "bs < 2 ^ 30" using assms(1) by (simp_all add: file_log_def)
  have "path mk bs d (n0 + msg_len m, bs) ms q \<and> fmsg_ok bs m"
    using p(1)
  proof (rule path_ConsE)
    fix off b
    assume *: "(n0, bs) = (off, b)" "b < off + 17 \<or> holds d off (le32 (- 1))"
    then have "take 4 (drop n0 d) = le32 (- 1)" using assms(3) by (simp add: holds_def)
    moreover have "holds d n0 (le32 (frame_word mk (msg_len m)))" using h(1) by (simp add: enc_def holds_append)
    then have "take 4 (drop n0 d) = le32 (frame_word mk (msg_len m))" by (simp add: holds_def)
    ultimately have "frame_word mk (msg_len m) = - 1" by (metis un_le32_le32)
    then show ?thesis using frame_word_not_skip [of "msg_len m" mk] h(2) p(2) by simp
  qed simp
  then show ?thesis using h assms(4) file_log_pos [OF assms(1)] by (simp add: at_msg_def geom_def)
qed

lemma first_starts:
  assumes "file_log mk bs n0 d (m # ms) q" "first_fits mk bs n0 d (m # ms)"
  shows "starts_block mk bs d (first_block bs n0) m ms q"
    "geom mk bs f \<Longrightarrow> f_size_cache f = length d \<Longrightarrow>
      \<exists>f'. block_seq d 0 f = (f', Inr m) \<and> at_msg mk bs d f' m ms q \<and> in_block bs (first_block bs n0) f f'"
proof -
  have p: "path mk bs d (n0, bs) (m # ms) q" "n0 \<le> bs" using assms(1) by (simp_all add: file_log_def)
  have b: "\<exists>f'. block_seq d 0 f = (f', Inr m) \<and> at_msg mk bs d f' m ms q \<and> in_block bs (first_block bs n0) f f'"
    if g: "geom mk bs f" and c: "f_size_cache f = length d" for f
  proof (cases "n0 + 17 > bs")
    case True
    let ?f = "f\<lparr>f_offset := bs + 5, f_block_end := bs + bs\<rparr>" and ?g = "f\<lparr>f_offset := n0, f_block_end := bs\<rparr>"
    have e: "holds d bs (header mk)" "holds d (bs + 5) (enc mk m)" "fmsg_ok bs m" "path mk bs d (bs + 5 + msg_len m, bs + bs) ms q"
      using path_at_end [OF p(1) True] by auto
    have m: "at_msg mk bs d ?f m ms q" using next_at_msg [OF g file_log_pos [OF assms(1)] e(2,3,4)] .
    have l: "n0 + 4 \<le> length d" using e(1) p(2) by (simp add: holds_def)
    have "shift_block d bs ?g = (?f, None)"
      using shift_block_header(1) [of mk bs ?g d bs] g e(1,3) by (simp add: geom_def fmsg_ok_def)
    then have "read_seq d ?g = (?f, Inr m)"
      using True at_msg_frame(1,3) [OF m] by (simp add: read_seq_def read_frame_def)
    then show ?thesis using block_seq_first [OF assms(1) g c] l m True by (auto simp: in_block_def first_block_def Let_def)
  next
    case False
    note m = first_at_msg [OF assms False g]
    have l: "n0 + 4 \<le> length d" using m msg_len_ge [of m] by (auto simp: at_msg_def holds_def)
    have "read_seq d (f\<lparr>f_offset := n0, f_block_end := bs\<rparr>) = (f\<lparr>f_offset := n0, f_block_end := bs\<rparr>, Inr m)"
      using at_msg_frame(2,3) [OF m] by (simp add: read_seq_def)
    then show ?thesis using block_seq_first [OF assms(1) g c] l m False by (auto simp: in_block_def first_block_def Let_def)
  qed
  then show "geom mk bs f \<Longrightarrow> f_size_cache f = length d \<Longrightarrow>
      \<exists>f'. block_seq d 0 f = (f', Inr m) \<and> at_msg mk bs d f' m ms q \<and> in_block bs (first_block bs n0) f f'" .
  show "starts_block mk bs d (first_block bs n0) m ms q"
  proof (cases "n0 + 17 > bs")
    case True
    then show ?thesis using path_at_end [OF p(1) True] block_header [of d 1 bs mk m ms q] by (simp add: first_block_def)
  next
    case False
    have "\<exists>f'. shift_block d (0 * bs) f = (f', None) \<and> at_msg mk bs d f' m ms q \<and> in_block bs 0 f f'" if "geom mk bs f" for f
      using read_first(3) [OF assms(1) that] first_at_msg [OF assms False that] by (auto simp: in_block_def)
    then show ?thesis using b False by (simp add: starts_block_def first_block_def)
  qed
qed

section \<open>Search\<close>

declare seek_bisect.simps [simp del] bounds_last.simps [simp del]

definition moved :: "file_t \<Rightarrow> file_t \<Rightarrow> bool" where
  "moved f f' \<longleftrightarrow> (\<exists>off b. f' = f\<lparr>f_offset := off, f_block_end := b\<rparr>)"

lemma moved_simps:
  assumes "moved f f'"
  shows "geom mk bs f' = geom mk bs f" "f_size_cache f' = f_size_cache f" "f_exact_last_seq f' = f_exact_last_seq f" "f_seq f' = f_seq f"
  using assms by (auto simp: moved_def geom_def)

lemma moved_refl: "moved f f"
  unfolding moved_def by (intro exI [of _ "f_offset f"] exI [of _ "f_block_end f"]) simp

lemma moved_trans: "moved f f' \<Longrightarrow> moved f' f'' \<Longrightarrow> moved f f''"
proof -
  assume "moved f f'" "moved f' f''"
  then obtain off b off' b' where "f' = f\<lparr>f_offset := off, f_block_end := b\<rparr>" "f'' = f'\<lparr>f_offset := off', f_block_end := b'\<rparr>" unfolding moved_def by blast
  then have "f'' = f\<lparr>f_offset := off', f_block_end := b'\<rparr>" by simp
  then show ?thesis unfolding moved_def by blast
qed

lemma shift_moved: "moved f (io_shift n f)"
proof -
  have "io_shift n f = f\<lparr>f_offset := f_offset (io_shift n f), f_block_end := f_block_end f\<rparr>" by (simp add: io_shift_def)
  then show ?thesis unfolding moved_def by blast
qed

lemma in_block_moved: "in_block bs k f f' \<Longrightarrow> moved f f' \<and> f_block_end f' = k * bs + bs"
  by (auto simp: in_block_def moved_def)

lemma log_blocks:
  assumes "file_log mk bs n0 d ms q" "first_fits mk bs n0 d ms" "ms \<noteq> []" "first_block bs n0 \<le> k" "k * bs < snd q"
  shows "\<exists>us m vs. ms = us @ m # vs \<and> starts_block mk bs d k m vs q"
proof (cases "k = first_block bs n0")
  case True
  obtain m vs where "ms = m # vs" using assms(3) by (cases ms) auto
  then show ?thesis using first_starts(1) assms(1,2) True by (metis append_Nil)
next
  case False
  then have "0 < k" using assms(4) by simp
  then show ?thesis using path_blocks [of mk bs d "(n0, bs)" ms q k] assms file_log_pos [OF assms(1)] by (simp add: file_log_def)
qed

lemma zero_block:
  assumes "zero_from d z" "z \<le> k * bs" "geom mk bs f" "17 \<le> bs"
  shows "block_seq d k f = (io_block (k * bs) f, Inl EAGAIN)"
proof -
  have "read_frame d (io_block (k * bs) f) = (io_block (k * bs) f, Inl EAGAIN)"
    using read_frame_zero [OF assms(1), of "io_block (k * bs) f"] assms(2,3,4) by (simp add: io_block_def geom_def)
  then show ?thesis using assms(3) by (simp add: block_seq_def block_seq_with_def geom_def)
qed

lemma io_block_moved: "moved f (io_block n f)"
  by (auto simp: moved_def io_block_def)

lemma file_log_dims: "file_log mk bs n0 d ms q \<Longrightarrow> 17 \<le> bs \<and> zero_from d (fst q) \<and> path mk bs d (n0, bs) ms q \<and> fst q \<le> snd q"
  using file_log_end [of mk bs n0 d ms q] by (auto simp: file_log_def pos_ok_def)

lemma seek_last_ok:
  assumes "file_log mk bs n0 d ms q" "first_fits mk bs n0 d ms" "ms \<noteq> [] \<or> K = 0" "snd q = K * bs + bs"
  shows "K \<le> n \<Longrightarrow> geom mk bs f \<Longrightarrow> f_size_cache f = length d \<Longrightarrow> \<exists>f'. seek_last d n f = (f', Inr K) \<and> moved f f'"
proof (induction n arbitrary: f)
  case 0
  then show ?case using moved_refl by simp
next
  case (Suc n)
  note dims = file_log_dims [OF assms(1)]
  show ?case
  proof (cases "Suc n = K")
    case True
    have "first_block bs n0 \<le> K" "K * bs < snd q" using True assms(4) dims by (auto simp: first_block_def)
    then obtain us m vs where "starts_block mk bs d (Suc n) m vs q" using log_blocks [OF assms(1,2)] assms(3) True by blast
    then show ?thesis using Suc.prems True in_block_moved unfolding starts_block_def by fastforce
  next
    case False
    then have k: "K \<le> n" using Suc.prems(1) by simp
    have "snd q \<le> Suc n * bs" using k assms(4) by (simp add: add.commute)
    then have z: "block_seq d (Suc n) f = (io_block (Suc n * bs) f, Inl EAGAIN)"
      using zero_block [of d "fst q" "Suc n" bs mk f] dims Suc.prems(2) by simp
    obtain f' where "seek_last d n (io_block (Suc n * bs) f) = (f', Inr K)" "moved (io_block (Suc n * bs) f) f'"
      using Suc.IH [OF k] Suc.prems moved_simps [OF io_block_moved] by metis
    then show ?thesis using z moved_trans [OF io_block_moved] by auto
  qed
qed

lemma sorted_before:
  assumes "sorted_wrt (<) (map fm_seq (us @ m # vs))" "fm_seq m \<le> s"
  shows "\<forall>x \<in> set us. fm_seq x < s"
  using assms by (auto simp: sorted_wrt_append)

lemma seek_bisect_ok:
  assumes log: "file_log mk bs n0 d ms q" "first_fits mk bs n0 d ms" "ms \<noteq> []" "sorted_wrt (<) (map fm_seq ms)"
  shows "first_block bs n0 \<le> first \<Longrightarrow> (lst - 1) * bs < snd q \<Longrightarrow> geom mk bs f \<Longrightarrow> f_size_cache f = length d \<Longrightarrow>
    ms = us @ m # vs \<Longrightarrow> starts_block mk bs d first m vs q \<Longrightarrow> \<forall>x \<in> set us. fm_seq x < s \<Longrightarrow>
    \<exists>f' r us m vs. seek_bisect d s first lst f = (f', Inr r) \<and> moved f f' \<and> ms = us @ m # vs \<and> (\<forall>x \<in> set us. fm_seq x < s) \<and>
      (case r of None \<Rightarrow> at_msg mk bs d f' m vs q \<and> fm_seq m = s | Some k \<Rightarrow> starts_block mk bs d k m vs q)"
proof (induction "lst - first" arbitrary: first lst f us m vs rule: less_induct)
  case less
  show ?case
  proof (cases "first + 1 < lst")
    case False
    then have "seek_bisect d s first lst f = (f, Inr (Some first))" by (simp add: seek_bisect.simps [of d s first lst f])
    then show ?thesis using less.prems moved_refl by (intro exI [of _ f] exI [of _ "Some first"] exI [of _ us] exI [of _ m] exI [of _ vs]) simp
  next
    case True
    define mid where "mid = (first + lst) div 2"
    have mid: "first < mid" "mid < lst" using True by (auto simp: mid_def)
    have "mid * bs \<le> (lst - 1) * bs" using mid(2) by (intro mult_le_mono1) simp
    then have mq: "first_block bs n0 \<le> mid" "mid * bs < snd q" "(mid - 1) * bs < snd q"
      using mid(1) less.prems(1,2) mult_le_mono1 [of "mid - 1" mid bs] by linarith+
    obtain us' m' vs' where b: "ms = us' @ m' # vs'" "starts_block mk bs d mid m' vs' q" using log_blocks [OF log(1-3) mq(1,2)] by blast
    obtain f1 where f1: "block_seq d mid f = (f1, Inr m')" "at_msg mk bs d f1 m' vs' q" "moved f f1"
      using b(2) less.prems(3,4) in_block_moved unfolding starts_block_def by blast
    have g1: "geom mk bs f1" "f_size_cache f1 = length d" using moved_simps [OF f1(3)] less.prems(3,4) by simp_all
    have eq: "seek_bisect d s first lst f =
        (if fm_seq m' = s then (f1, Inr None) else if fm_seq m' > s then seek_bisect d s first mid f1 else seek_bisect d s mid lst f1)"
      using True f1(1) by (simp add: seek_bisect.simps [of d s first lst f] mid_def Let_def)
    consider "fm_seq m' = s" | "fm_seq m' > s" | "fm_seq m' < s" by linarith
    then show ?thesis
    proof cases
      case 1
      then have "\<forall>x \<in> set us'. fm_seq x < s" using sorted_before [of us' m' vs' s] log(4) b(1) by simp
      moreover have "seek_bisect d s first lst f = (f1, Inr None)" using eq 1 by simp
      ultimately show ?thesis using f1(2,3) b(1) 1 by (intro exI [of _ f1] exI [of _ None] exI [of _ us'] exI [of _ m'] exI [of _ vs']) simp
    next
      case 2
      then have "seek_bisect d s first lst f = seek_bisect d s first mid f1" using eq by simp
      moreover have "mid - first < lst - first" using mid by simp
      ultimately show ?thesis
        using less.hyps [OF _ less.prems(1) mq(3) g1 less.prems(5,6,7)] moved_trans [OF f1(3)] by metis
    next
      case 3
      then have "seek_bisect d s first lst f = seek_bisect d s mid lst f1" using eq by simp
      moreover have "lst - mid < lst - first" using mid by simp
      moreover have "\<forall>x \<in> set us'. fm_seq x < s" using sorted_before [of us' m' vs' s] log(4) b(1) 3 by simp
      ultimately show ?thesis
        using less.hyps [OF _ mq(1) less.prems(2) g1 b(1,2)] moved_trans [OF f1(3)] by metis
    qed
  qed
qed

text \<open>The scan from a position to the first message that is not before \<open>s\<close>.\<close>

lemma seek_loop_at_msg:
  assumes "read_frame d f0 = (f, Inr (int (msg_len m)))" "at_msg mk bs d f m ms q" "seek_next d f0 = (f0, None)"
  shows "seek_loop d s f0 = (if fm_seq m \<ge> s then Some (f, None) else seek_loop d s (io_shift (int (msg_len m)) f))"
  using assms(1,3) at_msg_frame(3) [OF assms(2)] by (simp add: seek_loop.simps [of d s f0] del: io_shift_nat)

lemma seek_loop_ok:
  "path mk bs d (off, b) ms q \<Longrightarrow> pos_ok bs (off, b) \<Longrightarrow> zero_from d (fst q) \<Longrightarrow> geom mk bs f \<Longrightarrow> f_offset f = off \<Longrightarrow> f_block_end f = b \<Longrightarrow>
    \<exists>f' r. seek_loop d s f = Some (f', r) \<and> moved f f' \<and>
      (case dropWhile (\<lambda>m. fm_seq m < s) ms of
         [] \<Rightarrow> r = Some EAGAIN \<and> at_pos mk bs f' q
       | m # vs \<Rightarrow> r = None \<and> at_msg mk bs d f' m vs q)"
proof (induction ms arbitrary: off b f)
  case Nil
  have q: "q = (off, b)" using Nil.prems(1) by (rule path_NilE)
  have n: "seek_next d f = (f, None)" using Nil.prems by (simp add: seek_next_def pos_ok_def geom_def)
  obtain f' where f': "read_frame d f = (f', Inl EAGAIN)" "at_pos mk bs f' q" "moved f f'"
    using read_frame_zero [OF Nil.prems(3), of f] Nil.prems q io_block_moved moved_refl
    by (auto simp: pos_ok_def at_pos_def geom_def io_block_def split: if_splits)
  have "seek_loop d s f = Some (f', Some EAGAIN)" using n f'(1) by (simp add: seek_loop.simps [of d s f])
  then show ?case using f' by auto
next
  case (Cons m ms)
  have n: "seek_next d f = (f, None)" "seek_next d (shift_skip f) = (shift_skip f, None)"
    using Cons.prems by (auto simp: seek_next_def pos_ok_def geom_def shift_skip_def)
  obtain f0 f1 where f1: "seek_loop d s f = seek_loop d s f0" "read_frame d f0 = (f1, Inr (int (msg_len m)))" "at_msg mk bs d f1 m ms q" "moved f f1"
    "seek_next d f0 = (f0, None)"
  proof -
    from read_frame_path [OF Cons.prems(1,2,4,5,6)] consider
      f' where "read_frame d f = (f', Inr (int (msg_len m)))" "at_msg mk bs d f' m ms q" "moved f f'"
    | f' where "read_frame d f = (f, Inr (- 1))" "read_frame d (shift_skip f) = (f', Inr (int (msg_len m)))" "at_msg mk bs d f' m ms q" "moved f f'"
      unfolding moved_def by blast
    then show ?thesis
    proof cases
      case 1
      then show ?thesis using that n(1) by blast
    next
      case 2
      have "seek_loop d s f = seek_loop d s (shift_skip f)" using n(1) 2(1) by (simp add: seek_loop.simps [of d s f])
      then show ?thesis using that 2 n(2) by blast
    qed
  qed
  show ?case
  proof (cases "fm_seq m \<ge> s")
    case True
    then show ?thesis using f1(1,3,4) seek_loop_at_msg [OF f1(2,3,5), of s] by auto
  next
    case False
    let ?f = "io_shift (int (msg_len m)) f1"
    have g: "geom mk bs ?f" "moved f1 ?f" using f1(3) by (simp add: at_msg_def geom_def) (rule shift_moved)
    have "seek_loop d s f = seek_loop d s ?f" using False f1(1) seek_loop_at_msg [OF f1(2,3,5), of s] by simp
    moreover have "\<exists>f' r. seek_loop d s ?f = Some (f', r) \<and> moved ?f f' \<and>
      (case dropWhile (\<lambda>m. fm_seq m < s) ms of [] \<Rightarrow> r = Some EAGAIN \<and> at_pos mk bs f' q | m # vs \<Rightarrow> r = None \<and> at_msg mk bs d f' m vs q)"
      using Cons.IH [OF at_msg_shift(3,2) [OF f1(3)] Cons.prems(3) g(1)] by simp
    ultimately show ?thesis using False moved_trans [OF f1(4)] moved_trans [OF g(2)] by auto
  qed
qed

lemma at_msg_path:
  assumes "at_msg mk bs d f m vs q"
  shows "at_pos mk bs f (f_offset f, f_block_end f)" "pos_ok bs (f_offset f, f_block_end f)" "path mk bs d (f_offset f, f_block_end f) (m # vs) q"
  using assms by (auto simp: at_msg_def at_pos_def intro: path.path_msg)

text \<open>Where a search for \<open>s\<close> ends: at the messages that are not before \<open>s\<close>.\<close>

definition found :: "bool \<Rightarrow> nat \<Rightarrow> disk \<Rightarrow> fmsg list \<Rightarrow> nat \<times> nat \<Rightarrow> int \<Rightarrow> file_t \<Rightarrow> errno option \<Rightarrow> bool" where
  "found mk bs d ms q s f r \<longleftrightarrow>
     (\<exists>p. at_pos mk bs f p \<and> pos_ok bs p \<and> path mk bs d p (dropWhile (\<lambda>m. fm_seq m < s) ms) q) \<and>
     (r = (if \<exists>m \<in> set ms. fm_seq m \<ge> s then None else Some EAGAIN))"

lemma foundI:
  assumes "case dropWhile (\<lambda>m. fm_seq m < s) ms of [] \<Rightarrow> r = Some EAGAIN \<and> at_pos mk bs f q | m # vs \<Rightarrow> r = None \<and> at_msg mk bs d f m vs q" "pos_ok bs q"
  shows "found mk bs d ms q s f r"
proof (cases "dropWhile (\<lambda>m. fm_seq m < s) ms")
  case Nil
  then have "\<forall>m \<in> set ms. fm_seq m < s" by (simp add: dropWhile_eq_Nil_conv)
  then have "\<not> (\<exists>m \<in> set ms. fm_seq m \<ge> s)" by (auto simp: not_le)
  moreover have "r = Some EAGAIN" "at_pos mk bs f q" using assms(1) Nil by simp_all
  ultimately show ?thesis unfolding found_def Nil using assms(2) path.path_nil [of mk bs d q] by (intro conjI exI [of _ q]) simp_all
next
  case (Cons m vs)
  have "m \<in> set ms" using Cons by (metis list.set_intros(1) set_dropWhileD)
  moreover have "\<not> fm_seq m < s" using hd_dropWhile [of "\<lambda>m. fm_seq m < s" ms] Cons by auto
  ultimately have e: "\<exists>m \<in> set ms. fm_seq m \<ge> s" by (auto simp: not_less)
  have "at_msg mk bs d f m vs q" "r = None" using assms(1) Cons by auto
  then show ?thesis unfolding found_def Cons using at_msg_path [of mk bs d f m vs q] e by auto
qed

lemma dropWhile_before: "\<forall>x \<in> set us. P x \<Longrightarrow> dropWhile P (us @ vs) = dropWhile P vs"
  by (simp add: dropWhile_append2)

lemma end_block_index: "pos_ok bs q \<Longrightarrow> \<exists>K. snd q = K * bs + bs"
proof -
  assume p: "pos_ok bs q"
  then obtain j where j: "snd q = j * bs" by (auto simp: pos_ok_def mult.commute elim: dvdE)
  moreover have "j \<noteq> 0" using p j by (intro notI) (auto simp: pos_ok_def)
  ultimately have "snd q = (j - 1) * bs + bs" by (cases j) auto
  then show ?thesis by blast
qed

lemma last_block_ge:
  assumes "K * bs < n" "0 < bs" "f_block_size f = bs"
  shows "K \<le> last_block n f"
proof -
  have "(K + 1) * bs \<le> n + bs - 1" using assms by simp
  then have "K + 1 \<le> (n + bs - 1) div bs" using assms(2) by (simp add: less_eq_div_iff_mult_less_eq)
  then show ?thesis using assms(3) by (simp add: last_block_def)
qed

lemma file_seek_ok:
  assumes "file_log mk bs n0 d ms q" "first_fits mk bs n0 d ms" "sorted_wrt (<) (map fm_seq ms)" "geom mk bs f"
  shows "\<exists>f' r. file_seek d s f = Some (f', r) \<and> found mk bs d ms q s f' r"
proof -
  define f0 where "f0 = f\<lparr>f_size_cache := length d\<rparr>"
  have g0: "geom mk bs f0" "f_size_cache f0 = length d" "file_size d f = (f0, length d)" using assms(4) by (simp_all add: f0_def geom_def file_size_def)
  note dims = file_log_dims [OF assms(1)]
  have qok: "pos_ok bs q" using file_log_end [OF assms(1)] .
  then obtain K where K: "snd q = K * bs + bs" using end_block_index by blast
  show ?thesis
  proof (cases ms)
    case Nil
    then have q: "q = (n0, bs)" using dims by (auto elim: path_NilE)
    then have "K = 0" using K dims by simp
    then obtain f1 where f1: "seek_last d (last_block (length d) f0) f0 = (f1, Inr 0)" "moved f0 f1"
      using seek_last_ok [OF assms(1,2) _ K _ g0(1,2)] by blast
    have g1: "geom mk bs f1" "f_size_cache f1 = length d" using moved_simps [OF f1(2)] g0 by simp_all
    obtain f2 where "block_seq d 0 f1 = (f2, Inl EAGAIN)" "at_pos mk bs f2 q" using block_seq_empty [OF _ g1] assms(1) Nil by blast
    moreover from this have "found mk bs d ms q s f2 (Some EAGAIN)" using Nil qok by (intro foundI) simp_all
    ultimately show ?thesis using g0(3) f1(1) by (auto simp: file_seek_def)
  next
    case (Cons m0 ms0)
    then have ne: "ms \<noteq> []" by simp
    have "K * bs < length d" using qok K assms(1) by (auto simp: pos_ok_def file_log_def)
    then have "K \<le> last_block (length d) f0" using last_block_ge [of K bs "length d" f0] g0(1) dims by (auto simp: geom_def)
    then obtain f1 where f1: "seek_last d (last_block (length d) f0) f0 = (f1, Inr K)" "moved f0 f1"
      using seek_last_ok [OF assms(1,2) _ K _ g0(1,2)] ne by blast
    have g1: "geom mk bs f1" "f_size_cache f1 = length d" using moved_simps [OF f1(2)] g0 by simp_all
    let ?j = "first_block bs n0"
    obtain f2 where f2: "block_seq d 0 f1 = (f2, Inr m0)" "at_msg mk bs d f2 m0 ms0 q" "in_block bs ?j f1 f2"
      using first_starts(2) [OF assms(1,2) [unfolded Cons] g1] by blast
    have g2: "geom mk bs f2" "f_size_cache f2 = length d" using moved_simps in_block_moved [OF f2(3)] g1 by metis+
    have j: "f_block_end f2 div f_block_size f2 - 1 = ?j"
      using in_block_moved [OF f2(3)] g2(1) dims by (simp add: geom_def)
    obtain f3 r us m vs where f3: "seek_bisect d s ?j (K + 1) f2 = (f3, Inr r)" "moved f2 f3" "ms = us @ m # vs" "\<forall>x \<in> set us. fm_seq x < s"
      "case r of None \<Rightarrow> at_msg mk bs d f3 m vs q \<and> fm_seq m = s | Some k \<Rightarrow> starts_block mk bs d k m vs q"
      using seek_bisect_ok [OF assms(1,2) ne assms(3) order_refl, of "K + 1" f2 "[]" m0 ms0 s] K dims g2 first_starts(1) [OF assms(1,2) [unfolded Cons]] Cons by auto
    have g3: "geom mk bs f3" "f_size_cache f3 = length d" using moved_simps [OF f3(2)] g2 by simp_all
    have dw: "dropWhile (\<lambda>m. fm_seq m < s) ms = dropWhile (\<lambda>m. fm_seq m < s) (m # vs)" using dropWhile_before f3(3,4) by simp
    have eq: "file_seek d s f = (case r of None \<Rightarrow> Some (f3, None) | Some k \<Rightarrow> seek_block d s k f3)"
      unfolding file_seek_def g0(3) Let_def prod.case f1(1) f2(1) sum.case j f3(1) by (simp split: option.splits)
    show ?thesis
    proof (cases r)
      case None
      then have "found mk bs d ms q s f3 None" using f3(5) dw qok by (intro foundI) auto
      then show ?thesis using eq None by simp
    next
      case (Some k)
      then obtain f4 where f4: "shift_block d (k * bs) f3 = (f4, None)" "at_msg mk bs d f4 m vs q"
        using f3(5) g3 unfolding starts_block_def by auto
      have g4: "geom mk bs f4" using f4(2) by (simp add: at_msg_def)
      obtain f5 r5 where "seek_loop d s f4 = Some (f5, r5)"
        "case dropWhile (\<lambda>m. fm_seq m < s) (m # vs) of [] \<Rightarrow> r5 = Some EAGAIN \<and> at_pos mk bs f5 q | m # vs \<Rightarrow> r5 = None \<and> at_msg mk bs d f5 m vs q"
        using seek_loop_ok [OF at_msg_path(3,2) [OF f4(2)] _ g4 refl refl, of s] dims by blast
      then have "found mk bs d ms q s f5 r5" "file_seek d s f = Some (f5, r5)"
        using foundI dw qok eq Some f4(1) g3(1) by (simp_all add: seek_block_def geom_def)
      then show ?thesis by blast
    qed
  qed
qed

section \<open>Bounds\<close>

lemma bounds_last_ok:
  assumes "file_log mk bs n0 d ms q" "first_fits mk bs n0 d ms" "ms \<noteq> []" "snd q = K * bs + bs"
  shows "K \<le> n \<Longrightarrow> geom mk bs f \<Longrightarrow> f_size_cache f = length d \<Longrightarrow>
    \<exists>f' us m vs. bounds_last d n f = Some (f', Inr m) \<and> ms = us @ m # vs \<and> at_msg mk bs d f' m vs q \<and> moved f f'"
proof (induction n arbitrary: f)
  case 0
  obtain m vs where ms: "ms = m # vs" using assms(3) by (cases ms) auto
  then have "ms = [] @ m # vs" by simp
  moreover obtain f' where "block_seq d 0 f = (f', Inr m)" "at_msg mk bs d f' m vs q" "moved f f'"
    using first_starts(2) [OF assms(1,2) [unfolded ms] 0(2,3)] in_block_moved by blast
  ultimately show ?case by (simp add: bounds_last.simps [of d 0]) blast
next
  case (Suc n)
  note dims = file_log_dims [OF assms(1)]
  show ?case
  proof (cases "Suc n = K")
    case True
    have "first_block bs n0 \<le> K" "K * bs < snd q" using True assms(4) dims by (auto simp: first_block_def)
    then obtain us m vs where b: "ms = us @ m # vs" "starts_block mk bs d (Suc n) m vs q" using log_blocks [OF assms(1-3)] True by blast
    then obtain f' where "block_seq d (Suc n) f = (f', Inr m)" "at_msg mk bs d f' m vs q" "moved f f'"
      using Suc.prems(2,3) in_block_moved unfolding starts_block_def by blast
    then show ?thesis using b(1) by (simp add: bounds_last.simps [of d "Suc n"]) blast
  next
    case False
    then have k: "K \<le> n" using Suc.prems(1) by simp
    have "snd q \<le> Suc n * bs" using k assms(4) by (simp add: add.commute)
    then have z: "block_seq d (Suc n) f = (io_block (Suc n * bs) f, Inl EAGAIN)"
      using zero_block [of d "fst q" "Suc n" bs mk f] dims Suc.prems(2) by simp
    have g: "geom mk bs (io_block (Suc n * bs) f)" "f_size_cache (io_block (Suc n * bs) f) = length d"
      using moved_simps [OF io_block_moved] Suc.prems by metis+
    have "bounds_last d (Suc n) f = bounds_last d n (io_block (Suc n * bs) f)" using z by (simp add: bounds_last.simps [of d "Suc n"])
    then show ?thesis using Suc.IH [OF k g] moved_trans [OF io_block_moved] by metis
  qed
qed

text \<open>What the scan to the end changes.\<close>

definition scanned :: "file_t \<Rightarrow> int \<Rightarrow> file_t \<Rightarrow> bool" where
  "scanned f s f' \<longleftrightarrow> (\<exists>off b. f' = f\<lparr>f_offset := off, f_block_end := b, f_seq := s\<rparr>)"

lemma scanned_trans: "moved f f1 \<Longrightarrow> scanned (f1\<lparr>f_seq := t\<rparr>) s f' \<Longrightarrow> scanned f s f'"
proof -
  assume "moved f f1" "scanned (f1\<lparr>f_seq := t\<rparr>) s f'"
  then obtain off b off' b' where "f1 = f\<lparr>f_offset := off, f_block_end := b\<rparr>" "f' = f1\<lparr>f_seq := t, f_offset := off', f_block_end := b', f_seq := s\<rparr>"
    unfolding moved_def scanned_def by blast
  then have "f' = f\<lparr>f_offset := off', f_block_end := b', f_seq := s\<rparr>" by simp
  then show ?thesis unfolding scanned_def by blast
qed

lemma moved_scanned: "moved f f' \<Longrightarrow> scanned f (f_seq f) f'"
proof -
  assume "moved f f'"
  then obtain off b where "f' = f\<lparr>f_offset := off, f_block_end := b\<rparr>" unfolding moved_def by blast
  then have "f' = f\<lparr>f_offset := off, f_block_end := b, f_seq := f_seq f\<rparr>" by simp
  then show ?thesis unfolding scanned_def by blast
qed

lemma bounds_loop_at_msg:
  assumes "read_frame d f0 = (f, Inr (int (msg_len m)))" "at_msg mk bs d f m ms q" "f_exact_last_seq f0"
  shows "bounds_loop d bp f0 = bounds_loop d bp (io_shift (int (msg_len m)) (f\<lparr>f_seq := fm_seq m\<rparr>))"
  using assms(1,3) at_msg_frame(3) [OF assms(2)] by (simp add: bounds_loop.simps [of d bp f0] del: io_shift_nat)

lemma bounds_loop_ok:
  "path mk bs d (off, b) ms q \<Longrightarrow> pos_ok bs (off, b) \<Longrightarrow> zero_from d (fst q) \<Longrightarrow> geom mk bs f \<Longrightarrow> f_offset f = off \<Longrightarrow> f_block_end f = b \<Longrightarrow>
    f_exact_last_seq f \<Longrightarrow>
    \<exists>f'. bounds_loop d bp f = Some (f', None) \<and> at_pos mk bs f' q \<and> scanned f (if ms = [] then f_seq f else fm_seq (last ms)) f'"
proof (induction ms arbitrary: off b f)
  case Nil
  have q: "q = (off, b)" using Nil.prems(1) by (rule path_NilE)
  obtain f' where f': "read_frame d f = (f', Inl EAGAIN)" "at_pos mk bs f' q" "moved f f'"
    using read_frame_zero [OF Nil.prems(3), of f] Nil.prems q io_block_moved moved_refl
    by (auto simp: pos_ok_def at_pos_def geom_def io_block_def split: if_splits)
  then have "bounds_loop d bp f = Some (f', None)" using Nil.prems(7) by (simp add: bounds_loop.simps [of d bp f])
  then show ?case using f' moved_scanned by auto
next
  case (Cons m ms)
  obtain f0 f1 where f1: "bounds_loop d bp f = bounds_loop d bp f0" "read_frame d f0 = (f1, Inr (int (msg_len m)))" "at_msg mk bs d f1 m ms q" "moved f f1"
    "f_exact_last_seq f0"
  proof -
    from read_frame_path [OF Cons.prems(1,2,4,5,6)] consider
      f' where "read_frame d f = (f', Inr (int (msg_len m)))" "at_msg mk bs d f' m ms q" "moved f f'"
    | f' where "read_frame d f = (f, Inr (- 1))" "read_frame d (shift_skip f) = (f', Inr (int (msg_len m)))" "at_msg mk bs d f' m ms q" "moved f f'"
      unfolding moved_def by blast
    then show ?thesis
    proof cases
      case 1
      then show ?thesis using that Cons.prems(7) by blast
    next
      case 2
      have "bounds_loop d bp f = bounds_loop d bp (shift_skip f)" using Cons.prems(7) 2(1) by (simp add: bounds_loop.simps [of d bp f])
      moreover have "f_exact_last_seq (shift_skip f)" using Cons.prems(7) by (simp add: shift_skip_def)
      ultimately show ?thesis using that 2 by blast
    qed
  qed
  let ?f = "io_shift (int (msg_len m)) (f1\<lparr>f_seq := fm_seq m\<rparr>)"
  have g: "geom mk bs ?f" "f_exact_last_seq ?f"
    using f1(3) moved_simps(3) [OF f1(4)] Cons.prems(7) by (simp_all add: at_msg_def geom_def)
  obtain f' where f': "bounds_loop d bp ?f = Some (f', None)" "at_pos mk bs f' q" "scanned ?f (if ms = [] then f_seq ?f else fm_seq (last ms)) f'"
    using Cons.IH [OF at_msg_shift(3,2) [OF f1(3)] Cons.prems(3) g(1) _ _ g(2)] by auto
  have e: "?f = (io_shift (int (msg_len m)) f1)\<lparr>f_seq := fm_seq m\<rparr>" by simp
  have "scanned f (fm_seq (last (m # ms))) f'"
    using scanned_trans [OF moved_trans [OF f1(4) shift_moved] f'(3) [unfolded e]] by (simp split: if_splits)
  moreover have "bounds_loop d bp f = Some (f', None)" using f1(1) bounds_loop_at_msg [OF f1(2,3,5)] f'(1) by simp
  ultimately show ?case using f'(2) by auto
qed

lemma file_bounds_ok:
  assumes "file_log mk bs n0 d ms q" "first_fits mk bs n0 d ms" "geom mk bs f" "f_exact_last_seq f"
  shows "\<exists>f'. file_bounds d f = Some (f', if ms = [] then Some EAGAIN else None) \<and> at_pos mk bs f' q \<and>
    (\<exists>off b. f' = f\<lparr>f_offset := off, f_block_end := b, f_size_cache := length d, f_seq := if ms = [] then f_seq f else fm_seq (last ms),
      f_seq_begin := if ms = [] then f_seq_begin f else fm_seq (hd ms)\<rparr>)"
proof -
  define f0 where "f0 = f\<lparr>f_size_cache := length d\<rparr>"
  have g0: "geom mk bs f0" "f_size_cache f0 = length d" "file_size d f = (f0, length d)" using assms(3) by (simp_all add: f0_def geom_def file_size_def)
  note dims = file_log_dims [OF assms(1)]
  have len: "length d \<noteq> 0" using assms(1) by (auto simp: file_log_def)
  have qok: "pos_ok bs q" using file_log_end [OF assms(1)] .
  then obtain K where K: "snd q = K * bs + bs" using end_block_index by blast
  show ?thesis
  proof (cases ms)
    case Nil
    obtain f2 off b where f2: "block_seq d 0 f0 = (f2, Inl EAGAIN)" "at_pos mk bs f2 q" "f2 = f0\<lparr>f_offset := off, f_block_end := b\<rparr>"
      using block_seq_empty [OF _ g0(1,2)] assms(1) Nil by blast
    then have "file_bounds d f = Some (f2, Some EAGAIN)" using g0(3) len by (simp add: file_bounds_def)
    moreover have "f2 = f\<lparr>f_offset := off, f_block_end := b, f_size_cache := length d, f_seq := f_seq f, f_seq_begin := f_seq_begin f\<rparr>"
      using f2(3) by (simp add: f0_def)
    ultimately show ?thesis using f2(2) Nil by auto
  next
    case (Cons m0 ms0)
    then have ne: "ms \<noteq> []" by simp
    obtain f2 where f2: "block_seq d 0 f0 = (f2, Inr m0)" "moved f0 f2"
      using first_starts(2) [OF assms(1,2) [unfolded Cons] g0(1,2)] in_block_moved by blast
    define f3 where "f3 = f2\<lparr>f_seq_begin := fm_seq m0\<rparr>"
    have g3: "geom mk bs f3" "f_size_cache f3 = length d" "f_exact_last_seq f3"
      using moved_simps [OF f2(2)] g0 assms(4) by (simp_all add: f3_def f0_def geom_def)
    have "K * bs < length d" using qok K assms(1) by (auto simp: pos_ok_def file_log_def)
    then have "K \<le> last_block (length d) f3" using last_block_ge [of K bs "length d" f3] g3(1) dims by (auto simp: geom_def)
    then obtain f4 us m vs where f4: "bounds_last d (last_block (length d) f3) f3 = Some (f4, Inr m)" "ms = us @ m # vs" "at_msg mk bs d f4 m vs q" "moved f3 f4"
      using bounds_last_ok [OF assms(1,2) ne K _ g3(1,2)] by blast
    let ?f = "f4\<lparr>f_seq := fm_seq m\<rparr>"
    have g5: "geom mk bs ?f" "f_exact_last_seq ?f" using moved_simps [OF f4(4)] g3 by (simp_all add: geom_def)
    obtain f6 where f6: "bounds_loop d (f_block_end f4) ?f = Some (f6, None)" "at_pos mk bs f6 q" "scanned ?f (fm_seq (last (m # vs))) f6"
      using bounds_loop_ok [OF at_msg_path(3,2) [OF f4(3)] _ g5(1) _ _ g5(2)] dims by fastforce
    have "file_bounds d f = Some (f6, None)"
      using g0(3) len f2(1) f4(1) f6(1) by (simp add: file_bounds_def f3_def [symmetric] Let_def)
    moreover have "scanned f3 (fm_seq (last ms)) f6" using scanned_trans [OF f4(4) f6(3)] f4(2) by simp
    then obtain off b where "f6 = f3\<lparr>f_offset := off, f_block_end := b, f_seq := fm_seq (last ms)\<rparr>" unfolding scanned_def by blast
    then have "f6 = f\<lparr>f_offset := off, f_block_end := b, f_size_cache := length d, f_seq := fm_seq (last ms), f_seq_begin := fm_seq (hd ms)\<rparr>"
      using f2(2) Cons by (auto simp: f3_def f0_def moved_def)
    ultimately show ?thesis using f6(2) ne by auto
  qed
qed

section \<open>Metadata and opening\<close>

lemma at_pos_more [simp]:
  "at_pos mk bs (f\<lparr>f_pending := x\<rparr>) p = at_pos mk bs f p" "at_pos mk bs (f\<lparr>f_seq := s\<rparr>) p = at_pos mk bs f p"
  "at_pos mk bs (f\<lparr>f_seq_begin := s\<rparr>) p = at_pos mk bs f p"
  "at_pos mk bs (f\<lparr>f_size_cache := n\<rparr>) p = at_pos mk bs f p" "at_pos mk bs (f\<lparr>f_autoseq := a\<rparr>) p = at_pos mk bs f p"
  by (simp_all add: at_pos_def geom_def)

type_synonym scheme_text = "byte list \<times> byte list"

definition meta_ok :: "byte \<Rightarrow> nat \<Rightarrow> scheme_text \<Rightarrow> bool" where
  "meta_ok v bs sc \<longleftrightarrow> v < 2 \<and> length (fst sc) = 8 \<and> 49 + length (snd sc) \<le> bs \<and> bs < 2 ^ 30 \<and> 49 + length (snd sc) \<le> 4 * 1024 * 1024"

abbreviation meta_len :: "scheme_text \<Rightarrow> nat" where
  "meta_len sc \<equiv> 49 + length (snd sc)"

lemma length_meta: "length (fst sc) = 8 \<Longrightarrow> length (meta_bytes v b sc) = meta_len sc"
  by (simp add: meta_bytes_def)

lemma read_meta_ok:
  assumes "holds d 0 (meta_bytes v (word_of_nat bs) sc)" "meta_ok v bs sc"
  shows "read_meta d = Inr (v, 0, word_of_nat bs)"
proof -
  obtain rest where d: "d = meta_bytes v (word_of_nat bs) sc @ rest"
    using assms(1) unfolding holds_def by (metis append_take_drop_id drop0)
  have n: "meta_len sc < 2 ^ 30" using assms(2) by (simp add: meta_ok_def)
  have s: "sint (un_le32 (take 4 d)) = int (meta_len sc)"
    using sint_frame [OF n] unfolding d meta_bytes_def by simp
  let ?b = "[32, 0, v, 0] @ le32 (word_of_nat bs) @ fst sc @ replicate 16 0 @ snd sc @ [0x80]"
  have l: "length ?b = meta_len sc - 16" using assms(2) by (simp add: meta_ok_def)
  have "drop 16 d = ?b @ rest" unfolding d meta_bytes_def by simp
  then have b: "take (nat (int (meta_len sc)) - 16) (drop 16 d) = ?b" unfolding nat_int using l by (metis append_eq_conv_conj)
  have i: "un_le32 (take 4 (drop 4 d)) = meta_id" unfolding d meta_bytes_def by simp
  have ld: "16 \<le> length d" unfolding d meta_bytes_def by simp
  have v: "?b ! 2 = v" "?b ! 3 = 0" "last ?b = 0x80" "un_le32 (take 4 (drop 4 ?b)) = word_of_nat bs" by simp_all
  have "\<not> 2 \<le> v" using assms(2) by (auto simp: meta_ok_def not_le)
  then show ?thesis
    unfolding read_meta_def Let_def s b i l v using ld assms(2) by (simp add: meta_ok_def)
qed

text \<open>A file with metadata and messages \<open>ms\<close>.\<close>

definition tll_file :: "byte \<Rightarrow> nat \<Rightarrow> scheme_text \<Rightarrow> disk \<Rightarrow> fmsg list \<Rightarrow> nat \<times> nat \<Rightarrow> bool" where
  "tll_file v bs sc d ms q \<longleftrightarrow> meta_ok v bs sc \<and> holds d 0 (meta_bytes v (word_of_nat bs) sc) \<and> file_log (v \<ge> 1) bs (meta_len sc) d ms q"

lemma tll_fileI:
  assumes "meta_ok v bs sc" "holds d 0 (meta_bytes v (word_of_nat bs) sc)" "path (v \<ge> 1) bs d (meta_len sc, bs) ms q" "zero_from d (fst q)" "fst q \<le> length d"
  shows "tll_file v bs sc d ms q"
proof -
  have "holds d 0 (le32 (word_of_nat (meta_len sc)))" using assms(2) by (simp add: meta_bytes_def holds_append)
  moreover have "meta_len sc \<le> length d" using assms(1,2) length_meta [of sc] by (auto simp: meta_ok_def holds_def)
  ultimately show ?thesis using assms by (simp add: tll_file_def file_log_def meta_ok_def)
qed

lemma tll_file_pos: "tll_file v bs sc d ms q \<Longrightarrow> pos_ok bs (meta_len sc, bs) \<and> pos_ok bs q \<and> meta_len sc \<le> fst q \<and> path (v \<ge> 1) bs d (meta_len sc, bs) ms q"
  using file_log_pos [of "v \<ge> 1" bs "meta_len sc" d ms q] file_log_end [of "v \<ge> 1" bs "meta_len sc" d ms q] path_mono [of "v \<ge> 1" bs d "(meta_len sc, bs)" ms q]
  by (simp add: tll_file_def file_log_def)

lemma tll_file_keeps:
  assumes "tll_file v bs sc d ms q" "keeps_below (fst q) d d'" "zero_from d' (fst q)" "fst q \<le> length d'"
  shows "tll_file v bs sc d' ms q"
proof (rule tll_fileI)
  note p = tll_file_pos [OF assms(1)]
  show "meta_ok v bs sc" using assms(1) by (simp add: tll_file_def)
  then show "holds d' 0 (meta_bytes v (word_of_nat bs) sc)"
    using holds_keeps [OF _ assms(2), of 0 "meta_bytes v (word_of_nat bs) sc"] assms(1) p length_meta [of sc] by (simp add: tll_file_def meta_ok_def)
  show "path (v \<ge> 1) bs d' (meta_len sc, bs) ms q" using path_keeps [OF _ _ assms(2)] p by blast
qed (use assms in simp_all)

lemma path_length: "path mk bs d p ms q \<Longrightarrow> ms \<noteq> [] \<Longrightarrow> fst q \<le> length d"
proof (induction rule: path.induct)
  case (path_msg off m b ms q)
  show ?case
  proof (cases "ms = []")
    case True
    then have "q = (off + msg_len m, b)" using path_msg.hyps(4) by (auto elim: path_NilE)
    then show ?thesis using path_msg.hyps(1) by (simp add: holds_def)
  qed (rule path_msg.IH)
next
  case (path_next off b m ms q)
  show ?case
  proof (cases "ms = []")
    case True
    then have "q = (b + 5 + msg_len m, b + bs)" using path_next.hyps(5) by (auto elim: path_NilE)
    then show ?thesis using path_next.hyps(3) by (simp add: holds_def)
  qed (rule path_next.IH)
qed simp

lemma tll_file_written:
  assumes "tll_file v bs sc d ms q" "written (v \<ge> 1) bs d q m d' f'"
  shows "\<exists>q'. tll_file v bs sc d' (ms @ [m]) q' \<and> at_pos (v \<ge> 1) bs f' q' \<and> path (v \<ge> 1) bs d' q [m] q'"
proof -
  obtain q' where q': "path (v \<ge> 1) bs d' q [m] q'" "at_pos (v \<ge> 1) bs f' q'" "zero_from d' (fst q')" and k: "keeps_below (fst q) d d'"
    using assms(2) unfolding written_def by blast
  note p = tll_file_pos [OF assms(1)]
  have "path (v \<ge> 1) bs d' (meta_len sc, bs) (ms @ [m]) q'" using path_append [OF path_keeps [OF _ _ k order_refl] q'(1)] p by blast
  moreover have "meta_ok v bs sc" "holds d' 0 (meta_bytes v (word_of_nat bs) sc)"
    using holds_keeps [OF _ k, of 0 "meta_bytes v (word_of_nat bs) sc"] assms(1) p length_meta [of sc] by (auto simp: tll_file_def meta_ok_def)
  ultimately have "tll_file v bs sc d' (ms @ [m]) q'" using tll_fileI q'(3) path_length [OF q'(1)] by blast
  then show ?thesis using q' by blast
qed

lemma use_meta_geom: "meta_ok v bs sc \<Longrightarrow> geom (v \<ge> 1) bs (use_meta (v, 0, word_of_nat bs) f)"
  by (simp add: use_meta_def geom_def meta_ok_def unat_of_nat)

lemma open_tail_ok:
  assumes "tll_file v bs sc d ms q" "at_pos (v \<ge> 1) bs f q"
  shows "\<exists>d' f' n. open_tail (d, f) = (d', f') \<and> tll_file v bs sc d' ms q \<and> f' = f\<lparr>f_size_cache := n\<rparr> \<and> keeps_below (fst q) d d'"
proof -
  note p = tll_file_pos [OF assms(1)]
  have o: "fst q \<le> f_offset f" "fst q \<le> f_block_end f" using assms(2) p by (auto simp: at_pos_def pos_ok_def)
  have tr: "tll_file v bs sc (disk_truncate d n) ms q" "keeps_below (fst q) d (disk_truncate d n)" if "tll_file v bs sc d ms q" "fst q \<le> n" for d n
    using tll_file_keeps [OF that(1) keeps_truncate [OF that(2)] zero_truncate] that by (auto simp: tll_file_def file_log_def keeps_truncate)
  let ?t = "length d \<noteq> f_offset f \<and> f_offset f + 4 \<le> length d"
  let ?d = "if ?t then disk_truncate d (f_offset f) else d" and ?f = "if ?t then f\<lparr>f_size_cache := f_offset f\<rparr> else f"
  have 1: "tll_file v bs sc ?d ms q" "keeps_below (fst q) d ?d" using tr [OF assms(1) o(1)] assms(1) by auto
  have f: "\<exists>n. ?f = f\<lparr>f_size_cache := n\<rparr>" by (auto intro: exI [of _ "f_size_cache f"])
  show ?thesis
  proof (cases "f_tail_extra_blocks f = 0")
    case True
    then have "open_tail (d, f) = (?d, ?f)" by (simp add: open_tail_def f_truncate_def)
    then show ?thesis using 1 f by auto
  next
    case False
    let ?n = "f_block_end f + f_block_size f * f_tail_extra_blocks f"
    have "open_tail (d, f) = (disk_truncate ?d ?n, f\<lparr>f_size_cache := ?n\<rparr>)" using False by (simp add: open_tail_def f_truncate_def)
    moreover have "fst q \<le> ?n" using o(2) by simp
    ultimately show ?thesis using tr [OF 1(1)] keeps_below_trans [OF 1(2) _ order_refl] by blast
  qed
qed

lemma open_file_ok:
  assumes "tll_file v bs sc d ms q" "first_fits (v \<ge> 1) bs (meta_len sc) d ms" "geom (v \<ge> 1) bs f" "f_exact_last_seq f" "f_seq f = - 1"
  shows "\<exists>f1 r. file_bounds d f = Some (f1, r) \<and> (r = None \<or> r = Some EAGAIN) \<and> at_pos (v \<ge> 1) bs f1 q \<and>
    f_seq f1 = (if ms = [] then - 1 else fm_seq (last ms)) \<and> f_autoseq f1 = f_autoseq f \<and> geom (v \<ge> 1) bs f1"
proof -
  obtain f1 off b where f1: "file_bounds d f = Some (f1, if ms = [] then Some EAGAIN else None)" "at_pos (v \<ge> 1) bs f1 q"
    "f1 = f\<lparr>f_offset := off, f_block_end := b, f_size_cache := length d, f_seq := if ms = [] then f_seq f else fm_seq (last ms),
      f_seq_begin := if ms = [] then f_seq_begin f else fm_seq (hd ms)\<rparr>"
    using file_bounds_ok [OF _ assms(2-4)] assms(1) unfolding tll_file_def by blast
  then have "f_seq f1 = (if ms = [] then - 1 else fm_seq (last ms))" "f_autoseq f1 = f_autoseq f" using assms(5) by simp_all
  moreover have "geom (v \<ge> 1) bs f1" using f1(2) by (simp add: at_pos_def)
  ultimately show ?thesis using f1(1,2) by (cases "ms = []") auto
qed

lemma open_write_old:
  assumes "tll_file v bs sc d ms q" "first_fits (v \<ge> 1) bs (meta_len sc) d ms" "f_exact_last_seq f"
  shows "\<exists>d' f'. open_write d False v' block extra sc' f = Some (d', f', None) \<and> tll_file v bs sc d' ms q \<and> at_pos (v \<ge> 1) bs f' q \<and>
    keeps_below (fst q) d d' \<and> f_seq f' = (if ms = [] then - 1 else fm_seq (last ms)) \<and> f_autoseq f' = map_option (\<lambda>_. f_seq f') (f_autoseq f)"
proof -
  have m: "read_meta d = Inr (v, 0, word_of_nat bs)" "meta_ok v bs sc" using read_meta_ok [of d v bs sc] assms(1) by (simp_all add: tll_file_def)
  have ne: "d \<noteq> []" using assms(1) by (auto simp: tll_file_def file_log_def)
  let ?f = "tail_extra extra (use_meta (v, 0, word_of_nat bs) (open_reset block f))"
  have g: "geom (v \<ge> 1) bs ?f" "f_exact_last_seq ?f" "f_seq ?f = - 1" "f_autoseq ?f = f_autoseq f"
    using use_meta_geom [OF m(2)] assms(3) by (simp_all add: tail_extra_def geom_def use_meta_def open_reset_def)
  obtain f1 r where f1: "file_bounds d ?f = Some (f1, r)" "r = None \<or> r = Some EAGAIN" "at_pos (v \<ge> 1) bs f1 q"
    "f_seq f1 = (if ms = [] then - 1 else fm_seq (last ms))" "f_autoseq f1 = f_autoseq f"
    using open_file_ok [OF assms(1,2) g(1-3)] g(4) by auto
  let ?g = "f1\<lparr>f_autoseq := map_option (\<lambda>_. f_seq f1) (f_autoseq f1)\<rparr>"
  have h: "at_pos (v \<ge> 1) bs ?g q" using f1(3) by simp
  obtain d' f' n where t: "open_tail (d, ?g) = (d', f')" "tll_file v bs sc d' ms q" "f' = ?g\<lparr>f_size_cache := n\<rparr>" "keeps_below (fst q) d d'"
    using open_tail_ok [OF assms(1) h] by blast
  have "open_write d False v' block extra sc' f = Some (d', f', None)"
  proof -
    have "open_write d False v' block extra sc' f =
        map_option (\<lambda>(f, r). if r \<noteq> None \<and> r \<noteq> Some EAGAIN then (d, f, Some EINVAL)
          else let f = f\<lparr>f_autoseq := map_option (\<lambda>_. f_seq f) (f_autoseq f)\<rparr>; (d, f) = open_tail (d, f) in (d, f, None)) (file_bounds d ?f)"
      using m(1) ne by (simp add: open_write_def)
    then show ?thesis using f1(1,2) t(1) by (simp add: Let_def)
  qed
  moreover have "at_pos (v \<ge> 1) bs f' q" "f_seq f' = f_seq f1" "f_autoseq f' = map_option (\<lambda>_. f_seq f') (f_autoseq f)" using t(3) f1(3,5) by simp_all
  ultimately show ?thesis using t(2,4) f1(4) by (intro exI [of _ d'] exI [of _ f'] conjI) simp_all
qed

lemma open_write_new:
  assumes "meta_ok v bs sc" "f_exact_last_seq f"
  shows "\<exists>d' f'. open_write [] ov v bs extra sc f = Some (d', f', None) \<and> tll_file v bs sc d' [] (meta_len sc, bs) \<and>
    at_pos (v \<ge> 1) bs f' (meta_len sc, bs) \<and> f_seq f' = - 1 \<and> f_autoseq f' = map_option (\<lambda>_. f_seq f') (f_autoseq f)"
proof -
  let ?M = "meta_bytes v (word_of_nat bs) sc"
  have l: "length ?M = meta_len sc" using assms(1) length_meta by (simp add: meta_ok_def)
  have w: "disk_write [] 0 ?M = ?M" by (simp add: disk_write_def)
  have "zero_from ?M (meta_len sc)" using l by (simp add: zero_from_def)
  then have tf: "tll_file v bs sc ?M [] (meta_len sc, bs)" using assms(1) l by (intro tll_fileI path.path_nil) (simp_all add: holds_def)
  define f0 where "f0 = tail_extra extra ((open_reset bs f)\<lparr>f_marker := (v \<ge> 1), f_offset := meta_len sc\<rparr>)"
  have g: "geom (v \<ge> 1) bs f0" "f_exact_last_seq f0" "f_seq f0 = - 1" "f_autoseq f0 = f_autoseq f"
    using assms(2) by (simp_all add: f0_def tail_extra_def geom_def open_reset_def)
  obtain f1 r where f1: "file_bounds ?M f0 = Some (f1, r)" "r = None \<or> r = Some EAGAIN" "at_pos (v \<ge> 1) bs f1 (meta_len sc, bs)"
    "f_seq f1 = - 1" "f_autoseq f1 = f_autoseq f"
    using open_file_ok [OF tf _ g(1-3)] g(4) by (auto simp: first_fits_def)
  let ?g = "f1\<lparr>f_autoseq := map_option (\<lambda>_. f_seq f1) (f_autoseq f1)\<rparr>"
  have h: "at_pos (v \<ge> 1) bs ?g (meta_len sc, bs)" using f1(3) by simp
  obtain d' f' n where t: "open_tail (?M, ?g) = (d', f')" "tll_file v bs sc d' [] (meta_len sc, bs)" "f' = ?g\<lparr>f_size_cache := n\<rparr>"
    using open_tail_ok [OF tf h] by blast
  have b: "f_block_size (open_reset bs f) = bs" by (simp add: open_reset_def)
  have "open_write [] ov v bs extra sc f = Some (d', f', None)"
  proof -
    have "write_meta v sc ([], (open_reset bs f)\<lparr>f_marker := (v \<ge> 1)\<rparr>) = (?M, (open_reset bs f)\<lparr>f_marker := (v \<ge> 1), f_offset := meta_len sc\<rparr>)"
      using w l by (simp add: write_meta_def b)
    then have "open_write [] ov v bs extra sc f =
        map_option (\<lambda>(f, r). if r \<noteq> None \<and> r \<noteq> Some EAGAIN then (?M, f, Some EINVAL)
          else let f = f\<lparr>f_autoseq := map_option (\<lambda>_. f_seq f) (f_autoseq f)\<rparr>; (d, f) = open_tail (?M, f) in (d, f, None)) (file_bounds ?M f0)"
      by (simp only: open_write_def f0_def Let_def prod.case option.case if_True simp_thms)
    then show ?thesis using f1(1,2) t(1) by (simp add: Let_def)
  qed
  moreover have "at_pos (v \<ge> 1) bs f' (meta_len sc, bs)" "f_seq f' = f_seq f1" "f_autoseq f' = map_option (\<lambda>_. f_seq f') (f_autoseq f)" using t(3) f1(3,5) by simp_all
  ultimately show ?thesis using t(2) f1(4) by metis
qed

lemma open_read_ok:
  assumes "tll_file v bs sc d ms q" "first_fits (v \<ge> 1) bs (meta_len sc) d ms" "f_exact_last_seq f" "sorted_wrt (<) (map fm_seq ms)"
  shows "\<exists>f' p. open_read d block (ModeSeq s) f = Some (f', None) \<and> at_pos (v \<ge> 1) bs f' p \<and> pos_ok bs p \<and>
    path (v \<ge> 1) bs d p (case s of None \<Rightarrow> ms | Some s \<Rightarrow> dropWhile (\<lambda>m. fm_seq m < s) ms) q"
proof -
  have m: "read_meta d = Inr (v, 0, word_of_nat bs)" "meta_ok v bs sc" and fl: "file_log (v \<ge> 1) bs (meta_len sc) d ms q"
    using read_meta_ok [of d v bs sc] assms(1) by (simp_all add: tll_file_def)
  let ?f = "use_meta (v, 0, word_of_nat bs) (open_reset block f)"
  have g: "geom (v \<ge> 1) bs ?f" "f_exact_last_seq ?f" "f_seq ?f = - 1"
    using use_meta_geom [OF m(2)] assms(3) by (simp_all add: use_meta_def open_reset_def)
  obtain f1 r where f1: "file_bounds d ?f = Some (f1, r)" "r = None \<or> r = Some EAGAIN" "geom (v \<ge> 1) bs f1"
    using open_file_ok [OF assms(1,2) g] by auto
  show ?thesis
  proof (cases s)
    case None
    let ?g = "f1\<lparr>f_offset := meta_len sc, f_block_end := bs\<rparr>"
    have "seek_start d f1 = (?g, None)" using read_first(3) [OF fl f1(3)] by (simp add: seek_start_def)
    then have "open_read d block (ModeSeq s) f = Some (?g\<lparr>f_pending := True\<rparr>, None)"
      using m(1) f1(1,2) None by (auto simp: open_read_def open_position_def Let_def)
    moreover have "at_pos (v \<ge> 1) bs (?g\<lparr>f_pending := True\<rparr>) (meta_len sc, bs)" using f1(3) by (simp add: at_pos_def geom_def)
    ultimately show ?thesis using None tll_file_pos [OF assms(1)] by auto
  next
    case (Some s')
    obtain f2 r2 where f2: "file_seek d s' f1 = Some (f2, r2)" "found (v \<ge> 1) bs d ms q s' f2 r2"
      using file_seek_ok [OF fl assms(2,4) f1(3)] by blast
    then have "open_read d block (ModeSeq s) f = Some (f2\<lparr>f_pending := True\<rparr>, None)"
      using m(1) f1(1,2) Some by (auto simp: open_read_def open_position_def found_def Let_def)
    moreover obtain p where "at_pos (v \<ge> 1) bs f2 p" "pos_ok bs p" "path (v \<ge> 1) bs d p (dropWhile (\<lambda>m. fm_seq m < s') ms) q"
      using f2(2) unfolding found_def by blast
    ultimately have "open_read d block (ModeSeq s) f = Some (f2\<lparr>f_pending := True\<rparr>, None) \<and> at_pos (v \<ge> 1) bs (f2\<lparr>f_pending := True\<rparr>) p \<and> pos_ok bs p \<and>
        path (v \<ge> 1) bs d p (case s of None \<Rightarrow> ms | Some s \<Rightarrow> dropWhile (\<lambda>m. fm_seq m < s) ms) q" using Some by simp
    then show ?thesis by blast
  qed
qed

section \<open>Posting\<close>

lemma autoseq_update_simps:
  "fm_data (fst (autoseq_update m w)) = fm_data m" "at_pos mk bs (snd (autoseq_update m w)) p = at_pos mk bs w p"
  "f_seq (snd (autoseq_update m w)) = f_seq w" "f_block_size (snd (autoseq_update m w)) = f_block_size w"
  "f_autoseq w = None \<Longrightarrow> autoseq_update m w = (m, w)"
  by (auto simp: autoseq_update_def split: option.splits)

lemma msg_len_autoseq [simp]: "msg_len (fst (autoseq_update m w)) = msg_len m"
  by (simp add: msg_len_def autoseq_update_simps)

lemma written_keeps: "written mk bs d q m d' f' \<Longrightarrow> keeps_below (fst q) d d'"
  by (simp add: written_def)

lemma post_data_ok:
  assumes "tll_file v bs sc d ms q" "at_pos (v \<ge> 1) bs w q" "fst (autoseq_update m w) = m'" "msg_ok m'" "msg_len m + 5 \<le> bs" "f_seq w < fm_seq m'"
  shows "\<exists>d' w' q'. post_data m (d, w) = (d', w', None) \<and> tll_file v bs sc d' (ms @ [m']) q' \<and> at_pos (v \<ge> 1) bs w' q' \<and>
    path (v \<ge> 1) bs d' q [m'] q' \<and> keeps_below (fst q) d d' \<and> f_seq w' = fm_seq m' \<and> (f_autoseq w = None \<longrightarrow> f_autoseq w' = None) \<and>
    (fst q + msg_len m' \<le> snd q \<longrightarrow> holds d' (fst q) (enc (v \<ge> 1) m'))"
proof -
  obtain w1 where u: "autoseq_update m w = (m', w1)" using assms(3) by (cases "autoseq_update m w") auto
  then have w1: "snd (autoseq_update m w) = w1" by simp
  have "msg_len m' = msg_len m" using assms(3) msg_len_autoseq by blast
  then have l: "msg_len m' + 5 \<le> bs" using assms(5) by simp
  have b: "bs < 2 ^ 30" "zero_from d (fst q)" "pos_ok bs q" using assms(1) tll_file_pos [OF assms(1)] by (auto simp: tll_file_def file_log_def)
  have fm: "fmsg_ok bs m'" using assms(4) l b(1) by (simp add: fmsg_ok_def)
  have at: "at_pos (v \<ge> 1) bs w1 q" "f_seq w1 = f_seq w" using assms(2) autoseq_update_simps(2,3) w1 by metis+
  obtain d' f' where w: "write_data m' (d, w1) = (d', f', None)" "written (v \<ge> 1) bs d q m' d' f'" "f_autoseq f' = f_autoseq w1"
    "fst q + msg_len m' \<le> snd q \<longrightarrow> holds d' (fst q) (enc (v \<ge> 1) m')"
    using write_data_ok [OF at(1) b(3,2) fm] by blast
  let ?f = "f'\<lparr>f_seq := fm_seq m', f_seq_begin := if f_seq_begin f' = - 1 then fm_seq m' else f_seq_begin f'\<rparr>"
  have "f_block_size w1 = bs" using at by (simp add: at_pos_def geom_def)
  then have "post_data m (d, w) = (d', ?f, None)"
    using u w(1) assms(6) l at(2) by (simp add: post_data_def msg_len_def Let_def)
  moreover obtain q' where "tll_file v bs sc d' (ms @ [m']) q'" "at_pos (v \<ge> 1) bs f' q'" "path (v \<ge> 1) bs d' q [m'] q'"
    using tll_file_written [OF assms(1) w(2)] by blast
  moreover have "f_autoseq w = None \<Longrightarrow> w1 = w" using u autoseq_update_simps(5) [of w m] by simp
  ultimately show ?thesis using written_keeps [OF w(2)] w(3,4) by (intro exI [of _ d'] exI [of _ ?f] exI [of _ q'] conjI) auto
qed

lemma post_data_rejected:
  assumes "at_pos mk bs w q" "fm_seq (fst (autoseq_update m w)) \<le> f_seq w \<or> msg_len m > bs"
  shows "\<exists>w' e. post_data m (d, w) = (d, w', Some e) \<and> at_pos mk bs w' q"
proof -
  obtain m' w' where u: "autoseq_update m w = (m', w')" by (cases "autoseq_update m w")
  then have "snd (autoseq_update m w) = w'" "fst (autoseq_update m w) = m'" by simp_all
  then have at: "at_pos mk bs w' q" "f_seq w' = f_seq w" "msg_len m' = msg_len m" using autoseq_update_simps(2,3) msg_len_autoseq assms(1) by metis+
  then have sz: "f_block_size w' = bs" by (simp add: at_pos_def geom_def)
  show ?thesis
  proof (cases "fm_seq m' \<le> f_seq w \<or> 16 + length (fm_data m') > bs")
    case True
    then show ?thesis using u at sz by (auto simp: post_data_def)
  next
    case False
    then have "msg_len m' > bs" using assms(2) u at(3) by simp
    then have "write_data m' (d, w') = (d, w', Some EMSGSIZE)" using sz by (simp add: write_data_def Let_def msg_len_def)
    then show ?thesis using False u at sz by (auto simp: post_data_def)
  qed
qed

section \<open>Runs\<close>

text \<open>Messages delivered by a call.\<close>

definition delivered :: "file_event list \<Rightarrow> fmsg list" where
  "delivered ev = concat (map (\<lambda>e. case e of FvData m \<Rightarrow> [m] | _ \<Rightarrow> []) ev)"

lemma delivered_none: "\<forall>m. FvData m \<notin> set ev \<Longrightarrow> delivered ev = []"
  by (auto simp: delivered_def split: file_event.splits)

text \<open>A writer and a reader of one file in any order: file, writer, reader, messages accepted and messages delivered. Sizes between the two limits
  are left out.\<close>

inductive file_step :: "nat \<Rightarrow> disk \<times> file_t \<times> file_t \<times> fmsg list \<times> fmsg list \<Rightarrow> disk \<times> file_t \<times> file_t \<times> fmsg list \<times> fmsg list \<Rightarrow> bool" for bs where
  post: "msg_ok (fst (autoseq_update m w)) \<Longrightarrow> msg_len m + 5 \<le> bs \<or> msg_len m > bs \<Longrightarrow> post_data m (d, w) = (d', w', e) \<Longrightarrow>
    file_step bs (d, w, r, ps, gs) (d', w', r, if e = None then ps @ [fst (autoseq_update m w)] else ps, gs)"
| process: "file_process d ch r = Some (r', e, ev) \<Longrightarrow> file_step bs (d, w, r, ps, gs) (d, w, r', ps, gs @ delivered ev)"

definition run_ok :: "byte \<Rightarrow> nat \<Rightarrow> scheme_text \<Rightarrow> disk \<times> file_t \<times> file_t \<times> fmsg list \<times> fmsg list \<Rightarrow> bool" where
  "run_ok v bs sc = (\<lambda>(d, w, r, ps, gs). \<exists>q p rest. tll_file v bs sc d ps q \<and> at_pos (v \<ge> 1) bs w q \<and> at_pos (v \<ge> 1) bs r p \<and> pos_ok bs p \<and>
     path (v \<ge> 1) bs d p rest q \<and> ps = gs @ rest)"

lemma run_okI:
  "tll_file v bs sc d ps q \<Longrightarrow> at_pos (v \<ge> 1) bs w q \<Longrightarrow> at_pos (v \<ge> 1) bs r p \<Longrightarrow> pos_ok bs p \<Longrightarrow> path (v \<ge> 1) bs d p rest q \<Longrightarrow> ps = gs @ rest \<Longrightarrow>
    run_ok v bs sc (d, w, r, ps, gs)"
  unfolding run_ok_def by blast

lemma run_process:
  assumes "run_ok v bs sc (d, w, r, ps, gs)"
  shows "\<exists>r' e ev. file_process d ch r = Some (r', e, ev) \<and> run_ok v bs sc (d, w, r', ps, gs @ delivered ev) \<and>
    (if gs = ps then e = Some EAGAIN \<and> delivered ev = [] else e = None \<and> delivered ev = [ps ! length gs])"
proof -
  obtain q p rest where o: "tll_file v bs sc d ps q" "at_pos (v \<ge> 1) bs w q" "at_pos (v \<ge> 1) bs r p" "pos_ok bs p" "path (v \<ge> 1) bs d p rest q" "ps = gs @ rest"
    using assms unfolding run_ok_def by auto
  show ?thesis
  proof (cases rest)
    case Nil
    then have "p = q" using o(5) by (auto elim: path_NilE)
    moreover have "zero_from d (fst q)" using o(1) by (simp add: tll_file_def file_log_def)
    ultimately obtain g ev where g: "file_process d ch r = Some (g, Some EAGAIN, ev)" "at_pos (v \<ge> 1) bs g p" "\<forall>m. FvData m \<notin> set ev"
      using process_wait [OF o(3,4)] by blast
    then have "run_ok v bs sc (d, w, g, ps, gs @ delivered ev)" using run_okI [OF o(1,2) g(2) o(4,5)] o(6) delivered_none by simp
    then show ?thesis using g delivered_none Nil o(6) by auto
  next
    case (Cons m rest')
    obtain g p' where g: "file_process d ch r = Some (g, None, [FvData m])" "at_pos (v \<ge> 1) bs g p'" "pos_ok bs p'" "path (v \<ge> 1) bs d p' rest' q"
      using process_next [OF o(3,4) o(5) [unfolded Cons]] by blast
    moreover have dl: "delivered [FvData m] = [m]" by (simp add: delivered_def)
    ultimately have "run_ok v bs sc (d, w, g, ps, gs @ delivered [FvData m])" using o Cons unfolding run_ok_def by fastforce
    then show ?thesis using g(1) dl Cons o(6) by auto
  qed
qed

lemma run_post:
  assumes "run_ok v bs sc (d, w, r, ps, gs)" "msg_ok (fst (autoseq_update m w))" "msg_len m + 5 \<le> bs \<or> msg_len m > bs" "post_data m (d, w) = (d', w', e)"
  shows "run_ok v bs sc (d', w', r, if e = None then ps @ [fst (autoseq_update m w)] else ps, gs)"
proof -
  obtain q p rest where o: "tll_file v bs sc d ps q" "at_pos (v \<ge> 1) bs w q" "at_pos (v \<ge> 1) bs r p" "pos_ok bs p" "path (v \<ge> 1) bs d p rest q" "ps = gs @ rest"
    using assms(1) unfolding run_ok_def by auto
  show ?thesis
  proof (cases "f_seq w < fm_seq (fst (autoseq_update m w)) \<and> msg_len m + 5 \<le> bs")
    case True
    let ?m = "fst (autoseq_update m w)"
    obtain q' where q': "e = None" "tll_file v bs sc d' (ps @ [?m]) q'" "at_pos (v \<ge> 1) bs w' q'" "path (v \<ge> 1) bs d' q [?m] q'" "keeps_below (fst q) d d'"
      using post_data_ok [OF o(1,2) refl assms(2)] True assms(4) by auto
    have "path (v \<ge> 1) bs d' p (rest @ [?m]) q'" using path_append [OF path_keeps [OF o(5,4) q'(5) order_refl] q'(4)] .
    then show ?thesis using q' o(3,4,6) unfolding run_ok_def by fastforce
  next
    case False
    then have "fm_seq (fst (autoseq_update m w)) \<le> f_seq w \<or> msg_len m > bs" using assms(3) by auto
    then have "d' = d" "e \<noteq> None" "at_pos (v \<ge> 1) bs w' q" using post_data_rejected [OF o(2), of m d] assms(4) by auto
    then show ?thesis using run_okI [OF o(1) _ o(3-6), of w'] by auto
  qed
qed

lemma run_steps:
  assumes "(file_step bs)\<^sup>*\<^sup>* s s'" "run_ok v bs sc s"
  shows "run_ok v bs sc s'"
  using assms
proof (induction rule: rtranclp_induct)
  case (step y z)
  from step(2) show ?case
  proof cases
    case (post m w d d' w' e r ps gs)
    then show ?thesis using run_post step by metis
  next
    case (process d ch r r' e ev w ps gs)
    then show ?thesis using run_process [of v bs sc d w r ps gs ch] step by auto
  qed
qed simp


abbreviation wfile :: file_t where
  "wfile \<equiv> \<lparr>f_offset = 0, f_block_end = 0, f_block_size = 0, f_seq = 0, f_seq_begin = 0, f_seq_eod = 0, f_marker = False, f_size_cache = 0,
    f_tail_extra_blocks = 0, f_autoclose = False, f_end_of_data = EodOnce, f_exact_last_seq = True, f_pending = False, f_autoseq = None\<rparr>"

abbreviation wscheme :: scheme_text where
  "wscheme \<equiv> (replicate 8 0, [])"

lemma wscheme_ok: "meta_ok 1 128 wscheme"
  by (simp add: meta_ok_def)

text \<open>A run with a message that was accepted and not yet delivered.\<close>

lemma wrun: "\<exists>d w r d' w'. open_write [] False 1 128 0 wscheme wfile = Some (d, w, None) \<and> open_read d 0 (ModeSeq None) wfile = Some (r, None) \<and>
  (file_step 128)\<^sup>*\<^sup>* (d, w, r, [], []) (d', w', r, [\<lparr>fm_msgid = 7, fm_seq = 5, fm_data = [1, 2]\<rparr>], [])"
proof -
  let ?m = "\<lparr>fm_msgid = 7, fm_seq = 5, fm_data = [1, 2 :: byte]\<rparr>"
  obtain d w where w: "open_write [] False 1 128 0 wscheme wfile = Some (d, w, None)" "tll_file 1 128 wscheme d [] (49, 128)" "at_pos True 128 w (49, 128)"
    "f_seq w = - 1" "f_autoseq w = None"
    using open_write_new [OF wscheme_ok, of wfile False 0] by auto
  obtain r where r: "open_read d 0 (ModeSeq None) wfile = Some (r, None)"
    using open_read_ok [OF w(2), of wfile 0 None] by (auto simp: first_fits_def)
  have u: "autoseq_update ?m w = (?m, w)" using w(5) by (simp add: autoseq_update_simps(5))
  obtain d' w' where p: "post_data ?m (d, w) = (d', w', None)"
    using post_data_ok [OF w(2), of w ?m ?m] w(3,4) u by (auto simp: msg_ok_def msg_len_def)
  have "file_step 128 (d, w, r, [], []) (d', w', r, [?m], [])"
    using file_step.post [OF _ _ p, of 128 r "[]" "[]"] u by (simp add: msg_ok_def msg_len_def)
  then show ?thesis using w(1) r by blast
qed


section \<open>Sessions\<close>

text \<open>Posts that are all accepted, and several runs of a writer over the same file.\<close>

fun post_all :: "fmsg list \<Rightarrow> disk \<times> file_t \<Rightarrow> (disk \<times> file_t) option" where
  "post_all [] s = Some s"
| "post_all (m # ms) s = (case post_data m s of (d, w, None) \<Rightarrow> post_all ms (d, w) | _ \<Rightarrow> None)"

fun write_sessions :: "byte \<Rightarrow> nat \<Rightarrow> nat \<Rightarrow> scheme_text \<Rightarrow> file_t \<Rightarrow> fmsg list list \<Rightarrow> disk \<Rightarrow> disk option" where
  "write_sessions v bs extra sc w0 [] d = Some d"
| "write_sessions v bs extra sc w0 (ms # mss) d =
     (case open_write d False v bs extra sc w0 of
        Some (d, w, None) \<Rightarrow> Option.bind (post_all ms (d, w)) (\<lambda>(d, w). write_sessions v bs extra sc w0 mss d)
      | _ \<Rightarrow> None)"

fun read_msgs :: "disk \<Rightarrow> nat \<Rightarrow> file_t \<Rightarrow> fmsg list option" where
  "read_msgs d 0 f = Some []"
| "read_msgs d (Suc n) f =
     (case file_process d False f of
        Some (f, None, ev) \<Rightarrow> map_option (\<lambda>ms. delivered ev @ ms) (read_msgs d n f)
      | Some (f, Some e, ev) \<Rightarrow> Some (delivered ev)
      | None \<Rightarrow> None)"

lemma read_msgs_ok:
  "at_pos mk bs f p \<Longrightarrow> pos_ok bs p \<Longrightarrow> path mk bs d p ms q \<Longrightarrow> zero_from d (fst q) \<Longrightarrow> length ms < n \<Longrightarrow> read_msgs d n f = Some ms"
proof (induction ms arbitrary: n f p)
  case Nil
  then obtain k where k: "n = Suc k" by (cases n) auto
  have "p = q" using Nil.prems(3) by (rule path_NilE) simp
  then obtain g ev where "file_process d False f = Some (g, Some EAGAIN, ev)" "\<forall>m. FvData m \<notin> set ev"
    using process_wait [OF Nil.prems(1,2)] Nil.prems(4) by blast
  then show ?case using k delivered_none by simp
next
  case (Cons m ms)
  then obtain k where k: "n = Suc k" "length ms < k" by (cases n) auto
  obtain g p' where g: "file_process d False f = Some (g, None, [FvData m])" "at_pos mk bs g p'" "pos_ok bs p'" "path mk bs d p' ms q"
    using process_next [OF Cons.prems(1-3)] by blast
  then show ?case using Cons.IH [OF g(2-4) Cons.prems(4) k(2)] k(1) by (simp add: delivered_def)
qed

text \<open>Messages a file accepts one after another.\<close>

definition msgs_ok :: "nat \<Rightarrow> fmsg list \<Rightarrow> bool" where
  "msgs_ok bs ms \<longleftrightarrow> sorted_wrt (<) (map fm_seq ms) \<and> (\<forall>m \<in> set ms. 0 \<le> fm_seq m \<and> fm_seq m < 2 ^ 63 \<and> msg_len m + 5 \<le> bs)"

definition last_seq :: "fmsg list \<Rightarrow> int" where
  "last_seq ms = (if ms = [] then - 1 else fm_seq (last ms))"

lemma msgs_ok_next: "msgs_ok bs (ms @ m # rest) \<Longrightarrow> last_seq ms < fm_seq m \<and> msg_ok m \<and> msg_len m + 5 \<le> bs"
  by (auto simp: msgs_ok_def last_seq_def sorted_wrt_append msg_ok_def intro: order_trans [of _ 0])

lemma post_all_ok:
  "tll_file v bs sc d ms q \<Longrightarrow> at_pos (v \<ge> 1) bs w q \<Longrightarrow> f_seq w = last_seq ms \<Longrightarrow> f_autoseq w = None \<Longrightarrow> msgs_ok bs (ms @ new) \<Longrightarrow>
    \<exists>d' w' q'. post_all new (d, w) = Some (d', w') \<and> tll_file v bs sc d' (ms @ new) q' \<and> keeps_below (fst q) d d' \<and>
      (new \<noteq> [] \<longrightarrow> fst q + msg_len (hd new) \<le> snd q \<longrightarrow> holds d' (fst q) (enc (v \<ge> 1) (hd new)))"
proof (induction new arbitrary: d w ms q)
  case (Cons m new)
  note n = msgs_ok_next [OF Cons.prems(5)]
  obtain d1 w1 q1 where p: "post_data m (d, w) = (d1, w1, None)" "tll_file v bs sc d1 (ms @ [m]) q1" "at_pos (v \<ge> 1) bs w1 q1" "keeps_below (fst q) d d1"
    "f_seq w1 = fm_seq m" "path (v \<ge> 1) bs d1 q [m] q1" "f_autoseq w1 = None" "fst q + msg_len m \<le> snd q \<longrightarrow> holds d1 (fst q) (enc (v \<ge> 1) m)"
    using post_data_ok [OF Cons.prems(1,2), of m m] n Cons.prems(3,4) by (auto simp: autoseq_update_simps(5))
  obtain d' w' q' where r: "post_all new (d1, w1) = Some (d', w')" "tll_file v bs sc d' ((ms @ [m]) @ new) q'" "keeps_below (fst q1) d1 d'"
    using Cons.IH [OF p(2,3) _ p(7)] p(5) Cons.prems(5) by (auto simp: last_seq_def)
  have le: "fst q \<le> fst q1" using path_mono [OF p(6)] tll_file_pos [OF Cons.prems(1)] by simp
  have "fst q + msg_len m \<le> snd q \<longrightarrow> holds d' (fst q) (enc (v \<ge> 1) m)"
  proof
    assume f: "fst q + msg_len m \<le> snd q"
    have "fst q + msg_len m \<le> fst q1"
      using p(6) by (cases rule: path.cases) (use f tll_file_pos [OF Cons.prems(1)] in \<open>auto elim: path_NilE\<close>)
    then show "holds d' (fst q) (enc (v \<ge> 1) m)" using holds_keeps [OF _ r(3)] p(8) f by simp
  qed
  then show ?case using p(1) r keeps_below_trans [OF p(4) r(3) le] by (intro exI [of _ d'] exI [of _ w'] exI [of _ q'] conjI) simp_all
next
  case Nil
  then show ?case by (intro exI [of _ d] exI [of _ w] exI [of _ q] conjI) simp_all
qed

lemma first_fits_keeps:
  assumes "first_fits mk bs n0 d ms" "keeps_below z d d'" "ms \<noteq> [] \<Longrightarrow> n0 + msg_len (hd ms) \<le> z"
  shows "first_fits mk bs n0 d' ms"
  using assms holds_keeps [of d n0 "enc mk (hd ms)" z d'] by (auto simp: first_fits_def)

lemma first_len:
  assumes "tll_file v bs sc d ms q" "ms \<noteq> []"
  shows "meta_len sc + msg_len (hd ms) \<le> fst q"
proof -
  obtain m rest where ms: "ms = m # rest" using assms(2) by (cases ms) auto
  note t = tll_file_pos [OF assms(1)]
  then have "path (v \<ge> 1) bs d (meta_len sc, bs) (m # rest) q" using ms by simp
  then show ?thesis
  proof (rule path_ConsE)
    fix off b assume *: "(meta_len sc, bs) = (off, b)" "off + msg_len m \<le> b" "path (v \<ge> 1) bs d (off + msg_len m, b) rest q"
    then show ?thesis using path_mono [OF *(3) pos_ok_msg] t ms by auto
  next
    fix b off assume *: "(meta_len sc, bs) = (off, b)" "fmsg_ok bs m" "path (v \<ge> 1) bs d (b + 5 + msg_len m, b + bs) rest q"
    then have "b + 5 + msg_len m \<le> fst q" using path_mono [OF *(3) pos_ok_next] t by (auto simp: fmsg_ok_def)
    then show ?thesis using *(1) t ms by (auto simp: pos_ok_def)
  qed
qed

text \<open>The first message of all has space behind the metadata, or nothing has.\<close>

definition first_ok :: "nat \<Rightarrow> scheme_text \<Rightarrow> fmsg list \<Rightarrow> bool" where
  "first_ok bs sc ms \<longleftrightarrow> ms = [] \<or> meta_len sc + 17 > bs \<or> meta_len sc + msg_len (hd ms) \<le> bs"

lemma session_ok:
  assumes "tll_file v bs sc d ms q" "first_fits (v \<ge> 1) bs (meta_len sc) d ms" "at_pos (v \<ge> 1) bs w q" "f_seq w = last_seq ms" "f_autoseq w = None"
    "msgs_ok bs (ms @ new)" "first_ok bs sc (ms @ new)"
  shows "\<exists>d' w' q'. post_all new (d, w) = Some (d', w') \<and> tll_file v bs sc d' (ms @ new) q' \<and> first_fits (v \<ge> 1) bs (meta_len sc) d' (ms @ new)"
proof -
  obtain d' w' q' where p: "post_all new (d, w) = Some (d', w')" "tll_file v bs sc d' (ms @ new) q'" "keeps_below (fst q) d d'"
    "new \<noteq> [] \<longrightarrow> fst q + msg_len (hd new) \<le> snd q \<longrightarrow> holds d' (fst q) (enc (v \<ge> 1) (hd new))"
    using post_all_ok [OF assms(1,3,4,5,6)] by blast
  have "first_fits (v \<ge> 1) bs (meta_len sc) d' (ms @ new)"
  proof (cases ms)
    case Nil
    then have "q = (meta_len sc, bs)" using tll_file_pos [OF assms(1)] by (auto elim: path_NilE)
    then show ?thesis using p(4) assms(7) Nil by (auto simp: first_fits_def first_ok_def)
  next
    case (Cons m rest)
    then have "first_fits (v \<ge> 1) bs (meta_len sc) d' ms" using first_fits_keeps [OF assms(2) p(3)] first_len [OF assms(1)] by simp
    then show ?thesis using Cons by (simp add: first_fits_def)
  qed
  then show ?thesis using p by blast
qed

lemma sessions_old:
  assumes "f_exact_last_seq w0" "f_autoseq w0 = None"
  shows "tll_file v bs sc d ms q \<Longrightarrow> first_fits (v \<ge> 1) bs (meta_len sc) d ms \<Longrightarrow> msgs_ok bs (ms @ concat mss) \<Longrightarrow> first_ok bs sc (ms @ concat mss) \<Longrightarrow>
    \<exists>d' q'. write_sessions v bs extra sc w0 mss d = Some d' \<and> tll_file v bs sc d' (ms @ concat mss) q' \<and>
      first_fits (v \<ge> 1) bs (meta_len sc) d' (ms @ concat mss)"
proof (induction mss arbitrary: d ms q)
  case Nil
  then show ?case by (intro exI [of _ d] exI [of _ q]) simp
next
  case (Cons new mss)
  obtain d1 w1 where o: "open_write d False v bs extra sc w0 = Some (d1, w1, None)" "tll_file v bs sc d1 ms q" "at_pos (v \<ge> 1) bs w1 q"
    "keeps_below (fst q) d d1" "f_seq w1 = last_seq ms" "f_autoseq w1 = None"
    using open_write_old [OF Cons.prems(1,2) assms(1), of v bs extra sc] assms(2) unfolding last_seq_def by auto
  have "first_fits (v \<ge> 1) bs (meta_len sc) d1 ms" using first_fits_keeps [OF Cons.prems(2) o(4)] first_len [OF Cons.prems(1)] by blast
  moreover have "msgs_ok bs (ms @ new)" "first_ok bs sc (ms @ new)"
    using Cons.prems(3,4) by (auto simp: msgs_ok_def first_ok_def sorted_wrt_append hd_append split: if_splits)
  ultimately obtain d2 w2 q2 where p: "post_all new (d1, w1) = Some (d2, w2)" "tll_file v bs sc d2 (ms @ new) q2" "first_fits (v \<ge> 1) bs (meta_len sc) d2 (ms @ new)"
    using session_ok [OF o(2) _ o(3,5,6)] by blast
  have "\<exists>d' q'. write_sessions v bs extra sc w0 mss d2 = Some d' \<and> tll_file v bs sc d' ((ms @ new) @ concat mss) q' \<and>
      first_fits (v \<ge> 1) bs (meta_len sc) d' ((ms @ new) @ concat mss)"
    using Cons.IH [OF p(2,3)] Cons.prems(3,4) by simp
  then show ?case using o(1) p(1) by simp
qed

lemma sessions_ok:
  assumes "meta_ok v bs sc" "f_exact_last_seq w0" "f_autoseq w0 = None" "msgs_ok bs (concat mss)" "first_ok bs sc (concat mss)" "mss \<noteq> []"
  shows "\<exists>d q. write_sessions v bs extra sc w0 mss [] = Some d \<and> tll_file v bs sc d (concat mss) q \<and> first_fits (v \<ge> 1) bs (meta_len sc) d (concat mss)"
proof -
  obtain new rest where mss: "mss = new # rest" using assms(6) by (cases mss) auto
  obtain d1 w1 where o: "open_write [] False v bs extra sc w0 = Some (d1, w1, None)" "tll_file v bs sc d1 [] (meta_len sc, bs)"
    "at_pos (v \<ge> 1) bs w1 (meta_len sc, bs)" "f_seq w1 = last_seq []" "f_autoseq w1 = None"
    using open_write_new [OF assms(1,2), of False extra] assms(3) unfolding last_seq_def by auto
  have "first_fits (v \<ge> 1) bs (meta_len sc) d1 []" by (simp add: first_fits_def)
  moreover have "msgs_ok bs ([] @ new)" "first_ok bs sc ([] @ new)"
    using assms(4,5) mss by (auto simp: msgs_ok_def first_ok_def sorted_wrt_append hd_append split: if_splits)
  ultimately obtain d2 w2 q2 where p: "post_all new (d1, w1) = Some (d2, w2)" "tll_file v bs sc d2 new q2" "first_fits (v \<ge> 1) bs (meta_len sc) d2 new"
    using session_ok [OF o(2) _ o(3,4,5), of new] by auto
  have "\<exists>d' q'. write_sessions v bs extra sc w0 rest d2 = Some d' \<and> tll_file v bs sc d' (new @ concat rest) q' \<and>
      first_fits (v \<ge> 1) bs (meta_len sc) d' (new @ concat rest)"
    using sessions_old [OF assms(2,3) p(2,3)] assms(4,5) mss by simp
  then show ?thesis using o(1) p(1) mss by simp
qed


abbreviation wmsgs :: "fmsg list list" where
  "wmsgs \<equiv> [[\<lparr>fm_msgid = 7, fm_seq = 5, fm_data = [1, 2]\<rparr>, \<lparr>fm_msgid = 7, fm_seq = 6, fm_data = replicate 60 9\<rparr>], [\<lparr>fm_msgid = 8, fm_seq = 9, fm_data = []\<rparr>]]"

lemma wmsgs_ok: "msgs_ok 128 (concat wmsgs)" "first_ok 128 wscheme (concat wmsgs)"
  by (auto simp: msgs_ok_def first_ok_def msg_len_def)




section \<open>Limits\<close>

text \<open>A first message that does not fit behind the metadata. It is accepted and stands in the second block, behind a skip frame; \<open>_block_seq\<close> takes
  the skip frame for a message, so that the file can not be opened any more, neither for reading nor for writing.\<close>

theorem file_first_skip:
  assumes "meta_ok v bs sc" "f_exact_last_seq w0" "f_autoseq w0 = None" "0 \<le> fm_seq m" "fm_seq m < 2 ^ 63"
    "meta_len sc + 17 \<le> bs" "meta_len sc + msg_len m > bs" "msg_len m + 5 \<le> bs"
  shows "\<exists>d w d' w'. open_write [] ov v bs extra sc w0 = Some (d, w, None) \<and> post_data m (d, w) = (d', w', None) \<and>
    (\<forall>block mode r0. \<exists>r. open_read d' block mode r0 = Some (r, Some EINVAL)) \<and>
    (\<forall>v' block extra' sc' w0. \<exists>w. open_write d' False v' block extra' sc' w0 = Some (d', w, Some EINVAL))"
proof -
  obtain d w where o: "open_write [] ov v bs extra sc w0 = Some (d, w, None)" "tll_file v bs sc d [] (meta_len sc, bs)"
    "at_pos (v \<ge> 1) bs w (meta_len sc, bs)" "f_seq w = - 1" "f_autoseq w = None"
    using open_write_new [OF assms(1,2), of ov extra] assms(3) by auto
  have mo: "msg_ok m" using assms(4,5) by (simp add: msg_ok_def)
  obtain d' w' q' where p: "post_data m (d, w) = (d', w', None)" "tll_file v bs sc d' [m] q'" "path (v \<ge> 1) bs d' (meta_len sc, bs) [m] q'"
    using post_data_ok [OF o(2,3), of m m] mo assms(4,8) o(4,5) by (auto simp: autoseq_update_simps(5))
  have fl: "file_log (v \<ge> 1) bs (meta_len sc) d' [m] q'" and rm: "read_meta d' = Inr (v, 0, word_of_nat bs)" and ne: "d' \<noteq> []"
    using p(2) read_meta_ok [of d' v bs sc] by (auto simp: tll_file_def file_log_def)
  have skip: "holds d' (meta_len sc) (le32 (- 1))"
    using p(3) by (rule path_ConsE) (use assms(6,7) in auto)
  then have len: "meta_len sc + 4 \<le> length d'" by (simp add: holds_def)
  have bounds: "\<exists>g. file_bounds d' f = Some (g, Some EINVAL)" if g: "geom (v \<ge> 1) bs f" for f
  proof -
    define f0 where "f0 = f\<lparr>f_size_cache := length d'\<rparr>"
    have g0: "geom (v \<ge> 1) bs f0" "f_size_cache f0 = length d'" "file_size d' f = (f0, length d')" using g by (simp_all add: f0_def geom_def file_size_def)
    let ?f = "f0\<lparr>f_offset := meta_len sc, f_block_end := bs\<rparr>"
    have "read_frame d' ?f = (?f, Inr (- 1))" using assms(6) read_frame_skip [of d' ?f] skip by (simp add: read_frame_def)
    moreover have "data_size (- 1) = 2 ^ 64 - 6" by (simp add: data_size_def)
    ultimately have "read_seq d' ?f = (?f, Inl EINVAL)" by (simp add: read_seq_def read_seq_frame_def read_data_def io_read_def)
    then have "block_seq d' 0 f0 = (?f, Inl EINVAL)" using block_seq_first [OF fl g0(1,2)] len by (simp add: Let_def)
    then show ?thesis using g0(3) ne by (simp add: file_bounds_def)
  qed
  have "\<exists>r. open_read d' block mode r0 = Some (r, Some EINVAL)" for block mode r0
  proof -
    obtain g where "file_bounds d' (use_meta (v, 0, word_of_nat bs) (open_reset block r0)) = Some (g, Some EINVAL)"
      using bounds [OF use_meta_geom [OF assms(1)]] by blast
    then show ?thesis using rm by (simp add: open_read_def Let_def)
  qed
  moreover have "\<exists>w. open_write d' False v' block extra' sc' w0 = Some (d', w, Some EINVAL)" for v' block extra' sc' w0
  proof -
    have "geom (v \<ge> 1) bs (tail_extra extra' (use_meta (v, 0, word_of_nat bs) (open_reset block w0)))"
      using use_meta_geom [OF assms(1)] by (simp add: tail_extra_def geom_def)
    then obtain g where "file_bounds d' (tail_extra extra' (use_meta (v, 0, word_of_nat bs) (open_reset block w0))) = Some (g, Some EINVAL)"
      using bounds by blast
    then show ?thesis using rm ne by (simp add: open_write_def)
  qed
  ultimately show ?thesis using o(1) p(1) by blast
qed

lemma file_first_skip_witness:
  "\<exists>d w d' w'. open_write [] False 1 128 0 wscheme wfile = Some (d, w, None) \<and>
    post_data \<lparr>fm_msgid = 0, fm_seq = 0, fm_data = replicate 100 1\<rparr> (d, w) = (d', w', None) \<and>
    (\<exists>r. open_read d' 128 (ModeSeq None) wfile = Some (r, Some EINVAL))"
  using file_first_skip [OF wscheme_ok, of wfile "\<lparr>fm_msgid = 0, fm_seq = 0, fm_data = replicate 100 1\<rparr>" False 0] by (fastforce simp: msg_len_def)

lemma read_frame_large:
  assumes "holds d (f_offset f) (le32 (frame_word (f_marker f) n))" "n < 2 ^ 30" "5 \<le> n" "f_offset f + n > f_block_end f" "f_offset f \<noteq> 0"
  shows "read_frame_nocheck d f = Inl EMSGSIZE"
proof -
  have r: "io_read d (f_offset f) 4 = Inr (le32 (frame_word (f_marker f) n))" using holds_io_read [OF assms(1)] by simp
  have "check_frame f (int n) = Inl EMSGSIZE" using assms(3,4) by (simp add: check_frame_def)
  then show ?thesis
    using assms(5) frame_word_bit31 [OF assms(2)] frame_word_not_skip [OF assms(2)] frame_word_mask [OF assms(2)] sint_frame [OF assms(2)]
    by (cases "f_marker f") (simp_all add: read_frame_nocheck_def r le32_marker Let_def frame_word_def [of False])
qed

text \<open>The reader behind the last message, when a frame longer than its block follows.\<close>

lemma process_large:
  assumes "at_pos mk bs f (off, b)" "pos_ok bs (off, b)" "off + 17 > b \<or> holds d off (le32 (- 1))" "holds d b (header mk)"
    "holds d (b + 5) (enc mk m)" "msg_len m < 2 ^ 30" "msg_len m + 5 > bs" "22 \<le> bs"
  shows "\<exists>g. file_process d ch f = Some (g, Some EMSGSIZE, [])"
proof -
  have g: "geom mk bs f" and p: "0 < b" "off \<le> b" "b < off + bs" using assms(1,2) by (auto simp: at_pos_def pos_ok_def)
  let ?f = "f\<lparr>f_offset := b + 5, f_block_end := b + bs\<rparr>"
  have large: "read_frame_nocheck d ?f = Inl EMSGSIZE"
    using read_frame_large [of d ?f "msg_len m"] assms(5-7) g msg_len_ge [of m] by (simp add: enc_def holds_append geom_def)
  have step: "\<exists>g. file_process d ch f' = Some (g, Some EMSGSIZE, [])" if "process_start d f' = (f', None)" "f_offset f' + 17 > b" "f_block_end f' = b"
    "f'\<lparr>f_offset := b + 5, f_block_end := b + bs\<rparr> = ?f" "geom mk bs f'" for f'
  proof -
    have "shift_block d b f' = (?f, None)" using shift_block_header(1) [OF that(5) assms(4)] assms(8) p that(4) by simp
    then have "read_frame d f' = (?f, Inl EMSGSIZE)" using that(2,3) large by (simp add: read_frame_def)
    then show ?thesis using that(1) by (simp add: file_process.simps [of d ch f'])
  qed
  show ?thesis
  proof (cases "f_offset f = off \<and> f_block_end f = b")
    case True
    have s: "process_start d f = (f, None)" "process_start d (shift_skip f) = (shift_skip f, None)"
      using True p g by (auto simp: process_start_def geom_def shift_skip_def)
    show ?thesis
    proof (cases "off + 17 > b")
      case T: True
      then show ?thesis using step [of f] s(1) True g by simp
    next
      case False
      then have "read_frame d f = (f, Inr (- 1))" using True assms(3) read_frame_skip [of d f] by (simp add: read_frame_def)
      then have "file_process d ch f = file_process d ch (shift_skip f)" using s(1) by (simp add: file_process.simps [of d ch f])
      moreover have "\<exists>g. file_process d ch (shift_skip f) = Some (g, Some EMSGSIZE, [])"
        using step [of "shift_skip f"] s(2) True g by (simp add: shift_skip_def geom_def)
      ultimately show ?thesis by simp
    qed
  next
    case False
    then have b: "f_offset f = b" "f_block_end f = b + bs" using assms(1) by (auto simp: at_pos_def)
    have e: "f\<lparr>f_offset := b, f_block_end := b + bs\<rparr> = f" using b by simp
    have "read_frame_nocheck d f = Inr 5" using shift_block_header(2) [OF g assms(4)] assms(8) p(1) unfolding e by simp
    then have "process_start d f = (?f, None)" using b g by (simp add: process_start_def geom_def)
    moreover have "read_frame d ?f = (?f, Inl EMSGSIZE)" using large assms(8) by (simp add: read_frame_def)
    ultimately show ?thesis by (simp add: file_process.simps [of d ch f])
  qed
qed



end
