(* ===== verification/Config.thy ===== *)
theory Config
  imports Url
begin

text \<open>
  The config tree: \<open>src/config/config.h\<close> and the functions of \<open>src/config/config.cc\<close> over it. A config is a graph of nodes in a heap;
  a node has a parent, children under names and a value: nothing, a string, a callback or a link to another node. A callback
  is the string it returns now. Links make the lookup of a path a recursion that need not end, and \<open>None\<close> is that outcome.
  Nodes live as long as the heap: reference counts and locks are not modelled.
\<close>

section \<open>Nodes\<close>

type_synonym node = nat

text \<open>A link is absolute or not and has the components of its normal form, without the root.\<close>

datatype cfg_data = CNone | CStr string | CCb "string option" | CLink bool "string list"

record cnode =
  cn_parent :: "node option"
  cn_kids :: "(string \<times> node) list"
  cn_data :: cfg_data

record heap =
  hp_node :: "node \<Rightarrow> cnode"
  hp_next :: node

definition upd_node :: "node \<Rightarrow> (cnode \<Rightarrow> cnode) \<Rightarrow> heap \<Rightarrow> heap" where
  "upd_node n f h = h\<lparr>hp_node := (hp_node h)(n := f (hp_node h n))\<rparr>"

text \<open>\<open>new tll_config_t(parent)\<close>.\<close>

definition new_node :: "node option \<Rightarrow> heap \<Rightarrow> heap \<times> node" where
  "new_node p h = (h\<lparr>hp_node := (hp_node h)(hp_next h := \<lparr>cn_parent = p, cn_kids = [], cn_data = CNone\<rparr>), hp_next := hp_next h + 1\<rparr>, hp_next h)"

definition kid :: "heap \<Rightarrow> node \<Rightarrow> string \<Rightarrow> node option" where
  "kid h n k = map_of (cn_kids (hp_node h n)) k"

text \<open>\<open>std::map\<close>: the children in the order of their names.\<close>

fun kids_put :: "string \<Rightarrow> node \<Rightarrow> (string \<times> node) list \<Rightarrow> (string \<times> node) list" where
  "kids_put k c [] = [(k, c)]"
| "kids_put k c ((k', c') # r) =
     (if k = k' then (k, c) # r else if k < k' then (k, c) # (k', c') # r else (k', c') # kids_put k c r)"

definition put_kid :: "node \<Rightarrow> string \<Rightarrow> node \<Rightarrow> heap \<Rightarrow> heap" where
  "put_kid n k c = upd_node n (\<lambda>x. x\<lparr>cn_kids := kids_put k c (cn_kids x)\<rparr>)"

definition erase_kid :: "node \<Rightarrow> string \<Rightarrow> heap \<Rightarrow> heap" where
  "erase_kid n k = upd_node n (\<lambda>x. x\<lparr>cn_kids := filter (\<lambda>(k', _). k' \<noteq> k) (cn_kids x)\<rparr>)"

definition set_data :: "node \<Rightarrow> cfg_data \<Rightarrow> heap \<Rightarrow> heap" where
  "set_data n v = upd_node n (\<lambda>x. x\<lparr>cn_data := v\<rparr>)"

definition set_parent :: "node \<Rightarrow> node option \<Rightarrow> heap \<Rightarrow> heap" where
  "set_parent n p = upd_node n (\<lambda>x. x\<lparr>cn_parent := p\<rparr>)"

section \<open>Lookup\<close>

partial_function (option) cfg_root :: "heap \<Rightarrow> node \<Rightarrow> node option" where
  "cfg_root h n = (case cn_parent (hp_node h n) of None \<Rightarrow> Some n | Some p \<Rightarrow> cfg_root h p)"

text \<open>The steps to the parent that start a relative link.\<close>

fun link_up :: "heap \<Rightarrow> node \<Rightarrow> string list \<Rightarrow> (node \<times> string list) option" where
  "link_up h n [] = Some (n, [])"
| "link_up h n (k # ks) =
     (if k = ''..'' then case cn_parent (hp_node h n) of None \<Rightarrow> None | Some p \<Rightarrow> link_up h p ks
      else Some (n, k # ks))"

definition link_start :: "heap \<Rightarrow> node \<Rightarrow> bool \<Rightarrow> string list \<Rightarrow> (node \<times> string list) option option" where
  "link_start h n absolute ks = (if absolute then map_option (\<lambda>r. Some (r, ks)) (cfg_root h n) else Some (link_up h n ks))"

text \<open>\<open>_lookup\<close>: the node that was reached, null for a broken link, and the rest of the path. The body of \<open>_lookup_link\<close> is part of it.\<close>

partial_function (option) cfg_lookup :: "heap \<Rightarrow> node \<Rightarrow> string list \<Rightarrow> (node option \<times> string list) option" where
  "cfg_lookup h n path =
     (case path of
        [] \<Rightarrow> Some (Some n, [])
      | k # ks \<Rightarrow>
          Option.bind
            (case cn_data (hp_node h n) of
               CLink absolute link \<Rightarrow>
                 Option.bind (link_start h n absolute link) (\<lambda>s.
                   case s of
                     None \<Rightarrow> Some None
                   | Some (r, rest) \<Rightarrow>
                       if rest = [] then Some (Some r)
                       else Option.bind (cfg_lookup h r rest) (\<lambda>(m, rest). Some (if rest \<noteq> [] then None else m)))
             | _ \<Rightarrow> Some (Some n))
            (\<lambda>r. case r of
                None \<Rightarrow> Some (None, path)
              | Some r \<Rightarrow> (case kid h r k of None \<Rightarrow> Some (Some r, path) | Some c \<Rightarrow> cfg_lookup h c ks)))"

definition lookup_link :: "heap \<Rightarrow> node \<Rightarrow> node option option" where
  "lookup_link h n =
     (case cn_data (hp_node h n) of
        CLink absolute link \<Rightarrow>
          Option.bind (link_start h n absolute link) (\<lambda>s.
            case s of
              None \<Rightarrow> Some None
            | Some (r, rest) \<Rightarrow>
                if rest = [] then Some (Some r)
                else Option.bind (cfg_lookup h r rest) (\<lambda>(m, rest). Some (if rest \<noteq> [] then None else m)))
      | _ \<Rightarrow> Some (Some n))"

definition cfg_path :: "string \<Rightarrow> string list" where
  "cfg_path p = the (split ''.'' p)"

definition find_const :: "heap \<Rightarrow> node \<Rightarrow> string list \<Rightarrow> node option option" where
  "find_const h n path = map_option (\<lambda>(m, rest). if rest \<noteq> [] then None else m) (cfg_lookup h n path)"

text \<open>The loop of \<open>find\<close> that creates the rest of a path.\<close>

fun create_path :: "node \<Rightarrow> string list \<Rightarrow> heap \<Rightarrow> heap \<times> node" where
  "create_path n [] h = (h, n)"
| "create_path n (k # ks) h = (let (h, c) = new_node (Some n) h in create_path c ks (put_kid n k c h))"

definition find_path :: "node \<Rightarrow> string list \<Rightarrow> bool \<Rightarrow> heap \<Rightarrow> (heap \<times> node option) option" where
  "find_path n path create h =
     Option.bind (cfg_lookup h n path) (\<lambda>(m, rest).
       case m of
         None \<Rightarrow> Some (h, None)
       | Some v \<Rightarrow>
           if rest = [] then Some (h, Some v)
           else if \<not> create then Some (h, None)
           else let (h, v) = create_path v rest h in Some (h, Some v))"

section \<open>Values\<close>

partial_function (option) cfg_get :: "heap \<Rightarrow> node \<Rightarrow> string option option" where
  "cfg_get h n =
     (case cn_data (hp_node h n) of
        CLink absolute link \<Rightarrow> Option.bind (lookup_link h n) (\<lambda>m. case m of None \<Rightarrow> Some None | Some m \<Rightarrow> cfg_get h m)
      | CStr v \<Rightarrow> Some (Some v)
      | CCb v \<Rightarrow> Some v
      | CNone \<Rightarrow> Some None)"

partial_function (option) cfg_value :: "heap \<Rightarrow> node \<Rightarrow> bool option" where
  "cfg_value h n =
     (case cn_data (hp_node h n) of
        CLink absolute link \<Rightarrow> Option.bind (lookup_link h n) (\<lambda>m. case m of None \<Rightarrow> Some False | Some m \<Rightarrow> cfg_value h m)
      | d \<Rightarrow> Some (d \<noteq> CNone))"

definition config_get_copy :: "heap \<Rightarrow> node \<Rightarrow> string option \<Rightarrow> string option option" where
  "config_get_copy h n path =
     (case path of
        None \<Rightarrow> cfg_get h n
      | Some p \<Rightarrow> Option.bind (find_const h n (cfg_path p)) (\<lambda>m. case m of None \<Rightarrow> Some None | Some m \<Rightarrow> cfg_get h m))"

definition config_has :: "heap \<Rightarrow> node \<Rightarrow> string option \<Rightarrow> bool option" where
  "config_has h n path =
     (case path of
        None \<Rightarrow> cfg_value h n
      | Some p \<Rightarrow> Option.bind (find_const h n (cfg_path p)) (\<lambda>m. case m of None \<Rightarrow> Some False | Some m \<Rightarrow> cfg_value h m))"

text \<open>\<open>_get_sv\<close>: a buffer of \<open>vlen\<close> bytes, or none; the length that is reported and the string that was copied.\<close>

definition get_sv :: "string \<Rightarrow> nat option \<Rightarrow> errno option \<times> nat \<times> string option" where
  "get_sv v vlen =
     (case vlen of
        None \<Rightarrow> (Some EAGAIN, length v + 1, None)
      | Some n \<Rightarrow> if n < length v + 1 then (Some EAGAIN, length v + 1, None) else (None, length v, Some v))"

text \<open>\<open>tll_config_get\<close>. A callback that returns null is a string view from null there.\<close>

definition config_get :: "heap \<Rightarrow> node \<Rightarrow> string option \<Rightarrow> nat option \<Rightarrow> (errno + errno option \<times> nat \<times> string option) option" where
  "config_get h n path vlen =
     Option.bind
       (case path of
          Some p \<Rightarrow> find_const h n (cfg_path p)
        | None \<Rightarrow> map_option (\<lambda>b. if b then Some n else None) (cfg_value h n))
       (\<lambda>m. case m of
          None \<Rightarrow> Some (Inl ENOENT)
        | Some m \<Rightarrow>
            Option.bind (lookup_link h m) (\<lambda>m.
              case m of
                None \<Rightarrow> Some (Inl ENOENT)
              | Some m \<Rightarrow>
                  (case cn_data (hp_node h m) of
                     CStr v \<Rightarrow> Some (Inr (get_sv v vlen))
                   | CCb (Some v) \<Rightarrow> Some (Inr (get_sv v vlen))
                   | CCb None \<Rightarrow> None
                   | _ \<Rightarrow> Some (Inl ENOENT))))"

definition config_set_data :: "node \<Rightarrow> string option \<Rightarrow> cfg_data \<Rightarrow> heap \<Rightarrow> (heap \<times> errno option) option" where
  "config_set_data n path v h =
     (case path of
        None \<Rightarrow> Some (set_data n v h, None)
      | Some p \<Rightarrow>
          map_option (\<lambda>(h, m). case m of None \<Rightarrow> (h, Some EINVAL) | Some m \<Rightarrow> (set_data m v h, None)) (find_path n (cfg_path p) True h))"

definition config_set :: "node \<Rightarrow> string option \<Rightarrow> string \<Rightarrow> heap \<Rightarrow> (heap \<times> errno option) option" where
  "config_set n path v = config_set_data n path (CStr v)"

definition config_set_callback :: "node \<Rightarrow> string option \<Rightarrow> string option \<Rightarrow> heap \<Rightarrow> (heap \<times> errno option) option" where
  "config_set_callback n path v = config_set_data n path (CCb v)"

definition config_unset :: "node \<Rightarrow> string option \<Rightarrow> heap \<Rightarrow> (heap \<times> errno option) option" where
  "config_unset n path h =
     (case path of
        None \<Rightarrow> Some (set_data n CNone h, None)
      | Some p \<Rightarrow>
          map_option (\<lambda>(h, m). case m of None \<Rightarrow> (h, Some ENOENT) | Some m \<Rightarrow> (set_data m CNone h, None)) (find_path n (cfg_path p) False h))"

section \<open>Subtrees\<close>

text \<open>\<open>set\<close> of a config under a path. Without the node of the last step but one (a broken link) the code uses a null pointer.\<close>

definition set_config :: "node \<Rightarrow> string \<Rightarrow> node \<Rightarrow> heap \<Rightarrow> heap option" where
  "set_config n path c h =
     Option.bind (find_path n (butlast (cfg_path path)) True h) (\<lambda>(h, v).
       case v of
         None \<Rightarrow> None
       | Some v \<Rightarrow>
           let k = last (cfg_path path);
               h = (case kid h v k of None \<Rightarrow> h | Some old \<Rightarrow> set_parent old None h)
           in Some (set_parent c (Some v) (put_kid v k c h)))"

text \<open>The node that holds the last step of a path, for \<open>unlink\<close> and \<open>remove\<close>.\<close>

definition find_holder :: "heap \<Rightarrow> node \<Rightarrow> string list \<Rightarrow> node option option" where
  "find_holder h n path = (if butlast path = [] then Some (Some n) else find_const h n (butlast path))"

definition config_unlink :: "node \<Rightarrow> string \<Rightarrow> heap \<Rightarrow> (heap \<times> errno option) option" where
  "config_unlink n path h =
     map_option (\<lambda>m.
       case m of
         None \<Rightarrow> (h, Some ENOENT)
       | Some m \<Rightarrow>
           (case kid h m (last (cfg_path path)) of
              None \<Rightarrow> (h, Some ENOENT)
            | Some c \<Rightarrow> (erase_kid m (last (cfg_path path)) h, None)))
       (find_holder h n (cfg_path path))"

definition config_remove :: "node \<Rightarrow> string \<Rightarrow> heap \<Rightarrow> (heap \<times> errno option) option" where
  "config_remove n path h =
     Option.bind (find_holder h n (cfg_path path)) (\<lambda>m.
       case m of
         None \<Rightarrow> Some (h, Some ENOENT)
       | Some m \<Rightarrow>
           (case kid h m (last (cfg_path path)) of
              None \<Rightarrow> Some (h, Some ENOENT)
            | Some c \<Rightarrow>
                map_option (\<lambda>r.
                  case r of
                    None \<Rightarrow> (h, Some ENOENT)
                  | Some r \<Rightarrow>
                      (if cn_kids (hp_node h r) = [] then erase_kid m (last (cfg_path path)) h else set_data r CNone h, None))
                  (lookup_link h c)))"

section \<open>Merge, copy and browse\<close>

definition merge_data :: "bool \<Rightarrow> node \<Rightarrow> node \<Rightarrow> heap \<Rightarrow> heap" where
  "merge_data overwrite l r h =
     (if overwrite \<and> cn_data (hp_node h r) \<noteq> CNone then set_data l (cn_data (hp_node h r)) h else h)"

text \<open>The loop of \<open>merge\<close> over the children of \<open>r\<close>: one that is new is moved, others are merged.\<close>

partial_function (option) merge_kids :: "bool \<Rightarrow> node \<Rightarrow> node \<Rightarrow> (string \<times> node) list \<Rightarrow> heap \<Rightarrow> heap option" where
  "merge_kids overwrite l r ks h =
     (case ks of
        [] \<Rightarrow> Some h
      | kc # ks \<Rightarrow>
          (case kid h l (fst kc) of
             None \<Rightarrow> merge_kids overwrite l r ks (erase_kid r (fst kc) (put_kid l (fst kc) (snd kc) (set_parent (snd kc) (Some l) h)))
           | Some lc \<Rightarrow>
               Option.bind (merge_kids overwrite lc (snd kc) (cn_kids (hp_node h (snd kc))) (merge_data overwrite lc (snd kc) h))
                 (merge_kids overwrite l r ks)))"

definition config_merge :: "bool \<Rightarrow> node \<Rightarrow> node \<Rightarrow> heap \<Rightarrow> heap option" where
  "config_merge overwrite l r h = merge_kids overwrite l r (cn_kids (hp_node h r)) (merge_data overwrite l r h)"

text \<open>The copy of a node without its children: a link that leads out of the copied subtree is replaced by what it leads to.\<close>

definition link_outside :: "cfg_data \<Rightarrow> nat \<Rightarrow> bool \<Rightarrow> bool" where
  "link_outside d depth root =
     (case d of
        CLink absolute ks \<Rightarrow> if absolute then \<not> root else length (takeWhile (\<lambda>k. k = ''..'') ks) > depth
      | _ \<Rightarrow> False)"

definition copy_start :: "node \<Rightarrow> nat \<Rightarrow> bool \<Rightarrow> heap \<Rightarrow> (heap \<times> node \<times> (string \<times> node) list) option" where
  "copy_start n depth root h =
     map_option (\<lambda>c.
       let (h, m) = new_node None h in
       case c of
         None \<Rightarrow> (h, m, [])
       | Some c \<Rightarrow> (set_data m (cn_data (hp_node h c)) h, m, cn_kids (hp_node h c)))
       (if link_outside (cn_data (hp_node h n)) depth root then lookup_link h n else Some (Some n))"

partial_function (option) copy_kids :: "node \<Rightarrow> (string \<times> node) list \<Rightarrow> nat \<Rightarrow> bool \<Rightarrow> heap \<Rightarrow> heap option" where
  "copy_kids m ks depth root h =
     (case ks of
        [] \<Rightarrow> Some h
      | kc # ks \<Rightarrow>
          Option.bind (copy_start (snd kc) depth root h) (\<lambda>s.
          Option.bind (copy_kids (fst (snd s)) (snd (snd s)) (depth + 1) root (fst s)) (\<lambda>h.
            copy_kids m ks depth root (set_parent (fst (snd s)) (Some m) (put_kid m (fst kc) (fst (snd s)) h)))))"

definition config_copy :: "node \<Rightarrow> heap \<Rightarrow> (heap \<times> node) option" where
  "config_copy n h =
     (let root = (cn_parent (hp_node h n) = None) in
      Option.bind (copy_start n 0 root h) (\<lambda>(h, m, ks). map_option (\<lambda>h. (h, m)) (copy_kids m ks 1 root h)))"

text \<open>\<open>browse\<close> with a callback \<open>cb\<close> that ends it with a value other than 0: the nodes it was called with. \<open>ks\<close> are the children that a
  wildcard has still to visit.\<close>

type_synonym found_nodes = "(string \<times> node) list"

definition is_wild :: "string \<Rightarrow> bool" where
  "is_wild m \<longleftrightarrow> m = ''*'' \<or> m = ''**''"

definition visit :: "(string \<Rightarrow> node \<Rightarrow> int) \<Rightarrow> string \<Rightarrow> node \<Rightarrow> found_nodes \<Rightarrow> found_nodes \<times> int" where
  "visit cb p n acc = (acc @ [(p, n)], cb p n)"

definition and_then :: "found_nodes \<times> int \<Rightarrow> (found_nodes \<Rightarrow> (found_nodes \<times> int) option) \<Rightarrow> (found_nodes \<times> int) option" where
  "and_then a f = (if snd a \<noteq> 0 then Some a else f (fst a))"

lemma and_then_mono [partial_function_mono]:
  "mono_option B \<Longrightarrow> (\<And>y. mono_option (C y)) \<Longrightarrow> mono_option (\<lambda>f. Option.bind (B f) (\<lambda>a. and_then a (\<lambda>y. C y f)))"
proof -
  assume B: "mono_option B" and C: "\<And>y. mono_option (C y)"
  have "mono_option (\<lambda>f. Option.bind (B f) (\<lambda>a. if snd a \<noteq> 0 then Some a else C (fst a) f))"
    by (intro bind_mono B) (auto intro!: partial_function_mono C)
  then show ?thesis by (simp add: and_then_def)
qed

partial_function (option) browse_node ::
  "heap \<Rightarrow> (string \<Rightarrow> node \<Rightarrow> int) \<Rightarrow> string list \<Rightarrow> node \<Rightarrow> (string \<times> node) list \<Rightarrow> string \<Rightarrow> found_nodes \<Rightarrow> (found_nodes \<times> int) option" where
  "browse_node h cb msk n ks prefix acc =
     (case msk of
        [] \<Rightarrow> Some (acc, 0)
      | m # ms \<Rightarrow>
          if is_wild m
          then (case ks of
                  [] \<Rightarrow> Some (acc, 0)
                | kc # ks \<Rightarrow>
                    Option.bind (lookup_link h (snd kc)) (\<lambda>c.
                      case c of
                        None \<Rightarrow> browse_node h cb msk n ks prefix acc
                      | Some c \<Rightarrow>
                          Option.bind (Some (if ms = [] then visit cb (prefix @ fst kc) c acc else (acc, 0))) (\<lambda>a. and_then a (\<lambda>acc.
                          Option.bind (browse_node h cb ms c (cn_kids (hp_node h c)) (prefix @ fst kc @ ''.'') acc) (\<lambda>a. and_then a (\<lambda>acc.
                          Option.bind (if m = ''**'' then browse_node h cb msk c (cn_kids (hp_node h c)) (prefix @ fst kc @ ''.'') acc else Some (acc, 0))
                            (\<lambda>a. and_then a (\<lambda>acc. browse_node h cb msk n ks prefix acc))))))))
          else case kid h n m of
                 None \<Rightarrow> Some (acc, 0)
               | Some c \<Rightarrow>
                   if ms = [] then Some (visit cb (prefix @ m) c acc)
                   else browse_node h cb ms c (cn_kids (hp_node h c)) (prefix @ m @ ''.'') acc)"

text \<open>The part of a mask before its first wildcard.\<close>

fun browse_prefix :: "heap \<Rightarrow> string list \<Rightarrow> node \<Rightarrow> string \<Rightarrow> (node \<times> string list \<times> string) option option" where
  "browse_prefix h [] n prefix = Some (Some (n, [], prefix))"
| "browse_prefix h (m # ms) n prefix =
     Option.bind (lookup_link h n) (\<lambda>p.
       case p of
         None \<Rightarrow> Some None
       | Some p \<Rightarrow>
           if is_wild m then Some (Some (p, m # ms, prefix))
           else case kid h p m of None \<Rightarrow> Some None | Some c \<Rightarrow> browse_prefix h ms c (prefix @ m @ ''.''))"

definition config_browse :: "heap \<Rightarrow> (string \<Rightarrow> node \<Rightarrow> int) \<Rightarrow> node \<Rightarrow> string \<Rightarrow> (errno + found_nodes \<times> int) option" where
  "config_browse h cb n msk =
     (let mv = cfg_path msk in
      if length (filter (\<lambda>m. m = ''**'') mv) > 1 then Some (Inl EINVAL)
      else Option.bind (browse_prefix h mv n []) (\<lambda>s.
             case s of
               None \<Rightarrow> Some (Inr ([], 0))
             | Some (p, ms, prefix) \<Rightarrow> map_option Inr (browse_node h cb ms p (cn_kids (hp_node h p)) prefix [])))"

text \<open>\<open>tll_config_list\<close>: the children the callback is called with, up to the first for which it does not return 0.\<close>

fun list_kids :: "(string \<Rightarrow> node \<Rightarrow> int) \<Rightarrow> (string \<times> node) list \<Rightarrow> (string \<times> node) list" where
  "list_kids cb [] = []"
| "list_kids cb ((k, c) # ks) = (k, c) # (if cb k c \<noteq> 0 then [] else list_kids cb ks)"

definition config_list :: "heap \<Rightarrow> (string \<Rightarrow> node \<Rightarrow> int) \<Rightarrow> node \<Rightarrow> (string \<times> node) list" where
  "config_list h cb n = list_kids cb (cn_kids (hp_node h n))"

section \<open>Trees\<close>

fun walk :: "heap \<Rightarrow> node \<Rightarrow> string list \<Rightarrow> node option" where
  "walk h n [] = Some n"
| "walk h n (k # ks) = (case kid h n k of None \<Rightarrow> None | Some c \<Rightarrow> walk h c ks)"

definition data_value :: "cfg_data \<Rightarrow> string option" where
  "data_value d = (case d of CStr v \<Rightarrow> Some v | CCb v \<Rightarrow> v | _ \<Rightarrow> None)"

text \<open>What a config means: a map from paths to values.\<close>

definition cfg_abs :: "heap \<Rightarrow> node \<Rightarrow> string list \<Rightarrow> string option" where
  "cfg_abs h n p = (case walk h n p of None \<Rightarrow> None | Some c \<Rightarrow> data_value (cn_data (hp_node h c)))"

inductive cfg_tree :: "heap \<Rightarrow> node \<Rightarrow> bool" for h where
  "(\<And>k c. kid h n k = Some c \<Longrightarrow> cfg_tree h c) \<Longrightarrow> cfg_tree h n"

definition cfg_ok :: "heap \<Rightarrow> bool" where
  "cfg_ok h \<longleftrightarrow> (\<forall>n k c. kid h n k = Some c \<longrightarrow> cn_parent (hp_node h c) = Some n \<and> c < hp_next h) \<and>
     (\<forall>n k k' c. kid h n k = Some c \<longrightarrow> kid h n k' = Some c \<longrightarrow> k = k') \<and>
     (\<forall>n. sorted_wrt (<) (map fst (cn_kids (hp_node h n)))) \<and> (\<forall>n a l. cn_data (hp_node h n) \<noteq> CLink a l)"

definition cfg_inv :: "node \<Rightarrow> heap \<Rightarrow> bool" where
  "cfg_inv n h \<longleftrightarrow> cfg_ok h \<and> n < hp_next h \<and> cfg_tree h n"

lemma upd_node_simps [simp]:
  "hp_node (upd_node n f h) x = (if x = n then f (hp_node h n) else hp_node h x)" "hp_next (upd_node n f h) = hp_next h"
  by (simp_all add: upd_node_def)

lemma walk_append: "walk h n (p @ q) = (case walk h n p of None \<Rightarrow> None | Some m \<Rightarrow> walk h m q)"
  by (induction p arbitrary: n) (auto split: option.splits)

lemma tree_acyclic: "cfg_tree h n \<Longrightarrow> walk h n q = Some n \<Longrightarrow> q = []"
proof (induction arbitrary: q rule: cfg_tree.induct)
  case (1 n)
  show ?case
  proof (rule ccontr)
    assume "q \<noteq> []"
    then obtain k ks where q: "q = k # ks" by (cases q) auto
    then obtain c where c: "kid h n k = Some c" "walk h c ks = Some n" using 1(3) by (auto split: option.splits)
    then have "walk h c (ks @ [k]) = Some c" by (simp add: walk_append)
    then show False using 1(2) [OF c(1)] by blast
  qed
qed

lemma walk_inj:
  assumes "cfg_ok h" "cfg_tree h n"
  shows "walk h n p = Some m \<Longrightarrow> walk h n q = Some m \<Longrightarrow> p = q"
proof (induction p arbitrary: q m rule: rev_induct)
  case Nil
  then show ?case using tree_acyclic [OF assms(2), of q] by simp
next
  case (snoc k p)
  obtain x where x: "walk h n p = Some x" "kid h x k = Some m" using snoc.prems(1) by (auto simp: walk_append split: option.splits)
  show ?case
  proof (cases q rule: rev_cases)
    case Nil
    then have "walk h n (p @ [k]) = Some n" using snoc.prems by simp
    then show ?thesis using tree_acyclic [OF assms(2)] by blast
  next
    case (snoc q' k')
    then obtain y where y: "walk h n q' = Some y" "kid h y k' = Some m" using snoc.prems(2) by (auto simp: walk_append split: option.splits)
    then have "x = y" using x assms(1) unfolding cfg_ok_def by (metis option.inject)
    then have "k = k'" "p = q'" using x y assms(1) snoc.IH [of x q'] unfolding cfg_ok_def by blast+
    then show ?thesis using snoc by simp
  qed
qed

lemma walk_alloc: "cfg_ok h \<Longrightarrow> n < hp_next h \<Longrightarrow> walk h n p = Some m \<Longrightarrow> m < hp_next h"
proof (induction p arbitrary: n)
  case (Cons k p)
  then obtain c where c: "kid h n k = Some c" "walk h c p = Some m" by (auto split: option.splits)
  then have "c < hp_next h" using Cons.prems(1) unfolding cfg_ok_def by blast
  then show ?case using Cons.IH [OF Cons.prems(1) _ c(2)] by blast
qed simp

lemma walk_tree: "cfg_tree h n \<Longrightarrow> walk h n p = Some m \<Longrightarrow> cfg_tree h m"
proof (induction p arbitrary: n)
  case (Cons k p)
  then obtain c where c: "kid h n k = Some c" "walk h c p = Some m" by (auto split: option.splits)
  from Cons.prems(1) c(1) have "cfg_tree h c" by (auto elim: cfg_tree.cases)
  then show ?case using Cons.IH [OF _ c(2)] by blast
qed simp

text \<open>Without links a lookup is a walk.\<close>

fun descend :: "heap \<Rightarrow> node \<Rightarrow> string list \<Rightarrow> node \<times> string list" where
  "descend h n [] = (n, [])"
| "descend h n (k # ks) = (case kid h n k of None \<Rightarrow> (n, k # ks) | Some c \<Rightarrow> descend h c ks)"

lemma no_link: "cfg_ok h \<Longrightarrow> (case cn_data (hp_node h n) of CLink a l \<Rightarrow> X a l | _ \<Rightarrow> Y) = Y"
  by (simp add: cfg_ok_def split: cfg_data.splits)

lemma lookup_descend: "cfg_ok h \<Longrightarrow> cfg_lookup h n p = Some (Some (fst (descend h n p)), snd (descend h n p))"
proof (induction p arbitrary: n)
  case Nil
  then show ?case by (simp add: cfg_lookup.simps)
next
  case (Cons k p)
  then show ?case by (subst cfg_lookup.simps) (auto simp: no_link split: option.splits)
qed

lemma walk_descend: "walk h n p = (if snd (descend h n p) = [] then Some (fst (descend h n p)) else None)"
  by (induction p arbitrary: n) (auto split: option.splits)

lemma find_const_walk: "cfg_ok h \<Longrightarrow> find_const h n p = Some (walk h n p)"
  by (simp add: find_const_def lookup_descend walk_descend)

lemma lookup_link_self: "cfg_ok h \<Longrightarrow> lookup_link h n = Some (Some n)"
  by (simp add: lookup_link_def no_link)

lemma cfg_get_value: "cfg_ok h \<Longrightarrow> cfg_get h n = Some (data_value (cn_data (hp_node h n)))"
  by (subst cfg_get.simps) (auto simp: data_value_def cfg_ok_def split: cfg_data.splits)

lemma config_get_abs: "cfg_ok h \<Longrightarrow> config_get_copy h n (Some p) = Some (cfg_abs h n (cfg_path p))"
  by (simp add: config_get_copy_def find_const_walk cfg_get_value cfg_abs_def split: option.splits)

section \<open>Changes\<close>

lemma kid_set_data [simp]: "kid (set_data m v h) n k = kid h n k"
  by (simp add: kid_def set_data_def)

lemma walk_cong: "(\<And>n k. kid h' n k = kid h n k) \<Longrightarrow> walk h' n p = walk h n p"
  by (induction p arbitrary: n) (auto split: option.splits)

lemma tree_mono: "cfg_tree h n \<Longrightarrow> (\<And>n k c. kid h' n k = Some c \<Longrightarrow> kid h n k = Some c) \<Longrightarrow> cfg_tree h' n"
proof (induction rule: cfg_tree.induct)
  case (1 n)
  show ?case by (rule cfg_tree.intros) (use 1 in blast)
qed

lemma set_data_inv:
  assumes "cfg_inv n h" "\<And>a l. v \<noteq> CLink a l"
  shows "cfg_inv n (set_data m v h)"
proof -
  have "hp_next (set_data m v h) = hp_next h" "cn_parent (hp_node (set_data m v h) x) = cn_parent (hp_node h x)"
    "cn_kids (hp_node (set_data m v h) x) = cn_kids (hp_node h x)" for x by (simp_all add: set_data_def)
  moreover have "cn_data (hp_node (set_data m v h) x) \<noteq> CLink a l" for x a l
    using assms by (auto simp: set_data_def cfg_inv_def cfg_ok_def)
  ultimately show ?thesis using assms(1) tree_mono [of h n "set_data m v h"] by (simp add: cfg_inv_def cfg_ok_def)
qed

lemma set_data_abs:
  assumes "cfg_inv n h" "walk h n p = Some m"
  shows "cfg_abs (set_data m v h) n = (cfg_abs h n)(p := data_value v)"
proof
  fix q
  have w: "walk (set_data m v h) n q = walk h n q" by (rule walk_cong) simp
  show "cfg_abs (set_data m v h) n q = ((cfg_abs h n)(p := data_value v)) q"
  proof (cases "q = p")
    case True
    then show ?thesis using assms(2) w by (simp add: cfg_abs_def set_data_def)
  next
    case False
    then have "walk h n q \<noteq> Some m" using walk_inj [of h n q m p] assms by (auto simp: cfg_inv_def)
    then show ?thesis using False w by (auto simp: cfg_abs_def set_data_def split: option.splits)
  qed
qed

text \<open>A new child.\<close>

lemma map_of_kids_put: "map_of (kids_put k c xs) = (map_of xs)(k \<mapsto> c)" if "sorted_wrt (<) (map fst xs)"
  using that by (induction k c xs rule: kids_put.induct) (auto simp: fun_eq_iff)

lemma kids_put_keys: "fst ` set (kids_put k c xs) = insert k (fst ` set xs)"
  by (induction k c xs rule: kids_put.induct) auto

lemma kids_put_sorted: "sorted_wrt (<) (map fst xs) \<Longrightarrow> sorted_wrt (<) (map fst (kids_put k c xs))"
proof (induction k c xs rule: kids_put.induct)
  case (2 k c k' c' r)
  have "\<forall>x \<in> set (map fst (kids_put k c r)). k' < x" if "k' < k"
    using 2(2) that kids_put_keys [of k c r] by auto
  then show ?case using 2 by (auto simp: order_less_trans intro: order_less_trans)
qed simp

definition add_leaf :: "node \<Rightarrow> string \<Rightarrow> heap \<Rightarrow> heap" where
  "add_leaf n k h = put_kid n k (hp_next h) (fst (new_node (Some n) h))"

lemma create_path_Cons: "create_path n (k # ks) h = create_path (hp_next h) ks (add_leaf n k h)"
  by (simp add: add_leaf_def new_node_def)

lemma add_leaf_node:
  assumes "n < hp_next h"
  shows "hp_node (add_leaf n k h) x =
    (if x = hp_next h then \<lparr>cn_parent = Some n, cn_kids = [], cn_data = CNone\<rparr>
     else if x = n then (hp_node h n)\<lparr>cn_kids := kids_put k (hp_next h) (cn_kids (hp_node h n))\<rparr> else hp_node h x)"
    "hp_next (add_leaf n k h) = hp_next h + 1"
  using assms by (simp_all add: add_leaf_def new_node_def put_kid_def)

lemma kid_add_leaf:
  assumes "cfg_ok h" "n < hp_next h"
  shows "kid (add_leaf n k h) x j = (if x = hp_next h then None else if x = n \<and> j = k then Some (hp_next h) else kid h x j)"
  using assms map_of_kids_put [of "cn_kids (hp_node h n)" k "hp_next h"] by (simp add: kid_def add_leaf_node cfg_ok_def)

lemma add_leaf_inv:
  assumes "cfg_inv r h" "n < hp_next h" "kid h n k = None"
  shows "cfg_inv r (add_leaf n k h)"
proof -
  have ok: "cfg_ok h" "cfg_tree h r" "r < hp_next h" using assms(1) by (simp_all add: cfg_inv_def)
  note kl = kid_add_leaf [OF ok(1) assms(2)]
  have al: "c < hp_next h \<and> cn_parent (hp_node h c) = Some x" if "kid h x j = Some c" for x j c using ok(1) that unfolding cfg_ok_def by blast
  have leaf: "cfg_tree (add_leaf n k h) (hp_next h)" by (rule cfg_tree.intros) (simp add: kl)
  have tree: "cfg_tree (add_leaf n k h) x" if "cfg_tree h x" for x using that
  proof (induction rule: cfg_tree.induct)
    case (1 x)
    show ?case by (rule cfg_tree.intros) (use 1 leaf in \<open>auto simp: kl split: if_splits\<close>)
  qed
  have "cfg_ok (add_leaf n k h)"
    unfolding cfg_ok_def
  proof (intro conjI allI impI)
    fix x j c assume c: "kid (add_leaf n k h) x j = Some c"
    then show "cn_parent (hp_node (add_leaf n k h) c) = Some x" "c < hp_next (add_leaf n k h)"
      using al [of x j c] by (auto simp: kl add_leaf_node [OF assms(2)] split: if_splits)
  next
    fix x j j' c assume "kid (add_leaf n k h) x j = Some c" "kid (add_leaf n k h) x j' = Some c"
    then show "j = j'" using ok(1) al [of x j c] al [of x j' c] unfolding cfg_ok_def by (auto simp: kl split: if_splits)
  next
    fix x show "sorted_wrt (<) (map fst (cn_kids (hp_node (add_leaf n k h) x)))"
      using ok(1) kids_put_sorted by (simp add: add_leaf_node [OF assms(2)] cfg_ok_def)
  next
    fix x a l show "cn_data (hp_node (add_leaf n k h) x) \<noteq> CLink a l" using ok(1) by (simp add: add_leaf_node [OF assms(2)] cfg_ok_def)
  qed
  then show ?thesis using ok tree by (simp add: cfg_inv_def add_leaf_node [OF assms(2)])
qed

lemma add_leaf_abs:
  assumes "cfg_ok h" "n < hp_next h" "kid h n k = None"
  shows "x < hp_next h \<Longrightarrow> cfg_abs (add_leaf n k h) x p = cfg_abs h x p"
proof (induction p arbitrary: x)
  case Nil
  then show ?case by (simp add: cfg_abs_def add_leaf_node [OF assms(2)])
next
  case (Cons j p)
  note kl = kid_add_leaf [OF assms(1,2)]
  show ?case
  proof (cases "x = n \<and> j = k")
    case True
    have "cfg_abs (add_leaf n k h) (hp_next h) p = None"
      by (cases p) (simp_all add: cfg_abs_def kl add_leaf_node [OF assms(2)] data_value_def)
    then show ?thesis using True assms(3) Cons.prems by (simp add: cfg_abs_def kl)
  next
    case False
    have "c < hp_next h" if "kid h x j = Some c" for c using assms(1) that unfolding cfg_ok_def by blast
    then show ?thesis using False Cons by (auto simp: cfg_abs_def kl split: option.splits)
  qed
qed

lemma create_path_ok:
  "cfg_inv r h \<Longrightarrow> n < hp_next h \<Longrightarrow> walk h r p = Some n \<Longrightarrow> ks \<noteq> [] \<Longrightarrow> kid h n (hd ks) = None \<Longrightarrow>
    \<exists>h' m. create_path n ks h = (h', m) \<and> cfg_inv r h' \<and> walk h' r (p @ ks) = Some m \<and> cfg_abs h' r = cfg_abs h r"
proof (induction ks arbitrary: h n p)
  case (Cons k ks)
  have ok: "cfg_ok h" "r < hp_next h" using Cons.prems(1) by (simp_all add: cfg_inv_def)
  have nk: "kid h n k = None" using Cons.prems(5) by simp
  let ?h = "add_leaf n k h"
  note kl = kid_add_leaf [OF ok(1) Cons.prems(2)]
  have inv: "cfg_inv r ?h" using add_leaf_inv [OF Cons.prems(1,2) nk] .
  have ab: "cfg_abs ?h r = cfg_abs h r" using add_leaf_abs [OF ok(1) Cons.prems(2) nk ok(2)] by auto
  have mono: "walk ?h x q = Some m" if "walk h x q = Some m" "x < hp_next h" for x q m
    using that
  proof (induction q arbitrary: x)
    case (Cons j q)
    then obtain c where c: "kid h x j = Some c" "walk h c q = Some m" by (auto split: option.splits)
    then have "c < hp_next h" using ok(1) unfolding cfg_ok_def by blast
    then show ?case using Cons.IH [OF c(2)] c(1) Cons.prems(2) nk by (auto simp: kl)
  qed simp
  have w: "walk ?h r (p @ [k]) = Some (hp_next h)" using mono [OF Cons.prems(3) ok(2)] Cons.prems(2) by (simp add: walk_append kl)
  show ?case
  proof (cases "ks = []")
    case True
    then show ?thesis using create_path_Cons [of n k ks h] inv w ab by simp
  next
    case False
    have "kid ?h (hp_next h) (hd ks) = None" "hp_next h < hp_next ?h" by (simp_all add: kl add_leaf_node [OF Cons.prems(2)])
    then obtain h' m where "create_path (hp_next h) ks ?h = (h', m)" "cfg_inv r h'" "walk h' r ((p @ [k]) @ ks) = Some m" "cfg_abs h' r = cfg_abs ?h r"
      using Cons.IH [OF inv _ w False] by blast
    then show ?thesis using create_path_Cons [of n k ks h] ab by simp
  qed
qed simp

lemma descend_split: "descend h n p = (m, rest) \<Longrightarrow> \<exists>q. p = q @ rest \<and> walk h n q = Some m \<and> (rest \<noteq> [] \<longrightarrow> kid h m (hd rest) = None)"
proof (induction p arbitrary: n)
  case (Cons k p)
  show ?case
  proof (cases "kid h n k")
    case None
    then show ?thesis using Cons.prems by (intro exI [of _ "[]"]) auto
  next
    case (Some c)
    then obtain q where "p = q @ rest" "walk h c q = Some m" "rest \<noteq> [] \<longrightarrow> kid h m (hd rest) = None" using Cons by auto
    then show ?thesis using Some by (intro exI [of _ "k # q"]) simp
  qed
qed simp

lemma find_create_ok:
  assumes "cfg_inv r h"
  shows "\<exists>h' m. find_path r p True h = Some (h', Some m) \<and> cfg_inv r h' \<and> walk h' r p = Some m \<and> cfg_abs h' r = cfg_abs h r"
proof -
  have ok: "cfg_ok h" "r < hp_next h" using assms by (simp_all add: cfg_inv_def)
  obtain m rest where d: "descend h r p = (m, rest)" by (cases "descend h r p")
  then obtain q where q: "p = q @ rest" "walk h r q = Some m" "rest \<noteq> [] \<longrightarrow> kid h m (hd rest) = None" using descend_split by blast
  have l: "cfg_lookup h r p = Some (Some m, rest)" using lookup_descend [OF ok(1)] d by simp
  show ?thesis
  proof (cases "rest = []")
    case True
    then show ?thesis using l q assms by (simp add: find_path_def)
  next
    case False
    then show ?thesis using create_path_ok [OF assms walk_alloc [OF ok q(2)] q(2) False] q l by (auto simp: find_path_def)
  qed
qed

lemma find_nocreate: "cfg_ok h \<Longrightarrow> find_path r p False h = Some (h, walk h r p)"
  by (simp add: find_path_def lookup_descend walk_descend)

lemma config_set_data_ok:
  assumes "cfg_inv r h" "\<And>a l. v \<noteq> CLink a l"
  shows "\<exists>h'. config_set_data r (Some p) v h = Some (h', None) \<and> cfg_inv r h' \<and> cfg_abs h' r = (cfg_abs h r)(cfg_path p := data_value v)"
proof -
  obtain h1 m where f: "find_path r (cfg_path p) True h = Some (h1, Some m)" "cfg_inv r h1" "walk h1 r (cfg_path p) = Some m" "cfg_abs h1 r = cfg_abs h r"
    using find_create_ok [OF assms(1)] by blast
  then show ?thesis using set_data_inv [OF f(2) assms(2)] set_data_abs [OF f(2,3)] by (simp add: config_set_data_def)
qed

lemma config_unset_ok:
  assumes "cfg_inv r h"
  shows "\<exists>h' e. config_unset r (Some p) h = Some (h', e) \<and> cfg_inv r h' \<and> cfg_abs h' r = (cfg_abs h r)(cfg_path p := None) \<and>
    (e = None \<or> e = Some ENOENT \<and> walk h r (cfg_path p) = None)"
proof -
  have ok: "cfg_ok h" using assms by (simp add: cfg_inv_def)
  show ?thesis
  proof (cases "walk h r (cfg_path p)")
    case None
    then have "cfg_abs h r (cfg_path p) = None" by (simp add: cfg_abs_def)
    then have "cfg_abs h r = (cfg_abs h r)(cfg_path p := None)" by (simp add: fun_eq_iff)
    then show ?thesis using None assms by (simp add: config_unset_def find_nocreate [OF ok])
  next
    case (Some m)
    then show ?thesis using set_data_inv [OF assms, of CNone m] set_data_abs [OF assms Some, of CNone]
      by (simp add: config_unset_def find_nocreate [OF ok] data_value_def)
  qed
qed

text \<open>A child is erased.\<close>

lemma kid_erase: "kid (erase_kid n k h) x j = (if x = n \<and> j = k then None else kid h x j)"
proof -
  have "map_of (filter (\<lambda>(k', _). k' \<noteq> k) xs) j = (if j = k then None else map_of xs j)" for xs :: "(string \<times> node) list"
    by (induction xs) auto
  then show ?thesis by (auto simp: kid_def erase_kid_def)
qed

lemma erase_kid_node:
  "hp_next (erase_kid n k h) = hp_next h" "cn_parent (hp_node (erase_kid n k h) x) = cn_parent (hp_node h x)"
  "cn_data (hp_node (erase_kid n k h) x) = cn_data (hp_node h x)"
  "cn_kids (hp_node (erase_kid n k h) x) = (if x = n then filter (\<lambda>(k', _). k' \<noteq> k) (cn_kids (hp_node h x)) else cn_kids (hp_node h x))"
  by (simp_all add: erase_kid_def)

lemma erase_kid_inv:
  assumes "cfg_inv r h"
  shows "cfg_inv r (erase_kid n k h)"
proof -
  have s: "sorted_wrt (<) (map fst (filter (\<lambda>(k', _). k' \<noteq> k) xs))" if "sorted_wrt (<) (map fst xs)" for xs :: "(string \<times> node) list"
    using that by (induction xs) auto
  have k: "kid h x j = Some c" if "kid (erase_kid n k h) x j = Some c" for x j c
    using that by (simp add: kid_erase split: if_splits)
  have ok: "cfg_ok h" "cfg_tree h r" "r < hp_next h" using assms by (simp_all add: cfg_inv_def)
  have "cfg_ok (erase_kid n k h)"
    unfolding cfg_ok_def
  proof (intro conjI allI impI)
    fix x j c assume "kid (erase_kid n k h) x j = Some c"
    then show "cn_parent (hp_node (erase_kid n k h) c) = Some x" "c < hp_next (erase_kid n k h)"
      using k ok(1) unfolding cfg_ok_def erase_kid_node by blast+
  next
    fix x j j' c assume "kid (erase_kid n k h) x j = Some c" "kid (erase_kid n k h) x j' = Some c"
    then show "j = j'" using k ok(1) unfolding cfg_ok_def by blast
  next
    fix x show "sorted_wrt (<) (map fst (cn_kids (hp_node (erase_kid n k h) x)))" using ok(1) s by (simp add: erase_kid_node cfg_ok_def)
  next
    fix x a l show "cn_data (hp_node (erase_kid n k h) x) \<noteq> CLink a l" using ok(1) by (simp add: erase_kid_node cfg_ok_def)
  qed
  then show ?thesis using ok tree_mono [OF ok(2), of "erase_kid n k h"] k by (simp add: cfg_inv_def erase_kid_node)
qed

lemma walk_erase:
  assumes "cfg_inv r h" "walk h r q = Some m"
  shows "walk (erase_kid m k h) r p = (if \<exists>u. p = q @ k # u then None else walk h r p)"
proof (induction p rule: rev_induct)
  case (snoc j p)
  have ok: "cfg_ok h" "cfg_tree h r" using assms(1) by (simp_all add: cfg_inv_def)
  show ?case
  proof (cases "\<exists>u. p = q @ k # u")
    case True
    then show ?thesis using snoc by (auto simp: walk_append)
  next
    case False
    then have e: "walk (erase_kid m k h) r p = walk h r p" using snoc by simp
    have "(\<exists>u. p @ [j] = q @ k # u) \<longleftrightarrow> p = q \<and> j = k"
    proof
      assume "\<exists>u. p @ [j] = q @ k # u"
      then obtain u where u: "p @ [j] = q @ k # u" by blast
      then show "p = q \<and> j = k"
      proof (cases u rule: rev_cases)
        case (snoc v x)
        then have "p @ [j] = (q @ k # v) @ [x]" using u by simp
        then have "p = q @ k # v" by (metis butlast_snoc)
        then show ?thesis using False by blast
      qed simp
    qed simp
    moreover have "walk h r p = Some m \<longleftrightarrow> p = q" using walk_inj [OF ok _ assms(2), of p] assms(2) by blast
    ultimately show ?thesis using e by (auto simp: walk_append kid_erase split: option.splits)
  qed
qed simp

lemma cfg_path_ne [simp]: "cfg_path p \<noteq> []"
  by (simp add: cfg_path_def)

lemma config_unlink_ok:
  assumes "cfg_inv r h"
  shows "\<exists>h' e. config_unlink r p h = Some (h', e) \<and> cfg_inv r h' \<and>
    cfg_abs h' r = (\<lambda>q. if \<exists>u. q = cfg_path p @ u then None else cfg_abs h r q) \<and> (e = None \<or> e = Some ENOENT \<and> walk h r (cfg_path p) = None)"
proof -
  have ok: "cfg_ok h" using assms by (simp add: cfg_inv_def)
  let ?q = "butlast (cfg_path p)" and ?k = "last (cfg_path p)"
  have p: "cfg_path p = ?q @ [?k]" by simp
  have h: "find_holder h r (cfg_path p) = Some (walk h r ?q)" by (simp add: find_holder_def find_const_walk [OF ok])
  show ?thesis
  proof (cases "walk h r (cfg_path p)")
    case None
    have "walk h r (cfg_path p @ u) = None" for u using None by (simp add: walk_append)
    then have "cfg_abs h r = (\<lambda>q. if \<exists>u. q = cfg_path p @ u then None else cfg_abs h r q)" by (auto simp: cfg_abs_def fun_eq_iff)
    moreover have "config_unlink r p h = Some (h, Some ENOENT)"
      using None h p walk_append [of h r ?q "[?k]"] by (auto simp: config_unlink_def split: option.splits)
    ultimately show ?thesis using None assms by auto
  next
    case (Some c)
    then obtain m where m: "walk h r ?q = Some m" "kid h m ?k = Some c"
      using p walk_append [of h r ?q "[?k]"] by (auto split: option.splits)
    let ?h = "erase_kid m ?k h"
    have "cfg_abs ?h r q = (if \<exists>u. q = cfg_path p @ u then None else cfg_abs h r q)" for q
    proof -
      have "?q @ ?k # u = cfg_path p @ u" for u by (metis append_Cons append_Nil append_assoc p)
      then have "(\<exists>u. q = ?q @ ?k # u) \<longleftrightarrow> (\<exists>u. q = cfg_path p @ u)" by metis
      then show ?thesis by (simp add: cfg_abs_def walk_erase [OF assms m(1)] erase_kid_node(3) split: option.splits)
    qed
    moreover have "config_unlink r p h = Some (?h, None)" using m h by (simp add: config_unlink_def)
    ultimately show ?thesis using erase_kid_inv [OF assms] by auto
  qed
qed

lemma config_remove_ok:
  assumes "cfg_inv r h"
  shows "\<exists>h' e. config_remove r p h = Some (h', e) \<and> cfg_inv r h' \<and> cfg_abs h' r = (cfg_abs h r)(cfg_path p := None) \<and>
    (e = None \<or> e = Some ENOENT \<and> walk h r (cfg_path p) = None)"
proof -
  have ok: "cfg_ok h" using assms by (simp add: cfg_inv_def)
  let ?q = "butlast (cfg_path p)" and ?k = "last (cfg_path p)"
  have p: "cfg_path p = ?q @ [?k]" by simp
  have h: "find_holder h r (cfg_path p) = Some (walk h r ?q)" by (simp add: find_holder_def find_const_walk [OF ok])
  show ?thesis
  proof (cases "walk h r (cfg_path p)")
    case None
    then have "cfg_abs h r (cfg_path p) = None" by (simp add: cfg_abs_def)
    then have "cfg_abs h r = (cfg_abs h r)(cfg_path p := None)" by (simp add: fun_eq_iff)
    moreover have "config_remove r p h = Some (h, Some ENOENT)"
      using None h p walk_append [of h r ?q "[?k]"] by (auto simp: config_remove_def split: option.splits)
    ultimately show ?thesis using None assms by auto
  next
    case (Some c)
    then obtain m where m: "walk h r ?q = Some m" "kid h m ?k = Some c"
      using p walk_append [of h r ?q "[?k]"] by (auto split: option.splits)
    have rm: "config_remove r p h = Some (if cn_kids (hp_node h c) = [] then erase_kid m ?k h else set_data c CNone h, None)"
      using m h by (simp add: config_remove_def lookup_link_self [OF ok])
    show ?thesis
    proof (cases "cn_kids (hp_node h c) = []")
      case False
      then show ?thesis using rm set_data_inv [OF assms, of CNone c] set_data_abs [OF assms Some, of CNone] by (simp add: data_value_def)
    next
      case True
      have leaf: "walk h c u = None" if "u \<noteq> []" for u using that True by (cases u) (simp_all add: kid_def)
      have pre: "?q @ ?k # u = cfg_path p @ u" for u by (metis append_Cons append_Nil append_assoc p)
      have "cfg_abs (erase_kid m ?k h) r q = ((cfg_abs h r)(cfg_path p := None)) q" for q
      proof (cases "\<exists>u. q = cfg_path p @ u")
        case True
        then obtain u where u: "q = cfg_path p @ u" by blast
        then have "cfg_abs h r q = None" if "u \<noteq> []" using leaf [OF that] Some by (simp add: cfg_abs_def walk_append)
        moreover have "\<exists>u. q = ?q @ ?k # u" using u pre by metis
        then have "cfg_abs (erase_kid m ?k h) r q = None" using walk_erase [OF assms m(1), of ?k q] by (simp add: cfg_abs_def)
        ultimately show ?thesis using u by auto
      next
        case False
        then have "q \<noteq> cfg_path p" "\<not> (\<exists>u. q = ?q @ ?k # u)" using append_Nil2 [of "cfg_path p"] pre by metis+
        then show ?thesis using walk_erase [OF assms m(1), of ?k q] by (simp add: cfg_abs_def erase_kid_node(3) split: option.splits)
      qed
      then have "cfg_abs (erase_kid m ?k h) r = (cfg_abs h r)(cfg_path p := None)" by (rule ext)
      then show ?thesis using rm True erase_kid_inv [OF assms] by simp
    qed
  qed
qed

section \<open>Runs\<close>

text \<open>The calls that change the values of a config, what each does to the map of its values, and runs of them.\<close>

datatype cfg_op = OSet string string | OCallback string "string option" | OUnset string | OUnlink string | ORemove string

fun cfg_step :: "node \<Rightarrow> cfg_op \<Rightarrow> heap \<Rightarrow> heap option" where
  "cfg_step r (OSet p v) h = map_option fst (config_set r (Some p) v h)"
| "cfg_step r (OCallback p v) h = map_option fst (config_set_callback r (Some p) v h)"
| "cfg_step r (OUnset p) h = map_option fst (config_unset r (Some p) h)"
| "cfg_step r (OUnlink p) h = map_option fst (config_unlink r p h)"
| "cfg_step r (ORemove p) h = map_option fst (config_remove r p h)"

fun map_step :: "cfg_op \<Rightarrow> (string list \<Rightarrow> string option) \<Rightarrow> string list \<Rightarrow> string option" where
  "map_step (OSet p v) f = f(cfg_path p \<mapsto> v)"
| "map_step (OCallback p v) f = f(cfg_path p := v)"
| "map_step (OUnset p) f = f(cfg_path p := None)"
| "map_step (OUnlink p) f = (\<lambda>q. if take (length (cfg_path p)) q = cfg_path p then None else f q)"
| "map_step (ORemove p) f = f(cfg_path p := None)"

definition new_config :: "heap \<times> node" where
  "new_config = new_node None \<lparr>hp_node = (\<lambda>_. \<lparr>cn_parent = None, cn_kids = [], cn_data = CNone\<rparr>), hp_next = 0\<rparr>"

text \<open>What a client may rely on in a store of values under keys: each operation ends, keeps the store well-formed and does to the map
  of its values what its specification says.\<close>

locale value_store =
  fixes inv :: "'s \<Rightarrow> bool" and vals :: "'s \<Rightarrow> 'k \<Rightarrow> 'v option" and step :: "'o \<Rightarrow> 's \<Rightarrow> 's option"
    and spec :: "'o \<Rightarrow> ('k \<Rightarrow> 'v option) \<Rightarrow> 'k \<Rightarrow> 'v option"
  assumes step_ok: "inv s \<Longrightarrow> \<exists>s'. step x s = Some s' \<and> inv s' \<and> vals s' = spec x (vals s)"
begin

primrec run :: "'o list \<Rightarrow> 's \<Rightarrow> 's option" where
  "run [] s = Some s"
| "run (x # xs) s = Option.bind (step x s) (run xs)"

lemma run_ok: "inv s \<Longrightarrow> \<exists>s'. run xs s = Some s' \<and> inv s' \<and> vals s' = fold spec xs (vals s)"
proof (induction xs arbitrary: s)
  case (Cons x xs)
  obtain s' where s: "step x s = Some s'" "inv s'" "vals s' = spec x (vals s)" using step_ok [OF Cons.prems] by blast
  then show ?case using Cons.IH [OF s(2)] by simp
qed simp

lemma run_append: "run (xs @ ys) s = Option.bind (run xs s) (run ys)"
proof (induction xs arbitrary: s)
  case (Cons x xs)
  then show ?case by (cases "step x s") simp_all
qed simp

lemma frame:
  assumes "inv s" "\<And>x f. x \<in> set xs \<Longrightarrow> spec x f k = f k"
  shows "\<exists>s'. run xs s = Some s' \<and> vals s' k = vals s k"
proof -
  have "fold spec xs f k = f k" for f using assms(2) by (induction xs arbitrary: f) auto
  then show ?thesis using run_ok [OF assms(1)] by metis
qed

end

fun cfg_run :: "node \<Rightarrow> cfg_op list \<Rightarrow> heap \<Rightarrow> heap option" where
  "cfg_run r [] h = Some h"
| "cfg_run r (x # xs) h = Option.bind (cfg_step r x h) (cfg_run r xs)"

lemma take_prefix: "take (length p) q = p \<longleftrightarrow> (\<exists>u. q = p @ u)"
  by (metis append_eq_conv_conj append_take_drop_id)

lemma cfg_step_ok:
  assumes "cfg_inv r h"
  shows "\<exists>h'. cfg_step r x h = Some h' \<and> cfg_inv r h' \<and> cfg_abs h' r = map_step x (cfg_abs h r)"
proof (cases x)
  case (OSet p v)
  then show ?thesis using config_set_data_ok [OF assms, of "CStr v" p] by (auto simp: config_set_def data_value_def)
next
  case (OCallback p v)
  then show ?thesis using config_set_data_ok [OF assms, of "CCb v" p] by (auto simp: config_set_callback_def data_value_def)
next
  case (OUnset p)
  then show ?thesis using config_unset_ok [OF assms, of p] by auto
next
  case (OUnlink p)
  then show ?thesis using config_unlink_ok [OF assms, of p] by (auto simp: take_prefix)
next
  case (ORemove p)
  then show ?thesis using config_remove_ok [OF assms, of p] by auto
qed

interpretation cfg: value_store "cfg_inv r" "\<lambda>h. cfg_abs h r" "cfg_step r" map_step for r
  by unfold_locales (rule cfg_step_ok)

lemma cfg_run_eq: "cfg_run r xs h = cfg.run r xs h"
  by (induction xs arbitrary: h) (simp_all add: bind_eq_None_conv cong: Option.bind_cong)

lemma new_config_ok: "cfg_inv (snd new_config) (fst new_config)" "cfg_abs (fst new_config) (snd new_config) = Map.empty"
proof -
  have k: "kid (fst new_config) n j = None" for n j by (simp add: kid_def new_config_def new_node_def)
  then have "cfg_tree (fst new_config) n" for n by (auto intro: cfg_tree.intros)
  then show "cfg_inv (snd new_config) (fst new_config)"
    by (simp add: cfg_inv_def cfg_ok_def k) (simp add: new_config_def new_node_def)
  show "cfg_abs (fst new_config) (snd new_config) = Map.empty"
  proof
    fix p show "cfg_abs (fst new_config) (snd new_config) p = None"
      by (cases p) (simp_all add: cfg_abs_def k, simp add: new_config_def new_node_def data_value_def)
  qed
qed

lemma list_kids_all [simp]: "list_kids (\<lambda>_ _. 0) ks = ks"
  by (induction ks) auto

text \<open>A node of the tree has the root of the tree.\<close>

lemma walk_root: "cfg_ok h \<Longrightarrow> walk h n p = Some m \<Longrightarrow> cfg_root h m = cfg_root h n"
proof (induction p arbitrary: n)
  case (Cons k p)
  then obtain c where c: "kid h n k = Some c" "walk h c p = Some m" by (auto split: option.splits)
  then have "cn_parent (hp_node h c) = Some n" using Cons.prems(1) unfolding cfg_ok_def by blast
  then have "cfg_root h c = cfg_root h n" by (subst cfg_root.simps) simp
  then show ?case using Cons.IH [OF Cons.prems(1) c(2)] by simp
qed simp

lemma create_path_parent:
  "n < hp_next h \<Longrightarrow> x < hp_next h \<Longrightarrow> cn_parent (hp_node (fst (create_path n ks h)) x) = cn_parent (hp_node h x)"
proof (induction ks arbitrary: n h)
  case (Cons k ks)
  show ?case unfolding create_path_Cons
    using Cons.IH [of "hp_next h" "add_leaf n k h"] Cons.prems by (simp add: add_leaf_node [OF Cons.prems(1)])
qed simp

lemma find_path_parent:
  assumes "cfg_inv r h" "find_path r p cr h = Some (h', m)"
  shows "cn_parent (hp_node h' r) = cn_parent (hp_node h r)"
proof -
  have ok: "cfg_ok h" "r < hp_next h" using assms(1) by (simp_all add: cfg_inv_def)
  obtain v rest where d: "descend h r p = (v, rest)" by (cases "descend h r p")
  then have "walk h r (take (length p - length rest) p) = Some v" using descend_split [OF d] by auto
  then have "v < hp_next h" using walk_alloc [OF ok] by blast
  then show ?thesis using assms(2) lookup_descend [OF ok(1), of r p] d create_path_parent [of v h r rest] ok(2)
    by (auto simp: find_path_def split: if_splits prod.splits)
qed

lemma set_data_parent [simp]: "cn_parent (hp_node (set_data m v h) x) = cn_parent (hp_node h x)"
  by (simp add: set_data_def)

lemma cfg_step_parent:
  assumes "cfg_inv r h" "cfg_step r x h = Some h'"
  shows "cn_parent (hp_node h' r) = cn_parent (hp_node h r)"
proof (cases x)
  case (OSet p v)
  then show ?thesis using assms(2) find_path_parent [OF assms(1)]
    by (auto simp: config_set_def config_set_data_def split: option.splits)
next
  case (OCallback p v)
  then show ?thesis using assms(2) find_path_parent [OF assms(1)]
    by (auto simp: config_set_callback_def config_set_data_def split: option.splits)
next
  case (OUnset p)
  then show ?thesis using assms(2) find_path_parent [OF assms(1)]
    by (auto simp: config_unset_def split: option.splits)
next
  case (OUnlink p)
  then show ?thesis using assms(2) by (auto simp: config_unlink_def erase_kid_node split: option.splits)
next
  case (ORemove p)
  then show ?thesis using assms(2) by (auto simp: config_remove_def erase_kid_node split: bind_splits option.splits if_splits)
qed

lemma cfg_run_parent:
  "cfg_inv r h \<Longrightarrow> cfg_run r xs h = Some h' \<Longrightarrow> cn_parent (hp_node h' r) = cn_parent (hp_node h r)"
proof (induction xs arbitrary: h)
  case (Cons x xs)
  obtain h1 where h: "cfg_step r x h = Some h1" "cfg_inv r h1" using cfg_step_ok [OF Cons.prems(1)] by blast
  then show ?case using Cons.IH [OF h(2)] Cons.prems cfg_step_parent [OF Cons.prems(1) h(1)] by simp
qed simp

lemma cfg_run_ok:
  "\<exists>h. cfg_run (snd new_config) xs (fst new_config) = Some h \<and> cfg_inv (snd new_config) h \<and>
    cfg_abs h (snd new_config) = fold map_step xs Map.empty"
  using cfg.run_ok [OF new_config_ok(1), of xs] new_config_ok(2) by (simp add: cfg_run_eq)

text \<open>C17: Any sequence of \<open>set\<close>, \<open>set_callback\<close>, \<open>unset\<close>, \<open>unlink\<close> and \<open>remove\<close> on a new config ends, and afterwards \<open>get\<close> of every path
  returns what the map of values gives that the calls describe: a value set under a path is read back until the path is set again,
  unset, removed or lies under an unlinked one, and no call changes the values of other paths.\<close>

theorem config_run_refines:
  "\<exists>h. cfg_run (snd new_config) xs (fst new_config) = Some h \<and>
     (\<forall>p. config_get_copy h (snd new_config) (Some p) = Some (fold map_step xs Map.empty (cfg_path p)))"
  using cfg_run_ok [of xs] config_get_abs by (metis cfg_inv_def)

text \<open>C18: The config is a tree after any such sequence: every node has the parent that holds it, so that the search for the root from any
  node ends at the root, which is where absolute links start; a node is reached by one path only, and the children of a node are in
  the order of their names.\<close>

theorem config_run_tree:
  "\<exists>h. cfg_run (snd new_config) xs (fst new_config) = Some h \<and>
     (\<forall>p. case walk h (snd new_config) p of
        None \<Rightarrow> True
      | Some m \<Rightarrow> cfg_root h m = Some (snd new_config) \<and> {q. walk h (snd new_config) q = Some m} = {p} \<and>
          sorted_wrt (<) (map fst (config_list h (\<lambda>_ _. 0) m)))"
proof -
  let ?r = "snd new_config"
  obtain h where h: "cfg_run ?r xs (fst new_config) = Some h" "cfg_inv ?r h" using cfg_run_ok [of xs] by blast
  have ok: "cfg_ok h" "cfg_tree h ?r" using h(2) by (simp_all add: cfg_inv_def)
  have "cn_parent (hp_node (fst new_config) ?r) = None" by (simp add: new_config_def new_node_def)
  then have "cn_parent (hp_node h ?r) = None" using cfg_run_parent [OF new_config_ok(1) h(1)] by simp
  then have r: "cfg_root h ?r = Some ?r" by (subst cfg_root.simps) simp
  have "case walk h ?r p of None \<Rightarrow> True
      | Some m \<Rightarrow> cfg_root h m = Some ?r \<and> {q. walk h ?r q = Some m} = {p} \<and> sorted_wrt (<) (map fst (config_list h (\<lambda>_ _. 0) m))" for p
  proof (cases "walk h ?r p")
    case (Some m)
    have "{q. walk h ?r q = Some m} = {p}" using walk_inj [OF ok _ Some] Some by blast
    moreover have "sorted_wrt (<) (map fst (config_list h (\<lambda>_ _. 0) m))" using ok(1) by (simp add: cfg_ok_def config_list_def)
    ultimately show ?thesis using walk_root [OF ok(1) Some] r Some by simp
  qed simp
  then show ?thesis using h(1) by blast
qed

section \<open>Browsing a tree\<close>

text \<open>The paths that a mask describes: \<open>*\<close> is one step, \<open>**\<close> one or more.\<close>

fun mask_path :: "string list \<Rightarrow> string list \<Rightarrow> bool" where
  "mask_path [] p = (p = [])"
| "mask_path (m # ms) [] = False"
| "mask_path (m # ms) (k # p) =
     (if m = ''**'' then mask_path ms p \<or> mask_path (m # ms) p else if m = ''*'' then mask_path ms p else k = m \<and> mask_path ms p)"

definition dstars :: "string list \<Rightarrow> nat" where
  "dstars ms = length (filter (\<lambda>m. m = ''**'') ms)"

definition found :: "heap \<Rightarrow> node \<Rightarrow> string \<Rightarrow> string list list \<Rightarrow> found_nodes" where
  "found h n prefix = map (\<lambda>p. (prefix @ join (CHR ''.'') p, the (walk h n p)))"

definition reached :: "heap \<Rightarrow> node \<Rightarrow> string list \<Rightarrow> string list set" where
  "reached h n ms = {p. p \<noteq> [] \<and> mask_path ms p \<and> walk h n p \<noteq> None}"

lemma mask_length: "dstars ms = 0 \<Longrightarrow> mask_path ms p \<Longrightarrow> length p = length ms"
  by (induction ms p rule: mask_path.induct) (auto simp: dstars_def split: if_splits)

lemma mask_length_le: "mask_path ms p \<Longrightarrow> length ms \<le> length p"
  by (induction ms p rule: mask_path.induct) (auto split: if_splits)

lemma join_Cons: "p \<noteq> [] \<Longrightarrow> join c (k # p) = k @ c # join c p"
  by (cases p) simp_all

lemma kid_iff:
  assumes "cfg_ok h"
  shows "kid h n k = Some c \<longleftrightarrow> (k, c) \<in> set (cn_kids (hp_node h n))"
proof -
  have "sorted_wrt (<) (map fst (cn_kids (hp_node h n)))" using assms by (simp add: cfg_ok_def)
  then have "distinct (map fst (cn_kids (hp_node h n)))" by (simp add: strict_sorted_iff)
  then show ?thesis by (simp add: kid_def)
qed

lemma found_child:
  assumes "kid h n k = Some c" "[] \<notin> set ps"
  shows "found h c (prefix @ k @ ''.'') ps = found h n prefix (map ((#) k) ps)"
proof -
  have "p \<in> set ps \<Longrightarrow> p \<noteq> []" for p using assms(2) by auto
  then show ?thesis using assms(1) by (simp add: found_def join_Cons)
qed

lemma found_append [simp]: "found h n prefix (p @ q) = found h n prefix p @ found h n prefix q" "found h n prefix [] = []"
  by (simp_all add: found_def)

lemma mask_path_Nil [simp]: "mask_path ms [] \<longleftrightarrow> ms = []"
  by (cases ms) simp_all

lemma reached_child: "kid h n k = Some c \<Longrightarrow> m \<noteq> ''**'' \<Longrightarrow> m = ''*'' \<or> m = k \<Longrightarrow>
    (k # p \<in> reached h n (m # ms)) = (p \<in> reached h c ms \<or> p = [] \<and> ms = [])"
  by (cases p) (auto simp: reached_def)

lemma reached_child2: "kid h n k = Some c \<Longrightarrow>
    (k # p \<in> reached h n (''**'' # ms)) = (p \<in> reached h c ms \<or> p \<in> reached h c (''**'' # ms) \<or> p = [] \<and> ms = [])"
  by (cases p) (auto simp: reached_def)

text \<open>The part of one child in the walk of a wildcard.\<close>

definition child_paths :: "string \<Rightarrow> string \<Rightarrow> string list \<Rightarrow> string list list \<Rightarrow> string list list \<Rightarrow> string list list" where
  "child_paths k m ms p1 p2 = map ((#) k) ((if ms = [] then [[]] else []) @ p1 @ (if m = ''**'' then p2 else []))"

lemma child_paths_set:
  assumes "kid h n k = Some c" "is_wild m" "set p1 = reached h c ms" "m = ''**'' \<Longrightarrow> set p2 = reached h c (m # ms)"
  shows "set (child_paths k m ms p1 p2) = {p \<in> reached h n (m # ms). hd p = k}"
proof -
  have "q \<in> set (child_paths k m ms p1 p2) \<longleftrightarrow> q \<in> reached h n (m # ms) \<and> hd q = k" for q
  proof (cases q)
    case Nil
    then show ?thesis by (auto simp: child_paths_def reached_def)
  next
    case (Cons j p)
    show ?thesis
    proof (cases "j = k")
      case False
      then show ?thesis using Cons by (auto simp: child_paths_def)
    next
      case True
      then show ?thesis using Cons assms reached_child [OF assms(1), of m p ms] reached_child2 [OF assms(1), of p ms]
        by (cases "m = ''**''") (auto simp: child_paths_def is_wild_def)
    qed
  qed
  then show ?thesis by blast
qed

lemma child_paths_distinct:
  assumes "distinct p1" "distinct p2" "set p1 = reached h c ms" "m = ''**'' \<Longrightarrow> set p2 = reached h c (m # ms)" "dstars (m # ms) \<le> 1"
  shows "distinct (child_paths k m ms p1 p2)"
proof -
  have "set p1 \<inter> set p2 = {}" if "m = ''**''"
  proof -
    have "dstars ms = 0" using assms(5) that by (simp add: dstars_def)
    then have "length p = length ms" if "p \<in> set p1" for p using assms(3) that mask_length by (auto simp: reached_def)
    moreover have "length ms < length p" if "p \<in> set p2" for p
      using assms(4) [OF \<open>m = ''**''\<close>] that mask_length_le [of "m # ms" p] by (auto simp: reached_def)
    ultimately show ?thesis by fastforce
  qed
  moreover have "[] \<notin> set p1" "m = ''**'' \<Longrightarrow> [] \<notin> set p2" using assms(3,4) by (auto simp: reached_def)
  ultimately show ?thesis using assms(1,2) by (auto simp: child_paths_def distinct_map inj_on_def)
qed

text \<open>What the walk of a node with a callback that never ends it gives, for all masks.\<close>

definition browse_good :: "heap \<Rightarrow> node \<Rightarrow> bool" where
  "browse_good h n \<longleftrightarrow> (\<forall>ms prefix acc. dstars ms \<le> 1 \<longrightarrow>
     (\<exists>ps. browse_node h (\<lambda>_ _. 0) ms n (cn_kids (hp_node h n)) prefix acc = Some (acc @ found h n prefix ps, 0) \<and>
        distinct ps \<and> set ps = reached h n ms))"

lemma browse_wild:
  assumes ok: "cfg_ok h" and good: "\<forall>k c. kid h n k = Some c \<longrightarrow> browse_good h c" and m: "is_wild m" "dstars (m # ms) \<le> 1"
  shows "set ks \<subseteq> set (cn_kids (hp_node h n)) \<Longrightarrow> distinct (map fst ks) \<Longrightarrow>
    \<exists>ps. browse_node h (\<lambda>_ _. 0) (m # ms) n ks prefix acc = Some (acc @ found h n prefix ps, 0) \<and> distinct ps \<and>
      set ps = {p \<in> reached h n (m # ms). hd p \<in> fst ` set ks}"
proof (induction ks arbitrary: acc)
  case Nil
  then show ?case using m by (subst browse_node.simps) simp
next
  case (Cons kc ks)
  obtain k c where kc: "kc = (k, c)" by (cases kc)
  have kid: "kid h n k = Some c" using Cons.prems(1) kc by (simp add: kid_iff [OF ok])
  have d: "dstars ms \<le> 1" using m(2) by (simp add: dstars_def split: if_splits)
  have sub: "set ks \<subseteq> set (cn_kids (hp_node h n))" "distinct (map fst ks)" using Cons.prems by simp_all
  let ?pre = "prefix @ k @ ''.''" and ?ks = "cn_kids (hp_node h c)" and ?cb = "\<lambda>_ _. 0"
  let ?a0 = "if ms = [] then acc @ [(prefix @ k, c)] else acc"
  obtain p1 where p1: "browse_node h ?cb ms c ?ks ?pre ?a0 = Some (?a0 @ found h c ?pre p1, 0)" "distinct p1" "set p1 = reached h c ms"
    using good kid d unfolding browse_good_def by blast
  let ?a1 = "?a0 @ found h c ?pre p1"
  obtain p2 where p2: "browse_node h ?cb (m # ms) c ?ks ?pre ?a1 = Some (?a1 @ found h c ?pre p2, 0)" "distinct p2" "set p2 = reached h c (m # ms)"
    using good kid m(2) unfolding browse_good_def by blast
  let ?a2 = "if m = ''**'' then ?a1 @ found h c ?pre p2 else ?a1"
  obtain p3 where p3: "browse_node h ?cb (m # ms) n ks prefix ?a2 = Some (?a2 @ found h n prefix p3, 0)" "distinct p3"
    "set p3 = {p \<in> reached h n (m # ms). hd p \<in> fst ` set ks}"
    using Cons.IH [OF sub] by blast
  have e: "browse_node h ?cb (m # ms) n (kc # ks) prefix acc = Some (?a2 @ found h n prefix p3, 0)"
    using m(1) p1(1) p2(1) p3(1) kc
    by (subst browse_node.simps, cases "ms = []"; cases "m = ''**''"; simp add: lookup_link_self [OF ok] visit_def and_then_def)
  have ne: "[] \<notin> set p1" "[] \<notin> set p2" using p1(3) p2(3) by (auto simp: reached_def)
  have a: "?a2 = acc @ found h n prefix (child_paths k m ms p1 p2)"
    using kid by (simp add: child_paths_def found_child [OF kid ne(1)] found_child [OF kid ne(2)]) (simp add: found_def)
  have s: "set (child_paths k m ms p1 p2) = {p \<in> reached h n (m # ms). hd p = k}"
    using child_paths_set [OF kid m(1) p1(3)] p2(3) by simp
  have "distinct (child_paths k m ms p1 p2 @ p3)"
    using child_paths_distinct [OF p1(2) p2(2) p1(3) p2(3) m(2), of k] p3(2,3) s Cons.prems(2) kc by auto
  moreover have "set (child_paths k m ms p1 p2 @ p3) = {p \<in> reached h n (m # ms). hd p \<in> fst ` set (kc # ks)}"
    using s p3(3) kc by auto
  ultimately show ?case using e a by (intro exI [of _ "child_paths k m ms p1 p2 @ p3"]) simp
qed

lemma reached_literal:
  assumes "\<not> is_wild m"
  shows "reached h n (m # ms) = (case kid h n m of None \<Rightarrow> {} | Some c \<Rightarrow> (#) m ` (reached h c ms \<union> (if ms = [] then {[]} else {})))"
proof -
  have w: "m \<noteq> ''**''" "m \<noteq> ''*''" using assms by (auto simp: is_wild_def)
  have "q \<in> reached h n (m # ms) \<longleftrightarrow>
      q \<in> (case kid h n m of None \<Rightarrow> {} | Some c \<Rightarrow> (#) m ` (reached h c ms \<union> (if ms = [] then {[]} else {})))" for q
  proof (cases q)
    case Nil
    then show ?thesis by (auto simp: reached_def split: option.splits)
  next
    case (Cons j p)
    then show ?thesis using w reached_child [of h n m _ m p ms] by (cases "j = m") (auto simp: reached_def split: option.splits)
  qed
  then show ?thesis by blast
qed

lemma browse_literal:
  assumes good: "\<forall>k c. kid h n k = Some c \<longrightarrow> browse_good h c" and m: "\<not> is_wild m" "dstars (m # ms) \<le> 1"
  shows "\<exists>ps. browse_node h (\<lambda>_ _. 0) (m # ms) n ks prefix acc = Some (acc @ found h n prefix ps, 0) \<and> distinct ps \<and> set ps = reached h n (m # ms)"
proof (cases "kid h n m")
  case None
  then show ?thesis using m(1) reached_literal [OF m(1), of h n ms] by (intro exI [of _ "[]"], subst browse_node.simps) simp
next
  case (Some c)
  have d: "dstars ms \<le> 1" using m(2) by (simp add: dstars_def split: if_splits)
  let ?pre = "prefix @ m @ ''.''"
  obtain p1 where p1: "browse_node h (\<lambda>_ _. 0) ms c (cn_kids (hp_node h c)) ?pre acc = Some (acc @ found h c ?pre p1, 0)"
    "distinct p1" "set p1 = reached h c ms"
    using good Some d unfolding browse_good_def by blast
  have ne: "[] \<notin> set p1" using p1(3) by (auto simp: reached_def)
  let ?ps = "map ((#) m) (if ms = [] then [[]] else p1)"
  have e: "browse_node h (\<lambda>_ _. 0) (m # ms) n ks prefix acc = Some (acc @ found h n prefix ?ps, 0)"
  proof (cases "ms = []")
    case True
    then show ?thesis using Some m(1) by (subst browse_node.simps) (simp add: visit_def found_def)
  next
    case False
    then show ?thesis using Some m(1) p1(1) found_child [OF Some ne] by (subst browse_node.simps) simp
  qed
  have "ms = [] \<Longrightarrow> reached h c ms = {}" by (auto simp: reached_def)
  then have "set ?ps = reached h n (m # ms)" using reached_literal [OF m(1), of h n ms] Some p1(3) by simp
  moreover have "distinct ?ps" using p1(2) by (simp add: distinct_map)
  ultimately show ?thesis using e by blast
qed

lemma browse_tree:
  assumes ok: "cfg_ok h"
  shows "cfg_tree h n \<Longrightarrow> browse_good h n"
proof (induction rule: cfg_tree.induct)
  case (1 n)
  have dist: "distinct (map fst (cn_kids (hp_node h n)))" using ok by (simp add: cfg_ok_def strict_sorted_iff)
  have "k \<in> fst ` set (cn_kids (hp_node h n))" if "kid h n k = Some c" for k c using that by (force simp: kid_iff [OF ok])
  then have all: "{p \<in> reached h n ms. hd p \<in> fst ` set (cn_kids (hp_node h n))} = reached h n ms" for ms
    by (auto simp: reached_def neq_Nil_conv split: option.splits)
  show ?case unfolding browse_good_def
  proof (intro allI impI)
    fix ms prefix acc assume d: "dstars ms \<le> 1"
    show "\<exists>ps. browse_node h (\<lambda>_ _. 0) ms n (cn_kids (hp_node h n)) prefix acc = Some (acc @ found h n prefix ps, 0) \<and>
        distinct ps \<and> set ps = reached h n ms"
    proof (cases ms)
      case Nil
      then show ?thesis by (intro exI [of _ "[]"], subst browse_node.simps) (auto simp: reached_def)
    next
      case (Cons m ms')
      have good: "\<forall>k c. kid h n k = Some c \<longrightarrow> browse_good h c" using 1(2) by blast
      show ?thesis
      proof (cases "is_wild m")
        case True
        then show ?thesis using browse_wild [OF ok good True, of ms' "cn_kids (hp_node h n)" prefix acc] dist d
          unfolding Cons all by blast
      next
        case False
        then show ?thesis using browse_literal [OF good False, of ms' "cn_kids (hp_node h n)" prefix acc] d unfolding Cons by blast
      qed
    qed
  qed
qed

lemma browse_mask:
  assumes inv: "cfg_inv n h" and d: "dstars mv \<le> 1"
  shows "\<exists>ps. Option.bind (browse_prefix h mv n prefix) (\<lambda>s.
      case s of None \<Rightarrow> Some ([], 0) | Some (p, ms, prefix) \<Rightarrow> browse_node h (\<lambda>_ _. 0) ms p (cn_kids (hp_node h p)) prefix []) =
      Some (found h n prefix ps, 0) \<and> distinct ps \<and> set ps = (if list_ex is_wild mv then reached h n mv else {})"
  using inv d
proof (induction mv arbitrary: n prefix)
  case Nil
  show ?case by (intro exI [of _ "[]"]) (simp add: browse_node.simps)
next
  case (Cons m mv)
  have ok: "cfg_ok h" "cfg_tree h n" using Cons.prems(1) by (simp_all add: cfg_inv_def)
  show ?case
  proof (cases "is_wild m")
    case True
    then show ?thesis using browse_tree [OF ok] Cons.prems(2) unfolding browse_good_def
      by (simp add: lookup_link_self [OF ok(1)]) (metis append_Nil)
  next
    case lit: False
    show ?thesis
    proof (cases "kid h n m")
      case None
      then show ?thesis using lit reached_literal [OF lit, of h n mv]
        by (intro exI [of _ "[]"]) (simp add: lookup_link_self [OF ok(1)])
    next
      case (Some c)
      have "c < hp_next h" using ok(1) Some unfolding cfg_ok_def by blast
      then have "cfg_inv c h" using ok walk_tree [of h n "[m]" c] Some by (simp add: cfg_inv_def)
      moreover have "dstars mv \<le> 1" using Cons.prems(2) by (simp add: dstars_def split: if_splits)
      ultimately obtain ps where ps: "Option.bind (browse_prefix h mv c (prefix @ m @ ''.'')) (\<lambda>s.
          case s of None \<Rightarrow> Some ([], 0) | Some (p, ms, prefix) \<Rightarrow> browse_node h (\<lambda>_ _. 0) ms p (cn_kids (hp_node h p)) prefix []) =
          Some (found h c (prefix @ m @ ''.'') ps, 0)" "distinct ps" "set ps = (if list_ex is_wild mv then reached h c mv else {})"
        using Cons.IH by blast
      have "[] \<notin> set ps" using ps(3) by (auto simp: reached_def)
      note f = found_child [OF Some this]
      have "set (map ((#) m) ps) = (if list_ex is_wild (m # mv) then reached h n (m # mv) else {})"
        using lit ps(3) Some reached_literal [OF lit, of h n mv] by auto
      moreover have "distinct (map ((#) m) ps)" using ps(2) by (simp add: distinct_map)
      ultimately show ?thesis using ps(1) Some lit f by (intro exI [of _ "map ((#) m) ps"]) (simp add: lookup_link_self [OF ok(1)])
    qed
  qed
qed

lemma config_browse_ok:
  assumes "cfg_inv n h" "dstars (cfg_path msk) \<le> 1"
  shows "\<exists>ps. config_browse h (\<lambda>_ _. 0) n msk = Some (Inr (found h n [] ps, 0)) \<and> distinct ps \<and>
    set ps = (if list_ex is_wild (cfg_path msk) then reached h n (cfg_path msk) else {})"
proof -
  obtain ps where ps: "Option.bind (browse_prefix h (cfg_path msk) n []) (\<lambda>s.
      case s of None \<Rightarrow> Some ([], 0) | Some (p, ms, prefix) \<Rightarrow> browse_node h (\<lambda>_ _. 0) ms p (cn_kids (hp_node h p)) prefix []) =
      Some (found h n [] ps, 0)" "distinct ps" "set ps = (if list_ex is_wild (cfg_path msk) then reached h n (cfg_path msk) else {})"
    using browse_mask [OF assms, of "[]"] by blast
  have "config_browse h (\<lambda>_ _. 0) n msk = map_option Inr (Option.bind (browse_prefix h (cfg_path msk) n []) (\<lambda>s.
      case s of None \<Rightarrow> Some ([], 0) | Some (p, ms, prefix) \<Rightarrow> browse_node h (\<lambda>_ _. 0) ms p (cn_kids (hp_node h p)) prefix []))"
    using assms(2) by (auto simp: config_browse_def Let_def dstars_def split: bind_splits option.splits)
  then show ?thesis using ps by auto
qed


end
