(* ===== verification/Scheme.thy ===== *)
theory Scheme
  imports Url
begin

text \<open>
  Message schemes: the descriptors of \<open>src/tll/scheme.h\<close> and the layout of fields, \<open>tll_scheme_fix\<close> of \<open>src/scheme.cc\<close>. Messages, unions,
  enums and bits are objects of a heap that fields point to; a field owns the fields it is made of. A descriptor whose
  pointer is not the one its type asks for, a null name and a recursion that is deeper than the stack are \<open>None\<close>.
\<close>

section \<open>Descriptors\<close>

datatype ftype =
  Int8 | Int16 | Int32 | Int64 | UInt8 | UInt16 | UInt32 | TDouble | Decimal128 | TBytes | TMessage | TArray | TPointer | TUnion | UInt64

datatype stype = SubNone | SEnum | ByteString | SFixed | TimePoint | Duration | SBits

datatype time_resolution = TimeNs | TimeUs | TimeMs | TimeSecond | TimeMinute | TimeHour | TimeDay

datatype optr_version = OptrDefault | OptrShort | OptrLong | OptrOther

type_synonym options = "(string \<times> string) list"

text \<open>The parts of a field without pointers, and the anonymous union of its descriptor.\<close>

record finfo =
  f_options :: options
  f_name :: "string option"
  f_offset :: nat
  f_type :: ftype
  f_sub :: stype
  f_size :: nat
  f_index :: int

datatype field = Field (f_info: finfo) (f_body: fbody)
and fbody =
  BNone
| BMsg nat
| BPtr field optr_version
| BArr (type_array: field) (count_ptr: field) (count_of: nat)
| BEnum nat
| BFixed nat
| BTime time_resolution
| BBits nat
| BUnion nat

record senum =
  e_name :: string
  e_type :: ftype
  e_size :: nat
  e_values :: "(string \<times> int) list"
  e_options :: options

record sbits =
  b_name :: string
  b_type :: ftype
  b_size :: nat
  b_values :: "(string \<times> nat \<times> nat) list"
  b_options :: options

record sunion =
  u_name :: string
  u_type_ptr :: field
  u_fields :: "field list"
  u_union_size :: nat
  u_options :: options

record message =
  m_name :: string
  m_msgid :: int
  m_size :: nat
  m_fields :: "field list"
  m_enums :: "nat list"
  m_unions :: "nat list"
  m_bits :: "nat list"
  m_pmap :: "nat option"
  m_options :: options

record sheap =
  sh_msg :: "nat \<Rightarrow> message"
  sh_union :: "nat \<Rightarrow> sunion"
  sh_enum :: "nat \<Rightarrow> senum"
  sh_bits :: "nat \<Rightarrow> sbits"

record scheme =
  s_options :: options
  s_messages :: "nat list"
  s_enums :: "nat list"
  s_unions :: "nat list"
  s_bits :: "nat list"
  s_aliases :: "field list"

text \<open>\<open>size_t\<close>.\<close>

definition sz :: "nat \<Rightarrow> nat" where
  "sz n = n mod 2 ^ 64"

abbreviation size_of :: "field \<Rightarrow> nat" where
  "size_of f \<equiv> f_size (f_info f)"

abbreviation offset_of :: "field \<Rightarrow> nat" where
  "offset_of f \<equiv> f_offset (f_info f)"

section \<open>Options and names\<close>

definition opt_get :: "options \<Rightarrow> string \<Rightarrow> string option" where
  "opt_get os k = map_of os k"

definition opt_has :: "options \<Rightarrow> string \<Rightarrow> bool" where
  "opt_has os k \<longleftrightarrow> opt_get os k \<noteq> None"

definition alloc_option :: "string \<Rightarrow> string \<Rightarrow> options \<Rightarrow> options" where
  "alloc_option k v os = (k, v) # os"

text \<open>The value of the first option with a name is replaced.\<close>

fun opt_set :: "string \<Rightarrow> string \<Rightarrow> options \<Rightarrow> options" where
  "opt_set k v [] = []"
| "opt_set k v ((k', v') # os) = (if k = k' then (k, v) # os else (k', v') # opt_set k v os)"

definition offset_ptr_type_name :: "optr_version \<Rightarrow> string" where
  "offset_ptr_type_name v =
     (case v of OptrDefault \<Rightarrow> ''default'' | OptrShort \<Rightarrow> ''legacy-short'' | OptrLong \<Rightarrow> ''legacy-long'' | OptrOther \<Rightarrow> [])"

definition fix_offset_ptr_options :: "optr_version \<Rightarrow> options \<Rightarrow> options option" where
  "fix_offset_ptr_options v os =
     (if v = OptrDefault then Some os
      else case opt_get os ''offset-ptr-type'' of
             None \<Rightarrow> Some (alloc_option ''offset-ptr-type'' (offset_ptr_type_name v) os)
           | Some t \<Rightarrow> if t \<noteq> offset_ptr_type_name v then None else Some os)"

definition time_resolution_str :: "time_resolution \<Rightarrow> string" where
  "time_resolution_str r =
     (case r of TimeNs \<Rightarrow> ''ns'' | TimeUs \<Rightarrow> ''us'' | TimeMs \<Rightarrow> ''ms'' | TimeSecond \<Rightarrow> ''s'' | TimeMinute \<Rightarrow> ''m'' | TimeHour \<Rightarrow> ''h'' | TimeDay \<Rightarrow> ''d'')"

text \<open>Decimal digits, as \<open>fmt::format\<close> writes them.\<close>

fun digits10 :: "nat \<Rightarrow> string" where
  "digits10 n = (if n < 10 then [char_of (48 + n)] else digits10 (n div 10) @ [char_of (48 + n mod 10)])"

definition default_count_type :: "nat \<Rightarrow> ftype" where
  "default_count_type n = (if n < 0x80 then Int8 else if n < 0x8000 then Int16 else Int32)"

text \<open>\<open>dump_type\<close>: the text of a type. The name of a type that was defined inline is not used.\<close>

definition not_inline :: "options \<Rightarrow> bool" where
  "not_inline os \<longleftrightarrow> opt_get os ''_auto'' \<noteq> Some ''inline''"

fun dump_type :: "sheap \<Rightarrow> field \<Rightarrow> string option"
and dump_base :: "sheap \<Rightarrow> finfo \<Rightarrow> fbody \<Rightarrow> string option" where
  "dump_type h (Field i b) =
     (case (f_sub i, b) of
        (SEnum, BEnum e) \<Rightarrow> if not_inline (e_options (sh_enum h e)) then Some (e_name (sh_enum h e)) else dump_base h i b
      | (SBits, BBits v) \<Rightarrow> if not_inline (b_options (sh_bits h v)) then Some (b_name (sh_bits h v)) else dump_base h i b
      | (SEnum, _) \<Rightarrow> None
      | (SBits, _) \<Rightarrow> None
      | _ \<Rightarrow> dump_base h i b)"
| "dump_base h i b =
     (case f_type i of
        Int8 \<Rightarrow> Some ''int8'' | Int16 \<Rightarrow> Some ''int16'' | Int32 \<Rightarrow> Some ''int32'' | Int64 \<Rightarrow> Some ''int64''
      | UInt8 \<Rightarrow> Some ''uint8'' | UInt16 \<Rightarrow> Some ''uint16'' | UInt32 \<Rightarrow> Some ''uint32'' | UInt64 \<Rightarrow> Some ''uint64''
      | TDouble \<Rightarrow> Some ''double'' | Decimal128 \<Rightarrow> Some ''decimal128''
      | TMessage \<Rightarrow> (case b of BMsg m \<Rightarrow> Some (m_name (sh_msg h m)) | _ \<Rightarrow> None)
      | TBytes \<Rightarrow> Some (''byte'' @ digits10 (f_size i))
      | TArray \<Rightarrow> (case b of BArr ta cp n \<Rightarrow> map_option (\<lambda>t. t @ ''['' @ digits10 n @ '']'') (dump_type h ta) | _ \<Rightarrow> None)
      | TPointer \<Rightarrow>
          if f_sub i = ByteString then Some ''string''
          else (case b of BPtr p v \<Rightarrow> map_option (\<lambda>t. ''*'' @ t) (dump_type h p) | _ \<Rightarrow> None)
      | TUnion \<Rightarrow> (case b of BUnion u \<Rightarrow> Some (if not_inline (u_options (sh_union h u)) then u_name (sh_union h u) else ''union'') | _ \<Rightarrow> None))"

declare digits10.simps [simp del]

section \<open>Layout\<close>

definition base_size :: "ftype \<Rightarrow> nat option" where
  "base_size t =
     (case t of
        Int8 \<Rightarrow> Some 1 | Int16 \<Rightarrow> Some 2 | Int32 \<Rightarrow> Some 4 | Int64 \<Rightarrow> Some 8
      | UInt8 \<Rightarrow> Some 1 | UInt16 \<Rightarrow> Some 2 | UInt32 \<Rightarrow> Some 4 | UInt64 \<Rightarrow> Some 8
      | TDouble \<Rightarrow> Some 8 | Decimal128 \<Rightarrow> Some 16 | _ \<Rightarrow> None)"

definition field_int_size :: "ftype \<Rightarrow> nat option" where
  "field_int_size t =
     (case t of
        Int8 \<Rightarrow> Some 1 | Int16 \<Rightarrow> Some 2 | Int32 \<Rightarrow> Some 4 | Int64 \<Rightarrow> Some 8
      | UInt8 \<Rightarrow> Some 1 | UInt16 \<Rightarrow> Some 2 | UInt32 \<Rightarrow> Some 4 | UInt64 \<Rightarrow> Some 4 | _ \<Rightarrow> None)"

definition optr_size :: "optr_version \<Rightarrow> nat option" where
  "optr_size v = (case v of OptrDefault \<Rightarrow> Some 8 | OptrShort \<Rightarrow> Some 4 | OptrLong \<Rightarrow> Some 8 | OptrOther \<Rightarrow> None)"

text \<open>The type of an enum or bits field is that of its descriptor.\<close>

definition fix_type :: "sheap \<Rightarrow> finfo \<Rightarrow> fbody \<Rightarrow> ftype option" where
  "fix_type h i b =
     (case f_sub i of
        SEnum \<Rightarrow> (case b of BEnum e \<Rightarrow> Some (e_type (sh_enum h e)) | _ \<Rightarrow> None)
      | SBits \<Rightarrow> (case b of BBits v \<Rightarrow> Some (b_type (sh_bits h v)) | _ \<Rightarrow> None)
      | _ \<Rightarrow> Some (f_type i))"

definition set_name :: "string \<Rightarrow> field \<Rightarrow> field" where
  "set_name n f = (if f_name (f_info f) = None then Field ((f_info f)\<lparr>f_name := Some n\<rparr>) (f_body f) else f)"

definition set_offset :: "nat \<Rightarrow> field \<Rightarrow> field" where
  "set_offset n f = Field ((f_info f)\<lparr>f_offset := n\<rparr>) (f_body f)"

definition set_index :: "int \<Rightarrow> field \<Rightarrow> field" where
  "set_index n f = Field ((f_info f)\<lparr>f_index := n\<rparr>) (f_body f)"

lemma size_set_name [simp, termination_simp]: "size (set_name n f) = size f"
  by (cases f) (simp add: set_name_def)

text \<open>The option with the type of the count of an array.\<close>

definition fix_count_type :: "sheap \<Rightarrow> options \<Rightarrow> field \<Rightarrow> nat \<Rightarrow> options option" where
  "fix_count_type h os cp n =
     (if f_type (f_info cp) \<noteq> default_count_type n \<or> opt_get os ''count-type'' \<noteq> None
      then map_option (\<lambda>t. if opt_get os ''count-type'' \<noteq> None then opt_set ''count-type'' t os else alloc_option ''count-type'' t os)
             (dump_type h cp)
      else Some os)"

text \<open>The options that repeat the sub type.\<close>

definition fix_sub_options :: "sheap \<Rightarrow> finfo \<Rightarrow> fbody \<Rightarrow> options option" where
  "fix_sub_options h i b =
     (let os = f_options i in
      if f_sub i = SubNone \<or> opt_has os ''type'' then Some os
      else case f_sub i of
        SBits \<Rightarrow> (case b of BBits v \<Rightarrow> Some (if opt_has (b_options (sh_bits h v)) ''_auto'' then alloc_option ''type'' ''bits'' os else os) | _ \<Rightarrow> None)
      | ByteString \<Rightarrow> Some (alloc_option ''type'' ''string'' os)
      | SEnum \<Rightarrow> (case b of BEnum e \<Rightarrow> Some (if opt_has (e_options (sh_enum h e)) ''_auto'' then alloc_option ''type'' ''enum'' os else os) | _ \<Rightarrow> None)
      | SFixed \<Rightarrow> (case b of BFixed p \<Rightarrow> Some (alloc_option ''type'' (''fixed'' @ digits10 p) os) | _ \<Rightarrow> None)
      | _ \<Rightarrow>
          (case b of
             BTime r \<Rightarrow>
               let os = alloc_option ''type'' (if f_sub i = Duration then ''duration'' else ''time_point'') os
               in Some (if opt_has os ''resolution'' then os else alloc_option ''resolution'' (time_resolution_str r) os)
           | _ \<Rightarrow> None))"

text \<open>The end of \<open>tll_scheme_field_fix\<close>, for a field whose size is known.\<close>

definition field_done :: "sheap \<Rightarrow> finfo \<Rightarrow> fbody \<Rightarrow> (sheap \<times> field \<times> errno option) option" where
  "field_done h i b = map_option (\<lambda>os. (h, Field (i\<lparr>f_options := os\<rparr>) b, None)) (fix_sub_options h i b)"

text \<open>\<open>tll_scheme_field_fix\<close>. \<open>mf\<close> is \<open>tll_scheme_message_fix\<close>. The results for the parts of an array are not looked at.\<close>

fun field_fix :: "(nat \<Rightarrow> sheap \<Rightarrow> (sheap \<times> errno option) option) \<Rightarrow> field \<Rightarrow> sheap \<Rightarrow> (sheap \<times> field \<times> errno option) option" where
  "field_fix mf (Field i b) h =
     Option.bind (fix_type h i b) (\<lambda>t.
       let i = i\<lparr>f_type := t\<rparr> in
       case t of
         TBytes \<Rightarrow> field_done h (if f_size i = 0 then i\<lparr>f_size := 1\<rparr> else i) b
       | TArray \<Rightarrow>
           (case b of
              BArr ta cp n \<Rightarrow>
                if f_name i = None \<and> (f_name (f_info cp) = None \<or> f_name (f_info ta) = None) then None
                else
                  Option.bind (field_fix mf (set_name (the (f_name i) @ ''_count'') cp) h) (\<lambda>(h, cp, _).
                  Option.bind (field_fix mf (set_name (the (f_name i)) ta) h) (\<lambda>(h, ta, _).
                  Option.bind (fix_count_type h (f_options i) cp n) (\<lambda>os.
                    field_done h (i\<lparr>f_size := sz (size_of cp + sz (n * size_of ta)), f_options := os\<rparr>)
                      (BArr (set_offset (size_of cp) ta) cp n))))
            | _ \<Rightarrow> None)
       | TPointer \<Rightarrow>
           (case b of
              BPtr p v \<Rightarrow>
                (case optr_size v of
                   None \<Rightarrow> Some (h, Field i b, Some EINVAL)
                 | Some n \<Rightarrow>
                     if f_name i = None \<and> f_name (f_info p) = None then None
                     else let i = i\<lparr>f_size := n\<rparr>; p = set_name (the (f_name i)) p in
                       case fix_offset_ptr_options v (f_options i) of
                         None \<Rightarrow> Some (h, Field i (BPtr p v), Some EINVAL)
                       | Some os \<Rightarrow> map_option (\<lambda>(h, p, e). (h, Field (i\<lparr>f_options := os\<rparr>) (BPtr p v), e)) (field_fix mf p h))
            | _ \<Rightarrow> None)
       | TMessage \<Rightarrow>
           (case b of
              BMsg m \<Rightarrow>
                Option.bind (if m_size (sh_msg h m) = 0 then mf m h else Some (h, None)) (\<lambda>(h, e).
                  if e \<noteq> None then Some (h, Field i b, Some EINVAL)
                  else field_done h (i\<lparr>f_size := m_size (sh_msg h m)\<rparr>) b)
            | _ \<Rightarrow> None)
       | TUnion \<Rightarrow>
           (case b of
              BUnion u \<Rightarrow> field_done h (i\<lparr>f_size := sz (size_of (u_type_ptr (sh_union h u)) + u_union_size (sh_union h u))\<rparr>) b
            | _ \<Rightarrow> None)
       | _ \<Rightarrow> field_done h (i\<lparr>f_size := the (base_size t)\<rparr>) b)"

definition upd_msg :: "nat \<Rightarrow> (message \<Rightarrow> message) \<Rightarrow> sheap \<Rightarrow> sheap" where
  "upd_msg k g h = h\<lparr>sh_msg := (sh_msg h)(k := g (sh_msg h k))\<rparr>"

definition upd_union :: "nat \<Rightarrow> (sunion \<Rightarrow> sunion) \<Rightarrow> sheap \<Rightarrow> sheap" where
  "upd_union k g h = h\<lparr>sh_union := (sh_union h)(k := g (sh_union h k))\<rparr>"

text \<open>\<open>tll_scheme_union_fix\<close>: the loop over the variants, then the whole.\<close>

fun variants_fix :: "(nat \<Rightarrow> sheap \<Rightarrow> (sheap \<times> errno option) option) \<Rightarrow> nat \<Rightarrow> nat list \<Rightarrow> sheap \<Rightarrow> (sheap \<times> errno option) option" where
  "variants_fix mf u [] h = Some (h, None)"
| "variants_fix mf u (k # ks) h =
     (let f = set_offset (size_of (u_type_ptr (sh_union h u))) (u_fields (sh_union h u) ! k) in
      Option.bind (field_fix mf f h) (\<lambda>(h, f, e).
        if e \<noteq> None then Some (upd_union u (\<lambda>x. x\<lparr>u_fields := (u_fields x)[k := f]\<rparr>) h, Some EINVAL)
        else variants_fix mf u ks
               (upd_union u (\<lambda>x. x\<lparr>u_fields := (u_fields x)[k := set_index (int k) f], u_union_size := max (u_union_size x) (size_of f)\<rparr>) h)))"

definition union_fix :: "(nat \<Rightarrow> sheap \<Rightarrow> (sheap \<times> errno option) option) \<Rightarrow> nat \<Rightarrow> sheap \<Rightarrow> (sheap \<times> errno option) option" where
  "union_fix mf u h =
     Option.bind (field_fix mf (u_type_ptr (sh_union h u)) h) (\<lambda>(h, tp, e).
       let h = upd_union u (\<lambda>x. x\<lparr>u_type_ptr := tp\<rparr>) h in
       if e \<noteq> None then Some (h, Some EINVAL)
       else variants_fix mf u [0..<length (u_fields (sh_union h u))] (upd_union u (\<lambda>x. x\<lparr>u_union_size := 0\<rparr>) h))"

definition bits_fix :: "nat \<Rightarrow> sheap \<Rightarrow> sheap \<times> errno option" where
  "bits_fix v h =
     (case field_int_size (b_type (sh_bits h v)) of
        None \<Rightarrow> (h, Some EINVAL)
      | Some n \<Rightarrow> (h\<lparr>sh_bits := (sh_bits h)(v := (sh_bits h v)\<lparr>b_size := n\<rparr>)\<rparr>, None))"

fun fix_all :: "(nat \<Rightarrow> sheap \<Rightarrow> (sheap \<times> errno option) option) \<Rightarrow> nat list \<Rightarrow> sheap \<Rightarrow> (sheap \<times> errno option) option" where
  "fix_all f [] h = Some (h, None)"
| "fix_all f (x # xs) h = Option.bind (f x h) (\<lambda>(h, e). if e \<noteq> None then Some (h, Some EINVAL) else fix_all f xs h)"

text \<open>The loop of \<open>tll_scheme_message_fix\<close> over the fields: \<open>off\<close> is the offset of the next field, \<open>index\<close> the next bit of the presence map.\<close>

fun fields_fix :: "(nat \<Rightarrow> sheap \<Rightarrow> (sheap \<times> errno option) option) \<Rightarrow> bool \<Rightarrow> nat \<Rightarrow> nat list \<Rightarrow> nat \<Rightarrow> int \<Rightarrow> sheap \<Rightarrow> (sheap \<times> nat \<times> errno option) option" where
  "fields_fix mf mopt m [] off index h = Some (h, off, None)"
| "fields_fix mf mopt m (k # ks) off index h =
     Option.bind (field_fix mf (m_fields (sh_msg h m) ! k) h) (\<lambda>(h, f, e).
       if e \<noteq> None then Some (upd_msg m (\<lambda>x. x\<lparr>m_fields := (m_fields x)[k := f]\<rparr>) h, off, Some EINVAL)
       else
         let f = set_index (- 1) f;
             (r, pmap) = reader_getT bool_to_any False \<lparr>rd_get = opt_get (f_options (f_info f)), rd_error = None\<rparr> ''pmap'' (Some False);
             (r, opt) = reader_getT bool_to_any False r ''optional'' (Some mopt)
         in if rd_error r \<noteq> None \<or> pmap \<and> m_pmap (sh_msg h m) \<noteq> None
            then Some (upd_msg m (\<lambda>x. x\<lparr>m_fields := (m_fields x)[k := f]\<rparr>) h, off, Some EINVAL)
            else
              let numbered = (\<not> pmap \<and> opt \<and> (opt_get (f_options (f_info f)) ''_auto'' = None \<or> opt_get (f_options (f_info f)) ''_auto'' = Some []));
                  f = set_offset off (if numbered then set_index index f else f)
              in fields_fix mf mopt m ks (sz (off + size_of f)) (if numbered then index + 1 else index)
                   (upd_msg m (\<lambda>x. x\<lparr>m_fields := (m_fields x)[k := f], m_pmap := if pmap then Some k else m_pmap x\<rparr>) h))"

text \<open>\<open>tll_scheme_message_fix\<close>, with the depth of the stack.\<close>

primrec message_fix :: "nat \<Rightarrow> nat \<Rightarrow> sheap \<Rightarrow> (sheap \<times> errno option) option" where
  "message_fix 0 m h = None"
| "message_fix (Suc d) m h =
     (if m_size (sh_msg h m) \<noteq> 0 then Some (h, None)
      else case getT_default bool_to_any (opt_get (m_options (sh_msg h m))) ''defaults.optional'' False of
        Inl _ \<Rightarrow> Some (h, Some EINVAL)
      | Inr mopt \<Rightarrow>
          Option.bind (fix_all (union_fix (message_fix d)) (m_unions (sh_msg h m)) h) (\<lambda>(h, e).
          if e \<noteq> None then Some (h, Some EINVAL)
          else Option.bind (fix_all (\<lambda>v h. Some (bits_fix v h)) (m_bits (sh_msg h m)) h) (\<lambda>(h, e).
          if e \<noteq> None then Some (h, Some EINVAL)
          else Option.bind (fields_fix (message_fix d) mopt m [0..<length (m_fields (sh_msg h m))] 0 0 h) (\<lambda>(h, off, e).
          if e \<noteq> None then Some (h, Some EINVAL)
          else Some (upd_msg m (\<lambda>x. x\<lparr>m_size := off\<rparr>) h, None)))))"

definition scheme_fix :: "nat \<Rightarrow> scheme \<Rightarrow> sheap \<Rightarrow> (sheap \<times> errno option) option" where
  "scheme_fix d s h =
     Option.bind (fix_all (union_fix (message_fix d)) (s_unions s) h) (\<lambda>(h, e).
     if e \<noteq> None then Some (h, Some EINVAL)
     else Option.bind (fix_all (\<lambda>v h. Some (bits_fix v h)) (s_bits s) h) (\<lambda>(h, e).
     if e \<noteq> None then Some (h, Some EINVAL)
     else fix_all (message_fix d) (s_messages s) h))"

end
