(* ===== verification/SchemeLayout.thy ===== *)
theory SchemeLayout
  imports Scheme
begin

text \<open>
  The layout that \<open>tll_scheme_fix\<close> computes. The sizes of fields, messages and unions are defined without bounds from the types; for a
  scheme whose references go down in some order, as those of a loaded scheme do, and whose sizes fit in 64 bits the function ends
  without an error, every field has its size and follows the one before it, and the variants of a union lie after its type.
\<close>

section \<open>What the layout should be\<close>

text \<open>The messages and unions that a field refers to.\<close>

fun msg_refs :: "field \<Rightarrow> nat set" where
  "msg_refs (Field i b) =
     (case b of BMsg m \<Rightarrow> {m} | BPtr p v \<Rightarrow> msg_refs p | BArr ta cp n \<Rightarrow> msg_refs ta \<union> msg_refs cp | _ \<Rightarrow> {})"

fun union_refs :: "field \<Rightarrow> nat set" where
  "union_refs (Field i b) =
     (case b of BUnion u \<Rightarrow> {u} | BPtr p v \<Rightarrow> union_refs p | BArr ta cp n \<Rightarrow> union_refs ta \<union> union_refs cp | _ \<Rightarrow> {})"

text \<open>The size of a field, given the sizes of messages and unions, as a number without bound.\<close>

fun field_sz :: "(nat \<Rightarrow> nat) \<Rightarrow> (nat \<Rightarrow> nat) \<Rightarrow> sheap \<Rightarrow> field \<Rightarrow> nat" where
  "field_sz M U h (Field i b) =
     (case the (fix_type h i b) of
        TBytes \<Rightarrow> max 1 (f_size i)
      | TArray \<Rightarrow> (case b of BArr ta cp n \<Rightarrow> field_sz M U h cp + n * field_sz M U h ta | _ \<Rightarrow> 0)
      | TPointer \<Rightarrow> (case b of BPtr p v \<Rightarrow> the (optr_size v) | _ \<Rightarrow> 0)
      | TMessage \<Rightarrow> (case b of BMsg m \<Rightarrow> M m | _ \<Rightarrow> 0)
      | TUnion \<Rightarrow> (case b of BUnion u \<Rightarrow> U u | _ \<Rightarrow> 0)
      | t \<Rightarrow> the (base_size t))"

text \<open>A descriptor as the loader makes it: the pointer is the one of the type, enums and bits are over integers, the count of an array is
  an integer and sizes fit.\<close>

definition int_field :: "field \<Rightarrow> bool" where
  "int_field f \<longleftrightarrow> f_sub (f_info f) = SubNone \<and> f_body f = BNone \<and> field_int_size (f_type (f_info f)) \<noteq> None"

definition sub_ok :: "sheap \<Rightarrow> finfo \<Rightarrow> fbody \<Rightarrow> bool" where
  "sub_ok h i b =
     (case f_sub i of
        SEnum \<Rightarrow> (case b of BEnum e \<Rightarrow> field_int_size (e_type (sh_enum h e)) \<noteq> None | _ \<Rightarrow> False)
      | SBits \<Rightarrow> (case b of BBits v \<Rightarrow> field_int_size (b_type (sh_bits h v)) \<noteq> None | _ \<Rightarrow> False)
      | SFixed \<Rightarrow> (case b of BFixed p \<Rightarrow> True | _ \<Rightarrow> False)
      | TimePoint \<Rightarrow> (case b of BTime r \<Rightarrow> True | _ \<Rightarrow> False)
      | Duration \<Rightarrow> (case b of BTime r \<Rightarrow> True | _ \<Rightarrow> False)
      | _ \<Rightarrow> True)"

fun field_wf :: "(nat \<Rightarrow> nat) \<Rightarrow> (nat \<Rightarrow> nat) \<Rightarrow> sheap \<Rightarrow> field \<Rightarrow> bool" where
  "field_wf M U h (Field i b) \<longleftrightarrow>
     sub_ok h i b \<and> field_sz M U h (Field i b) < 2 ^ 64 \<and>
     (case the (fix_type h i b) of
        TArray \<Rightarrow> (case b of BArr ta cp n \<Rightarrow> int_field cp \<and> field_wf M U h cp \<and> field_wf M U h ta | _ \<Rightarrow> False)
      | TPointer \<Rightarrow> (case b of BPtr p v \<Rightarrow> optr_size v \<noteq> None \<and> fix_offset_ptr_options v (f_options i) \<noteq> None \<and> field_wf M U h p | _ \<Rightarrow> False)
      | TMessage \<Rightarrow> (case b of BMsg m \<Rightarrow> True | _ \<Rightarrow> False)
      | TUnion \<Rightarrow> (case b of BUnion u \<Rightarrow> True | _ \<Rightarrow> False)
      | _ \<Rightarrow> (case b of BArr ta cp n \<Rightarrow> False | BPtr p v \<Rightarrow> False | _ \<Rightarrow> True))"

text \<open>A field with its size, and so for the fields it is made of.\<close>

fun field_laid :: "(nat \<Rightarrow> nat) \<Rightarrow> (nat \<Rightarrow> nat) \<Rightarrow> sheap \<Rightarrow> field \<Rightarrow> bool" where
  "field_laid M U h (Field i b) \<longleftrightarrow>
     f_size i = field_sz M U h (Field i b) \<and>
     (case b of
        BArr ta cp n \<Rightarrow> field_laid M U h ta \<and> field_laid M U h cp \<and> offset_of ta = size_of cp
      | BPtr p v \<Rightarrow> field_laid M U h p
      | _ \<Rightarrow> True)"

section \<open>Fields\<close>

text \<open>Types that do not change.\<close>

definition same_types :: "sheap \<Rightarrow> sheap \<Rightarrow> bool" where
  "same_types h h' \<longleftrightarrow> sh_enum h' = sh_enum h \<and> (\<forall>v. b_type (sh_bits h' v) = b_type (sh_bits h v) \<and> b_options (sh_bits h' v) = b_options (sh_bits h v))"

definition user_opts :: "options \<Rightarrow> string option list" where
  "user_opts os = map (opt_get os) [''pmap'', ''optional'', ''_auto'']"

text \<open>What the layout of a field leaves as it was.\<close>

definition keeps :: "(nat \<Rightarrow> nat) \<Rightarrow> (nat \<Rightarrow> nat) \<Rightarrow> sheap \<Rightarrow> field \<Rightarrow> field \<Rightarrow> bool" where
  "keeps M U h f f' \<longleftrightarrow>
     msg_refs f' = msg_refs f \<and> union_refs f' = union_refs f \<and> field_sz M U h f' = field_sz M U h f \<and> field_wf M U h f' \<and>
     user_opts (f_options (f_info f')) = user_opts (f_options (f_info f)) \<and> f_name (f_info f') = f_name (f_info f) \<and>
     int_field f' = int_field f"

lemma fix_type_same: "same_types h h' \<Longrightarrow> fix_type h' i b = fix_type h i b"
  by (auto simp: fix_type_def same_types_def split: stype.splits fbody.splits)

lemma opt_get_set: "opt_get os k \<noteq> None \<Longrightarrow> opt_get (opt_set k v os) j = (if j = k then Some v else opt_get os j)"
  by (induction k v os rule: opt_set.induct) (auto simp: opt_get_def)

lemma opt_get_alloc [simp]: "opt_get (alloc_option k v os) j = (if j = k then Some v else opt_get os j)"
  by (simp add: opt_get_def alloc_option_def)

lemma user_opts_alloc [simp]: "k \<notin> {''pmap'', ''optional'', ''_auto''} \<Longrightarrow> user_opts (alloc_option k v os) = user_opts os"
  by (auto simp: user_opts_def)

lemma user_opts_set: "k \<notin> {''pmap'', ''optional'', ''_auto''} \<Longrightarrow> opt_get os k \<noteq> None \<Longrightarrow> user_opts (opt_set k v os) = user_opts os"
  by (auto simp: user_opts_def opt_get_set)

lemma fix_sub_ok:
  assumes "sub_ok h i b" "same_types h h'"
  shows "\<exists>os. fix_sub_options h' i b = Some os \<and> user_opts os = user_opts (f_options i) \<and>
    (\<forall>v. fix_offset_ptr_options v (f_options i) \<noteq> None \<longrightarrow> fix_offset_ptr_options v os \<noteq> None)"
  using assms
  by (cases "f_sub i") (auto simp: fix_sub_options_def sub_ok_def Let_def same_types_def fix_offset_ptr_options_def split: fbody.splits option.splits)

lemma fix_count_ok:
  assumes "int_field cp"
  shows "\<exists>os'. fix_count_type h os cp n = Some os' \<and> user_opts os' = user_opts os"
proof -
  obtain i where cp: "cp = Field i BNone" "f_sub i = SubNone" "field_int_size (f_type i) \<noteq> None" using assms by (cases cp) (auto simp: int_field_def)
  then obtain t where "dump_type h cp = Some t" by (cases "f_type i") (auto simp: field_int_size_def)
  then show ?thesis by (auto simp: fix_count_type_def user_opts_set)
qed

lemma sub_ok_indep: "sub_ok h (i\<lparr>f_type := t, f_size := n, f_options := os\<rparr>) b = sub_ok h i b"
  by (simp add: sub_ok_def)

lemma info_upd [simp]:
  "fix_type h (i\<lparr>f_name := x\<rparr>) b = fix_type h i b" "fix_type h (i\<lparr>f_offset := k\<rparr>) b = fix_type h i b" "fix_type h (i\<lparr>f_index := y\<rparr>) b = fix_type h i b"
  "sub_ok h (i\<lparr>f_name := x\<rparr>) b = sub_ok h i b" "sub_ok h (i\<lparr>f_offset := k\<rparr>) b = sub_ok h i b" "sub_ok h (i\<lparr>f_index := y\<rparr>) b = sub_ok h i b"
  by (simp_all add: fix_type_def sub_ok_def cong del: stype.case_cong_weak)

lemma field_upd [simp]:
  "msg_refs (set_name n f) = msg_refs f" "union_refs (set_name n f) = union_refs f" "field_sz M U h (set_name n f) = field_sz M U h f"
  "field_wf M U h (set_name n f) = field_wf M U h f" "int_field (set_name n f) = int_field f" "f_name (f_info (set_name n f)) \<noteq> None"
  "msg_refs (set_offset k f) = msg_refs f" "union_refs (set_offset k f) = union_refs f" "field_sz M U h (set_offset k f) = field_sz M U h f"
  "field_wf M U h (set_offset k f) = field_wf M U h f" "field_laid M U h (set_offset k f) = field_laid M U h f"
  "msg_refs (set_index x f) = msg_refs f" "union_refs (set_index x f) = union_refs f" "field_sz M U h (set_index x f) = field_sz M U h f"
  "field_wf M U h (set_index x f) = field_wf M U h f" "field_laid M U h (set_index x f) = field_laid M U h f"
  by (cases f; simp add: set_name_def set_offset_def set_index_def int_field_def cong del: ftype.case_cong_weak fbody.case_cong_weak)+

lemma field_upd_info [simp]:
  "offset_of (set_offset k f) = k" "size_of (set_offset k f) = size_of f" "size_of (set_index x f) = size_of f"
  "f_options (f_info (set_offset k f)) = f_options (f_info f)" "f_options (f_info (set_index x f)) = f_options (f_info f)"
  "f_name (f_info (set_offset k f)) = f_name (f_info f)" "f_name (f_info (set_index x f)) = f_name (f_info f)"
  by (simp_all add: set_offset_def set_index_def)

lemma keeps_upd [simp]: "keeps M U h f (set_offset k f') = keeps M U h f f'" "keeps M U h f (set_index x f') = keeps M U h f f'"
  by (simp_all add: keeps_def) (simp_all add: int_field_def set_offset_def set_index_def)

lemma same_types_refl [simp]: "same_types h h"
  by (simp add: same_types_def)

lemma same_types_trans: "same_types h h' \<Longrightarrow> same_types h' h'' \<Longrightarrow> same_types h h''"
  by (simp add: same_types_def)

text \<open>The end of the layout of a field.\<close>

lemma field_done_ok:
  assumes "same_types h0 h" "sub_ok h0 i b" "fix_type h0 i b = Some t" "n = field_sz M U h0 (Field i b)" "field_wf M U h0 (Field i b)"
    "\<And>ta cp k. b \<noteq> BArr ta cp k" "\<And>p v. b \<noteq> BPtr p v"
  shows "\<exists>f'. field_done h (i\<lparr>f_type := t, f_size := n\<rparr>) b = Some (h, f', None) \<and> field_laid M U h0 f' \<and> keeps M U h0 (Field i b) f'"
proof -
  let ?i = "i\<lparr>f_type := t, f_size := n\<rparr>"
  have "sub_ok h0 ?i b" using assms(2) by (simp add: sub_ok_def)
  then obtain os where os: "fix_sub_options h ?i b = Some os" "user_opts os = user_opts (f_options i)"
    using fix_sub_ok [OF _ assms(1), of ?i b] by auto
  let ?f = "Field (?i\<lparr>f_options := os\<rparr>) b"
  have t: "fix_type h0 (?i\<lparr>f_options := os\<rparr>) b = Some t" using assms(3) by (auto simp: fix_type_def split: stype.splits)
  have "t \<noteq> TArray" "t \<noteq> TPointer" using assms(3,5,6,7) by (auto split: fbody.splits)
  then have s: "field_sz M U h0 ?f = field_sz M U h0 (Field i b)"
    using t assms(3,4) by (cases t) (auto split: fbody.splits)
  have "field_laid M U h0 ?f" using s assms(4,6,7) by (auto split: fbody.splits)
  moreover have "field_wf M U h0 ?f"
    using assms(5) s t assms(3) \<open>t \<noteq> TArray\<close> \<open>t \<noteq> TPointer\<close> by (cases t) (auto simp: sub_ok_def simp del: field_sz.simps)
  moreover have "int_field ?f = int_field (Field i b)" using assms(3) by (auto simp: int_field_def fix_type_def split: stype.splits)
  ultimately show ?thesis using os s by (auto simp: field_done_def keeps_def simp del: field_sz.simps field_wf.simps field_laid.simps)
qed

text \<open>What the layout of a field relies on: an invariant \<open>P\<close> of the heap, the layout of the messages \<open>R\<close> and the sizes of the unions \<open>V\<close>.\<close>

definition mf_ok :: "(nat \<Rightarrow> nat) \<Rightarrow> (nat \<Rightarrow> sheap \<Rightarrow> (sheap \<times> errno option) option) \<Rightarrow> (sheap \<Rightarrow> bool) \<Rightarrow> nat set \<Rightarrow> bool" where
  "mf_ok M mf P R \<longleftrightarrow> (\<forall>m h. m \<in> R \<longrightarrow> P h \<longrightarrow>
     (if m_size (sh_msg h m) = 0 then \<exists>h'. mf m h = Some (h', None) \<and> P h' \<and> m_size (sh_msg h' m) = M m else m_size (sh_msg h m) = M m))"

definition u_ok :: "(nat \<Rightarrow> nat) \<Rightarrow> (sheap \<Rightarrow> bool) \<Rightarrow> nat set \<Rightarrow> bool" where
  "u_ok U P V \<longleftrightarrow> (\<forall>u h. u \<in> V \<longrightarrow> P h \<longrightarrow> size_of (u_type_ptr (sh_union h u)) + u_union_size (sh_union h u) = U u)"

lemma optr_fix_again: "fix_offset_ptr_options v os = Some os' \<Longrightarrow> fix_offset_ptr_options v os' \<noteq> None \<and> user_opts os' = user_opts os"
  by (auto simp: fix_offset_ptr_options_def split: if_splits option.splits)

lemma fix_type_total: "sub_ok h i b \<Longrightarrow> \<exists>t. fix_type h i b = Some t"
  by (auto simp: fix_type_def sub_ok_def split: stype.splits fbody.splits)

definition field_fixed :: "(nat \<Rightarrow> nat) \<Rightarrow> (nat \<Rightarrow> nat) \<Rightarrow> sheap \<Rightarrow> (nat \<Rightarrow> sheap \<Rightarrow> (sheap \<times> errno option) option) \<Rightarrow> (sheap \<Rightarrow> bool) \<Rightarrow> field \<Rightarrow> bool" where
  "field_fixed M U h0 mf P f \<longleftrightarrow> (\<forall>h. P h \<longrightarrow> (\<exists>h' f'. field_fix mf f h = Some (h', f', None) \<and> P h' \<and> field_laid M U h0 f' \<and> keeps M U h0 f f'))"

lemma leaf_fixed:
  assumes mf: "mf_ok M mf P R" and uo: "u_ok U P V" and ty: "\<And>h. P h \<Longrightarrow> same_types h0 h"
    and wf: "field_wf M U h0 (Field i b)" and refs: "msg_refs (Field i b) \<subseteq> R" "union_refs (Field i b) \<subseteq> V"
    and t: "fix_type h0 i b = Some t" "t \<noteq> TArray" "t \<noteq> TPointer"
  shows "field_fixed M U h0 mf P (Field i b)"
  unfolding field_fixed_def
proof (intro allI impI)
  fix h assume P: "P h"
  have so: "sub_ok h0 i b" using wf by simp
  have nb: "b \<noteq> BArr ta cp k" "b \<noteq> BPtr p v" for ta cp k p v using wf t by (auto split: ftype.splits)
  have t': "fix_type h i b = Some t" using fix_type_same [OF ty [OF P]] t(1) by simp
  let ?n = "field_sz M U h0 (Field i b)"
  have dn: "\<exists>f'. field_done h' (i\<lparr>f_type := t, f_size := ?n\<rparr>) b = Some (h', f', None) \<and> field_laid M U h0 f' \<and> keeps M U h0 (Field i b) f'" if "P h'" for h'
    by (rule field_done_ok [OF ty [OF that] so t(1) refl wf nb])
  show "\<exists>h' f'. field_fix mf (Field i b) h = Some (h', f', None) \<and> P h' \<and> field_laid M U h0 f' \<and> keeps M U h0 (Field i b) f'"
  proof (cases "t = TMessage")
    case True
    then obtain m where b: "b = BMsg m" using wf t(1) by (auto split: fbody.splits)
    then have m: "m \<in> R" "?n = M m" using refs(1) t(1) True by simp_all
    obtain h' where h': "(if m_size (sh_msg h m) = 0 then mf m h else Some (h, None)) = Some (h', None)" "P h'" "m_size (sh_msg h' m) = M m"
      using mf m(1) P unfolding mf_ok_def by (metis (full_types))
    then show ?thesis using dn [OF h'(2)] t' True b m(2) P by (auto simp: Let_def)
  next
    case False
    have "field_fix mf (Field i b) h = field_done h (i\<lparr>f_type := t, f_size := ?n\<rparr>) b"
    proof (cases "t = TUnion")
      case True
      then obtain u where b: "b = BUnion u" using wf t(1) by (auto split: fbody.splits)
      then have "size_of (u_type_ptr (sh_union h u)) + u_union_size (sh_union h u) = ?n" "?n < 2 ^ 64"
        using uo refs(2) P t(1) True wf unfolding u_ok_def by auto
      then show ?thesis using t' True b by (simp add: Let_def sz_def)
    next
      case nu: False
      then show ?thesis using False t t' by (cases t) (auto simp: Let_def max_def intro!: arg_cong [of _ _ "\<lambda>i. field_done h i b"])
    qed
    then show ?thesis using dn [OF P] P by auto
  qed
qed

lemma keepsD:
  assumes "keeps M U h f f'"
  shows "msg_refs f' = msg_refs f" "union_refs f' = union_refs f" "field_sz M U h f' = field_sz M U h f" "field_wf M U h f'"
    "user_opts (f_options (f_info f')) = user_opts (f_options (f_info f))" "f_name (f_info f') = f_name (f_info f)" "int_field f' = int_field f"
  using assms by (simp_all add: keeps_def)

lemma laid_size: "field_laid M U h f \<Longrightarrow> size_of f = field_sz M U h f"
  by (cases f) simp

lemma array_fixed:
  assumes ty: "\<And>h. P h \<Longrightarrow> same_types h0 h"
    and wf: "field_wf M U h0 (Field i (BArr ta cp n))" and t: "fix_type h0 i (BArr ta cp n) = Some TArray" and name: "f_name i = Some x"
    and cp: "field_fixed M U h0 mf P (set_name (x @ ''_count'') cp)" and ta: "field_fixed M U h0 mf P (set_name x ta)"
  shows "field_fixed M U h0 mf P (Field i (BArr ta cp n))"
  unfolding field_fixed_def
proof (intro allI impI)
  fix h assume P: "P h"
  let ?f = "Field i (BArr ta cp n)" and ?i = "i\<lparr>f_type := TArray\<rparr>"
  have sub: "f_sub i \<noteq> SEnum" "f_sub i \<noteq> SBits" "f_type i = TArray" and so: "sub_ok h0 i (BArr ta cp n)"
    using t wf by (auto simp: fix_type_def split: stype.splits)
  have sn: "f_sub i \<notin> {SFixed, TimePoint, Duration}" using so by (auto simp: sub_ok_def)
  obtain h1 c where c: "field_fix mf (set_name (x @ ''_count'') cp) h = Some (h1, c, None)" "P h1" "field_laid M U h0 c"
      "keeps M U h0 (set_name (x @ ''_count'') cp) c" using cp P unfolding field_fixed_def by blast
  obtain h2 a where a: "field_fix mf (set_name x ta) h1 = Some (h2, a, None)" "P h2" "field_laid M U h0 a" "keeps M U h0 (set_name x ta) a"
    using ta c(2) unfolding field_fixed_def by blast
  have ic: "int_field c" using keepsD(7) [OF c(4)] wf t by simp
  obtain os where os: "fix_count_type h2 (f_options i) c n = Some os" "user_opts os = user_opts (f_options i)"
    using fix_count_ok [OF ic] by blast
  let ?b = "BArr (set_offset (size_of c) a) c n" and ?n = "field_sz M U h0 ?f"
  have szs: "size_of c = field_sz M U h0 cp" "size_of a = field_sz M U h0 ta" using laid_size c(3) a(3) keepsD(3) [OF c(4)] keepsD(3) [OF a(4)] by simp_all
  have n: "?n = size_of c + n * size_of a" using t szs by simp
  have lt: "?n < 2 ^ 64" using wf by simp
  have "sz (size_of c + sz (n * size_of a)) = ?n" using n lt by (simp add: sz_def mod_less)
  let ?j = "i\<lparr>f_type := TArray, f_size := ?n, f_options := os\<rparr>"
  have "sub_ok h0 ?j ?b" using sub sn by (cases "f_sub i") (auto simp: sub_ok_def)
  then obtain os2 where o2: "fix_sub_options h2 ?j ?b = Some os2" "user_opts os2 = user_opts os"
    using fix_sub_ok [OF _ ty [OF a(2)], of ?j ?b] by auto
  let ?f' = "Field (?j\<lparr>f_options := os2\<rparr>) ?b"
  have e: "field_fix mf ?f h = Some (h2, ?f', None)"
    using c(1) a(1) os(1) o2(1) name fix_type_same [OF ty [OF P], of i "BArr ta cp n"] t \<open>sz (size_of c + sz (n * size_of a)) = ?n\<close>
    by (simp add: field_done_def del: field_sz.simps)
  have t2: "fix_type h0 (?j\<lparr>f_options := os2\<rparr>) ?b = Some TArray" using sub by (cases "f_sub i") (auto simp: fix_type_def)
  have s2: "field_sz M U h0 ?f' = ?n" using t2 n szs keepsD(3) [OF c(4)] keepsD(3) [OF a(4)] by simp
  have "field_laid M U h0 ?f'" using s2 c(3) a(3) by (simp del: field_sz.simps)
  moreover have "field_wf M U h0 ?f'"
    using s2 lt t2 sub sn keepsD(4) [OF c(4)] keepsD(4) [OF a(4)] ic by (cases "f_sub i") (auto simp: sub_ok_def simp del: field_sz.simps)
  moreover have "msg_refs ?f' = msg_refs ?f" "union_refs ?f' = union_refs ?f" using keepsD(1,2) [OF c(4)] keepsD(1,2) [OF a(4)] by simp_all
  ultimately have "keeps M U h0 ?f ?f' \<and> field_laid M U h0 ?f'"
    using s2 o2(2) os(2) by (simp add: keeps_def int_field_def del: field_sz.simps field_wf.simps field_laid.simps msg_refs.simps union_refs.simps)
  then show "\<exists>h' f'. field_fix mf ?f h = Some (h', f', None) \<and> P h' \<and> field_laid M U h0 f' \<and> keeps M U h0 ?f f'" using e a(2) by blast
qed

lemma pointer_fixed:
  assumes ty: "\<And>h. P h \<Longrightarrow> same_types h0 h"
    and wf: "field_wf M U h0 (Field i (BPtr p v))" and t: "fix_type h0 i (BPtr p v) = Some TPointer" and name: "f_name i = Some x"
    and p: "field_fixed M U h0 mf P (set_name x p)"
  shows "field_fixed M U h0 mf P (Field i (BPtr p v))"
  unfolding field_fixed_def
proof (intro allI impI)
  fix h assume P: "P h"
  let ?f = "Field i (BPtr p v)"
  have sub: "f_sub i \<noteq> SEnum" "f_sub i \<noteq> SBits" using t by (auto simp: fix_type_def)
  obtain n os where n: "optr_size v = Some n" and os: "fix_offset_ptr_options v (f_options i) = Some os" using wf t by auto
  obtain h1 q where q: "field_fix mf (set_name x p) h = Some (h1, q, None)" "P h1" "field_laid M U h0 q" "keeps M U h0 (set_name x p) q"
    using p P unfolding field_fixed_def by blast
  let ?j = "i\<lparr>f_type := TPointer, f_size := n, f_options := os\<rparr>"
  let ?f' = "Field ?j (BPtr q v)"
  have e: "field_fix mf ?f h = Some (h1, ?f', None)"
    using q(1) n os name fix_type_same [OF ty [OF P], of i "BPtr p v"] t by (simp add: Let_def)
  have t2: "fix_type h0 ?j (BPtr q v) = Some TPointer" using sub by (cases "f_sub i") (auto simp: fix_type_def)
  have s: "field_sz M U h0 ?f = n" "field_sz M U h0 ?f' = n" using t t2 n by simp_all
  have so: "sub_ok h0 ?j (BPtr q v)" using wf sub by (cases "f_sub i") (auto simp: sub_ok_def)
  have "field_laid M U h0 ?f'" using s q(3) by (simp del: field_sz.simps)
  moreover have "field_wf M U h0 ?f'"
    using wf s t2 n so optr_fix_again [OF os] keepsD(4) [OF q(4)] by (simp del: field_sz.simps)
  moreover have "msg_refs ?f' = msg_refs ?f" "union_refs ?f' = union_refs ?f" using keepsD(1,2) [OF q(4)] by simp_all
  ultimately have "keeps M U h0 ?f ?f' \<and> field_laid M U h0 ?f'"
    using s optr_fix_again [OF os] by (simp add: keeps_def int_field_def del: field_sz.simps field_wf.simps field_laid.simps msg_refs.simps union_refs.simps)
  then show "\<exists>h' f'. field_fix mf ?f h = Some (h', f', None) \<and> P h' \<and> field_laid M U h0 f' \<and> keeps M U h0 ?f f'" using e q(2) by blast
qed

lemma field_fix_ok:
  assumes mf: "mf_ok M mf P R" and uo: "u_ok U P V" and ty: "\<And>h. P h \<Longrightarrow> same_types h0 h"
  shows "field_wf M U h0 f \<Longrightarrow> f_name (f_info f) \<noteq> None \<Longrightarrow> msg_refs f \<subseteq> R \<Longrightarrow> union_refs f \<subseteq> V \<Longrightarrow> field_fixed M U h0 mf P f"
proof (induction f rule: measure_induct_rule [of size])
  case (less f)
  obtain i b x where f: "f = Field i b" "f_name i = Some x" using less.prems(2) by (cases f) auto
  have so: "sub_ok h0 i b" using less.prems(1) f by simp
  then obtain t where t: "fix_type h0 i b = Some t" using fix_type_total by blast
  note wf = less.prems(1) [unfolded f]
  have IH: "field_fixed M U h0 mf P (set_name y g)" if "size g < size f" "field_wf M U h0 g" "msg_refs g \<subseteq> R" "union_refs g \<subseteq> V" for y g
    by (rule less.IH) (use that in simp_all)
  consider "t \<noteq> TArray" "t \<noteq> TPointer" | ta cp n where "t = TArray" "b = BArr ta cp n" | p v where "t = TPointer" "b = BPtr p v"
    using wf t by (cases t) (auto split: fbody.splits)
  then show ?case
  proof cases
    case 1
    then show ?thesis using leaf_fixed [OF mf uo ty wf _ _ t] less.prems(3,4) f by simp
  next
    case 2
    then show ?thesis using array_fixed [OF ty, of P M U i ta cp n x mf] wf t f IH less.prems(3,4) by simp
  next
    case 3
    then show ?thesis using pointer_fixed [OF ty, of P M U i p v x mf] wf t f IH less.prems(3,4) by simp
  qed
qed

section \<open>Unions\<close>

lemma upd_simps [simp]:
  "sh_union (upd_union k g h) u = (if u = k then g (sh_union h k) else sh_union h u)" "sh_msg (upd_union k g h) = sh_msg h"
  "sh_msg (upd_msg k gm h) m = (if m = k then gm (sh_msg h k) else sh_msg h m)" "sh_union (upd_msg k gm h) = sh_union h"
  "same_types h (upd_union k g h)" "same_types h (upd_msg k gm h)"
  by (simp_all add: upd_union_def upd_msg_def same_types_def)

lemma offset_set_index [simp]: "offset_of (set_index x f) = offset_of f"
  by (simp add: set_index_def)

text \<open>What a field must satisfy before its layout.\<close>

definition ready :: "(nat \<Rightarrow> nat) \<Rightarrow> (nat \<Rightarrow> nat) \<Rightarrow> sheap \<Rightarrow> nat set \<Rightarrow> nat set \<Rightarrow> field \<Rightarrow> bool" where
  "ready M U h0 R V f \<longleftrightarrow> f_name (f_info f) \<noteq> None \<and> field_wf M U h0 f \<and> msg_refs f \<subseteq> R \<and> union_refs f \<subseteq> V"

lemma ready_keeps: "ready M U h0 R V f \<Longrightarrow> keeps M U h0 f f' \<Longrightarrow> ready M U h0 R V f'"
  by (simp add: ready_def keeps_def)

lemma ready_upd [simp]: "ready M U h0 R V (set_offset k f) = ready M U h0 R V f" "ready M U h0 R V (set_index x f) = ready M U h0 R V f"
  by (simp_all add: ready_def)

text \<open>The state of a union after the first \<open>k\<close> variants. \<open>zs\<close> are the sizes of all.\<close>

definition variants_upto :: "(nat \<Rightarrow> nat) \<Rightarrow> (nat \<Rightarrow> nat) \<Rightarrow> sheap \<Rightarrow> nat set \<Rightarrow> nat set \<Rightarrow> nat list \<Rightarrow> nat \<Rightarrow> sunion \<Rightarrow> bool" where
  "variants_upto M U h0 R V zs k x \<longleftrightarrow>
     (\<forall>f \<in> set (u_fields x). ready M U h0 R V f) \<and> map (field_sz M U h0) (u_fields x) = zs \<and> field_laid M U h0 (u_type_ptr x) \<and>
     u_union_size x = foldr max (take k zs) 0 \<and>
     (\<forall>a < k. a < length (u_fields x) \<longrightarrow> field_laid M U h0 (u_fields x ! a) \<and> offset_of (u_fields x ! a) = size_of (u_type_ptr x))"

lemma foldr_max_snoc: "foldr max (xs @ [y]) 0 = max (foldr max xs 0) (y :: nat)"
  by (induction xs) auto

lemma variants_step:
  assumes v: "variants_upto M U h0 R V zs k x" and k: "k < length (u_fields x)"
    and f: "field_laid M U h0 f" "keeps M U h0 (set_offset (size_of (u_type_ptr x)) (u_fields x ! k)) f" "offset_of f = size_of (u_type_ptr x)"
  shows "variants_upto M U h0 R V zs (Suc k) (x\<lparr>u_fields := (u_fields x)[k := set_index (int k) f], u_union_size := max (u_union_size x) (size_of f)\<rparr>)"
proof -
  let ?fs = "(u_fields x)[k := set_index (int k) f]"
  have k': "k < length zs" using v k unfolding variants_upto_def by auto
  have z: "zs ! k = field_sz M U h0 f" using v k f(2) k' unfolding variants_upto_def by (auto simp: keeps_def)
  have "map (field_sz M U h0) ?fs = zs" using v k z k' unfolding variants_upto_def by (auto simp: map_update list_update_same_conv)
  moreover have "\<forall>g \<in> set ?fs. ready M U h0 R V g"
  proof
    fix g assume "g \<in> set ?fs"
    then have "g = set_index (int k) f \<or> g \<in> set (u_fields x)" by (meson set_update_subset_insert subsetD insertE)
    then show "ready M U h0 R V g"
    proof
      assume "g = set_index (int k) f"
      moreover have "ready M U h0 R V (u_fields x ! k)" using v k unfolding variants_upto_def by simp
      ultimately show ?thesis using ready_keeps [OF _ f(2)] by simp
    qed (use v in \<open>simp add: variants_upto_def\<close>)
  qed
  moreover have "foldr max (take (Suc k) zs) 0 = max (u_union_size x) (size_of f)"
    using v z k' laid_size [OF f(1)] foldr_max_snoc [of "take k zs" "zs ! k"] unfolding variants_upto_def by (simp add: take_Suc_conv_app_nth)
  moreover have "field_laid M U h0 (?fs ! a) \<and> offset_of (?fs ! a) = size_of (u_type_ptr x)" if "a < Suc k" "a < length (u_fields x)" for a
    using v that f(1,3) unfolding variants_upto_def by (cases "a = k") (auto simp del: field_laid.simps)
  ultimately show ?thesis using v unfolding variants_upto_def by simp
qed

lemma field_done_offset: "field_done h i b = Some (h', f', e) \<Longrightarrow> offset_of f' = f_offset i"
  by (auto simp: field_done_def)

lemma field_fix_offset: "field_fix mf f h = Some (h', f', e) \<Longrightarrow> offset_of f' = offset_of f"
proof (cases f)
  case (Field i b)
  assume "field_fix mf f h = Some (h', f', e)"
  then obtain t where t: "fix_type h i b = Some t" and r: "field_fix mf (Field i b) h = Some (h', f', e)" using Field by (auto split: bind_splits)
  then show ?thesis using Field
    by (cases t) (auto simp: Let_def dest!: field_done_offset split: bind_splits option.splits fbody.splits if_splits)
qed

lemma variants_ok:
  assumes mf: "\<And>x. mf_ok M mf (\<lambda>h. P h \<and> sh_union h u = x) R" and uo: "u_ok U P V" and ty: "\<And>h. P h \<Longrightarrow> same_types h0 h"
    and upd: "\<And>h g. P h \<Longrightarrow> P (upd_union u g h)"
  shows "P h \<Longrightarrow> variants_upto M U h0 R V zs k (sh_union h u) \<Longrightarrow> k \<le> length zs \<Longrightarrow>
    \<exists>h'. variants_fix mf u [k..<length zs] h = Some (h', None) \<and> P h' \<and> variants_upto M U h0 R V zs (length zs) (sh_union h' u) \<and>
      u_type_ptr (sh_union h' u) = u_type_ptr (sh_union h u)"
proof (induction "length zs - k" arbitrary: k h)
  case 0
  then show ?case by simp
next
  case (Suc n)
  let ?x = "sh_union h u" and ?o = "size_of (u_type_ptr (sh_union h u))"
  have k: "k < length (u_fields ?x)" "k < length zs" using Suc(2,4) unfolding variants_upto_def by auto
  let ?f = "set_offset ?o (u_fields ?x ! k)"
  have "ready M U h0 R V ?f" using Suc(4) k unfolding variants_upto_def by simp
  then have "field_fixed M U h0 mf (\<lambda>h. P h \<and> sh_union h u = ?x) ?f"
    using field_fix_ok [OF mf [of ?x], where U = U and V = V and ?h0.0 = h0 and f = ?f] uo ty unfolding ready_def u_ok_def by blast
  then obtain h1 f where f: "field_fix mf ?f h = Some (h1, f, None)" "P h1" "sh_union h1 u = ?x" "field_laid M U h0 f" "keeps M U h0 ?f f"
    using Suc(3) unfolding field_fixed_def by blast
  let ?h = "upd_union u (\<lambda>x. x\<lparr>u_fields := (u_fields x)[k := set_index (int k) f], u_union_size := max (u_union_size x) (size_of f)\<rparr>) h1"
  have off: "offset_of f = ?o" using field_fix_offset [OF f(1)] by simp
  have "variants_upto M U h0 R V zs (Suc k) (sh_union ?h u)" using variants_step [OF Suc(4) k(1) f(4,5) off] f(3) by simp
  moreover have "P ?h" by (rule upd [OF f(2)])
  moreover have "n = length zs - Suc k" "Suc k \<le> length zs" using Suc(2) k(2) by simp_all
  ultimately obtain h' where h': "variants_fix mf u [Suc k..<length zs] ?h = Some (h', None)" "P h'" "variants_upto M U h0 R V zs (length zs) (sh_union h' u)"
    "u_type_ptr (sh_union h' u) = u_type_ptr ?x"
    using Suc(1) [of "Suc k" ?h] f(3) by auto
  have "[k..<length zs] = k # [Suc k..<length zs]" using k(2) by (rule upt_conv_Cons)
  then show ?case using h' f(1) by (simp add: Let_def)
qed

lemma ready_fixed:
  assumes mf: "mf_ok M mf P R" and uo: "u_ok U P V" and ty: "\<And>h. P h \<Longrightarrow> same_types h0 h" and f: "ready M U h0 R V f" and h: "P h"
  shows "\<exists>h' f'. field_fix mf f h = Some (h', f', None) \<and> P h' \<and> field_laid M U h0 f' \<and> keeps M U h0 f f'"
  using field_fix_ok [OF mf uo ty, of f] f h unfolding ready_def field_fixed_def by blast

definition union_ready :: "(nat \<Rightarrow> nat) \<Rightarrow> (nat \<Rightarrow> nat) \<Rightarrow> sheap \<Rightarrow> nat set \<Rightarrow> nat set \<Rightarrow> nat list \<Rightarrow> nat \<Rightarrow> sunion \<Rightarrow> bool" where
  "union_ready M U h0 R V zs n x \<longleftrightarrow>
     (\<forall>f \<in> set (u_fields x). ready M U h0 R V f) \<and> map (field_sz M U h0) (u_fields x) = zs \<and>
     ready M U h0 R V (u_type_ptr x) \<and> field_sz M U h0 (u_type_ptr x) = n"

lemma union_fix_ok:
  assumes mf: "\<And>x. mf_ok M mf (\<lambda>h. P h \<and> sh_union h u = x) R" and uo: "u_ok U P V" and ty: "\<And>h. P h \<Longrightarrow> same_types h0 h"
    and upd: "\<And>h g. P h \<Longrightarrow> P (upd_union u g h)" and P: "P h" and r: "union_ready M U h0 R V zs n (sh_union h u)"
  shows "\<exists>h'. union_fix mf u h = Some (h', None) \<and> P h' \<and> union_ready M U h0 R V zs n (sh_union h' u) \<and>
    variants_upto M U h0 R V zs (length zs) (sh_union h' u)"
proof -
  let ?x = "sh_union h u"
  have "\<And>h. P h \<and> sh_union h u = ?x \<Longrightarrow> same_types h0 h" "u_ok U (\<lambda>h. P h \<and> sh_union h u = ?x) V" using ty uo unfolding u_ok_def by blast+
  then obtain h1 tp where tp: "field_fix mf (u_type_ptr ?x) h = Some (h1, tp, None)" "P h1" "sh_union h1 u = ?x" "field_laid M U h0 tp" "keeps M U h0 (u_type_ptr ?x) tp"
    using ready_fixed [OF mf [of ?x], where U = U and V = V and ?h0.0 = h0 and f = "u_type_ptr ?x" and h = h] P r unfolding union_ready_def by blast
  let ?h = "upd_union u (\<lambda>x. x\<lparr>u_union_size := 0\<rparr>) (upd_union u (\<lambda>x. x\<lparr>u_type_ptr := tp\<rparr>) h1)"
  have "P ?h" by (intro upd tp(2))
  moreover have "variants_upto M U h0 R V zs 0 (sh_union ?h u)" using r tp(3,4) by (simp add: variants_upto_def union_ready_def)
  ultimately obtain h' where h': "variants_fix mf u [0..<length zs] ?h = Some (h', None)" "P h'" "variants_upto M U h0 R V zs (length zs) (sh_union h' u)"
    "u_type_ptr (sh_union h' u) = tp"
    using variants_ok [OF mf uo ty upd, of ?h zs 0] by auto
  have "length (u_fields ?x) = length zs" using r unfolding union_ready_def by auto
  then have "union_fix mf u h = Some (h', None)" using tp(1,3) h'(1) by (simp add: union_fix_def Let_def)
  moreover have "union_ready M U h0 R V zs n (sh_union h' u)"
    using h'(3,4) r ready_keeps [OF _ tp(5)] keepsD(3) [OF tp(5)] unfolding union_ready_def variants_upto_def by simp
  ultimately show ?thesis using h'(2,3) by blast
qed

section \<open>Messages\<close>

definition opts_ok :: "bool \<Rightarrow> options \<Rightarrow> bool" where
  "opts_ok mopt os \<longleftrightarrow> (\<exists>p q. getT_default bool_to_any (opt_get os) ''pmap'' False = Inr p \<and> getT_default bool_to_any (opt_get os) ''optional'' mopt = Inr q)"

definition is_pmap :: "options \<Rightarrow> bool" where
  "is_pmap os \<longleftrightarrow> getT_default bool_to_any (opt_get os) ''pmap'' False = Inr True"

lemma opts_user:
  assumes "user_opts os' = user_opts os"
  shows "opts_ok mopt os' = opts_ok mopt os" "is_pmap os' = is_pmap os"
  using assms by (simp_all add: user_opts_def opts_ok_def is_pmap_def getT_default_def get_any_def)

lemma reader_ok:
  assumes "getT_default bool_to_any g k d = Inr v"
  shows "reader_getT bool_to_any False \<lparr>rd_get = g, rd_error = None\<rparr> k (Some d) = (\<lparr>rd_get = g, rd_error = None\<rparr>, v)"
  using assms by (auto simp: reader_getT_def getT_default_def split: sum.splits option.splits)

definition field_opts :: "(nat \<Rightarrow> nat) \<Rightarrow> (nat \<Rightarrow> nat) \<Rightarrow> sheap \<Rightarrow> bool \<Rightarrow> field \<Rightarrow> bool" where
  "field_opts M U h0 mopt f \<longleftrightarrow> opts_ok mopt (f_options (f_info f)) \<and> (is_pmap (f_options (f_info f)) \<longrightarrow> field_sz M U h0 f \<noteq> 0)"

lemma field_opts_keeps: "field_opts M U h0 mopt f \<Longrightarrow> keeps M U h0 f f' \<Longrightarrow> field_opts M U h0 mopt f'"
  by (simp add: field_opts_def keepsD opts_user [OF keepsD(5)])

text \<open>The state of a message after its first \<open>k\<close> fields.\<close>

definition fields_upto :: "(nat \<Rightarrow> nat) \<Rightarrow> (nat \<Rightarrow> nat) \<Rightarrow> sheap \<Rightarrow> nat set \<Rightarrow> nat set \<Rightarrow> bool \<Rightarrow> nat list \<Rightarrow> nat \<Rightarrow> message \<Rightarrow> bool" where
  "fields_upto M U h0 R V mopt zs k x \<longleftrightarrow>
     (\<forall>f \<in> set (m_fields x). ready M U h0 R V f \<and> field_opts M U h0 mopt f) \<and> map (field_sz M U h0) (m_fields x) = zs \<and>
     (\<forall>a b. a < b \<longrightarrow> b < length zs \<longrightarrow> \<not> (is_pmap (f_options (f_info (m_fields x ! a))) \<and> is_pmap (f_options (f_info (m_fields x ! b))))) \<and>
     (m_pmap x \<noteq> None \<longrightarrow> (\<exists>a < k. a < length zs \<and> is_pmap (f_options (f_info (m_fields x ! a))))) \<and>
     (\<forall>a < k. a < length zs \<longrightarrow> field_laid M U h0 (m_fields x ! a) \<and> offset_of (m_fields x ! a) = sum_list (take a zs))"

lemma fields_step:
  assumes v: "fields_upto M U h0 R V mopt zs k x" and k: "k < length zs"
    and f: "field_laid M U h0 f" "keeps M U h0 (m_fields x ! k) f" "offset_of f = sum_list (take k zs)"
    and p: "p = None \<or> p = m_pmap x \<or> is_pmap (f_options (f_info f))"
  shows "fields_upto M U h0 R V mopt zs (Suc k) (x\<lparr>m_fields := (m_fields x)[k := f], m_pmap := p\<rparr>)"
proof -
  let ?fs = "(m_fields x)[k := f]"
  have l: "length (m_fields x) = length zs" using v unfolding fields_upto_def by auto
  have eq: "is_pmap (f_options (f_info (?fs ! a))) = is_pmap (f_options (f_info (m_fields x ! a)))" for a
    using opts_user(2) [OF keepsD(5) [OF f(2)]] k l by (cases "a = k") auto
  have m: "map (field_sz M U h0) (m_fields x) = zs" using v unfolding fields_upto_def by blast
  have "zs ! k = field_sz M U h0 f" using nth_map [of k "m_fields x" "field_sz M U h0"] k l m keepsD(3) [OF f(2)] by simp
  then have "map (field_sz M U h0) ?fs = zs" using k by (simp add: map_update m list_update_same_conv)
  moreover have "\<forall>g \<in> set ?fs. ready M U h0 R V g \<and> field_opts M U h0 mopt g"
  proof
    fix g assume "g \<in> set ?fs"
    then have "g = f \<or> g \<in> set (m_fields x)" by (meson set_update_subset_insert subsetD insertE)
    then show "ready M U h0 R V g \<and> field_opts M U h0 mopt g"
    proof
      assume "g = f"
      moreover have "ready M U h0 R V (m_fields x ! k)" "field_opts M U h0 mopt (m_fields x ! k)" using v k l unfolding fields_upto_def by simp_all
      ultimately show ?thesis using ready_keeps [OF _ f(2)] field_opts_keeps [OF _ f(2)] by simp
    qed (use v in \<open>simp add: fields_upto_def\<close>)
  qed
  moreover have "field_laid M U h0 (?fs ! a) \<and> offset_of (?fs ! a) = sum_list (take a zs)" if "a < Suc k" "a < length zs" for a
    using v that f(1,3) l unfolding fields_upto_def by (cases "a = k") (auto simp del: field_laid.simps)
  moreover have "\<exists>a < Suc k. a < length zs \<and> is_pmap (f_options (f_info (?fs ! a)))" if "p \<noteq> None"
  proof -
    from that p consider "m_pmap x \<noteq> None" | "is_pmap (f_options (f_info f))" by metis
    then show ?thesis
    proof cases
      case 1
      then obtain a where "a < k" "a < length zs" "is_pmap (f_options (f_info (m_fields x ! a)))" using v unfolding fields_upto_def by blast
      then show ?thesis using eq by (intro exI [of _ a]) simp
    next
      case 2
      then show ?thesis using k l by (intro exI [of _ k]) simp
    qed
  qed
  ultimately show ?thesis using v eq unfolding fields_upto_def by simp
qed

lemma sz_less [simp]: "n < 2 ^ 64 \<Longrightarrow> sz n = n"
  by (simp add: sz_def)

lemma sum_take_le: "sum_list (take k zs) \<le> sum_list (zs :: nat list)"
  by (metis append_take_drop_id le_add1 sum_list_append)

lemma fields_ok:
  assumes mf: "\<And>x. mf_ok M mf (\<lambda>h. P h \<and> sh_msg h m = x) R" and uo: "u_ok U P V" and ty: "\<And>h. P h \<Longrightarrow> same_types h0 h"
    and upd: "\<And>h g. P h \<Longrightarrow> P (upd_msg m g h)" and lt: "sum_list zs < 2 ^ 64"
  shows "P h \<Longrightarrow> fields_upto M U h0 R V mopt zs k (sh_msg h m) \<Longrightarrow> k \<le> length zs \<Longrightarrow>
    \<exists>h' fs p. fields_fix mf mopt m [k..<length zs] (sum_list (take k zs)) ix h = Some (h', sum_list zs, None) \<and> P h' \<and>
      sh_msg h' m = (sh_msg h m)\<lparr>m_fields := fs, m_pmap := p\<rparr> \<and> fields_upto M U h0 R V mopt zs (length zs) (sh_msg h' m)"
proof (induction "length zs - k" arbitrary: k h ix)
  case 0
  then show ?case by (intro exI [of _ h] exI [of _ "m_fields (sh_msg h m)"] exI [of _ "m_pmap (sh_msg h m)"]) simp
next
  case (Suc n)
  let ?x = "sh_msg h m" and ?off = "sum_list (take k zs)"
  have l: "length (m_fields ?x) = length zs" using Suc(4) unfolding fields_upto_def by auto
  have k: "k < length zs" using Suc(2) by simp
  have rd: "ready M U h0 R V (m_fields ?x ! k)" "field_opts M U h0 mopt (m_fields ?x ! k)"
    using Suc(4) k l unfolding fields_upto_def by simp_all
  have "\<And>h. P h \<and> sh_msg h m = ?x \<Longrightarrow> same_types h0 h" "u_ok U (\<lambda>h. P h \<and> sh_msg h m = ?x) V" using ty uo unfolding u_ok_def by blast+
  then obtain h1 f where f: "field_fix mf (m_fields ?x ! k) h = Some (h1, f, None)" "P h1" "sh_msg h1 m = ?x" "field_laid M U h0 f" "keeps M U h0 (m_fields ?x ! k) f"
    using ready_fixed [OF mf [of ?x], where U = U and V = V and ?h0.0 = h0 and f = "m_fields ?x ! k" and h = h] Suc(3) rd(1) by blast
  have oo: "opts_ok mopt (f_options (f_info f))" using field_opts_keeps [OF rd(2) f(5)] by (simp add: field_opts_def)
  then obtain p q where pq: "getT_default bool_to_any (opt_get (f_options (f_info f))) ''pmap'' False = Inr p"
    "getT_default bool_to_any (opt_get (f_options (f_info f))) ''optional'' mopt = Inr q" unfolding opts_ok_def by blast
  have ip: "p = is_pmap (f_options (f_info f))" using pq(1) by (simp add: is_pmap_def)
  have free: "\<not> (p \<and> m_pmap ?x \<noteq> None)"
  proof
    assume pm: "p \<and> m_pmap ?x \<noteq> None"
    then obtain a where "a < k" "is_pmap (f_options (f_info (m_fields ?x ! a)))" using Suc(4) unfolding fields_upto_def by blast
    moreover have "is_pmap (f_options (f_info (m_fields ?x ! k)))" using pm ip opts_user(2) [OF keepsD(5) [OF f(5)]] by simp
    ultimately show False using Suc(4) k unfolding fields_upto_def by blast
  qed
  let ?auto = "opt_get (f_options (f_info f)) ''_auto''"
  define nm where "nm = (\<not> p \<and> q \<and> (?auto = None \<or> ?auto = Some []))"
  define g where "g = set_offset ?off (if nm then set_index ix (set_index (- 1) f) else set_index (- 1) f)"
  have g: "field_laid M U h0 g" "keeps M U h0 (m_fields ?x ! k) g" "offset_of g = ?off" "size_of g = zs ! k" "f_options (f_info g) = f_options (f_info f)"
  proof -
    show "field_laid M U h0 g" "keeps M U h0 (m_fields ?x ! k) g" "offset_of g = ?off" "f_options (f_info g) = f_options (f_info f)"
      using f(4,5) by (simp_all add: g_def del: field_laid.simps)
    have "map (field_sz M U h0) (m_fields ?x) = zs" using Suc(4) unfolding fields_upto_def by blast
    then show "size_of g = zs ! k"
      using nth_map [of k "m_fields ?x" "field_sz M U h0"] k l keepsD(3) [OF f(5)] laid_size [OF f(4)] by (simp add: g_def)
  qed
  let ?p = "if p then Some k else m_pmap ?x"
  let ?h = "upd_msg m (\<lambda>x. x\<lparr>m_fields := (m_fields x)[k := g], m_pmap := if p then Some k else m_pmap x\<rparr>) h1"
  have sk: "?off + zs ! k = sum_list (take (Suc k) zs)" using k by (simp add: take_Suc_conv_app_nth)
  have e: "fields_fix mf mopt m (k # ks) ?off ix h = fields_fix mf mopt m ks (sum_list (take (Suc k) zs)) (if nm then ix + 1 else ix) ?h" for ks
    using f(1,3) pq free sk g(4) lt sum_take_le [of "Suc k" zs]
    by (simp add: reader_ok Let_def nm_def g_def) auto
  have c: "?p = None \<or> ?p = m_pmap ?x \<or> is_pmap (f_options (f_info g))" using ip g(5) by simp
  have hm: "sh_msg ?h m = ?x\<lparr>m_fields := (m_fields ?x)[k := g], m_pmap := ?p\<rparr>" using f(3) by simp
  have "fields_upto M U h0 R V mopt zs (Suc k) (sh_msg ?h m)" unfolding hm by (rule fields_step [OF Suc(4) k g(1-3) c])
  moreover have "P ?h" by (rule upd [OF f(2)])
  moreover have "n = length zs - Suc k" "Suc k \<le> length zs" using Suc(2) k by simp_all
  ultimately obtain h' fs p' where h': "fields_fix mf mopt m [Suc k..<length zs] (sum_list (take (Suc k) zs)) (if nm then ix + 1 else ix) ?h = Some (h', sum_list zs, None)"
    "P h'" "sh_msg h' m = (sh_msg ?h m)\<lparr>m_fields := fs, m_pmap := p'\<rparr>" "fields_upto M U h0 R V mopt zs (length zs) (sh_msg h' m)"
    using Suc(1) [of "Suc k" ?h] by blast
  have "[k..<length zs] = k # [Suc k..<length zs]" using k by (rule upt_conv_Cons)
  then show ?case using h' e f(3) by (intro exI [of _ h'] exI [of _ fs] exI [of _ p']) simp
qed

section \<open>Schemes\<close>

text \<open>The sizes that messages and unions should have, an order of both in which references go down, and the message that owns a union
  (none for a union of the scheme).\<close>

record lay =
  ly_m :: "nat \<Rightarrow> nat"
  ly_u :: "nat \<Rightarrow> nat"
  ly_rm :: "nat \<Rightarrow> nat"
  ly_ru :: "nat \<Rightarrow> nat"
  ly_own :: "nat \<Rightarrow> nat option"
  ly_msgs :: "nat set"
  ly_unions :: "nat set"

definition below :: "lay \<Rightarrow> nat \<Rightarrow> nat set" where
  "below L r = {m \<in> ly_msgs L. ly_rm L m < r}"

definition seen_by_msg :: "lay \<Rightarrow> nat \<Rightarrow> nat set" where
  "seen_by_msg L j = {u \<in> ly_unions L. ly_ru L u < ly_rm L j \<and> (ly_own L u = None \<or> ly_own L u = Some j)}"

definition seen_by_union :: "lay \<Rightarrow> nat \<Rightarrow> nat set" where
  "seen_by_union L u = {w \<in> ly_unions L. ly_ru L w < ly_ru L u \<and> (ly_own L w = None \<or> ly_own L w = ly_own L u)}"

definition owned_below :: "lay \<Rightarrow> nat \<Rightarrow> nat \<Rightarrow> bool" where
  "owned_below L r u \<longleftrightarrow> (\<exists>j. ly_own L u = Some j \<and> ly_rm L j < r)"

definition union_static :: "lay \<Rightarrow> sheap \<Rightarrow> nat \<Rightarrow> sunion \<Rightarrow> bool" where
  "union_static L h0 u x \<longleftrightarrow>
     (\<exists>zs n. union_ready (ly_m L) (ly_u L) h0 (below L (ly_ru L u)) (seen_by_union L u) zs n x \<and> ly_u L u = n + foldr max zs 0)"

definition union_laid :: "lay \<Rightarrow> sheap \<Rightarrow> nat \<Rightarrow> sunion \<Rightarrow> bool" where
  "union_laid L h0 u x \<longleftrightarrow>
     (\<exists>zs n. union_ready (ly_m L) (ly_u L) h0 (below L (ly_ru L u)) (seen_by_union L u) zs n x \<and> ly_u L u = n + foldr max zs 0 \<and>
        variants_upto (ly_m L) (ly_u L) h0 (below L (ly_ru L u)) (seen_by_union L u) zs (length zs) x)"

definition msg_fields_at :: "lay \<Rightarrow> sheap \<Rightarrow> nat \<Rightarrow> (nat list \<Rightarrow> nat) \<Rightarrow> message \<Rightarrow> bool" where
  "msg_fields_at L h0 j k x \<longleftrightarrow>
     (\<exists>zs mopt. getT_default bool_to_any (opt_get (m_options x)) ''defaults.optional'' False = Inr mopt \<and>
        fields_upto (ly_m L) (ly_u L) h0 (below L (ly_rm L j)) (seen_by_msg L j) mopt zs (k zs) x \<and>
        ly_m L j = sum_list zs \<and> sum_list zs < 2 ^ 64)"

definition msg_static :: "lay \<Rightarrow> sheap \<Rightarrow> nat \<Rightarrow> message \<Rightarrow> bool" where
  "msg_static L h0 j x \<longleftrightarrow>
     msg_fields_at L h0 j (\<lambda>_. 0) (x\<lparr>m_pmap := None\<rparr>) \<and>
     sorted_wrt (\<lambda>a b. ly_ru L a < ly_ru L b) (m_unions x) \<and> set (m_unions x) = {u \<in> ly_unions L. ly_own L u = Some j} \<and>
     (\<forall>u \<in> set (m_unions x). ly_ru L u < ly_rm L j) \<and> (\<forall>v \<in> set (m_bits x). field_int_size (b_type (sh_bits h0 v)) \<noteq> None)"

definition msg_laid :: "lay \<Rightarrow> sheap \<Rightarrow> nat \<Rightarrow> message \<Rightarrow> bool" where
  "msg_laid L h0 j x \<longleftrightarrow> m_size x = ly_m L j \<and> msg_fields_at L h0 j length x"

definition msg_state :: "lay \<Rightarrow> sheap \<Rightarrow> nat \<Rightarrow> message \<Rightarrow> bool" where
  "msg_state L h0 j x \<longleftrightarrow> (if m_size x = 0 then m_pmap x = None else msg_laid L h0 j x)"

text \<open>The heap below a rank: descriptors are well-formed, each message is untouched or laid out, the unions of the scheme are laid out.\<close>

definition low :: "lay \<Rightarrow> sheap \<Rightarrow> nat \<Rightarrow> sheap \<Rightarrow> bool" where
  "low L h0 r h \<longleftrightarrow> same_types h0 h \<and>
     (\<forall>k \<in> below L r. msg_static L h0 k (sh_msg h k) \<and> msg_state L h0 k (sh_msg h k) \<and> (\<forall>u \<in> set (m_unions (sh_msg h k)). union_static L h0 u (sh_union h u))) \<and>
     (\<forall>w \<in> ly_unions L. ly_own L w = None \<longrightarrow> ly_ru L w < r \<longrightarrow> union_laid L h0 w (sh_union h w))"

text \<open>Changes below a rank, apart from the messages \<open>X\<close> and the unions \<open>Y\<close>; what is laid out stays so.\<close>

definition changes :: "lay \<Rightarrow> sheap \<Rightarrow> nat \<Rightarrow> nat set \<Rightarrow> nat set \<Rightarrow> sheap \<Rightarrow> sheap \<Rightarrow> bool" where
  "changes L h0 r X Y h h' \<longleftrightarrow>
     (\<forall>k. k \<notin> below L r \<longrightarrow> k \<notin> X \<longrightarrow> sh_msg h' k = sh_msg h k) \<and> (\<forall>u. \<not> owned_below L r u \<longrightarrow> u \<notin> Y \<longrightarrow> sh_union h' u = sh_union h u) \<and>
     (\<forall>k. k \<notin> X \<longrightarrow> msg_laid L h0 k (sh_msg h k) \<longrightarrow> msg_laid L h0 k (sh_msg h' k))"

definition msg_spec :: "lay \<Rightarrow> sheap \<Rightarrow> (nat \<Rightarrow> sheap \<Rightarrow> (sheap \<times> errno option) option) \<Rightarrow> nat \<Rightarrow> bool" where
  "msg_spec L h0 mf r \<longleftrightarrow> (\<forall>j \<in> below L r. \<forall>h. low L h0 (ly_rm L j + 1) h \<longrightarrow>
     (\<exists>h'. mf j h = Some (h', None) \<and> low L h0 (ly_rm L j + 1) h' \<and> changes L h0 (ly_rm L j + 1) {} {} h h' \<and> msg_laid L h0 j (sh_msg h' j)))"

lemma below_mono: "r \<le> r' \<Longrightarrow> below L r \<subseteq> below L r'"
  by (auto simp: below_def)

lemma owned_mono: "owned_below L r u \<Longrightarrow> r \<le> r' \<Longrightarrow> owned_below L r' u"
  by (auto simp: owned_below_def)

lemma changes_refl [simp]: "changes L h0 r X Y h h"
  by (simp add: changes_def)

lemma changes_trans: "changes L h0 r X Y h h' \<Longrightarrow> changes L h0 r X Y h' h'' \<Longrightarrow> changes L h0 r X Y h h''"
  by (simp add: changes_def)

lemma changes_mono: "changes L h0 r X Y h h' \<Longrightarrow> r \<le> r' \<Longrightarrow> X = X' \<Longrightarrow> Y \<subseteq> Y' \<Longrightarrow> changes L h0 r' X' Y' h h'"
  using below_mono [of r r' L] owned_mono [of L r _ r'] unfolding changes_def by blast

lemma low_mono: "low L h0 r h \<Longrightarrow> r' \<le> r \<Longrightarrow> low L h0 r' h"
  using below_mono [of r' r L] unfolding low_def by (meson less_le_trans subsetD)

lemma low_changes:
  assumes "low L h0 r h" "low L h0 r' h'" "changes L h0 r' {} {} h h'"
  shows "low L h0 r h'"
  unfolding low_def
proof (intro conjI ballI impI)
  show "same_types h0 h'" using assms(2) by (simp add: low_def)
next
  fix k assume k: "k \<in> below L r"
  show "msg_static L h0 k (sh_msg h' k)" "msg_state L h0 k (sh_msg h' k)"
    using k assms unfolding low_def changes_def by (cases "k \<in> below L r'"; auto)+
  fix u assume u: "u \<in> set (m_unions (sh_msg h' k))"
  show "union_static L h0 u (sh_union h' u)"
  proof (cases "k \<in> below L r'")
    case True
    then show ?thesis using u assms(2) unfolding low_def by blast
  next
    case False
    then have m: "sh_msg h' k = sh_msg h k" using assms(3) unfolding changes_def by blast
    then have "ly_own L u = Some k" using assms(1) k u unfolding low_def msg_static_def by auto
    then have "\<not> owned_below L r' u" using False k by (auto simp: owned_below_def below_def)
    then have "sh_union h' u = sh_union h u" using assms(3) unfolding changes_def by blast
    then show ?thesis using assms(1) k u m unfolding low_def by auto
  qed
next
  fix w assume w: "w \<in> ly_unions L" "ly_own L w = None" "ly_ru L w < r"
  then have "sh_union h' w = sh_union h w" using assms(3) unfolding changes_def owned_below_def by auto
  then show "union_laid L h0 w (sh_union h' w)" using w assms(1) unfolding low_def by auto
qed

lemma spec_call:
  assumes "msg_spec L h0 mf r" "j \<in> below L r" "low L h0 r h"
  shows "\<exists>h'. mf j h = Some (h', None) \<and> low L h0 r h' \<and> changes L h0 r {} {} h h' \<and> msg_laid L h0 j (sh_msg h' j)"
proof -
  have le: "ly_rm L j + 1 \<le> r" using assms(2) by (simp add: below_def)
  obtain h' where h': "mf j h = Some (h', None)" "low L h0 (ly_rm L j + 1) h'" "changes L h0 (ly_rm L j + 1) {} {} h h'" "msg_laid L h0 j (sh_msg h' j)"
    using assms(1,2) low_mono [OF assms(3) le] unfolding msg_spec_def by blast
  then show ?thesis using low_changes [OF assms(3) h'(2,3)] changes_mono [OF h'(3) le] by blast
qed

lemma mf_ok_low:
  assumes "msg_spec L h0 mf r" "\<And>h. P h \<Longrightarrow> low L h0 r h" "\<And>h h'. P h \<Longrightarrow> low L h0 r h' \<Longrightarrow> changes L h0 r {} {} h h' \<Longrightarrow> P h'" "R \<subseteq> below L r"
  shows "mf_ok (ly_m L) mf P R"
  unfolding mf_ok_def
proof (intro allI impI)
  fix m h assume m: "m \<in> R" and h: "P h"
  have mb: "m \<in> below L r" using m assms(4) by blast
  show "if m_size (sh_msg h m) = 0 then \<exists>h'. mf m h = Some (h', None) \<and> P h' \<and> m_size (sh_msg h' m) = ly_m L m else m_size (sh_msg h m) = ly_m L m"
  proof (cases "m_size (sh_msg h m) = 0")
    case True
    obtain h' where h': "mf m h = Some (h', None)" "low L h0 r h'" "changes L h0 r {} {} h h'" "msg_laid L h0 m (sh_msg h' m)"
      using spec_call [OF assms(1) mb assms(2) [OF h]] by blast
    then show ?thesis using assms(3) [OF h h'(2,3)] True by (auto simp: msg_laid_def)
  next
    case False
    then show ?thesis using assms(2) [OF h] mb unfolding low_def msg_state_def msg_laid_def by auto
  qed
qed

lemma laid_union_size: "union_laid L h0 u x \<Longrightarrow> size_of (u_type_ptr x) + u_union_size x = ly_u L u"
  unfolding union_laid_def variants_upto_def union_ready_def by (auto dest!: laid_size)

lemma union_laid_static: "union_laid L h0 u x \<Longrightarrow> union_static L h0 u x"
  by (auto simp: union_laid_def union_static_def)

lemma low_upd_union:
  assumes "low L h0 r h" "\<not> owned_below L r u" "ly_own L u = None \<Longrightarrow> r \<le> ly_ru L u"
  shows "low L h0 r (upd_union u g h)"
proof -
  have "u \<notin> set (m_unions (sh_msg h k))" if "k \<in> below L r" for k
    using assms(1,2) that unfolding low_def msg_static_def owned_below_def below_def by blast
  then show ?thesis using assms same_types_trans [of h0 h "upd_union u g h"] unfolding low_def by auto
qed

lemma low_upd_msg: "low L h0 r h \<Longrightarrow> j \<notin> below L r \<Longrightarrow> low L h0 r (upd_msg j g h)"
  using same_types_trans [of h0 h "upd_msg j g h"] unfolding low_def by auto

lemma union_step:
  assumes sp: "msg_spec L h0 mf r" and lw: "low L h0 r h" and un: "\<not> owned_below L r u" "ly_own L u = None \<Longrightarrow> r \<le> ly_ru L u"
    and st: "union_static L h0 u (sh_union h u)" and sub: "below L (ly_ru L u) \<subseteq> below L r"
    and D: "\<And>w. w \<in> D \<Longrightarrow> \<not> owned_below L r w \<and> w \<noteq> u \<and> union_laid L h0 w (sh_union h w)"
    and see: "\<And>w. w \<in> seen_by_union L u \<Longrightarrow> w \<in> D \<or> ly_own L w = None \<and> ly_ru L w < r"
  shows "\<exists>h'. union_fix mf u h = Some (h', None) \<and> low L h0 r h' \<and> changes L h0 r {} {u} h h' \<and> union_laid L h0 u (sh_union h' u)"
proof -
  let ?M = "ly_m L" and ?U = "ly_u L" and ?R = "below L (ly_ru L u)" and ?V = "seen_by_union L u"
  obtain zs n where zs: "union_ready ?M ?U h0 ?R ?V zs n (sh_union h u)" "ly_u L u = n + foldr max zs 0" using st unfolding union_static_def by blast
  define P where "P g \<longleftrightarrow> low L h0 r g \<and> changes L h0 r {} {u} h g" for g
  have P0: "P h" using lw by (simp add: P_def)
  have Dl: "union_laid L h0 w (sh_union g w)" if "P g" "w \<in> D" for g w
    using D [OF that(2)] that(1) unfolding P_def changes_def by auto
  have uo: "u_ok ?U P ?V" unfolding u_ok_def
  proof (intro allI impI)
    fix w g assume w: "w \<in> ?V" and g: "P g"
    have "w \<in> ly_unions L" using w by (simp add: seen_by_union_def)
    then have "union_laid L h0 w (sh_union g w)" using see [OF w] Dl [OF g] g unfolding P_def low_def by blast
    then show "size_of (u_type_ptr (sh_union g w)) + u_union_size (sh_union g w) = ly_u L w" by (rule laid_union_size)
  qed
  have mf: "mf_ok ?M mf (\<lambda>g. P g \<and> sh_union g u = x) ?R" for x
  proof (rule mf_ok_low [OF sp _ _ sub])
    fix g g' assume g: "P g \<and> sh_union g u = x" "low L h0 r g'" "changes L h0 r {} {} g g'"
    have "changes L h0 r {} {u} g g'" by (rule changes_mono [OF g(3)]) simp_all
    then have "changes L h0 r {} {u} h g'" using g(1) changes_trans unfolding P_def by blast
    moreover have "sh_union g' u = sh_union g u" using g(3) un(1) unfolding changes_def by blast
    ultimately show "P g' \<and> sh_union g' u = x" using g(1,2) unfolding P_def by simp
  qed (simp add: P_def)
  have upd: "P (upd_union u f g)" if "P g" for f g
    using that low_upd_union [OF _ un] unfolding P_def changes_def by auto
  obtain h' where h': "union_fix mf u h = Some (h', None)" "P h'" "union_ready ?M ?U h0 ?R ?V zs n (sh_union h' u)"
    "variants_upto ?M ?U h0 ?R ?V zs (length zs) (sh_union h' u)"
    using union_fix_ok [OF mf uo _ upd P0 zs(1)] unfolding P_def low_def by blast
  then have "union_laid L h0 u (sh_union h' u)" using zs(2) unfolding union_laid_def by blast
  then show ?thesis using h'(1,2) unfolding P_def by blast
qed

lemma spec_mono: "msg_spec L h0 mf r \<Longrightarrow> r' \<le> r \<Longrightarrow> msg_spec L h0 mf r'"
  using below_mono [of r' r L] unfolding msg_spec_def by blast

lemma not_owned_self: "ly_own L u = Some j \<Longrightarrow> \<not> owned_below L (ly_rm L j) u"
  by (simp add: owned_below_def)

lemma own_unions_ok:
  assumes sp: "msg_spec L h0 mf (ly_rm L j)" and srt: "sorted_wrt (\<lambda>a b. ly_ru L a < ly_ru L b) (dn @ us)"
    and own: "set (dn @ us) = {u \<in> ly_unions L. ly_own L u = Some j}" "\<forall>u \<in> set (dn @ us). ly_ru L u < ly_rm L j"
  shows "low L h0 (ly_rm L j) h \<Longrightarrow> \<forall>u \<in> set dn. union_laid L h0 u (sh_union h u) \<Longrightarrow> \<forall>u \<in> set us. union_static L h0 u (sh_union h u) \<Longrightarrow>
    \<exists>h'. fix_all (union_fix mf) us h = Some (h', None) \<and> low L h0 (ly_rm L j) h' \<and> changes L h0 (ly_rm L j) {} (set us) h h' \<and>
      (\<forall>u \<in> set (dn @ us). union_laid L h0 u (sh_union h' u))"
  using srt own
proof (induction us arbitrary: dn h)
  case Nil
  then show ?case by simp
next
  case (Cons u us)
  let ?r = "ly_rm L j"
  have ou: "ly_own L w = Some j" "ly_ru L w < ?r" if "w \<in> set (dn @ u # us)" for w using Cons.prems(5,6) that by auto
  have srt: "\<forall>w \<in> set us. ly_ru L u < ly_ru L w" using Cons.prems(4) by (simp add: sorted_wrt_append)
  have see: "w \<in> set dn \<or> ly_own L w = None \<and> ly_ru L w < ?r" if w: "w \<in> seen_by_union L u" for w
  proof (cases "ly_own L w")
    case None
    then show ?thesis using w ou(2) [of u] by (simp add: seen_by_union_def)
  next
    case (Some k)
    then have "ly_own L w = Some j" "w \<in> ly_unions L" "ly_ru L w < ly_ru L u" using w ou(1) [of u] by (auto simp: seen_by_union_def)
    then have "w \<in> set (dn @ u # us)" "w \<notin> set us" "w \<noteq> u" using Cons.prems(5) srt by auto
    then show ?thesis by auto
  qed
  have dn: "\<not> owned_below L ?r w \<and> w \<noteq> u \<and> union_laid L h0 w (sh_union h w)" if "w \<in> set dn" for w
    using that Cons.prems(2,4) not_owned_self [OF ou(1) [of w]] by (auto simp: sorted_wrt_append)
  have sub: "below L (ly_ru L u) \<subseteq> below L ?r" using ou(2) [of u] by (intro below_mono) simp
  have none: "ly_own L u = None \<Longrightarrow> ?r \<le> ly_ru L u" using ou(1) [of u] by simp
  have stu: "union_static L h0 u (sh_union h u)" using Cons.prems(3) by simp
  obtain h1 where h1: "union_fix mf u h = Some (h1, None)" "low L h0 ?r h1" "changes L h0 ?r {} {u} h h1" "union_laid L h0 u (sh_union h1 u)"
    using union_step [OF sp Cons.prems(1) not_owned_self [OF ou(1)] none stu sub, of "set dn"] dn see by auto
  have same: "sh_union h1 w = sh_union h w" if "w \<in> set (dn @ us)" "w \<noteq> u" for w
    using h1(3) that not_owned_self [OF ou(1) [of w]] unfolding changes_def by auto
  have "sh_union h1 w = sh_union h w" if "w \<in> set us" for w using same [of w] that srt by auto
  then have "\<forall>w \<in> set us. union_static L h0 w (sh_union h1 w)" using Cons.prems(3) by simp
  moreover have "\<forall>w \<in> set (dn @ [u]). union_laid L h0 w (sh_union h1 w)" using same dn h1(4) by auto
  moreover have "sorted_wrt (\<lambda>a b. ly_ru L a < ly_ru L b) ((dn @ [u]) @ us)" "set ((dn @ [u]) @ us) = {u \<in> ly_unions L. ly_own L u = Some j}"
    "\<forall>u \<in> set ((dn @ [u]) @ us). ly_ru L u < ly_rm L j" using Cons.prems(4-6) by auto
  ultimately obtain h' where h': "fix_all (union_fix mf) us h1 = Some (h', None)" "low L h0 ?r h'" "changes L h0 ?r {} (set us) h1 h'"
      "\<forall>u \<in> set ((dn @ [u]) @ us). union_laid L h0 u (sh_union h' u)"
    using Cons.IH [of h1 "dn @ [u]"] h1(2) by blast
  have "changes L h0 ?r {} (set (u # us)) h h'"
    using changes_trans [OF changes_mono [OF h1(3), of ?r "{}" "set (u # us)"] changes_mono [OF h'(3), of ?r "{}" "set (u # us)"]] by auto
  then show ?case using h1(1) h'(1,2,4) by auto
qed

lemma bits_ok:
  assumes "same_types h0 h" "\<forall>v \<in> set vs. field_int_size (b_type (sh_bits h0 v)) \<noteq> None"
  shows "\<exists>h'. fix_all (\<lambda>v h. Some (bits_fix v h)) vs h = Some (h', None) \<and> sh_msg h' = sh_msg h \<and> sh_union h' = sh_union h \<and> same_types h h'"
  using assms
proof (induction vs arbitrary: h)
  case (Cons v vs)
  obtain n where n: "field_int_size (b_type (sh_bits h v)) = Some n" using Cons.prems by (auto simp: same_types_def)
  let ?h = "h\<lparr>sh_bits := (sh_bits h)(v := (sh_bits h v)\<lparr>b_size := n\<rparr>)\<rparr>"
  have st: "same_types h ?h" by (simp add: same_types_def)
  then obtain h' where "fix_all (\<lambda>v h. Some (bits_fix v h)) vs ?h = Some (h', None)" "sh_msg h' = sh_msg h" "sh_union h' = sh_union h" "same_types ?h h'"
    using Cons.IH [of ?h] Cons.prems same_types_trans by fastforce
  then show ?case using n st same_types_trans by (fastforce simp: bits_fix_def)
qed simp

lemma low_same: "low L h0 r h \<Longrightarrow> sh_msg h' = sh_msg h \<Longrightarrow> sh_union h' = sh_union h \<Longrightarrow> same_types h h' \<Longrightarrow> low L h0 r h'"
  unfolding low_def using same_types_trans by auto

lemma fields_upto_start: "fields_upto M U h0 R V mopt zs k x \<Longrightarrow> fields_upto M U h0 R V mopt zs 0 (x\<lparr>m_pmap := None\<rparr>)"
  by (simp add: fields_upto_def)

lemma changes_same: "sh_msg h' = sh_msg h \<Longrightarrow> sh_union h' = sh_union h \<Longrightarrow> changes L h0 r X Y h h'"
  by (simp add: changes_def)

lemma msg_fields_ok:
  assumes sp: "msg_spec L h0 mf (ly_rm L j)" and lw: "low L h0 (ly_rm L j) h" and j: "j \<in> ly_msgs L"
    and own: "\<And>u. u \<in> ly_unions L \<Longrightarrow> ly_own L u = Some j \<Longrightarrow> union_laid L h0 u (sh_union h u)"
    and fs: "fields_upto (ly_m L) (ly_u L) h0 (below L (ly_rm L j)) (seen_by_msg L j) mopt zs 0 (sh_msg h j)" "sum_list zs < 2 ^ 64"
  shows "\<exists>h' gs p. fields_fix mf mopt j [0..<length zs] 0 0 h = Some (h', sum_list zs, None) \<and> low L h0 (ly_rm L j) h' \<and> changes L h0 (ly_rm L j) {j} {} h h' \<and>
    sh_msg h' j = (sh_msg h j)\<lparr>m_fields := gs, m_pmap := p\<rparr> \<and>
    fields_upto (ly_m L) (ly_u L) h0 (below L (ly_rm L j)) (seen_by_msg L j) mopt zs (length zs) (sh_msg h' j)"
proof -
  let ?r = "ly_rm L j" and ?M = "ly_m L" and ?U = "ly_u L" and ?R = "below L (ly_rm L j)" and ?V = "seen_by_msg L j"
  have jb: "j \<notin> below L ?r" by (simp add: below_def)
  define P where "P g \<longleftrightarrow> low L h0 ?r g \<and> changes L h0 ?r {j} {} h g" for g
  have uo: "u_ok ?U P ?V" unfolding u_ok_def
  proof (intro allI impI)
    fix w g assume w: "w \<in> ?V" and g: "P g"
    then have "w \<in> ly_unions L" "ly_ru L w < ?r" "ly_own L w = None \<or> ly_own L w = Some j" by (auto simp: seen_by_msg_def)
    moreover have "ly_own L w = Some j \<Longrightarrow> sh_union g w = sh_union h w" using g not_owned_self unfolding P_def changes_def by blast
    ultimately have "union_laid L h0 w (sh_union g w)" using own [of w] g unfolding P_def low_def by metis
    then show "size_of (u_type_ptr (sh_union g w)) + u_union_size (sh_union g w) = ly_u L w" by (rule laid_union_size)
  qed
  have mf: "mf_ok ?M mf (\<lambda>g. P g \<and> sh_msg g j = x) ?R" for x
  proof (rule mf_ok_low [OF sp _ _ subset_refl])
    fix g g' assume g: "P g \<and> sh_msg g j = x" "low L h0 ?r g'" "changes L h0 ?r {} {} g g'"
    have "changes L h0 ?r {j} {} g g'" using g(3) unfolding changes_def by blast
    then have "changes L h0 ?r {j} {} h g'" using g(1) changes_trans unfolding P_def by blast
    moreover have "sh_msg g' j = sh_msg g j" using g(3) jb unfolding changes_def by blast
    ultimately show "P g' \<and> sh_msg g' j = x" using g(1,2) unfolding P_def by simp
  qed (simp add: P_def)
  have upd: "P (upd_msg j f g)" if "P g" for f g using that low_upd_msg [OF _ jb] unfolding P_def changes_def by simp
  have P0: "P h" using lw by (simp add: P_def)
  obtain h' gs p where h': "fields_fix mf mopt j [0..<length zs] (sum_list (take 0 zs)) 0 h = Some (h', sum_list zs, None)" "P h'"
      "sh_msg h' j = (sh_msg h j)\<lparr>m_fields := gs, m_pmap := p\<rparr>" "fields_upto ?M ?U h0 ?R ?V mopt zs (length zs) (sh_msg h' j)"
    using fields_ok [OF mf uo _ upd fs(2) P0 fs(1), of 0] unfolding P_def low_def by blast
  then show ?thesis unfolding P_def by auto
qed

text \<open>A message that was laid out joins the heap below the next rank.\<close>

lemma low_next:
  assumes lw: "low L h0 (ly_rm L j + 1) h" and l: "low L h0 (ly_rm L j) h'" and c: "changes L h0 (ly_rm L j) {j} (set (m_unions (sh_msg h j))) h h'"
    and j: "j \<in> ly_msgs L" "msg_static L h0 j (sh_msg h' j)" "msg_state L h0 j (sh_msg h' j)"
    and un: "m_unions (sh_msg h' j) = m_unions (sh_msg h j)" "\<forall>u \<in> set (m_unions (sh_msg h j)). union_static L h0 u (sh_union h' u)"
  shows "low L h0 (ly_rm L j + 1) h'"
  unfolding low_def
proof (intro conjI ballI impI)
  have jb: "j \<in> below L (ly_rm L j + 1)" using j(1) by (simp add: below_def)
  have oj: "set (m_unions (sh_msg h j)) = {u \<in> ly_unions L. ly_own L u = Some j}" using lw jb unfolding low_def msg_static_def by blast
  show "same_types h0 h'" using l by (simp add: low_def)
  fix k assume k: "k \<in> below L (ly_rm L j + 1)"
  consider "k = j" | "k \<noteq> j" "k \<in> below L (ly_rm L j)" | "k \<noteq> j" "k \<notin> below L (ly_rm L j)" by blast
  then have "msg_static L h0 k (sh_msg h' k) \<and> msg_state L h0 k (sh_msg h' k) \<and> (\<forall>u \<in> set (m_unions (sh_msg h' k)). union_static L h0 u (sh_union h' u))"
  proof cases
    case 1
    then show ?thesis using j un by simp
  next
    case 2
    then show ?thesis using l unfolding low_def by blast
  next
    case 3
    then have m: "sh_msg h' k = sh_msg h k" using c unfolding changes_def by blast
    have st: "msg_static L h0 k (sh_msg h k)" "msg_state L h0 k (sh_msg h k)" "\<forall>u \<in> set (m_unions (sh_msg h k)). union_static L h0 u (sh_union h u)"
      using lw k unfolding low_def by blast+
    have "sh_union h' u = sh_union h u" if "u \<in> set (m_unions (sh_msg h k))" for u
    proof -
      have "ly_own L u = Some k" using st(1) that unfolding msg_static_def by blast
      moreover have "\<not> ly_rm L k < ly_rm L j" using 3(2) k by (simp add: below_def)
      ultimately have "\<not> owned_below L (ly_rm L j) u" "u \<notin> set (m_unions (sh_msg h j))" using 3(1) oj by (auto simp: owned_below_def)
      then show ?thesis using c unfolding changes_def by blast
    qed
    then show ?thesis using m st by simp
  qed
  then show "msg_static L h0 k (sh_msg h' k)" "msg_state L h0 k (sh_msg h' k)" "\<And>u. u \<in> set (m_unions (sh_msg h' k)) \<Longrightarrow> union_static L h0 u (sh_union h' u)" by blast+
next
  fix w assume w: "w \<in> ly_unions L" "ly_own L w = None" "ly_ru L w < ly_rm L j + 1"
  have "j \<in> below L (ly_rm L j + 1)" using j(1) by (simp add: below_def)
  then have "w \<notin> set (m_unions (sh_msg h j))" using lw w(2) unfolding low_def msg_static_def by auto
  then have "sh_union h' w = sh_union h w" using c w(2) unfolding changes_def owned_below_def by auto
  then show "union_laid L h0 w (sh_union h' w)" using lw w unfolding low_def by auto
qed

lemma msg_fields_final:
  assumes "getT_default bool_to_any (opt_get (m_options x)) ''defaults.optional'' False = Inr mopt"
    "fields_upto (ly_m L) (ly_u L) h0 (below L (ly_rm L j)) (seen_by_msg L j) mopt zs (length zs) x" "ly_m L j = sum_list zs" "sum_list zs < 2 ^ 64"
  shows "msg_fields_at L h0 j length x" "msg_fields_at L h0 j (\<lambda>_. 0) (x\<lparr>m_pmap := None\<rparr>)" "ly_m L j = 0 \<Longrightarrow> m_pmap x = None"
proof -
  show "msg_fields_at L h0 j length x" using assms unfolding msg_fields_at_def by blast
  show "msg_fields_at L h0 j (\<lambda>_. 0) (x\<lparr>m_pmap := None\<rparr>)" unfolding msg_fields_at_def
    using assms(1,3,4) fields_upto_start [OF assms(2)] by (intro exI [of _ zs] exI [of _ mopt]) simp
  assume z: "ly_m L j = 0"
  show "m_pmap x = None"
  proof (rule ccontr)
    assume "m_pmap x \<noteq> None"
    then obtain a where a: "a < length zs" "is_pmap (f_options (f_info (m_fields x ! a)))" using assms(2) unfolding fields_upto_def by blast
    have "length (m_fields x) = length zs" using assms(2) unfolding fields_upto_def by auto
    then have "m_fields x ! a \<in> set (m_fields x)" "zs = map (field_sz (ly_m L) (ly_u L) h0) (m_fields x)" using a(1) assms(2) unfolding fields_upto_def by simp_all
    moreover have "field_opts (ly_m L) (ly_u L) h0 mopt (m_fields x ! a)" using calculation(1) assms(2) unfolding fields_upto_def by blast
    ultimately show False using a(2) assms(3) z by (auto simp: field_opts_def)
  qed
qed

lemma msg_stateI: "msg_laid L h0 j y \<Longrightarrow> (ly_m L j = 0 \<Longrightarrow> m_pmap y = None) \<Longrightarrow> msg_state L h0 j y"
  by (auto simp: msg_state_def msg_laid_def)

lemma message_step:
  assumes sp: "msg_spec L h0 (message_fix d) (ly_rm L j)" and j: "j \<in> ly_msgs L" and lw: "low L h0 (ly_rm L j + 1) h" and z: "m_size (sh_msg h j) = 0"
  shows "\<exists>h'. message_fix (Suc d) j h = Some (h', None) \<and> low L h0 (ly_rm L j + 1) h' \<and> changes L h0 (ly_rm L j + 1) {} {} h h' \<and> msg_laid L h0 j (sh_msg h' j)"
proof -
  let ?r = "ly_rm L j" and ?x = "sh_msg h j"
  let ?us = "m_unions ?x"
  have jb: "j \<in> below L (?r + 1)" "j \<notin> below L ?r" using j by (simp_all add: below_def)
  have st: "msg_static L h0 j ?x" "m_pmap ?x = None" "\<forall>u \<in> set ?us. union_static L h0 u (sh_union h u)"
    using lw jb(1) z unfolding low_def msg_state_def by auto
  have own: "set ?us = {u \<in> ly_unions L. ly_own L u = Some j}" and below_u: "\<forall>u \<in> set ?us. ly_ru L u < ?r" and srt: "sorted_wrt (\<lambda>a b. ly_ru L a < ly_ru L b) ?us"
    and vb: "\<forall>v \<in> set (m_bits ?x). field_int_size (b_type (sh_bits h0 v)) \<noteq> None" using st(1) unfolding msg_static_def by blast+
  have x0: "?x\<lparr>m_pmap := None\<rparr> = ?x" using st(2) by simp
  obtain zs mopt where f: "getT_default bool_to_any (opt_get (m_options ?x)) ''defaults.optional'' False = Inr mopt"
      "fields_upto (ly_m L) (ly_u L) h0 (below L ?r) (seen_by_msg L j) mopt zs 0 ?x" "ly_m L j = sum_list zs" "sum_list zs < 2 ^ 64"
    using st(1) unfolding msg_static_def msg_fields_at_def x0 by blast
  obtain h1 where h1: "fix_all (union_fix (message_fix d)) ?us h = Some (h1, None)" "low L h0 ?r h1" "changes L h0 ?r {} (set ?us) h h1"
      "\<forall>u \<in> set ?us. union_laid L h0 u (sh_union h1 u)"
    using own_unions_ok [OF sp, of "[]" ?us h] srt own below_u low_mono [OF lw] st(3) by auto
  have m1: "sh_msg h1 j = ?x" using h1(3) jb(2) unfolding changes_def by blast
  obtain h2 where h2: "fix_all (\<lambda>v h. Some (bits_fix v h)) (m_bits ?x) h1 = Some (h2, None)" "sh_msg h2 = sh_msg h1" "sh_union h2 = sh_union h1" "same_types h1 h2"
    using bits_ok [of h0 h1 "m_bits ?x"] vb h1(2) unfolding low_def by blast
  have l2: "low L h0 ?r h2" by (rule low_same [OF h1(2) h2(2-4)])
  have own2: "union_laid L h0 u (sh_union h2 u)" if "u \<in> ly_unions L" "ly_own L u = Some j" for u using h1(4) h2(3) own that by auto
  have f2: "fields_upto (ly_m L) (ly_u L) h0 (below L ?r) (seen_by_msg L j) mopt zs 0 (sh_msg h2 j)" using f(2) m1 h2(2) by simp
  obtain h3 gs p where h3: "fields_fix (message_fix d) mopt j [0..<length zs] 0 0 h2 = Some (h3, sum_list zs, None)" "low L h0 ?r h3" "changes L h0 ?r {j} {} h2 h3"
      "sh_msg h3 j = (sh_msg h2 j)\<lparr>m_fields := gs, m_pmap := p\<rparr>"
      "fields_upto (ly_m L) (ly_u L) h0 (below L ?r) (seen_by_msg L j) mopt zs (length zs) (sh_msg h3 j)"
    using msg_fields_ok [OF sp l2 j own2 f2 f(4)] by blast
  have len: "length (m_fields ?x) = length zs" using f(2) unfolding fields_upto_def by auto
  let ?h = "upd_msg j (\<lambda>x. x\<lparr>m_size := sum_list zs\<rparr>) h3"
  have e: "message_fix (Suc d) j h = Some (?h, None)" using z f(1) h1(1) m1 h2(1,2) len h3(1) by simp
  let ?y = "sh_msg ?h j"
  have y: "?y = ?x\<lparr>m_fields := gs, m_pmap := p, m_size := sum_list zs\<rparr>" using h3(4) h2(2) m1 by simp
  have fy: "fields_upto (ly_m L) (ly_u L) h0 (below L ?r) (seen_by_msg L j) mopt zs (length zs) ?y"
    using h3(5) unfolding fields_upto_def by simp
  have opt: "getT_default bool_to_any (opt_get (m_options ?y)) ''defaults.optional'' False = Inr mopt" using f(1) y by simp
  note fin = msg_fields_final [OF opt fy f(3,4)]
  have laid: "msg_laid L h0 j ?y" using fin(1) f(3) y by (simp add: msg_laid_def)
  have sty: "msg_static L h0 j ?y" using fin(2) st(1) y unfolding msg_static_def by simp
  have sy: "msg_state L h0 j ?y" by (rule msg_stateI [OF laid fin(3)])
  have c1: "changes L h0 ?r {j} (set ?us) h h3"
    using changes_trans [OF _ changes_mono [OF h3(3), of ?r "{j}" "set ?us"], of h] h1(3) h2(2,3) unfolding changes_def by auto
  have c: "changes L h0 ?r {j} (set ?us) h ?h" using c1 unfolding changes_def by auto
  have st': "union_static L h0 u (sh_union ?h u)" if "u \<in> set ?us" for u
  proof -
    have "u \<in> ly_unions L" "ly_own L u = Some j" using own that by auto
    moreover have "sh_union h3 u = sh_union h2 u" using h3(3) not_owned_self [OF \<open>ly_own L u = Some j\<close>] unfolding changes_def by blast
    ultimately show ?thesis using own2 union_laid_static by simp
  qed
  have "low L h0 (?r + 1) ?h" by (rule low_next [OF lw low_upd_msg [OF h3(2) jb(2)] c j sty sy]) (use y st' in simp_all)
  moreover have "changes L h0 (?r + 1) {} {} h ?h" unfolding changes_def
  proof (intro conjI allI impI)
    show "sh_msg ?h k = sh_msg h k" if "k \<notin> below L (?r + 1)" for k
      using c that jb(1) below_mono [of ?r "?r + 1" L] unfolding changes_def by (metis le_add1 singletonD subsetD)
    show "sh_union ?h u = sh_union h u" if "\<not> owned_below L (?r + 1) u" for u
    proof -
      have "\<not> owned_below L ?r u" using that owned_mono [of L ?r u "?r + 1"] by auto
      moreover have "u \<notin> set ?us" using that own by (auto simp: owned_below_def)
      ultimately show ?thesis using c unfolding changes_def by blast
    qed
    show "msg_laid L h0 k (sh_msg ?h k)" if "msg_laid L h0 k (sh_msg h k)" for k
      using c laid that unfolding changes_def by (cases "k = j") auto
  qed
  ultimately show ?thesis using e laid by blast
qed

lemma message_fix_ok: "msg_spec L h0 (message_fix d) d"
proof (induction d)
  case 0
  then show ?case by (simp add: msg_spec_def below_def)
next
  case (Suc d)
  show ?case unfolding msg_spec_def
  proof (intro ballI allI impI)
    fix j h assume j: "j \<in> below L (Suc d)" and lw: "low L h0 (ly_rm L j + 1) h"
    have jm: "j \<in> ly_msgs L" "j \<in> below L (ly_rm L j + 1)" and le: "ly_rm L j \<le> d" using j by (auto simp: below_def)
    show "\<exists>h'. message_fix (Suc d) j h = Some (h', None) \<and> low L h0 (ly_rm L j + 1) h' \<and> changes L h0 (ly_rm L j + 1) {} {} h h' \<and> msg_laid L h0 j (sh_msg h' j)"
    proof (cases "m_size (sh_msg h j) = 0")
      case True
      then show ?thesis using message_step [OF spec_mono [OF Suc le] jm(1) lw] by blast
    next
      case False
      then have "msg_laid L h0 j (sh_msg h j)" using lw jm(2) unfolding low_def msg_state_def by auto
      then show ?thesis using False lw by (intro exI [of _ h]) simp
    qed
  qed
qed

definition msgs_ok :: "lay \<Rightarrow> sheap \<Rightarrow> sheap \<Rightarrow> bool" where
  "msgs_ok L h0 h \<longleftrightarrow> same_types h0 h \<and>
     (\<forall>k \<in> ly_msgs L. msg_static L h0 k (sh_msg h k) \<and> msg_state L h0 k (sh_msg h k) \<and> (\<forall>u \<in> set (m_unions (sh_msg h k)). union_static L h0 u (sh_union h u)))"

lemma low_msgs_ok: "msgs_ok L h0 h \<Longrightarrow> (\<And>w. w \<in> ly_unions L \<Longrightarrow> ly_own L w = None \<Longrightarrow> ly_ru L w < r \<Longrightarrow> union_laid L h0 w (sh_union h w)) \<Longrightarrow> low L h0 r h"
  unfolding low_def msgs_ok_def below_def by blast

lemma msgs_ok_changes:
  assumes ok: "msgs_ok L h0 h" and l: "low L h0 r h'" and c: "changes L h0 r {} {u} h h'" and u: "ly_own L u = None"
  shows "msgs_ok L h0 h'"
  unfolding msgs_ok_def
proof (intro conjI ballI)
  show "same_types h0 h'" using l by (simp add: low_def)
  fix k assume k: "k \<in> ly_msgs L"
  have "msg_static L h0 k (sh_msg h' k) \<and> msg_state L h0 k (sh_msg h' k) \<and> (\<forall>w \<in> set (m_unions (sh_msg h' k)). union_static L h0 w (sh_union h' w))"
  proof (cases "k \<in> below L r")
    case True
    then show ?thesis using l unfolding low_def by blast
  next
    case False
    then have m: "sh_msg h' k = sh_msg h k" using c unfolding changes_def by blast
    have "sh_union h' w = sh_union h w" if "w \<in> set (m_unions (sh_msg h k))" for w
    proof -
      have "ly_own L w = Some k" using ok k that unfolding msgs_ok_def msg_static_def by blast
      then have "\<not> owned_below L r w" "w \<noteq> u" using False k u by (auto simp: owned_below_def below_def)
      then show ?thesis using c unfolding changes_def by blast
    qed
    then show ?thesis using ok k m unfolding msgs_ok_def by simp
  qed
  then show "msg_static L h0 k (sh_msg h' k)" "msg_state L h0 k (sh_msg h' k)" "\<And>w. w \<in> set (m_unions (sh_msg h' k)) \<Longrightarrow> union_static L h0 w (sh_union h' w)" by blast+
qed

lemma global_unions_ok:
  assumes sp: "msg_spec L h0 mf d" and srt: "sorted_wrt (\<lambda>a b. ly_ru L a < ly_ru L b) (dn @ us)"
    and own: "set (dn @ us) = {u \<in> ly_unions L. ly_own L u = None}" "\<forall>u \<in> set us. ly_ru L u \<le> d"
  shows "msgs_ok L h0 h \<Longrightarrow> \<forall>u \<in> set dn. union_laid L h0 u (sh_union h u) \<Longrightarrow> \<forall>u \<in> set us. union_static L h0 u (sh_union h u) \<Longrightarrow>
    \<exists>h'. fix_all (union_fix mf) us h = Some (h', None) \<and> msgs_ok L h0 h' \<and> (\<forall>u \<in> set (dn @ us). union_laid L h0 u (sh_union h' u))"
  using srt own
proof (induction us arbitrary: dn h)
  case Nil
  then show ?case by simp
next
  case (Cons u us)
  let ?r = "ly_ru L u"
  have ou: "ly_own L w = None" if "w \<in> set (dn @ u # us)" for w using Cons.prems(5) that by auto
  have srt: "\<forall>w \<in> set us. ?r < ly_ru L w" "\<forall>w \<in> set dn. ly_ru L w < ?r" using Cons.prems(4) by (simp_all add: sorted_wrt_append)
  have before: "w \<in> set dn" if "w \<in> ly_unions L" "ly_own L w = None" "ly_ru L w < ?r" for w
  proof -
    have "w \<in> set (dn @ u # us)" using Cons.prems(5) that by blast
    then show ?thesis using srt(1) that(3) by auto
  qed
  have lw: "low L h0 ?r h" by (rule low_msgs_ok [OF Cons.prems(1)]) (use before Cons.prems(2) in blast)
  have no: "\<not> owned_below L r w" if "w \<in> set (dn @ u # us)" for r w using ou [OF that] by (simp add: owned_below_def)
  have see: "w \<in> set dn \<or> ly_own L w = None \<and> ly_ru L w < ?r" if "w \<in> seen_by_union L u" for w
    using that ou [of u] by (auto simp: seen_by_union_def)
  have sp': "msg_spec L h0 mf ?r" using spec_mono [OF sp] Cons.prems(6) by simp
  have stu: "union_static L h0 u (sh_union h u)" using Cons.prems(3) by simp
  have dn: "\<not> owned_below L ?r w \<and> w \<noteq> u \<and> union_laid L h0 w (sh_union h w)" if "w \<in> set dn" for w
    using no [of w ?r] Cons.prems(2) srt(2) that by auto
  obtain h1 where h1: "union_fix mf u h = Some (h1, None)" "low L h0 ?r h1" "changes L h0 ?r {} {u} h h1" "union_laid L h0 u (sh_union h1 u)"
    using union_step [OF sp' lw no [of u] _ stu, of "set dn"] dn see by auto
  have same: "sh_union h1 w = sh_union h w" if "w \<in> set (dn @ us)" "w \<noteq> u" for w
    using h1(3) that no [of w ?r] unfolding changes_def by auto
  have "sh_union h1 w = sh_union h w" if "w \<in> set us" for w using same [of w] that srt(1) by auto
  then have "\<forall>w \<in> set us. union_static L h0 w (sh_union h1 w)" using Cons.prems(3) by simp
  moreover have "\<forall>w \<in> set (dn @ [u]). union_laid L h0 w (sh_union h1 w)" using same dn h1(4) by auto
  moreover have "msgs_ok L h0 h1" by (rule msgs_ok_changes [OF Cons.prems(1) h1(2,3) ou]) simp
  moreover have "sorted_wrt (\<lambda>a b. ly_ru L a < ly_ru L b) ((dn @ [u]) @ us)" "set ((dn @ [u]) @ us) = {u \<in> ly_unions L. ly_own L u = None}"
    "\<forall>u \<in> set us. ly_ru L u \<le> d" using Cons.prems(4-6) by auto
  ultimately have "\<exists>h'. fix_all (union_fix mf) us h1 = Some (h', None) \<and> msgs_ok L h0 h' \<and> (\<forall>u \<in> set ((dn @ [u]) @ us). union_laid L h0 u (sh_union h' u))"
    using Cons.IH [of h1 "dn @ [u]"] by blast
  then show ?case using h1(1) by auto
qed

lemma messages_ok:
  assumes sp: "msg_spec L h0 mf d"
  shows "set js \<subseteq> below L d \<Longrightarrow> low L h0 d h \<Longrightarrow>
    \<exists>h'. fix_all mf js h = Some (h', None) \<and> low L h0 d h' \<and> changes L h0 d {} {} h h' \<and> (\<forall>j \<in> set js. msg_laid L h0 j (sh_msg h' j))"
proof (induction js arbitrary: h)
  case (Cons j js)
  obtain h1 where h1: "mf j h = Some (h1, None)" "low L h0 d h1" "changes L h0 d {} {} h h1" "msg_laid L h0 j (sh_msg h1 j)"
    using spec_call [OF sp _ Cons.prems(2), of j] Cons.prems(1) by auto
  obtain h' where h': "fix_all mf js h1 = Some (h', None)" "low L h0 d h'" "changes L h0 d {} {} h1 h'" "\<forall>j \<in> set js. msg_laid L h0 j (sh_msg h' j)"
    using Cons.IH [OF _ h1(2)] Cons.prems(1) by auto
  have "msg_laid L h0 j (sh_msg h' j)" using h'(3) h1(4) unfolding changes_def by simp
  then show ?case using h1(1) h' changes_trans [OF h1(3) h'(3)] by auto
qed simp

text \<open>A scheme as the loader gives it to \<open>tll_scheme_fix\<close>.\<close>

definition scheme_wf :: "lay \<Rightarrow> scheme \<Rightarrow> sheap \<Rightarrow> bool" where
  "scheme_wf L s h \<longleftrightarrow>
     ly_msgs L = set (s_messages s) \<and> set (s_unions s) = {u \<in> ly_unions L. ly_own L u = None} \<and>
     sorted_wrt (\<lambda>a b. ly_ru L a < ly_ru L b) (s_unions s) \<and> (\<forall>u \<in> set (s_unions s). union_static L h u (sh_union h u)) \<and>
     (\<forall>v \<in> set (s_bits s). field_int_size (b_type (sh_bits h v)) \<noteq> None) \<and>
     (\<forall>j \<in> set (s_messages s). m_size (sh_msg h j) = 0 \<and> m_pmap (sh_msg h j) = None \<and> msg_static L h j (sh_msg h j) \<and>
        (\<forall>u \<in> set (m_unions (sh_msg h j)). union_static L h u (sh_union h u)))"

definition rank_bound :: "lay \<Rightarrow> scheme \<Rightarrow> nat \<Rightarrow> bool" where
  "rank_bound L s d \<longleftrightarrow> (\<forall>j \<in> set (s_messages s). ly_rm L j < d) \<and> (\<forall>u \<in> set (s_unions s). ly_ru L u < d)"

lemma scheme_fix_ok:
  assumes wf: "scheme_wf L s h" and d: "rank_bound L s d"
  shows "\<exists>h'. scheme_fix d s h = Some (h', None) \<and> (\<forall>j \<in> set (s_messages s). msg_laid L h j (sh_msg h' j)) \<and>
    (\<forall>u \<in> set (s_unions s). union_laid L h u (sh_union h' u))"
proof -
  note sp = message_fix_ok [of L h d]
  have ms: "ly_msgs L = set (s_messages s)" and us: "set (s_unions s) = {u \<in> ly_unions L. ly_own L u = None}" using wf unfolding scheme_wf_def by blast+
  have ok: "msgs_ok L h h" using wf unfolding scheme_wf_def msgs_ok_def msg_state_def by simp
  have du: "\<forall>u \<in> set (s_unions s). ly_ru L u \<le> d" using d unfolding rank_bound_def by auto
  obtain h1 where h1: "fix_all (union_fix (message_fix d)) (s_unions s) h = Some (h1, None)" "msgs_ok L h h1" "\<forall>u \<in> set (s_unions s). union_laid L h u (sh_union h1 u)"
    using global_unions_ok [OF sp, of "[]" "s_unions s" h] ok us du wf unfolding scheme_wf_def by auto
  obtain h2 where h2: "fix_all (\<lambda>v h. Some (bits_fix v h)) (s_bits s) h1 = Some (h2, None)" "sh_msg h2 = sh_msg h1" "sh_union h2 = sh_union h1" "same_types h1 h2"
    using bits_ok [of h h1 "s_bits s"] h1(2) wf unfolding msgs_ok_def scheme_wf_def by blast
  have ok2: "msgs_ok L h h2" using h1(2) h2(2-4) same_types_trans unfolding msgs_ok_def by auto
  have "low L h d h2" by (rule low_msgs_ok [OF ok2]) (use h1(3) h2(3) us in auto)
  moreover have "set (s_messages s) \<subseteq> below L d" using d ms unfolding rank_bound_def by (auto simp: below_def)
  ultimately obtain h' where h': "fix_all (message_fix d) (s_messages s) h2 = Some (h', None)" "low L h d h'" "\<forall>j \<in> set (s_messages s). msg_laid L h j (sh_msg h' j)"
    using messages_ok [OF sp] by blast
  have "union_laid L h u (sh_union h' u)" if "u \<in> set (s_unions s)" for u
    using h'(2) that us d unfolding low_def rank_bound_def by blast
  then show ?thesis using h1(1) h2(1) h' by (auto simp: scheme_fix_def)
qed

text \<open>What a message that was laid out looks like.\<close>

definition layout_ok :: "lay \<Rightarrow> sheap \<Rightarrow> message \<Rightarrow> bool" where
  "layout_ok L h0 x \<longleftrightarrow>
     m_size x = sum_list (map size_of (m_fields x)) \<and>
     (\<forall>k < length (m_fields x). offset_of (m_fields x ! k) = sum_list (map size_of (take k (m_fields x))) \<and>
        field_laid (ly_m L) (ly_u L) h0 (m_fields x ! k))"

lemma laid_layout:
  assumes "msg_laid L h0 j x"
  shows "layout_ok L h0 x"
proof -
  obtain zs mopt where f: "fields_upto (ly_m L) (ly_u L) h0 (below L (ly_rm L j)) (seen_by_msg L j) mopt zs (length zs) x" "m_size x = sum_list zs"
    using assms unfolding msg_laid_def msg_fields_at_def by auto
  have l: "length (m_fields x) = length zs" and zs: "map (field_sz (ly_m L) (ly_u L) h0) (m_fields x) = zs" using f(1) unfolding fields_upto_def by auto
  have laid: "field_laid (ly_m L) (ly_u L) h0 (m_fields x ! k)" "offset_of (m_fields x ! k) = sum_list (take k zs)" if "k < length zs" for k
    using f(1) that unfolding fields_upto_def by auto
  have "size_of f = field_sz (ly_m L) (ly_u L) h0 f" if "f \<in> set (m_fields x)" for f
    using laid_size [OF laid(1)] that l by (metis in_set_conv_nth)
  then have m: "map size_of (m_fields x) = zs" using zs by (metis (no_types, lifting) map_cong)
  then show ?thesis using f(2) laid l unfolding layout_ok_def by (metis take_map)
qed

definition union_layout_ok :: "lay \<Rightarrow> sheap \<Rightarrow> sunion \<Rightarrow> bool" where
  "union_layout_ok L h0 x \<longleftrightarrow>
     (\<forall>f \<in> set (u_fields x). offset_of f = size_of (u_type_ptr x) \<and> size_of f \<le> u_union_size x \<and> field_laid (ly_m L) (ly_u L) h0 f)"

lemma foldr_max_upper: "z \<in> set zs \<Longrightarrow> z \<le> foldr max zs (0 :: nat)"
  by (induction zs) auto

lemma laid_union_layout:
  assumes "union_laid L h0 u x"
  shows "union_layout_ok L h0 x"
proof -
  obtain R V zs where v: "variants_upto (ly_m L) (ly_u L) h0 R V zs (length zs) x" using assms unfolding union_laid_def by blast
  have l: "length (u_fields x) = length zs" and zs: "map (field_sz (ly_m L) (ly_u L) h0) (u_fields x) = zs" and us: "u_union_size x = foldr max zs 0"
    using v unfolding variants_upto_def by auto
  show ?thesis unfolding union_layout_ok_def
  proof
    fix f assume f: "f \<in> set (u_fields x)"
    then obtain k where k: "k < length zs" "f = u_fields x ! k" using l by (metis in_set_conv_nth)
    then have "field_laid (ly_m L) (ly_u L) h0 f" "offset_of f = size_of (u_type_ptr x)" using v l unfolding variants_upto_def by auto
    moreover have "field_sz (ly_m L) (ly_u L) h0 f \<in> set zs" using f zs by auto
    ultimately show "offset_of f = size_of (u_type_ptr x) \<and> size_of f \<le> u_union_size x \<and> field_laid (ly_m L) (ly_u L) h0 f"
      using us laid_size foldr_max_upper by metis
  qed
qed

lemma laid_msg_size: "msg_laid L h0 j x \<Longrightarrow> m_size x = ly_m L j"
  by (simp add: msg_laid_def)

text \<open>C22: \<open>tll_scheme_fix\<close> lays out a loaded scheme: it returns 0 within a depth of recursion bounded by the order of the references; the size of
  a message is the one its types give and the sum of the sizes of its fields, the offset of a field is the sum of the sizes before it,
  so that fields follow each other without gaps and overlap; elements of arrays start after the count, and the variants of
  a union start after its type and fit in it.\<close>

theorem scheme_fix_layout:
  assumes "scheme_wf L s h" "rank_bound L s d"
  shows "\<exists>h'. scheme_fix d s h = Some (h', None) \<and>
    (\<forall>j \<in> set (s_messages s). m_size (sh_msg h' j) = ly_m L j \<and> layout_ok L h (sh_msg h' j)) \<and>
    (\<forall>u \<in> set (s_unions s). size_of (u_type_ptr (sh_union h' u)) + u_union_size (sh_union h' u) = ly_u L u \<and> union_layout_ok L h (sh_union h' u))"
proof -
  obtain h' where h': "scheme_fix d s h = Some (h', None)" "\<forall>j \<in> set (s_messages s). msg_laid L h j (sh_msg h' j)"
      "\<forall>u \<in> set (s_unions s). union_laid L h u (sh_union h' u)"
    using scheme_fix_ok [OF assms] by blast
  then show ?thesis using laid_layout laid_msg_size laid_union_layout laid_union_size by (intro exI [of _ h']) blast
qed

text \<open>A scheme with a union, a message in it, an array, a pointer and a presence map.\<close>

definition ex_info :: "options \<Rightarrow> string \<Rightarrow> ftype \<Rightarrow> finfo" where
  "ex_info os n t = \<lparr>f_options = os, f_name = Some n, f_offset = 0, f_type = t, f_sub = SubNone, f_size = 0, f_index = 0\<rparr>"

definition ex_sub :: message where
  "ex_sub = \<lparr>m_name = ''Sub'', m_msgid = 0, m_size = 0, m_fields = [Field (ex_info [] ''a'' Int32) BNone], m_enums = [], m_unions = [], m_bits = [], m_pmap = None, m_options = []\<rparr>"

definition ex_msg :: message where
  "ex_msg = \<lparr>m_name = ''Msg'', m_msgid = 10, m_size = 0, m_fields =
     [Field (ex_info [(''pmap'', ''yes'')] ''pmap'' UInt8) BNone,
      Field (ex_info [] ''arr'' TArray) (BArr (Field (ex_info [] ''arr'' Int16) BNone) (Field (ex_info [] ''arr_count'' Int8) BNone) 4),
      Field (ex_info [] ''ptr'' TPointer) (BPtr (Field (ex_info [] ''ptr'' TMessage) (BMsg 0)) OptrDefault),
      Field (ex_info [(''optional'', ''yes'')] ''sub'' TMessage) (BMsg 0),
      Field (ex_info [] ''un'' TUnion) (BUnion 0)],
     m_enums = [], m_unions = [], m_bits = [], m_pmap = None, m_options = []\<rparr>"

definition ex_union :: sunion where
  "ex_union = \<lparr>u_name = ''Un'', u_type_ptr = Field (ex_info [] ''_type'' Int8) BNone,
     u_fields = [Field (ex_info [] ''i'' Int8) BNone, Field (ex_info [] ''s'' TMessage) (BMsg 0)], u_union_size = 0, u_options = []\<rparr>"

definition ex_scheme :: scheme where
  "ex_scheme = \<lparr>s_options = [], s_messages = [0, 1], s_enums = [], s_unions = [0], s_bits = [], s_aliases = []\<rparr>"

definition ex_heap :: sheap where
  "ex_heap = \<lparr>sh_msg = (\<lambda>m. if m = 0 then ex_sub else ex_msg), sh_union = (\<lambda>_. ex_union),
     sh_enum = (\<lambda>_. \<lparr>e_name = [], e_type = Int8, e_size = 1, e_values = [], e_options = []\<rparr>),
     sh_bits = (\<lambda>_. \<lparr>b_name = [], b_type = Int8, b_size = 1, b_values = [], b_options = []\<rparr>)\<rparr>"

definition ex_lay :: lay where
  "ex_lay = \<lparr>ly_m = (\<lambda>m. if m = 0 then 4 else 27), ly_u = (\<lambda>_. 5), ly_rm = (\<lambda>m. if m = 0 then 0 else 2), ly_ru = (\<lambda>_. 1),
     ly_own = (\<lambda>_. None), ly_msgs = {0, 1}, ly_unions = {0}\<rparr>"

lemmas ex_defs = ex_info_def ex_sub_def ex_msg_def ex_union_def ex_scheme_def ex_heap_def ex_lay_def

lemmas ex_simps = ex_defs fields_upto_def ready_def field_opts_def opts_ok_def is_pmap_def below_def fix_type_def sub_ok_def base_size_def field_int_size_def
  getT_default_def get_any_def opt_get_def bool_to_any_def int_field_def optr_size_def fix_offset_ptr_options_def seen_by_msg_def seen_by_union_def less_Suc_eq

lemma ex_sub_static: "msg_static ex_lay ex_heap 0 ex_sub"
  unfolding msg_static_def msg_fields_at_def by (intro conjI exI [of _ "[4]"] exI [of _ False]) (auto simp: ex_simps)

lemma ex_msg_static: "msg_static ex_lay ex_heap 1 ex_msg"
  unfolding msg_static_def msg_fields_at_def by (intro conjI exI [of _ "[1, 9, 8, 4, 5]"] exI [of _ False]) (auto simp: ex_simps)

lemma ex_union_static: "union_static ex_lay ex_heap 0 ex_union"
  unfolding union_static_def union_ready_def by (intro conjI exI [of _ "[1, 4]"] exI [of _ 1]) (auto simp: ex_simps)

theorem scheme_fix_layout_witness:
  "scheme_wf ex_lay ex_scheme ex_heap \<and> rank_bound ex_lay ex_scheme 3 \<and>
   (\<exists>h'. scheme_fix 3 ex_scheme ex_heap = Some (h', None) \<and>
    (\<forall>j \<in> set (s_messages ex_scheme). m_size (sh_msg h' j) = ly_m ex_lay j \<and> layout_ok ex_lay ex_heap (sh_msg h' j)) \<and>
    (\<forall>u \<in> set (s_unions ex_scheme). size_of (u_type_ptr (sh_union h' u)) + u_union_size (sh_union h' u) = ly_u ex_lay u \<and>
       union_layout_ok ex_lay ex_heap (sh_union h' u)))"
proof -
  have "scheme_wf ex_lay ex_scheme ex_heap"
    using ex_sub_static ex_msg_static ex_union_static unfolding scheme_wf_def by (simp add: ex_scheme_def ex_heap_def) (auto simp: ex_sub_def ex_msg_def ex_lay_def)
  moreover have "rank_bound ex_lay ex_scheme 3" by (simp add: rank_bound_def ex_defs)
  ultimately show ?thesis using scheme_fix_layout by blast
qed

end
