(* ===== verification/SchemeData.thy ===== *)
theory SchemeData
  imports Scheme
begin

unbundle bit_operations_syntax

text \<open>
  Data of messages: presence maps (\<open>src/tll/scheme.h\<close>), counts of arrays and offset pointers (\<open>src/tll/scheme/util.h\<close> with the structures of
  \<open>src/tll/scheme/types.h\<close>) over views of a byte buffer (\<open>src/tll/util/memoryview.h\<close>). A view is the buffer and an offset; it does not check
  bounds, and an access outside of the buffer is \<open>None\<close>.
\<close>

section \<open>Little-endian numbers\<close>

primrec le_bytes :: "nat \<Rightarrow> nat \<Rightarrow> byte list" where
  "le_bytes 0 v = []"
| "le_bytes (Suc n) v = word_of_nat v # le_bytes n (v div 256)"

primrec un_le :: "byte list \<Rightarrow> nat" where
  "un_le [] = 0"
| "un_le (b # bs) = unat b + 256 * un_le bs"

lemma length_le_bytes [simp]: "length (le_bytes n v) = n"
  by (induction n arbitrary: v) simp_all

lemma un_le_le_bytes [simp]: "un_le (le_bytes n v) = v mod 256 ^ n"
proof (induction n arbitrary: v)
  case (Suc n)
  have "v mod 256 + 256 * (v div 256 mod 256 ^ n) = v mod (256 * 256 ^ n)" by (simp add: mod_mult2_eq)
  then show ?case using Suc by (simp add: unat_of_nat)
qed simp

section \<open>Presence maps\<close>

definition pmap_get :: "byte list \<Rightarrow> int \<Rightarrow> bool option" where
  "pmap_get d i =
     (if i < 0 then Some True
      else map_option (\<lambda>bs. hd bs AND push_bit (nat i mod 8) 1 \<noteq> 0) (load_bytes d (nat i div 8) 1))"

definition pmap_set :: "byte list \<Rightarrow> int \<Rightarrow> byte list option" where
  "pmap_set d i =
     (if i < 0 then Some d
      else Option.bind (load_bytes d (nat i div 8) 1) (\<lambda>bs. store_bytes d (nat i div 8) [hd bs OR push_bit (nat i mod 8) 1]))"

definition pmap_unset :: "byte list \<Rightarrow> int \<Rightarrow> byte list option" where
  "pmap_unset d i =
     (if i < 0 then Some d
      else Option.bind (load_bytes d (nat i div 8) 1) (\<lambda>bs. store_bytes d (nat i div 8) [hd bs AND (0xff XOR push_bit (nat i mod 8) 1)]))"

section \<open>Counts\<close>

definition signed_of :: "nat \<Rightarrow> nat \<Rightarrow> int" where
  "signed_of w n = (if n < 2 ^ (w - 1) then int n else int n - 2 ^ w)"

definition read_size :: "ftype \<Rightarrow> byte list \<Rightarrow> nat \<Rightarrow> int option" where
  "read_size t d off =
     (case t of
        Int8 \<Rightarrow> map_option (\<lambda>bs. signed_of 8 (un_le bs)) (load_bytes d off 1)
      | Int16 \<Rightarrow> map_option (\<lambda>bs. signed_of 16 (un_le bs)) (load_bytes d off 2)
      | Int32 \<Rightarrow> map_option (\<lambda>bs. signed_of 32 (un_le bs)) (load_bytes d off 4)
      | Int64 \<Rightarrow> map_option (\<lambda>bs. signed_of 64 (un_le bs)) (load_bytes d off 8)
      | UInt8 \<Rightarrow> map_option (\<lambda>bs. int (un_le bs)) (load_bytes d off 1)
      | UInt16 \<Rightarrow> map_option (\<lambda>bs. int (un_le bs)) (load_bytes d off 2)
      | UInt32 \<Rightarrow> map_option (\<lambda>bs. int (un_le bs)) (load_bytes d off 4)
      | UInt64 \<Rightarrow> map_option (\<lambda>bs. signed_of 64 (un_le bs)) (load_bytes d off 8)
      | _ \<Rightarrow> Some (- 1))"

definition write_size :: "ftype \<Rightarrow> byte list \<Rightarrow> nat \<Rightarrow> nat \<Rightarrow> byte list option" where
  "write_size t d off n =
     (case t of
        Int8 \<Rightarrow> store_bytes d off (le_bytes 1 n)
      | Int16 \<Rightarrow> store_bytes d off (le_bytes 2 n)
      | Int32 \<Rightarrow> store_bytes d off (le_bytes 4 n)
      | Int64 \<Rightarrow> store_bytes d off (le_bytes 8 n)
      | UInt8 \<Rightarrow> store_bytes d off (le_bytes 1 n)
      | UInt16 \<Rightarrow> store_bytes d off (le_bytes 2 n)
      | UInt32 \<Rightarrow> store_bytes d off (le_bytes 4 n)
      | UInt64 \<Rightarrow> store_bytes d off (le_bytes 8 n)
      | _ \<Rightarrow> Some d)"

section \<open>Offset pointers\<close>

text \<open>\<open>generic_offset_ptr_t\<close>: three numbers of 32 bits.\<close>

record gptr =
  gp_offset :: nat
  gp_size :: nat
  gp_entity :: nat

definition u32_of :: "nat \<Rightarrow> nat" where
  "u32_of n = n mod 2 ^ 32"

text \<open>The fields of a pointer in memory, by version.\<close>

definition load_num :: "byte list \<Rightarrow> nat \<Rightarrow> nat \<Rightarrow> nat option" where
  "load_num d off n = map_option un_le (load_bytes d off n)"

text \<open>\<open>read_pointer\<close>. \<open>ts\<close> is the size of the element type; the result \<open>Some None\<close> is that for an unknown version.\<close>

definition read_pointer :: "optr_version \<Rightarrow> nat \<Rightarrow> byte list \<Rightarrow> nat \<Rightarrow> gptr option option" where
  "read_pointer v ts d off =
     (case v of
        OptrDefault \<Rightarrow>
          Option.bind (load_num d off 4) (\<lambda>o1.
          Option.bind (load_num d (off + 4) 3) (\<lambda>n.
          Option.bind (load_num d (off + 7) 1) (\<lambda>e.
            if e = 0xff
            then map_option (\<lambda>e. Some \<lparr>gp_offset = u32_of (o1 + 4), gp_size = n, gp_entity = e\<rparr>) (load_num d (off + o1) 4)
            else Some (Some \<lparr>gp_offset = o1, gp_size = n, gp_entity = e\<rparr>))))
      | OptrLong \<Rightarrow>
          Option.bind (load_num d off 4) (\<lambda>o1.
          Option.bind (load_num d (off + 4) 2) (\<lambda>n.
          Option.bind (load_num d (off + 6) 2) (\<lambda>e. Some (Some \<lparr>gp_offset = o1, gp_size = n, gp_entity = e\<rparr>))))
      | OptrShort \<Rightarrow>
          Option.bind (load_num d off 2) (\<lambda>o1.
          Option.bind (load_num d (off + 2) 2) (\<lambda>n. Some (Some \<lparr>gp_offset = o1, gp_size = n, gp_entity = u32_of ts\<rparr>)))
      | OptrOther \<Rightarrow> Some None)"

definition write_pointer :: "optr_version \<Rightarrow> byte list \<Rightarrow> nat \<Rightarrow> gptr \<Rightarrow> (byte list \<times> errno option) option" where
  "write_pointer v d off p =
     (case v of
        OptrDefault \<Rightarrow>
          map_option (\<lambda>d. (d, None)) (store_bytes d off (le_bytes 4 (gp_offset p) @ le_bytes 3 (gp_size p) @ le_bytes 1 (min (gp_entity p) 0xff)))
      | OptrLong \<Rightarrow>
          if gp_size p > 0xffff then Some (d, Some ERANGE)
          else map_option (\<lambda>d. (d, None)) (store_bytes d off (le_bytes 4 (gp_offset p) @ le_bytes 2 (gp_size p) @ le_bytes 2 (gp_entity p)))
      | OptrShort \<Rightarrow>
          if gp_size p > 0xffff then Some (d, Some ERANGE)
          else if gp_offset p > 0xffff then Some (d, Some ERANGE)
          else map_option (\<lambda>d. (d, None)) (store_bytes d off (le_bytes 2 (gp_offset p) @ le_bytes 2 (gp_size p)))
      | OptrOther \<Rightarrow> Some (d, None))"

text \<open>Views: the size of what follows the offset, and resizing from there.\<close>

definition view_size :: "byte list \<Rightarrow> nat \<Rightarrow> nat" where
  "view_size d off = length d - off"

definition view_resize :: "byte list \<Rightarrow> nat \<Rightarrow> nat \<Rightarrow> byte list" where
  "view_resize d off n = take (off + n) d @ replicate (off + n - length d) 0"

definition alloc_pointer :: "optr_version \<Rightarrow> byte list \<Rightarrow> nat \<Rightarrow> gptr \<Rightarrow> (byte list \<times> gptr \<times> errno option) option" where
  "alloc_pointer v d off p =
     (let p = p\<lparr>gp_offset := u32_of (view_size d off)\<rparr> in
      Option.bind (write_pointer v d off p) (\<lambda>(d, e).
        if e \<noteq> None then Some (d, p, e)
        else let items = off + view_size d off in
          if gp_entity p \<ge> 0xff \<and> v = OptrDefault
          then let d = view_resize d items (4 + u32_of (gp_entity p * gp_size p)) in
            map_option (\<lambda>d. (d, p\<lparr>gp_offset := u32_of (gp_offset p + 4)\<rparr>, None)) (store_bytes d items (le_bytes 4 (gp_entity p)))
          else Some (view_resize d items (u32_of (gp_entity p * gp_size p)), p, None)))"

definition write_pointer_size :: "optr_version \<Rightarrow> byte list \<Rightarrow> nat \<Rightarrow> nat \<Rightarrow> byte list option" where
  "write_pointer_size v d off n =
     (case v of
        OptrDefault \<Rightarrow> store_bytes d (off + 4) (le_bytes 3 n)
      | OptrLong \<Rightarrow> store_bytes d (off + 4) (le_bytes 2 n)
      | OptrShort \<Rightarrow> store_bytes d (off + 2) (le_bytes 2 n)
      | OptrOther \<Rightarrow> Some d)"

text \<open>The typed pointers of generated code (\<open>offset_ptr_t\<close> over the default structure): entity size and offset of the data.\<close>

definition entity_size :: "byte list \<Rightarrow> nat \<Rightarrow> nat option" where
  "entity_size d off =
     Option.bind (load_num d off 4) (\<lambda>o1.
     Option.bind (load_num d (off + 7) 1) (\<lambda>e.
       if o1 \<noteq> 0 \<and> e = 0xff then load_num d (off + o1) 4 else Some e))"

definition data_offset :: "byte list \<Rightarrow> nat \<Rightarrow> nat option" where
  "data_offset d off =
     Option.bind (load_num d off 4) (\<lambda>o1.
       if o1 = 0 then Some 0 else map_option (\<lambda>e. if e \<ge> 0xff then o1 + 4 else o1) (entity_size d off))"

section \<open>Round trips\<close>

lemma load_num_of: "load_bytes d off n = Some bs \<Longrightarrow> load_num d off n = Some (un_le bs)"
  by (simp add: load_num_def)

lemma load_bytes_part:
  assumes "load_bytes d off (length bs) = Some bs" "a + n \<le> length bs"
  shows "load_bytes d (off + a) n = Some (take n (drop a bs))"
proof -
  have l: "off + length bs \<le> length d" "bs = take (length bs) (drop off d)" using assms(1) by (auto simp: load_bytes_def split: if_splits)
  have "take n (drop a (take m (drop off d))) = take n (drop (off + a) d)" if "a + n \<le> m" for m
    using that by (simp add: drop_take min_def add.commute)
  then have "take n (drop a bs) = take n (drop (off + a) d)" using l(2) assms(2) by metis
  then show ?thesis using l(1) assms(2) by (simp add: load_bytes_def)
qed

definition ptr_bytes :: "optr_version \<Rightarrow> nat" where
  "ptr_bytes v = the (optr_size v)"

text \<open>A pointer that its version can describe, in a buffer of less than 4 gigabytes.\<close>

definition ptr_fits :: "optr_version \<Rightarrow> nat \<Rightarrow> byte list \<Rightarrow> nat \<Rightarrow> gptr \<Rightarrow> bool" where
  "ptr_fits v ts d off p \<longleftrightarrow>
     v \<noteq> OptrOther \<and> off + ptr_bytes v \<le> length d \<and> length d - off + 4 < 2 ^ 32 \<and> gp_entity p * gp_size p < 2 ^ 32 \<and>
     (case v of
        OptrDefault \<Rightarrow> gp_size p < 2 ^ 24 \<and> gp_entity p < 2 ^ 32
      | OptrLong \<Rightarrow> gp_size p < 2 ^ 16 \<and> gp_entity p < 2 ^ 16
      | _ \<Rightarrow> gp_size p < 2 ^ 16 \<and> length d - off < 2 ^ 16 \<and> gp_entity p = ts \<and> ts < 2 ^ 32)"

lemma write_read:
  assumes "store_bytes d off bs = Some d'" "agree d' d'' off (off + length bs)" "a + n \<le> length bs"
  shows "load_num d'' (off + a) n = Some (un_le (take n (drop a bs)))"
proof -
  have "load_bytes d'' off (length bs) = Some bs"
    using store_bytes_load [OF assms(1)] agree_load_bytes [OF assms(2), of off "length bs"] by simp
  then show ?thesis using load_bytes_part [OF _ assms(3)] by (simp add: load_num_def)
qed

lemma view_resize_agree: "length d \<le> off \<Longrightarrow> agree d (view_resize d off n) 0 (length d)" "length d \<le> off \<Longrightarrow> length (view_resize d off n) = off + n"
  by (auto simp: view_resize_def agree_def nth_append)

lemma view_resize_zero: "length d = off \<Longrightarrow> load_bytes (view_resize d off n) off n = Some (replicate n 0)"
  by (simp add: view_resize_def load_bytes_def)

text \<open>The parts of a written pointer.\<close>

lemma write_pointer_ok:
  assumes "ptr_fits v ts d off p" "gp_offset p = length d - off"
  shows "\<exists>bs d'. write_pointer v d off p = Some (d', None) \<and> store_bytes d off bs = Some d' \<and> length bs = ptr_bytes v \<and>
    (\<forall>d''. agree d' d'' off (off + length bs) \<longrightarrow> (v = OptrDefault \<and> gp_entity p \<ge> 0xff \<longrightarrow> load_num d'' (off + gp_offset p) 4 = Some (gp_entity p)) \<longrightarrow>
      read_pointer v ts d'' off = Some (Some (if v = OptrDefault \<and> gp_entity p \<ge> 0xff then p\<lparr>gp_offset := gp_offset p + 4\<rparr> else p)))"
proof -
  note f = assms(1) [unfolded ptr_fits_def]
  show ?thesis
  proof (cases v)
    case OptrDefault
    let ?bs = "le_bytes 4 (gp_offset p) @ le_bytes 3 (gp_size p) @ le_bytes 1 (min (gp_entity p) 0xff)"
    have l: "length ?bs = ptr_bytes v" using OptrDefault by (simp add: ptr_bytes_def optr_size_def)
    then obtain d' where d': "store_bytes d off ?bs = Some d'" using store_bytes_some [of off ?bs d] f by auto
    have "read_pointer v ts d'' off = Some (Some (if v = OptrDefault \<and> gp_entity p \<ge> 0xff then p\<lparr>gp_offset := gp_offset p + 4\<rparr> else p))"
      if a: "agree d' d'' off (off + length ?bs)" and e: "v = OptrDefault \<and> gp_entity p \<ge> 0xff \<longrightarrow> load_num d'' (off + gp_offset p) 4 = Some (gp_entity p)" for d''
    proof -
      note r = write_read [OF d' a]
      have "load_num d'' off 4 = Some (gp_offset p)" "load_num d'' (off + 4) 3 = Some (gp_size p)" "load_num d'' (off + 7) 1 = Some (min (gp_entity p) 0xff)"
        using r [of 0 4] r [of 4 3] r [of 7 1] f OptrDefault assms(2) by (simp_all add: min_def del: le_bytes.simps un_le.simps)
      then show ?thesis using e f OptrDefault assms(2) by (auto simp: read_pointer_def u32_of_def min_def)
    qed
    then show ?thesis using d' l OptrDefault by (intro exI [of _ ?bs] exI [of _ d']) (simp add: write_pointer_def)
  next
    case OptrLong
    let ?bs = "le_bytes 4 (gp_offset p) @ le_bytes 2 (gp_size p) @ le_bytes 2 (gp_entity p)"
    have l: "length ?bs = ptr_bytes v" using OptrLong by (simp add: ptr_bytes_def optr_size_def)
    then obtain d' where d': "store_bytes d off ?bs = Some d'" using store_bytes_some [of off ?bs d] f by auto
    have "read_pointer v ts d'' off = Some (Some p)" if a: "agree d' d'' off (off + length ?bs)" for d''
      using write_read [OF d' a, of 0 4] write_read [OF d' a, of 4 2] write_read [OF d' a, of 6 2] f OptrLong assms(2) by (simp add: read_pointer_def)
    then show ?thesis using d' l OptrLong f by (intro exI [of _ ?bs] exI [of _ d']) (simp add: write_pointer_def)
  next
    case OptrShort
    let ?bs = "le_bytes 2 (gp_offset p) @ le_bytes 2 (gp_size p)"
    have l: "length ?bs = ptr_bytes v" using OptrShort by (simp add: ptr_bytes_def optr_size_def)
    then obtain d' where d': "store_bytes d off ?bs = Some d'" using store_bytes_some [of off ?bs d] f by auto
    have "read_pointer v ts d'' off = Some (Some p)" if a: "agree d' d'' off (off + length ?bs)" for d''
      using write_read [OF d' a, of 0 2] write_read [OF d' a, of 2 2] f OptrShort assms(2) by (simp add: read_pointer_def u32_of_def)
    then show ?thesis using d' l OptrShort f assms(2) by (intro exI [of _ ?bs] exI [of _ d']) (simp add: write_pointer_def)
  next
    case OptrOther
    then show ?thesis using f by simp
  qed
qed

lemma agree_store:
  assumes "store_bytes d off bs = Some d'" "i < length d" "i < off \<or> off + length bs \<le> i"
  shows "d' ! i = d ! i"
  using assms by (auto simp: store_bytes_def nth_append split: if_splits)

lemma agree_nth: "agree d d' a b \<Longrightarrow> a \<le> i \<Longrightarrow> i < b \<Longrightarrow> d' ! i = d ! i"
  by (auto simp: agree_def)

text \<open>The buffer after the items were added behind it, with the size of an item before them when it does not fit in the pointer.\<close>

definition add_items :: "byte list \<Rightarrow> nat option \<Rightarrow> nat \<Rightarrow> byte list option" where
  "add_items d e n = (case e of None \<Rightarrow> Some (view_resize d (length d) n) | Some e \<Rightarrow> store_bytes (view_resize d (length d) (4 + n)) (length d) (le_bytes 4 e))"

lemma add_items_ok:
  "\<exists>d'. add_items d e n = Some d' \<and> agree d d' 0 (length d) \<and>
     (let h = (if e = None then 0 else 4) in length d' = length d + h + n \<and> load_bytes d' (length d + h) n = Some (replicate n 0)) \<and>
     (\<forall>x. e = Some x \<longrightarrow> load_num d' (length d) 4 = Some (x mod 2 ^ 32))"
proof (cases e)
  case None
  then show ?thesis using view_resize_agree [of d "length d" n] view_resize_zero [of d "length d" n] by (simp add: add_items_def)
next
  case (Some x)
  let ?d = "view_resize d (length d) (4 + n)"
  have l: "length ?d = length d + (4 + n)" by (simp add: view_resize_agree(2))
  obtain d' where d': "store_bytes ?d (length d) (le_bytes 4 x) = Some d'" using store_bytes_some [of "length d" "le_bytes 4 x" ?d] l by auto
  have l': "length d' = length ?d" by (rule store_bytes_length [OF d'])
  have "agree ?d d' 0 (length d)" by (rule store_bytes_agree [OF d']) (simp_all add: l)
  then have a: "agree d d' 0 (length d)" using agree_trans view_resize_agree(1) [of d "length d" "4 + n"] by blast
  have "agree ?d d' (length d + 4) (length d + (4 + n))" by (rule store_bytes_agree [OF d']) (simp_all add: l)
  then have "load_bytes d' (length d + 4) n = load_bytes ?d (length d + 4) n" by (rule agree_load_bytes) simp_all
  also have "\<dots> = Some (replicate n 0)" by (simp add: load_bytes_def view_resize_def drop_replicate)
  finally have z: "load_bytes d' (length d + 4) n = Some (replicate n 0)" .
  have "load_num d' (length d) 4 = Some (x mod 2 ^ 32)" using store_bytes_load [OF d'] by (simp add: load_num_def)
  then show ?thesis using Some d' a l l' z by (simp add: add_items_def Let_def)
qed

lemma u32_small: "n < 2 ^ 32 \<Longrightarrow> u32_of n = n"
  by (simp add: u32_of_def)

lemma alloc_items:
  assumes "ptr_fits v ts d off p" and q: "q = p\<lparr>gp_offset := length d - off\<rparr>" and w: "write_pointer v d off q = Some (d', None)" and l: "length d' = length d"
  shows "alloc_pointer v d off p =
    map_option (\<lambda>d. (d, if v = OptrDefault \<and> gp_entity p \<ge> 0xff then q\<lparr>gp_offset := gp_offset q + 4\<rparr> else q, None))
      (add_items d' (if v = OptrDefault \<and> gp_entity p \<ge> 0xff then Some (gp_entity p) else None) (gp_entity p * gp_size p))"
proof -
  note f = assms(1) [unfolded ptr_fits_def]
  have u: "u32_of (view_size d off) = length d - off" "u32_of (gp_entity p * gp_size p) = gp_entity p * gp_size p" "u32_of (length d - off + 4) = length d - off + 4"
    unfolding view_size_def using f by (intro u32_small; linarith)+
  have "off \<le> length d" using f by simp
  then have it: "off + view_size d' off = length d'" using l by (simp add: view_size_def)
  show ?thesis using w q u it by (auto simp: alloc_pointer_def Let_def add_items_def option.map_comp comp_def)
qed



text \<open>The count of items of a pointer of the default version has 24 bits and is not checked: one more and it is stored as zero.\<close>

lemma write_pointer_count_lost:
  assumes "off + 8 \<le> length d" "gp_size p = 2 ^ 24" "gp_offset p < 2 ^ 32" "gp_entity p < 0xff"
  shows "\<exists>d'. write_pointer OptrDefault d off p = Some (d', None) \<and> read_pointer OptrDefault ts d' off = Some (Some (p\<lparr>gp_size := 0\<rparr>))"
proof -
  let ?bs = "le_bytes 4 (gp_offset p) @ le_bytes 3 (gp_size p) @ le_bytes 1 (min (gp_entity p) 0xff)"
  obtain d' where d': "store_bytes d off ?bs = Some d'" using store_bytes_some [of off ?bs d] assms(1) by auto
  have a: "agree d' d' off (off + length ?bs)" using assms(1) store_bytes_length [OF d'] by (simp add: agree_def)
  note r = write_read [OF d' a]
  have "load_num d' off 4 = Some (gp_offset p)" "load_num d' (off + 4) 3 = Some 0" "load_num d' (off + 7) 1 = Some (gp_entity p)"
    using r [of 0 4] r [of 4 3] r [of 7 1] assms by (simp_all add: min_def del: le_bytes.simps un_le.simps)
  then show ?thesis using d' assms by (intro exI [of _ d']) (simp add: write_pointer_def read_pointer_def)
qed

section \<open>Presence maps and counts\<close>

lemma bit_or_test: "(x OR push_bit k 1) AND push_bit j 1 \<noteq> (0 :: byte) \<longleftrightarrow> k = j \<or> x AND push_bit j 1 \<noteq> 0" if "k < 8" "j < 8"
proof -
  have t: "y AND push_bit i 1 \<noteq> (0 :: byte) \<longleftrightarrow> bit y i" for y :: byte and i
    by (simp add: and_exp_eq_0_iff_not_bit push_bit_of_1)
  show ?thesis using that unfolding t by (auto simp: bit_simps)
qed

lemma pmap_set_get:
  assumes "0 \<le> i" "nat i div 8 < length d" "0 \<le> j" "nat j div 8 < length d"
  shows "\<exists>d'. pmap_set d i = Some d' \<and> pmap_get d' i = Some True \<and> (j \<noteq> i \<longrightarrow> pmap_get d' j = pmap_get d j)"
proof -
  let ?k = "nat i div 8" and ?m = "nat j div 8"
  have hd1: "load_bytes d a 1 = Some [d ! a]" if "a < length d" for a and d :: "byte list" using that by (simp add: load_bytes_def take_Suc_conv_app_nth hd_drop_conv_nth take_Suc)
  obtain d' where d': "store_bytes d ?k [d ! ?k OR push_bit (nat i mod 8) 1] = Some d'" using store_bytes_some [of ?k "[d ! ?k OR push_bit (nat i mod 8) 1]" d] assms(2) by auto
  have l: "length d' = length d" by (rule store_bytes_length [OF d'])
  have k: "d' ! ?k = d ! ?k OR push_bit (nat i mod 8) 1" using d' assms(2) by (auto simp: store_bytes_def nth_append split: if_splits)
  have same: "d' ! ?m = d ! ?m" if "?m \<noteq> ?k"
  proof (rule agree_store [OF d' assms(4)])
    show "?m < ?k \<or> ?k + length [d ! ?k OR push_bit (nat i mod 8) 1] \<le> ?m" using that by (simp; linarith)
  qed
  have g: "pmap_get d' i = Some True" using assms l k hd1 [of ?k d'] bit_or_test [of "nat i mod 8" "nat i mod 8" "d ! ?k"] by (simp add: pmap_get_def)
  have "pmap_get d' j = pmap_get d j" if ne: "j \<noteq> i"
  proof (cases "?m = ?k")
    case True
    have "nat i mod 8 \<noteq> nat j mod 8"
    proof
      assume "nat i mod 8 = nat j mod 8"
      then have "nat i = nat j" using True by (metis div_mult_mod_eq)
      then show False using ne assms(1,3) by (simp add: nat_eq_iff2)
    qed
    then have "((d ! ?k OR push_bit (nat i mod 8) 1) AND push_bit (nat j mod 8) 1 \<noteq> 0) = (d ! ?k AND push_bit (nat j mod 8) 1 \<noteq> 0)"
      using bit_or_test [of "nat i mod 8" "nat j mod 8" "d ! ?k"] by simp
    then show ?thesis using True assms l k hd1 [of ?k d'] hd1 [of ?k d] by (simp add: pmap_get_def)
  next
    case False
    then show ?thesis using assms l same hd1 [of ?m d'] hd1 [of ?m d] by (simp add: pmap_get_def)
  qed
  then show ?thesis using d' g assms hd1 [of ?k d] by (auto simp: pmap_set_def)
qed

text \<open>The number that a count type can hold.\<close>

definition count_max :: "ftype \<Rightarrow> nat" where
  "count_max t = (case t of Int8 \<Rightarrow> 2 ^ 7 | Int16 \<Rightarrow> 2 ^ 15 | Int32 \<Rightarrow> 2 ^ 31 | Int64 \<Rightarrow> 2 ^ 63 | UInt8 \<Rightarrow> 2 ^ 8 | UInt16 \<Rightarrow> 2 ^ 16 | UInt32 \<Rightarrow> 2 ^ 32 | UInt64 \<Rightarrow> 2 ^ 63 | _ \<Rightarrow> 0)"

lemma write_read_size:
  assumes "n < count_max t" "off + the (base_size t) \<le> length d"
  shows "\<exists>d'. write_size t d off n = Some d' \<and> read_size t d' off = Some (int n)"
proof -
  have w: "\<exists>d'. store_bytes d off (le_bytes k n) = Some d' \<and> load_bytes d' off k = Some (le_bytes k n)" if "off + k \<le> length d" for k
    using store_bytes_some [of off "le_bytes k n" d] store_bytes_load [of d off "le_bytes k n"] that by fastforce
  show ?thesis using assms w [of 1] w [of 2] w [of 4] w [of 8]
    by (cases t) (fastforce simp: count_max_def base_size_def write_size_def read_size_def signed_of_def simp del: le_bytes.simps)+
qed

end
