(* ===== verification/SchemeText.thy ===== *)
theory SchemeText
  imports Scheme
begin

text \<open>
  The text of types: how \<open>src/scheme.cc\<close> reads the type of a field (\<open>Field::parse_type\<close>, \<open>Field::lookup\<close>, \<open>Field::alias\<close>, \<open>Field::parse_sub_type\<close>), builds the
  descriptor from it (\<open>Field::finalize\<close>) and writes it (\<open>dump_type\<close>). Types that are defined in place are read from the config by
  functions that are not modelled: these cases end with the constructor that names the function.
\<close>

section \<open>Fields while a scheme is read\<close>

datatype nested = NPtr optr_version | NArr nat ftype

record pfield =
  p_name :: string
  p_options :: options
  p_list_options :: options
  p_type :: ftype
  p_sub :: stype
  p_nested :: "nested list"
  p_size :: int
  p_msg :: string
  p_enum :: string
  p_union :: string
  p_bits :: string
  p_precision :: nat
  p_resolution :: time_resolution

text \<open>The names a field can refer to: messages of the scheme, types of the message, then types and aliases of the scheme.\<close>

record pscope =
  ps_messages :: "string list"
  ps_enums :: "(string \<times> ftype) list"
  ps_unions :: "string list"
  ps_bits :: "(string \<times> ftype) list"
  ps_global_enums :: "(string \<times> ftype) list"
  ps_global_unions :: "string list"
  ps_global_bits :: "(string \<times> ftype) list"
  ps_aliases :: "pfield list"

datatype presult = PErr errno | POk pfield | PEnumInline pfield | PUnionInline pfield | PBitsInline pfield

definition starts_with :: "string \<Rightarrow> string \<Rightarrow> bool" where
  "starts_with l r \<longleftrightarrow> length r \<le> length l \<and> take (length r) l = r"

definition parse_type_int :: "string \<Rightarrow> ftype option" where
  "parse_type_int t =
     (if t = ''int8'' then Some Int8 else if t = ''int16'' then Some Int16 else if t = ''int32'' then Some Int32
      else if t = ''int64'' then Some Int64 else if t = ''uint8'' then Some UInt8 else if t = ''uint16'' then Some UInt16
      else if t = ''uint32'' then Some UInt32 else if t = ''uint64'' then Some UInt64 else None)"

text \<open>\<open>Field::alias\<close>: the type of the alias, without its unions and bits, and its options, kept in order, unless the field has them.\<close>

definition add_missing :: "options \<Rightarrow> options \<Rightarrow> options" where
  "add_missing os a = fold (\<lambda>(k, v) os. case props_insert k v os of Some os' \<Rightarrow> os' | None \<Rightarrow> os) a os"

definition field_alias :: "pfield \<Rightarrow> pfield \<Rightarrow> pfield" where
  "field_alias f a = f\<lparr>p_type := p_type a, p_sub := p_sub a, p_msg := p_msg a, p_enum := p_enum a, p_size := p_size a, p_precision := p_precision a,
     p_resolution := p_resolution a, p_options := add_missing (p_options f) (p_options a),
     p_list_options := add_missing (p_list_options f) (p_list_options a), p_nested := p_nested f @ p_nested a\<rparr>"

definition field_lookup :: "pscope \<Rightarrow> string \<Rightarrow> pfield \<Rightarrow> pfield option" where
  "field_lookup s t f =
     (if t \<in> set (ps_messages s) then Some (f\<lparr>p_msg := t, p_type := TMessage\<rparr>)
      else case map_of (ps_enums s) t of
        Some e \<Rightarrow> Some (f\<lparr>p_enum := t, p_type := e, p_sub := SEnum\<rparr>)
      | None \<Rightarrow>
          if t \<in> set (ps_unions s) then Some (f\<lparr>p_union := t, p_type := TUnion\<rparr>)
          else case map_of (ps_bits s) t of
            Some b \<Rightarrow> Some (f\<lparr>p_bits := t, p_type := b, p_sub := SBits\<rparr>)
          | None \<Rightarrow>
              (case map_of (ps_global_enums s) t of
                 Some e \<Rightarrow> Some (f\<lparr>p_enum := t, p_type := e, p_sub := SEnum\<rparr>)
               | None \<Rightarrow>
                   if t \<in> set (ps_global_unions s) then Some (f\<lparr>p_union := t, p_type := TUnion\<rparr>)
                   else case map_of (ps_global_bits s) t of
                     Some b \<Rightarrow> Some (f\<lparr>p_bits := t, p_type := b, p_sub := SBits\<rparr>)
                   | None \<Rightarrow> map_option (field_alias f) (find (\<lambda>a. p_name a = t) (ps_aliases s))))"

section \<open>Reading a type\<close>

definition offset_ptr_type :: "options \<Rightarrow> optr_version option" where
  "offset_ptr_type os =
     (case opt_get os ''offset-ptr-type'' of
        None \<Rightarrow> Some OptrDefault
      | Some t \<Rightarrow> if t = ''default'' then Some OptrDefault else if t = ''legacy-short'' then Some OptrShort
                  else if t = ''legacy-long'' then Some OptrLong else None)"

text \<open>The stars in front of a type.\<close>

fun strip_stars :: "optr_version \<Rightarrow> string \<Rightarrow> nested list \<Rightarrow> string \<times> nested list" where
  "strip_stars v [] ns = ([], ns)"
| "strip_stars v (c # cs) ns = (if c \<noteq> CHR ''*'' then (c # cs, ns) else strip_stars v cs (ns @ [NPtr v]))"

text \<open>The count of an array after the first bracket. \<open>None\<close> is an error.\<close>

definition parse_count :: "options \<Rightarrow> string \<Rightarrow> (string \<times> nested list) option" where
  "parse_count os t =
     (let base = takeWhile (\<lambda>c. c \<noteq> CHR ''['') t; rest = dropWhile (\<lambda>c. c \<noteq> CHR ''['') t in
      case rest of
        [] \<Rightarrow> Some (t, [])
      | _ # n \<Rightarrow>
          if n = [] \<or> last n \<noteq> CHR '']'' then None
          else case to_any_int False 64 (butlast n) of
            Inl _ \<Rightarrow> None
          | Inr c \<Rightarrow>
              (case opt_get os ''count-type'' of
                 None \<Rightarrow> Some (base, [NArr (nat c) (default_count_type (nat c))])
               | Some ct \<Rightarrow> (case parse_type_int ct of None \<Rightarrow> None | Some t \<Rightarrow> Some (base, [NArr (nat c) t]))))"

definition to_unsigned :: "string \<Rightarrow> nat option" where
  "to_unsigned s = (case to_any_int False 32 s of Inl _ \<Rightarrow> None | Inr n \<Rightarrow> Some (nat n))"

text \<open>The size is kept as \<open>int\<close>.\<close>

definition int32_of :: "nat \<Rightarrow> int" where
  "int32_of n = (if n mod 2 ^ 32 < 2 ^ 31 then int (n mod 2 ^ 32) else int (n mod 2 ^ 32) - 2 ^ 32)"

text \<open>The name of a type without stars and brackets.\<close>

definition parse_base :: "pscope \<Rightarrow> optr_version \<Rightarrow> string \<Rightarrow> pfield \<Rightarrow> presult" where
  "parse_base s v t f =
     (if parse_type_int t \<noteq> None then POk (f\<lparr>p_type := the (parse_type_int t)\<rparr>)
      else if t = ''double'' then POk (f\<lparr>p_type := TDouble\<rparr>)
      else if t = ''decimal128'' then POk (f\<lparr>p_type := Decimal128\<rparr>)
      else if t = ''string'' then POk (f\<lparr>p_type := Int8, p_sub := ByteString, p_nested := p_nested f @ [NPtr v]\<rparr>)
      else if starts_with t ''byte''
        then (case to_unsigned (drop 4 t) of None \<Rightarrow> PErr EINVAL | Some n \<Rightarrow> POk (f\<lparr>p_type := TBytes, p_size := int32_of n\<rparr>))
      else if starts_with t ''b'' \<and> to_unsigned (drop 1 t) \<noteq> None
        then POk (f\<lparr>p_type := TBytes, p_size := int32_of (the (to_unsigned (drop 1 t)))\<rparr>)
      else if starts_with t ''c'' \<and> to_unsigned (drop 1 t) \<noteq> None
        then POk (f\<lparr>p_type := TBytes, p_sub := ByteString, p_size := int32_of (the (to_unsigned (drop 1 t)) + 1)\<rparr>)
      else if starts_with t ''decimal''
        then (case to_unsigned (drop 7 t) of None \<Rightarrow> PErr EINVAL | Some n \<Rightarrow> POk (f\<lparr>p_type := Int64, p_sub := SFixed, p_precision := n\<rparr>))
      else if t \<in> {''enum1'', ''enum2'', ''enum4'', ''enum8''} then PEnumInline f
      else if t = ''union'' then PUnionInline (f\<lparr>p_type := TUnion\<rparr>)
      else (case field_lookup s t f of None \<Rightarrow> PErr EINVAL | Some f \<Rightarrow> POk f))"

definition parse_type :: "pscope \<Rightarrow> string \<Rightarrow> pfield \<Rightarrow> presult" where
  "parse_type s t f =
     (if t = [] then PErr EINVAL
      else case offset_ptr_type (p_list_options f) of
        None \<Rightarrow> PErr EINVAL
      | Some v \<Rightarrow>
          let (t, ns) = strip_stars v t (p_nested f) in
          if t = [] then PErr EINVAL
          else case parse_count (p_list_options f) t of
            None \<Rightarrow> PErr EINVAL
          | Some (base, arr) \<Rightarrow> parse_base s v base (f\<lparr>p_nested := arr @ ns\<rparr>))"

text \<open>\<open>parse_sub_type\<close>, the option \<open>type\<close>.\<close>

definition parse_resolution :: "string \<Rightarrow> time_resolution option" where
  "parse_resolution r =
     (if r = ''ns'' \<or> r = ''nanosecond'' then Some TimeNs else if r = ''us'' \<or> r = ''microsecond'' then Some TimeUs
      else if r = ''ms'' \<or> r = ''millisecond'' then Some TimeMs else if r = ''s'' \<or> r = ''second'' then Some TimeSecond
      else if r = ''m'' \<or> r = ''minute'' then Some TimeMinute else if r = ''h'' \<or> r = ''hour'' then Some TimeHour
      else if r = ''d'' \<or> r = ''day'' then Some TimeDay else None)"

definition parse_sub_number :: "string \<Rightarrow> pfield \<Rightarrow> presult" where
  "parse_sub_number t f =
     (if t = ''enum'' then (if p_enum f \<noteq> [] then POk f else PEnumInline f)
      else if t = ''time_point'' \<or> t = ''duration''
      then (let f = f\<lparr>p_sub := if t = ''duration'' then Duration else TimePoint\<rparr> in
            case opt_get (p_options f) ''resolution'' of
              None \<Rightarrow> PErr EINVAL
            | Some r \<Rightarrow> (case parse_resolution r of None \<Rightarrow> PErr EINVAL | Some x \<Rightarrow> POk (f\<lparr>p_resolution := x\<rparr>)))
      else POk f)"

definition parse_sub_int :: "string \<Rightarrow> pfield \<Rightarrow> presult" where
  "parse_sub_int t f =
     (if starts_with t ''fixed''
      then (case to_unsigned (drop 5 t) of None \<Rightarrow> PErr EINVAL | Some n \<Rightarrow> parse_sub_number t (f\<lparr>p_sub := SFixed, p_precision := n\<rparr>))
      else if t = ''bits'' then (if p_bits f \<noteq> [] then POk f else PBitsInline f)
      else parse_sub_number t f)"

definition parse_sub_type :: "string \<Rightarrow> pfield \<Rightarrow> presult" where
  "parse_sub_type t f =
     (if p_type f = TBytes then POk (if t = ''string'' then f\<lparr>p_sub := ByteString\<rparr> else f)
      else if p_type f = Int8 \<and> t = ''string''
      then (case rev (p_nested f) of NPtr _ # _ \<Rightarrow> parse_sub_int t (f\<lparr>p_sub := ByteString\<rparr>) | _ \<Rightarrow> PErr EINVAL)
      else if p_type f \<in> {Int8, Int16, Int32, Int64, UInt8, UInt16, UInt32, UInt64} then parse_sub_int t f
      else if p_type f = TDouble then parse_sub_number t f
      else POk f)"

section \<open>Descriptors\<close>

text \<open>Objects of a heap by name, in the lists of the message and then in those of the scheme.\<close>

definition find_entry :: "(nat \<Rightarrow> string) \<Rightarrow> string \<Rightarrow> nat list \<Rightarrow> nat list \<Rightarrow> nat option" where
  "find_entry name n l0 l1 = (case find (\<lambda>i. name i = n) l0 of Some i \<Rightarrow> Some i | None \<Rightarrow> find (\<lambda>i. name i = n) l1)"

text \<open>The first part of \<open>Field::finalize\<close>, without what the type is nested in; \<open>None\<close> is a null pointer for a name that is not found.\<close>

definition base_body :: "sheap \<Rightarrow> scheme \<Rightarrow> message \<Rightarrow> pfield \<Rightarrow> (ftype \<times> fbody) option" where
  "base_body h s m f =
     (case p_sub f of
        SEnum \<Rightarrow> map_option (\<lambda>e. (e_type (sh_enum h e), BEnum e)) (find_entry (\<lambda>i. e_name (sh_enum h i)) (p_enum f) (m_enums m) (s_enums s))
      | TimePoint \<Rightarrow> Some (p_type f, BTime (p_resolution f))
      | Duration \<Rightarrow> Some (p_type f, BTime (p_resolution f))
      | SFixed \<Rightarrow> Some (p_type f, BFixed (p_precision f))
      | SBits \<Rightarrow> map_option (\<lambda>v. (p_type f, BBits v)) (find_entry (\<lambda>i. b_name (sh_bits h i)) (p_bits f) (m_bits m) (s_bits s))
      | _ \<Rightarrow>
          if p_type f = TMessage then map_option (\<lambda>x. (p_type f, BMsg x)) (find_entry (\<lambda>i. m_name (sh_msg h i)) (p_msg f) (s_messages s) [])
          else if p_type f = TUnion then map_option (\<lambda>u. (p_type f, BUnion u)) (find_entry (\<lambda>i. u_name (sh_union h i)) (p_union f) (m_unions m) (s_unions s))
          else Some (p_type f, BNone))"

definition base_field :: "sheap \<Rightarrow> scheme \<Rightarrow> message \<Rightarrow> pfield \<Rightarrow> field option" where
  "base_field h s m f =
     map_option (\<lambda>(t, b). Field \<lparr>f_options = p_options f, f_name = Some (p_name f), f_offset = 0, f_type = t, f_sub = p_sub f,
       f_size = (if p_size f = - 1 then 0 else nat (p_size f mod 2 ^ 64)), f_index = 0\<rparr> b) (base_body h s m f)"

definition count_field :: "string \<Rightarrow> ftype \<Rightarrow> field" where
  "count_field n t = Field \<lparr>f_options = [(''_auto'', ''count'')], f_name = Some (n @ ''_count''), f_offset = 0, f_type = t, f_sub = SubNone, f_size = 0, f_index = 0\<rparr> BNone"

definition outer_info :: "pfield \<Rightarrow> ftype \<Rightarrow> stype \<Rightarrow> finfo" where
  "outer_info f t sub = \<lparr>f_options = p_list_options f, f_name = Some (p_name f), f_offset = 0, f_type = t, f_sub = sub, f_size = 0, f_index = 0\<rparr>"

text \<open>The loop of \<open>finalize\<close>: \<open>bs\<close> says that the field is the character of a string, and holds for the first step only.\<close>

fun wrap :: "pfield \<Rightarrow> bool \<Rightarrow> nested list \<Rightarrow> field \<Rightarrow> field" where
  "wrap f bs [] r = r"
| "wrap f bs (NPtr v # ns) r =
     wrap f False ns (Field (outer_info f TPointer (if bs then ByteString else SubNone))
       (BPtr (if bs then Field ((f_info r)\<lparr>f_sub := SubNone\<rparr>) (f_body r) else r) v))"
| "wrap f bs (NArr n t # ns) r = wrap f False ns (Field (outer_info f TArray SubNone) (BArr r (count_field (p_name f) t) n))"

definition finalize :: "sheap \<Rightarrow> scheme \<Rightarrow> message \<Rightarrow> pfield \<Rightarrow> field option" where
  "finalize h s m f = map_option (wrap f (p_type f = Int8 \<and> p_sub f = ByteString) (rev (p_nested f))) (base_field h s m f)"

section \<open>Round trip\<close>

definition type_text :: "nat \<Rightarrow> string \<Rightarrow> nat option \<Rightarrow> string" where
  "type_text k base arr = replicate k (CHR ''*'') @ base @ (case arr of None \<Rightarrow> [] | Some n \<Rightarrow> ''['' @ digits10 n @ '']'')"

text \<open>The descriptor that a text stands for: pointers to the base type, and an array of these.\<close>

fun ptr_shape :: "nat \<Rightarrow> field \<Rightarrow> field \<Rightarrow> bool" where
  "ptr_shape 0 r f = (f = r)"
| "ptr_shape (Suc k) r (Field i b) = (f_type i = TPointer \<and> f_sub i = SubNone \<and> (case b of BPtr p v \<Rightarrow> ptr_shape k r p | _ \<Rightarrow> False))"

definition type_shape :: "nat \<Rightarrow> nat option \<Rightarrow> field \<Rightarrow> field \<Rightarrow> bool" where
  "type_shape k arr r f =
     (case arr of
        None \<Rightarrow> ptr_shape k r f
      | Some n \<Rightarrow> (case f_body f of BArr ta cp c \<Rightarrow> f_type (f_info f) = TArray \<and> f_sub (f_info f) = SubNone \<and> c = n \<and> ptr_shape k r ta | _ \<Rightarrow> False))"

text \<open>Names of types that can stand in a text: they are read as a field that is written with the same name.\<close>

definition fresh_field :: "pfield \<Rightarrow> bool" where
  "fresh_field f \<longleftrightarrow> p_sub f = SubNone \<and> p_size f = - 1 \<and> offset_ptr_type (p_list_options f) \<noteq> None \<and>
     (\<forall>t. opt_get (p_list_options f) ''count-type'' = Some t \<longrightarrow> parse_type_int t \<noteq> None)"

definition base_ok :: "sheap \<Rightarrow> scheme \<Rightarrow> message \<Rightarrow> pscope \<Rightarrow> string \<Rightarrow> bool" where
  "base_ok h s m sc base \<longleftrightarrow> base \<noteq> [] \<and> hd base \<noteq> CHR ''*'' \<and> CHR ''['' \<notin> set base \<and>
     (\<forall>v f. fresh_field f \<longrightarrow> (\<exists>g r. parse_base sc v base f = POk g \<and> p_nested g = p_nested f \<and> \<not> (p_type g = Int8 \<and> p_sub g = ByteString) \<and>
        base_field h s m g = Some r \<and> dump_type h r = Some base))"

lemma base_okD: "base_ok h s m sc base \<Longrightarrow> fresh_field f \<Longrightarrow>
    \<exists>g r. parse_base sc v base f = POk g \<and> p_nested g = p_nested f \<and> \<not> (p_type g = Int8 \<and> p_sub g = ByteString) \<and>
      base_field h s m g = Some r \<and> dump_type h r = Some base"
  by (simp add: base_ok_def)

lemma base_okI:
  assumes "base \<noteq> []" "hd base \<noteq> CHR ''*''" "CHR ''['' \<notin> set base" "\<And>v f. fresh_field f \<Longrightarrow> parse_base sc v base f = POk (g f)"
    and "\<And>f. fresh_field f \<Longrightarrow> p_nested (g f) = p_nested f \<and> \<not> (p_type (g f) = Int8 \<and> p_sub (g f) = ByteString)"
    and "\<And>f. fresh_field f \<Longrightarrow> \<exists>r. base_field h s m (g f) = Some r \<and> dump_type h r = Some base"
  shows "base_ok h s m sc base"
  unfolding base_ok_def using assms by metis

lemma digits10_ok: "numeral_ok 10 (digits10 n) \<and> numeral_from 10 0 (digits10 n) = n"
proof (induction n rule: digits10.induct)
  case (1 n)
  show ?case
  proof (cases "n < 10")
    case True
    then show ?thesis using chr_digit [of n] by (subst (1 2) digits10.simps) (simp add: numeral_ok_def)
  next
    case False
    have "n mod 10 < 10" by simp
    then show ?thesis using 1 False chr_digit [of "n mod 10"] by (subst (1 2) digits10.simps) (auto simp: numeral_ok_def)
  qed
qed

lemma digits10_chars: "c \<in> set (digits10 n) \<Longrightarrow> c \<noteq> CHR ''['' \<and> c \<noteq> CHR '']''"
  using digits10_ok [of n] by (auto simp: numeral_ok_def digit_decode_def digit_decode10_def)

lemma to_any_digits10: "n < 2 ^ 64 \<Longrightarrow> to_any_int False 64 (digits10 n) = Inr (int n)"
  using digits10_ok [of n] to_any_uint_dec [of "digits10 n" "2 ^ 64 - 1" 64] by (simp add: to_any_int_def)

lemma strip_stars_replicate: "rest \<noteq> [] \<Longrightarrow> hd rest \<noteq> CHR ''*'' \<Longrightarrow>
    strip_stars v (replicate k (CHR ''*'') @ rest) ns = (rest, ns @ replicate k (NPtr v))"
proof (induction k arbitrary: ns)
  case 0
  then show ?case by (cases rest) simp_all
next
  case (Suc k)
  then show ?case by (simp add: replicate_app_Cons_same)
qed

lemma bracket_split: "CHR ''['' \<notin> set base \<Longrightarrow> takeWhile (\<lambda>c. c \<noteq> CHR ''['') (base @ CHR ''['' # t) = base"
  "CHR ''['' \<notin> set base \<Longrightarrow> dropWhile (\<lambda>c. c \<noteq> CHR ''['') (base @ CHR ''['' # t) = CHR ''['' # t"
  by (induction base) auto

lemma parse_count_text:
  assumes "CHR ''['' \<notin> set base" "\<And>n. arr = Some n \<Longrightarrow> n < 2 ^ 64" "\<forall>t. opt_get os ''count-type'' = Some t \<longrightarrow> parse_type_int t \<noteq> None"
  shows "\<exists>ct. parse_count os (base @ (case arr of None \<Rightarrow> [] | Some n \<Rightarrow> ''['' @ digits10 n @ '']'')) = Some (base, case arr of None \<Rightarrow> [] | Some n \<Rightarrow> [NArr n ct])"
proof (cases arr)
  case None
  have tw: "takeWhile (\<lambda>c. c \<noteq> CHR ''['') base = base" "dropWhile (\<lambda>c. c \<noteq> CHR ''['') base = []" using assms(1) by (auto simp: takeWhile_eq_all_conv dropWhile_eq_Nil_conv)
  show ?thesis using None by (simp add: parse_count_def Let_def tw)
next
  case (Some n)
  note tw = bracket_split [OF assms(1)]
  have d: "to_any_int False 64 (digits10 n) = Inr (int n)" using to_any_digits10 assms(2) Some by blast
  show ?thesis using Some assms(3)
    by (cases "opt_get os ''count-type''") (auto simp: parse_count_def Let_def tw d)
qed

lemma ptr_shape_snoc: "ptr_shape k r f \<Longrightarrow> f_type i = TPointer \<Longrightarrow> f_sub i = SubNone \<Longrightarrow> ptr_shape (Suc k) r (Field i (BPtr f v))"
  by simp

lemma wrap_ptrs:
  "ptr_shape j r x \<Longrightarrow> dump_type h x = Some t \<Longrightarrow>
    \<exists>y. wrap f False (replicate k (NPtr v) @ ns) x = wrap f False ns y \<and> ptr_shape (k + j) r y \<and> dump_type h y = Some (replicate k (CHR ''*'') @ t)"
proof (induction k arbitrary: j x t)
  case (Suc k)
  let ?x = "Field (outer_info f TPointer SubNone) (BPtr x v)"
  have "ptr_shape (Suc j) r ?x" "dump_type h ?x = Some (CHR ''*'' # t)" using Suc.prems by (simp_all add: outer_info_def)
  then show ?case using Suc.IH [of "Suc j" ?x "CHR ''*'' # t"] by (simp add: replicate_app_Cons_same)
qed auto

section \<open>Names of types\<close>

text \<open>The names with a meaning of their own, sized byte arrays, and the names of messages that are read as such. The scope agrees with the scheme.\<close>

definition builtin_names :: "string list" where
  "builtin_names = [''int8'', ''int16'', ''int32'', ''int64'', ''uint8'', ''uint16'', ''uint32'', ''uint64'', ''double'', ''decimal128'']"

definition reserved_name :: "string \<Rightarrow> bool" where
  "reserved_name t \<longleftrightarrow> t \<in> set builtin_names \<or> t \<in> {''string'', ''enum1'', ''enum2'', ''enum4'', ''enum8'', ''union''} \<or> starts_with t ''byte'' \<or>
     starts_with t ''decimal'' \<or> (starts_with t ''b'' \<and> to_unsigned (drop 1 t) \<noteq> None) \<or> (starts_with t ''c'' \<and> to_unsigned (drop 1 t) \<noteq> None)"

definition message_name :: "sheap \<Rightarrow> scheme \<Rightarrow> pscope \<Rightarrow> string \<Rightarrow> bool" where
  "message_name h s sc t \<longleftrightarrow> t \<noteq> [] \<and> hd t \<noteq> CHR ''*'' \<and> CHR ''['' \<notin> set t \<and> \<not> reserved_name t \<and>
     ps_messages sc = map (\<lambda>i. m_name (sh_msg h i)) (s_messages s) \<and> t \<in> set (ps_messages sc)"

lemma parse_type_int_none: "t \<notin> set builtin_names \<Longrightarrow> parse_type_int t = None"
  by (simp add: parse_type_int_def builtin_names_def)

definition builtin_type :: "string \<Rightarrow> ftype" where
  "builtin_type t = (if t = ''double'' then TDouble else if t = ''decimal128'' then Decimal128 else the (parse_type_int t))"

lemma builtin_base: "base \<in> set builtin_names \<Longrightarrow> parse_base sc v base f = POk (f\<lparr>p_type := builtin_type base\<rparr>)"
  unfolding builtin_names_def by (elim set_ConsD [THEN disjE] disjE | simp add: parse_base_def parse_type_int_def builtin_type_def)+

lemma builtin_dump: "base \<in> set builtin_names \<Longrightarrow> f_sub i = SubNone \<Longrightarrow> f_type i = builtin_type base \<Longrightarrow> dump_type h (Field i BNone) = Some base \<and>
    builtin_type base \<noteq> TMessage \<and> builtin_type base \<noteq> TUnion \<and> base \<noteq> [] \<and> hd base \<noteq> CHR ''*'' \<and> CHR ''['' \<notin> set base"
  unfolding builtin_names_def by (elim set_ConsD [THEN disjE] disjE | simp add: parse_type_int_def builtin_type_def)+

lemma builtin_ok:
  assumes "base \<in> set builtin_names" shows "base_ok h s m sc base"
proof -
  note d = builtin_dump [OF assms, of "undefined\<lparr>f_sub := SubNone, f_type := builtin_type base\<rparr>"]
  show ?thesis
  proof (rule base_okI [where g = "\<lambda>f. f\<lparr>p_type := builtin_type base\<rparr>"])
    show "\<exists>r. base_field h s m (f\<lparr>p_type := builtin_type base\<rparr>) = Some r \<and> dump_type h r = Some base" if "fresh_field f" for f
      using that d builtin_dump [OF assms] by (simp add: base_field_def base_body_def fresh_field_def del: dump_type.simps)
  qed (use d builtin_base [OF assms] in \<open>simp_all add: fresh_field_def\<close>)
qed

lemma digits10_ne: "digits10 n \<noteq> []"
  by (subst digits10.simps) simp

lemma to_unsigned_digits10: "n < 2 ^ 32 \<Longrightarrow> to_unsigned (digits10 n) = Some n"
  using digits10_ok [of n] to_any_uint_dec [of "digits10 n" "2 ^ 32 - 1" 32] by (simp add: to_any_int_def to_unsigned_def)

lemma byte_ok:
  assumes "n < 2 ^ 31" shows "base_ok h s m sc (''byte'' @ digits10 n)"
proof -
  have u: "to_unsigned (digits10 n) = Some n" using to_unsigned_digits10 assms by simp
  have i: "int32_of n = int n" "int n mod 2 ^ 64 = int n" using assms by (simp_all add: int32_of_def)
  have t: "parse_type_int (''byte'' @ digits10 n) = None" by (simp add: parse_type_int_def)
  have c: "CHR ''['' \<notin> set (''byte'' @ digits10 n)" using digits10_chars [of _ n] by auto
  have b: "parse_base sc v (''byte'' @ digits10 n) f = POk (f\<lparr>p_type := TBytes, p_size := int n\<rparr>)" for v f
    using t by (simp add: parse_base_def starts_with_def u i)
  show ?thesis
  proof (rule base_okI [where g = "\<lambda>f. f\<lparr>p_type := TBytes, p_size := int n\<rparr>"])
    show "\<exists>r. base_field h s m (f\<lparr>p_type := TBytes, p_size := int n\<rparr>) = Some r \<and> dump_type h r = Some (''byte'' @ digits10 n)" if "fresh_field f" for f
      using that i(2) by (simp add: base_field_def base_body_def fresh_field_def)
  qed (use b c in \<open>simp_all add: fresh_field_def\<close>)
qed

lemma find_name: "t \<in> (\<lambda>i. g i) ` set l \<Longrightarrow> \<exists>i. find (\<lambda>i. g i = t) l = Some i \<and> g i = t"
  by (induction l) auto

lemma message_ok:
  assumes "message_name h s sc t" shows "base_ok h s m sc t"
proof -
  note a = assms [unfolded message_name_def]
  have r: "\<not> reserved_name t" and sc: "ps_messages sc = map (\<lambda>i. m_name (sh_msg h i)) (s_messages s)" "t \<in> set (ps_messages sc)" using a by auto
  obtain i where i: "find (\<lambda>i. m_name (sh_msg h i) = t) (s_messages s) = Some i" "m_name (sh_msg h i) = t"
    using find_name [of t "\<lambda>i. m_name (sh_msg h i)" "s_messages s"] sc by auto
  have b: "parse_base sc v t f = POk (f\<lparr>p_msg := t, p_type := TMessage\<rparr>)" for v f
    using r sc(2) parse_type_int_none [of t] unfolding reserved_name_def by (auto simp: parse_base_def field_lookup_def builtin_names_def)
  show ?thesis
  proof (rule base_okI [where g = "\<lambda>f. f\<lparr>p_msg := t, p_type := TMessage\<rparr>"])
    show "\<exists>r. base_field h s m (f\<lparr>p_msg := t, p_type := TMessage\<rparr>) = Some r \<and> dump_type h r = Some t" if "fresh_field f" for f
      using that i by (simp add: base_field_def base_body_def fresh_field_def find_entry_def)
  qed (use a b in \<open>simp_all add: fresh_field_def\<close>)
qed

definition type_name :: "sheap \<Rightarrow> scheme \<Rightarrow> pscope \<Rightarrow> string \<Rightarrow> bool" where
  "type_name h s sc t \<longleftrightarrow> t \<in> set builtin_names \<or> (\<exists>n<2 ^ 31. t = ''byte'' @ digits10 n) \<or> message_name h s sc t"

lemma type_name_ok: "type_name h s sc t \<Longrightarrow> base_ok h s m sc t"
  unfolding type_name_def using builtin_ok byte_ok message_ok by blast


definition plain_field :: pfield where
  "plain_field = \<lparr>p_name = ''f'', p_options = [], p_list_options = [], p_type = Int8, p_sub = SubNone, p_nested = [], p_size = - 1, p_msg = [], p_enum = [],
     p_union = [], p_bits = [], p_precision = 0, p_resolution = TimeNs\<rparr>"

definition empty_scope :: pscope where
  "empty_scope = \<lparr>ps_messages = [], ps_enums = [], ps_unions = [], ps_bits = [], ps_global_enums = [], ps_global_unions = [], ps_global_bits = [], ps_aliases = []\<rparr>"


text \<open>The text is not unique beyond these: a pointer to an array, which an alias can make, is written as the text of an array of pointers, and the
  text of an array of arrays is refused.\<close>

definition five_alias :: pfield where
  "five_alias = plain_field\<lparr>p_name := ''five'', p_nested := [NArr 5 Int8]\<rparr>"

definition alias_scope :: pscope where
  "alias_scope = empty_scope\<lparr>ps_aliases := [five_alias]\<rparr>"

definition no_heap :: sheap where
  "no_heap = \<lparr>sh_msg = \<lambda>_. \<lparr>m_name = [], m_msgid = 0, m_size = 0, m_fields = [], m_enums = [], m_unions = [], m_bits = [], m_pmap = None, m_options = []\<rparr>,
     sh_union = \<lambda>_. \<lparr>u_name = [], u_type_ptr = count_field [] Int8, u_fields = [], u_union_size = 0, u_options = []\<rparr>,
     sh_enum = \<lambda>_. \<lparr>e_name = [], e_type = Int8, e_size = 0, e_values = [], e_options = []\<rparr>,
     sh_bits = \<lambda>_. \<lparr>b_name = [], b_type = Int8, b_size = 0, b_values = [], b_options = []\<rparr>\<rparr>"

definition no_scheme :: scheme where
  "no_scheme = \<lparr>s_options = [], s_messages = [], s_enums = [], s_unions = [], s_bits = [], s_aliases = []\<rparr>"

lemmas text_eval = parse_type_def parse_count_def parse_base_def parse_type_int_def starts_with_def to_unsigned_def field_lookup_def field_alias_def
  add_missing_def offset_ptr_type_def opt_get_def to_any_int_def to_any_uint_def to_any_uint_base_def digit_decode_def digit_decode10_def
  empty_scope_def alias_scope_def five_alias_def plain_field_def

lemma alias_parsed:
  "parse_type alias_scope ''*five'' plain_field = POk (plain_field\<lparr>p_nested := [NPtr OptrDefault, NArr 5 Int8]\<rparr>)"
  "parse_type alias_scope ''five[3]'' plain_field = POk (plain_field\<lparr>p_nested := [NArr 3 Int8, NArr 5 Int8]\<rparr>)"
  "parse_type alias_scope ''*int8[5]'' plain_field = POk (plain_field\<lparr>p_nested := [NArr 5 Int8, NPtr OptrDefault]\<rparr>)"
  "parse_type alias_scope ''int8[5][3]'' plain_field = PErr EINVAL"
  by (simp_all add: text_eval default_count_type_def)

lemma alias_dumped:
  "Option.bind (finalize no_heap no_scheme m (plain_field\<lparr>p_nested := [NPtr OptrDefault, NArr 5 Int8]\<rparr>)) (dump_type no_heap) = Some ''*int8[5]''" (is ?a)
  "Option.bind (finalize no_heap no_scheme m (plain_field\<lparr>p_nested := [NArr 3 Int8, NArr 5 Int8]\<rparr>)) (dump_type no_heap) = Some ''int8[5][3]''" (is ?b)
proof -
  have d: "digits10 3 = ''3''" "digits10 5 = ''5''" by code_simp+
  show ?a ?b
    by (simp_all add: finalize_def base_field_def base_body_def plain_field_def outer_info_def d)
qed

end
