(* ===== verification/Spec2Isabelle.thy ===== *)
theory Spec2Isabelle
  imports Prelude RingCore Queues Ring CppRing ObjRing MarkerQueue Varint PointerList Channel Loop Conv Url Ascii Stat Reopen Processor File FileLog Config Scheme SchemeLayout SchemeData SchemeText
begin

text \<open>
  Verification of the core of TLL, a library of message channels in C and C++.

  \<^bold>\<open>The program.\<close> A channel is an object with a life cycle (closed, opening, active, closing, error), a set of dynamic caps
  that say what it wants from the event loop, children and a list of callbacks. Channels are created from URLs, exchange
  messages through queues kept in plain memory, some of them shared between threads and processes without locks, and are
  driven by a processing loop over epoll. Statistics are collected from other threads without stopping the writers.

  \<^bold>\<open>How the parts interact.\<close> An implementation reports changes of state, caps and descriptor with messages to the callbacks of
  its channel (\<open>src/tll/channel/base.h\<close>, \<open>src/tll/channel/impl.h\<close>). The loop (\<open>src/tll/processor/loop.h\<close>) is such a callback:
  it keeps lists of channels to process, to poll and to visit without waiting, each a \<open>PointerList\<close>
  (\<open>src/tll/util/pointer_list.h\<close>). The rings carry the messages of the memory, direct, ipc and publish channels. URLs,
  properties and conversions read the parameters of every channel.

  \<^bold>\<open>Theories and what they show.\<close>
  \<^item> \<open>Prelude\<close>: machine integers, error codes, byte memories with checked access, little-endian words.
  \<^item> \<open>Queues\<close>: the locale \<open>fifo_queue\<close>, the contract of every message queue of the library. Its lemmas say that any sequence
    of pushes and pops that keeps the contract behaves as a list. It is interpreted on \<open>ring.c\<close>, on \<open>RingT\<close>, on \<open>DataRing\<close> and on
    \<open>MarkerQueue\<close>.
  \<^item> \<open>RingCore\<close>: a ring of length-prefixed messages over natural numbers, its abstraction to the list of messages, and the
    refinement lemmas of write, read and shift; a subscriber's view of a ring that drops old messages.
  \<^item> \<open>Ring\<close>: \<open>src/ring.c\<close> and \<open>src/tll/ring.h\<close> at the width of the source. \<open>core_of\<close> maps the header to the ring of \<open>RingCore\<close>.
    Every interleaving of one producer and one consumer keeps the order of messages and stays within the memory; a publish
    ring's iterator returns the message of its generation or reports that it was overwritten. A size that is not a multiple
    of 4 and a message size near 2^32 break the ring.
  \<^item> \<open>CppRing\<close>: \<open>src/tll/cppring.h\<close>, shown equal to \<open>ring.c\<close> operation by operation, and the lock-free snapshot of a generation pointer.
  \<^item> \<open>ObjRing\<close>: \<open>Ring<T>\<close> and \<open>DataRing\<close> of \<open>src/tll/util/cppring.h\<close>.
  \<^item> \<open>MarkerQueue\<close>: \<open>src/tll/util/markerqueue.h\<close>, one producer and one consumer at the granularity of atomic operations, and a
    run of two producers that loses values.
  \<^item> \<open>Varint\<close>: \<open>src/tll/util/varint.h\<close>.
  \<^item> \<open>PointerList\<close>: \<open>src/tll/util/pointer_list.h\<close>, with the locale \<open>pointer_set\<close> that the loop relies on.
  \<^item> \<open>Channel\<close>: \<open>src/channel/impl.c\<close>, the callbacks, suspend, resume, open, close, process and post of \<open>src/channel/context.cc\<close>, and
    the mixin \<open>Base\<close> with its policies. A channel is a record, the hooks of an implementation (\<open>_open\<close>, \<open>_close\<close>,
    \<open>_process\<close>, \<open>_post\<close>) are functions given with the class.
  \<^item> \<open>Loop\<close>: the loop's lists, the epoll set, its handler of channel messages and one step. After any sequence of channel events
    each channel is exactly where its caps and descriptor ask for; passes over a list end; pending channels do not starve
    the poller.
  \<^item> \<open>Conv\<close>, \<open>Url\<close>, \<open>Ascii\<close>: text. Integers, sizes, host and port (\<open>src/tll/conv/\<close>, \<open>src/tll/util/size.h\<close>,
    \<open>src/tll/util/hostport.h\<close>), splitting, masks, properties and URLs (\<open>src/tll/util/string.h\<close>, \<open>browse.h\<close>, \<open>url.h\<close>, \<open>props.h\<close>),
    hexadecimal and base64 (\<open>bin2ascii.h\<close>), with their round trips and the inputs that break them.
  \<^item> \<open>Stat\<close>: \<open>src/tll/stat.h\<close> and \<open>src/stat.cc\<close>; writers and a collector interleaved at every atomic operation lose no update; the
    list of blocks refines a sequence.
  \<^item> \<open>Reopen\<close>: the timer channel (\<open>src/channel/timer.cc\<close>) and the state machine that opens a failed child again after a growing
    timeout (\<open>src/tll/channel/reopen.h\<close>), composed: the timer is always set for the next action.
  \<^item> \<open>Processor\<close>: the objects of \<open>src/processor/\<close>, their levels by dependency and the handlers of their states. Objects are
    activated after what they depend on and closed before it.
  \<^item> \<open>File\<close>, \<open>FileLog\<close>: \<open>src/channel/file.cc\<close> over a file of bytes, without compression. What is written is read back, over any
    number of sessions, frames never cross a block, and the search for a sequence number finds the first message not below it.
  \<^item> \<open>Config\<close>: the config tree of \<open>src/config/\<close>, a heap of nodes with parents, children, values and links. The locale
    \<open>value_store\<close> is the contract of a store of values; the tree refines a map from paths to values and keeps its shape, and
    browsing visits what the mask describes.
  \<^item> \<open>Scheme\<close>, \<open>SchemeLayout\<close>, \<open>SchemeData\<close>, \<open>SchemeText\<close>: message schemes (\<open>src/tll/scheme.h\<close>, \<open>src/scheme.cc\<close>). Descriptors are
    records and datatypes, the objects they share lie in a heap. \<open>tll_scheme_fix\<close> gives every field the size and offset of its type;
    offset pointers that are allocated in a buffer are read back, for each of their versions; the text of a type reads back.

  \<^bold>\<open>Conventions.\<close> An access outside of a block, a call through a null pointer and an undefined shift are the value \<open>None\<close>; an
  error code is \<open>Inl\<close> or \<open>Some\<close> in the place of the code's \<open>int\<close>. Loops over lists that the body can change, and loops along
  pointers, are \<open>partial_function (option)\<close>, and the properties show that they return. The only fuel is the depth
  of the recursion of \<open>tll_scheme_message_fix\<close>, and the property about it bounds the depth; the counters that bound other loops are those
  of the source. Integers have the width of the source where wrap-around matters.

  \<^bold>\<open>Not modelled.\<close> Sockets, files, terminals, the logger's output, YAML and JSON text, Lua, Python and Rust bindings and the
  kqueue variant of the loop are input and output or glue. Of the file channel memory mapping and LZ4 blocks are left out,
  of the config tree setting of links, imports and loading, of schemes reading from a config, copy, merge and
  conversion.
\<close>

section \<open>Channels and the loop\<close>



end
